(* ===== verification/Prelude.thy ===== *)
theory Prelude
  imports Main "HOL-Library.Word"
begin

text \<open>
  Shared vocabulary of the development.

  The machine types of the C sources are words of their width.  A C array is a total function
  from indices to elements together with its length as a number (\<open>arr\<close>); an access that the
  source does not guard and that can leave the array is a branch of the model that returns
  \<open>None\<close>.  A counted \<open>for\<close> loop is \<open>for_range\<close>, a search loop that stops at the first hit
  is \<open>find_index\<close>, and the minimum scans of the replacement policies are \<open>argmin_from\<close>.
  A \<open>memset\<close> to zero gives the all-zero record of the type.  A NULL test at the head of an
  operation has no counterpart: the model's operations take the object itself.
\<close>

unbundle bit_operations_syntax

section \<open>Machine types\<close>

type_synonym u8 = "8 word"
type_synonym u16 = "16 word"
type_synonym u32 = "32 word"
type_synonym u64 = "64 word"
type_synonym 'a arr = "nat \<Rightarrow> 'a"
type_synonym bytes = "u8 list"

definition INT_MAX :: int where "INT_MAX = 2147483647"

named_theorems word_norm \<open>bit tests of machine words turned into arithmetic\<close>
named_theorems arr_simps \<open>reads of updated arrays\<close>

section \<open>Loops\<close>

text \<open>\<open>for (i = a; i < b; i++) s = f i s\<close>\<close>

definition for_range :: "nat \<Rightarrow> nat \<Rightarrow> (nat \<Rightarrow> 's \<Rightarrow> 's) \<Rightarrow> 's \<Rightarrow> 's" where
  "for_range a b f s = fold f [a..<b] s"

text \<open>The first index in \<open>[a, b)\<close> with \<open>p i\<close>, as a loop that returns or breaks finds it.\<close>

definition find_index :: "(nat \<Rightarrow> bool) \<Rightarrow> nat \<Rightarrow> nat \<Rightarrow> nat option" where
  "find_index p a b = List.find p [a..<b]"

text \<open>\<open>for (i = a; i < b; i++) if (key[i] < key[best]) best = i\<close>\<close>

definition argmin_from :: "(nat \<Rightarrow> 'k::linorder) \<Rightarrow> nat \<Rightarrow> nat \<Rightarrow> nat \<Rightarrow> nat" where
  "argmin_from key best a b = for_range a b (\<lambda>i m. if key i < key m then i else m) best"

lemma for_range_empty [simp]: "b \<le> a \<Longrightarrow> for_range a b f s = s"
  by (simp add: for_range_def)

lemma for_range_step: "a < b \<Longrightarrow> for_range a b f s = for_range (Suc a) b f (f a s)"
  by (simp add: for_range_def upt_rec)

lemma for_range_Suc: "a \<le> b \<Longrightarrow> for_range a (Suc b) f s = f b (for_range a b f s)"
  by (simp add: for_range_def)

lemma for_range_funpow: "for_range 0 n (\<lambda>_. f) s = (f ^^ n) s"
  by (induction n) (simp_all add: for_range_Suc)

text \<open>The loop rule: an invariant indexed by the counter.\<close>

lemma for_range_invariant:
  assumes "a \<le> b" and "I a s"
    and step: "\<And>i s. a \<le> i \<Longrightarrow> i < b \<Longrightarrow> I i s \<Longrightarrow> I (Suc i) (f i s)"
  shows "I b (for_range a b f s)"
proof -
  have "k \<le> b - a \<Longrightarrow> I (a + k) (for_range a (a + k) f s)" for k
  proof (induction k)
    case 0
    then show ?case using assms(2) by simp
  next
    case (Suc k)
    then have "I (a + k) (for_range a (a + k) f s)" by simp
    moreover have "a + k < b" using Suc.prems by simp
    ultimately show ?case by (simp add: for_range_Suc step)
  qed
  from this [of "b - a"] show ?thesis using assms(1) by simp
qed

lemma for_range_preserves:
  assumes "P s" and "\<And>i s. a \<le> i \<Longrightarrow> i < b \<Longrightarrow> P s \<Longrightarrow> P (f i s)"
  shows "P (for_range a b f s)"
proof (cases "a \<le> b")
  case True
  then show ?thesis
    by (rule for_range_invariant [where I = "\<lambda>_. P"]) (use assms in auto)
next
  case False
  then show ?thesis using assms(1) by simp
qed

lemma find_index_Some:
  "find_index p a b = Some i \<longleftrightarrow> a \<le> i \<and> i < b \<and> p i \<and> (\<forall>j. a \<le> j \<and> j < i \<longrightarrow> \<not> p j)"
proof -
  have "find_index p a b = Some i \<longleftrightarrow>
      (\<exists>k<b - a. p (a + k) \<and> i = a + k \<and> (\<forall>j<k. \<not> p (a + j)))"
    by (auto simp: find_index_def find_Some_iff)
  also have "\<dots> \<longleftrightarrow> a \<le> i \<and> i < b \<and> p i \<and> (\<forall>j. a \<le> j \<and> j < i \<longrightarrow> \<not> p j)"
  proof (intro iffI)
    assume "\<exists>k<b - a. p (a + k) \<and> i = a + k \<and> (\<forall>j<k. \<not> p (a + j))"
    then obtain k where k: "k < b - a" "p (a + k)" "i = a + k" "\<forall>j<k. \<not> p (a + j)" by blast
    have "\<not> p j" if "a \<le> j" "j < i" for j
      using k(4) [rule_format, of "j - a"] that k(3) by simp
    with k show "a \<le> i \<and> i < b \<and> p i \<and> (\<forall>j. a \<le> j \<and> j < i \<longrightarrow> \<not> p j)" by auto
  next
    assume "a \<le> i \<and> i < b \<and> p i \<and> (\<forall>j. a \<le> j \<and> j < i \<longrightarrow> \<not> p j)"
    then show "\<exists>k<b - a. p (a + k) \<and> i = a + k \<and> (\<forall>j<k. \<not> p (a + j))"
      by (intro exI [of _ "i - a"]) auto
  qed
  finally show ?thesis .
qed

lemma find_index_None: "find_index p a b = None \<longleftrightarrow> (\<forall>i. a \<le> i \<and> i < b \<longrightarrow> \<not> p i)"
  by (auto simp: find_index_def find_None_iff)

text \<open>A search loop that runs downwards.\<close>

lemma find_rev_upt: "List.find P (rev [0..<n]) = Some k \<longleftrightarrow> k < n \<and> P k \<and> (\<forall>j. k < j \<and> j < n \<longrightarrow> \<not> P j)"
  by (induction n) (auto simp: less_Suc_eq)

lemma find_rev_upt_None: "List.find P (rev [0..<n]) = None \<longleftrightarrow> (\<forall>k < n. \<not> P k)"
  by (simp add: find_None_iff)

lemma argmin_from_least:
  assumes "best < a" and "\<forall>j<a. key best \<le> key j" and "a \<le> b"
  shows "argmin_from key best a b < b \<and> (\<forall>j<b. key (argmin_from key best a b) \<le> key j)"
  unfolding argmin_from_def
  by (rule for_range_invariant [where I = "\<lambda>i m. m < i \<and> (\<forall>j<i. key m \<le> key j)"])
    (use assms in \<open>auto simp: less_Suc_eq not_less intro: order_trans\<close>)

corollary argmin_from_zero:
  assumes "0 < n"
  shows "argmin_from key 0 1 n < n \<and> (\<forall>j<n. key (argmin_from key 0 1 n) \<le> key j)"
  using argmin_from_least [of 0 1 key n] assms by simp

section \<open>Words\<close>

lemma drop_bit_31_eq_0 [word_norm]: "drop_bit 31 (x :: u32) = 0 \<longleftrightarrow> \<not> bit x 31"
proof -
  have "drop_bit 31 x = of_bool (bit x 31)"
  proof (rule bit_word_eqI)
    fix n assume "n < LENGTH(32)"
    show "bit (drop_bit 31 x) n = bit (of_bool (bit x 31) :: u32) n"
      using bit_imp_le_length [of x "31 + n"] by (cases n) (auto simp: bit_simps)
  qed
  then show ?thesis by simp
qed

lemma bit_31_iff_sint [word_norm]: "bit (x :: u32) 31 \<longleftrightarrow> sint x < 0"
  using bit_last_iff [of x] by simp

lemma and_pow2_eq_0 [word_norm]: "x AND push_bit n 1 = 0 \<longleftrightarrow> \<not> bit x n" for x :: "'a::len word"
proof -
  have "x AND push_bit n 1 = 0 \<longleftrightarrow> \<not> (bit x n \<and> n < LENGTH('a))"
    by (subst bit_eq_iff) (auto simp: bit_simps)
  then show ?thesis by (auto dest: bit_imp_le_length)
qed

lemma unat_less_u32: "unat (x :: u32) < 4294967296"
  using unsigned_less [of x] by simp

lemma unat_less_u8: "unat (x :: u8) < 256"
  using unsigned_less [of x] by simp

lemma unat_half_less: "m \<noteq> 0 \<Longrightarrow> unat (drop_bit (Suc 0) m) < unat m" for m :: "'a::len word"
proof -
  assume "m \<noteq> 0"
  then have "0 < unat m" by (simp add: unat_gt_0)
  then show ?thesis by (simp add: unsigned_drop_bit_eq drop_bit_eq_div unat_div)
qed

lemma xor_cancel [simp]: "x XOR (x XOR y) = y" for x y :: "'a::semiring_bit_operations"
  by (simp flip: xor.assoc)

lemma xor_right_eq [simp]: "x XOR z = y XOR z \<longleftrightarrow> x = y" for x y z :: "'a::semiring_bit_operations"
  by (metis xor.commute xor_cancel)

lemma xor_left_eq [simp]: "z XOR x = z XOR y \<longleftrightarrow> x = y" for x y z :: "'a::semiring_bit_operations"
  by (metis xor_cancel)

lemma le_mask_iff_bits: "w \<le> mask n \<longleftrightarrow> (\<forall>i. bit w i \<longrightarrow> i < n)" for w :: "'a::len word"
proof -
  have "mask (min LENGTH('a) n) < (2::int) ^ n"
    by (rule less_le_trans [of _ "2 ^ min LENGTH('a) n"]) (simp_all add: mask_eq_exp_minus_1)
  then have "w \<le> mask n \<longleftrightarrow> take_bit n w = w"
    using word_and_le1 [of w "mask n"] mask_eq_iff [of w n]
    by (auto simp: word_le_def uint_mask_eq take_bit_eq_mask)
  also have "\<dots> \<longleftrightarrow> (\<forall>i. bit w i \<longrightarrow> i < n)"
    by (auto simp: bit_eq_iff bit_simps dest: bit_imp_le_length)
  finally show ?thesis .
qed

lemma and_max_eq_self: "k \<le> mask n \<Longrightarrow> k AND mask n = k" for k :: "'a::len word"
  by (auto simp: le_mask_iff_bits bit_eq_iff bit_simps)

lemma or_le_mask: "x \<le> mask n \<Longrightarrow> y \<le> mask n \<Longrightarrow> x OR y \<le> mask n" for x y :: "'a::len word"
  by (auto simp: le_mask_iff_bits bit_simps)

lemma and_le_mask: "c \<le> mask n \<Longrightarrow> x AND c \<le> mask n" for x c :: "'a::len word"
  by (auto simp: le_mask_iff_bits bit_simps)

lemma and_bit_eq_0: "x AND c = 0" if "x \<le> mask n" "c = push_bit m 1" "n \<le> m" for x c :: "'a::len word"
  unfolding that(2) and_pow2_eq_0 using that(1,3) by (auto simp: le_mask_iff_bits)

section \<open>Signed readings of 32-bit sums and differences\<close>

lemma mod_window: 
  fixes s M h :: int
  assumes "- (3 * h) \<le> s" "s < 3 * h" "M = 2 * h" "0 < h"
  shows "(s + h) mod M - h = (if s < -h then s + M else if s \<ge> h then s - M else s)"
proof -
  have "(s + h) mod M = (if s < -h then s + h + M else if s \<ge> h then s + h - M else s + h)"
    using assms mod_pos_pos_trivial [of "s + h + M" M] mod_pos_pos_trivial [of "s + h - M" M]
      mod_add_self2 [of "s + h" M]  mod_diff_right_eq [of "s + h" M M] mod_pos_pos_trivial [of "s + h" M]
    by auto
  then show ?thesis by simp
qed

lemma sint_range_u32: "-2147483648 \<le> sint (x :: u32)" "sint x < 2147483648"
  using sint_greater_eq [of x] sint_less [of x] by simp_all

lemma sint_wrap_u32: "sint (word_of_int s :: u32) =
    (if s < -2147483648 then s + 4294967296 else if s \<ge> 2147483648 then s - 4294967296 else s)"
  if "- 6442450944 \<le> s" "s < 6442450944"
proof -
  have "sint (word_of_int s :: u32) = (s + 2147483648) mod 4294967296 - 2147483648"
    by (simp add: sint_sbintrunc' signed_take_bit_eq_take_bit_shift take_bit_eq_mod)
  also have "\<dots> = (if s < -2147483648 then s + 4294967296 else if s \<ge> 2147483648 then s - 4294967296 else s)"
    using mod_window [of 2147483648 s 4294967296] that by simp
  finally show ?thesis .
qed

lemma sint_add_u32: "sint (a + b) = (let s = sint a + sint b in
    if s < -2147483648 then s + 4294967296 else if s \<ge> 2147483648 then s - 4294967296 else s)"
  for a b :: u32
proof -
  have "a + b = word_of_int (sint a + sint b)" by simp
  then show ?thesis using sint_wrap_u32 [of "sint a + sint b"] sint_range_u32 [of a] sint_range_u32 [of b] 
    by (simp add: Let_def)
qed

lemma sint_diff_u32: "sint (a - b) = (let s = sint a - sint b in
    if s < -2147483648 then s + 4294967296 else if s \<ge> 2147483648 then s - 4294967296 else s)"
  for a b :: u32
proof -
  have "a - b = word_of_int (sint a - sint b)" by simp
  then show ?thesis using sint_wrap_u32 [of "sint a - sint b"] sint_range_u32 [of a] sint_range_u32 [of b] 
    by (simp add: Let_def)
qed

lemma add_overflow_bit: "bit (NOT (a XOR b) AND (a XOR (a + b))) 31 \<longleftrightarrow> sint (a + b) \<noteq> sint a + sint b"
  for a b :: u32
proof -
  have "bit (NOT (a XOR b) AND (a XOR (a + b))) 31 \<longleftrightarrow> (bit a 31 \<longleftrightarrow> bit b 31) \<and> (bit a 31 \<noteq> bit (a + b) 31)"
    by (simp add: bit_simps)
  then show ?thesis 
    unfolding bit_31_iff_sint sint_add_u32 Let_def 
    using sint_range_u32 [of a] sint_range_u32 [of b] by (simp split: if_splits) linarith
qed
lemma sub_overflow_bit: "bit ((a XOR b) AND (a XOR (a - b))) 31 \<longleftrightarrow> sint (a - b) \<noteq> sint a - sint b"
  for a b :: u32
proof -
  have "bit ((a XOR b) AND (a XOR (a - b))) 31 \<longleftrightarrow> (bit a 31 \<noteq> bit b 31) \<and> (bit a 31 \<noteq> bit (a - b) 31)"
    by (simp add: bit_simps)
  then show ?thesis 
    unfolding bit_31_iff_sint sint_diff_u32 Let_def 
    using sint_range_u32 [of a] sint_range_u32 [of b] by (simp split: if_splits) linarith
qed

lemma odd_card_step: "odd (card {j. j < Suc i \<and> P j}) \<longleftrightarrow> odd (card {j. j < i \<and> P j}) \<noteq> P i"
proof -
  have "{j. j < Suc i \<and> P j} = (if P i then insert i {j. j < i \<and> P j} else {j. j < i \<and> P j})"
    by (auto simp: less_Suc_eq)
  then show ?thesis by simp
qed

lemma drop_and_1: "drop_bit i x AND 1 = of_bool (bit x i)" for x :: "'a::len word"
  by (rule bit_word_eqI) (auto simp: bit_simps)

lemma uint_ucast_64 [simp]: "uint (ucast (x :: u32) :: u64) = uint x"
proof -
  have "take_bit 64 (uint x) = uint x" 
    using uint_lt2p [of x] by (simp add: take_bit_int_eq_self_iff)
  then show ?thesis by (simp add: unsigned_ucast_eq)
qed

end
