(* ===== verification/Alu.thy ===== *)
theory Alu
  imports Prelude
begin

text \<open>
  The arithmetic logic unit of \<^verbatim>\<open>mini-digital-circuit/src/alu.c\<close>: the combinational
  unit with its flag register, the widening multiplier and the divider.
\<close>

section \<open>State\<close>

datatype AluOp = ALU_ADD | ALU_SUB | ALU_AND | ALU_OR | ALU_XOR | ALU_NOT | ALU_SHL | ALU_SHR
  | ALU_SAR | ALU_MUL | ALU_DIV | ALU_MOD | ALU_CMP | ALU_MOV | ALU_NOP

record ALU =
  alu_a :: u32
  alu_b :: u32
  alu_op :: AluOp
  alu_result :: u32
  alu_flags :: u8
  alu_busy :: bool
  alu_latency :: int

definition ALU_FLAG_ZERO :: u8 where "ALU_FLAG_ZERO = push_bit 0 1"
definition ALU_FLAG_NEGATIVE :: u8 where "ALU_FLAG_NEGATIVE = push_bit 1 1"
definition ALU_FLAG_CARRY :: u8 where "ALU_FLAG_CARRY = push_bit 2 1"
definition ALU_FLAG_OVERFLOW :: u8 where "ALU_FLAG_OVERFLOW = push_bit 3 1"
definition ALU_FLAG_PARITY :: u8 where "ALU_FLAG_PARITY = push_bit 4 1"

lemmas alu_flag_defs = ALU_FLAG_ZERO_def ALU_FLAG_NEGATIVE_def ALU_FLAG_CARRY_def
  ALU_FLAG_OVERFLOW_def ALU_FLAG_PARITY_def

text \<open>\<open>memset\<close> makes the operation the enumerator 0, which is \<open>ALU_ADD\<close>.\<close>

definition alu_create :: ALU where
  "alu_create = \<lparr>alu_a = 0, alu_b = 0, alu_op = ALU_ADD, alu_result = 0, alu_flags = 0,
     alu_busy = False, alu_latency = 1\<rparr>"

definition alu_set_inputs :: "ALU \<Rightarrow> u32 \<Rightarrow> u32 \<Rightarrow> AluOp \<Rightarrow> ALU" where
  "alu_set_inputs alu a b op = alu\<lparr>alu_a := a, alu_b := b, alu_op := op\<rparr>"

section \<open>The switch of the unit\<close>

text \<open>\<open>if (c) flags |= m\<close>\<close>

definition or_flag :: "bool \<Rightarrow> u8 \<Rightarrow> u8 \<Rightarrow> u8" where
  "or_flag c m f = (if c then f OR m else f)"

text \<open>
  One case per \<open>switch\<close> label: the result and the flags the label itself sets.  The shift
  of a signed operand is the arithmetic shift.
\<close>

fun alu_switch :: "AluOp \<Rightarrow> u32 \<Rightarrow> u32 \<Rightarrow> u32 \<times> u8" where
  "alu_switch ALU_ADD a b = (let res = a + b in
     (res, or_flag (drop_bit 31 (NOT (a XOR b) AND (a XOR res)) \<noteq> 0) ALU_FLAG_OVERFLOW
             (or_flag (res < a) ALU_FLAG_CARRY 0)))"
| "alu_switch ALU_SUB a b = (let res = a - b in
     (res, or_flag (drop_bit 31 ((a XOR b) AND (a XOR res)) \<noteq> 0) ALU_FLAG_OVERFLOW
             (or_flag (a \<ge> b) ALU_FLAG_CARRY 0)))"
| "alu_switch ALU_AND a b = (a AND b, 0)"
| "alu_switch ALU_OR a b = (a OR b, 0)"
| "alu_switch ALU_XOR a b = (a XOR b, 0)"
| "alu_switch ALU_NOT a b = (NOT a, 0)"
| "alu_switch ALU_SHL a b = (push_bit (unat (b AND 0x1F)) a, 0)"
| "alu_switch ALU_SHR a b = (drop_bit (unat (b AND 0x1F)) a, 0)"
| "alu_switch ALU_SAR a b = (signed_drop_bit (unat (b AND 0x1F)) a, 0)"
| "alu_switch ALU_MUL a b =
     (a * b, or_flag ((ucast a :: u64) * ucast b > 0xFFFFFFFF) ALU_FLAG_OVERFLOW 0)"
| "alu_switch ALU_DIV a b = (if b = 0 then (0, or_flag True ALU_FLAG_OVERFLOW 0) else (a div b, 0))"
| "alu_switch ALU_MOD a b = (if b = 0 then (0, or_flag True ALU_FLAG_OVERFLOW 0) else (a mod b, 0))"
| "alu_switch ALU_CMP a b =
     (a, if a = b then or_flag True ALU_FLAG_ZERO 0
         else if sint a < sint b then or_flag True ALU_FLAG_NEGATIVE 0 else 0)"
| "alu_switch ALU_MOV a b = (b, 0)"
| "alu_switch ALU_NOP a b = (0, 0)"

text \<open>\<open>for (i = 0; i < 32; i++) parity ^= (res >> i) & 1\<close>\<close>

definition alu_parity :: "u32 \<Rightarrow> u32" where
  "alu_parity res = for_range 0 32 (\<lambda>i p. p XOR (drop_bit i res AND 1)) 0"

definition alu_compute :: "ALU \<Rightarrow> u32 \<times> ALU" where
  "alu_compute alu =
     (case alu_switch (alu_op alu) (alu_a alu) (alu_b alu) of (res, fl) \<Rightarrow>
        let fl1 = or_flag (res = 0) ALU_FLAG_ZERO fl;
            fl2 = or_flag (drop_bit 31 res \<noteq> 0) ALU_FLAG_NEGATIVE fl1;
            fl3 = or_flag (alu_parity res \<noteq> 0) ALU_FLAG_PARITY fl2
        in (res, alu\<lparr>alu_result := res, alu_flags := fl3\<rparr>))"

definition alu_get_flags :: "ALU \<Rightarrow> u8" where
  "alu_get_flags alu = alu_flags alu"

definition alu_flag_zero :: "ALU \<Rightarrow> bool" where
  "alu_flag_zero alu \<longleftrightarrow> alu_flags alu AND ALU_FLAG_ZERO \<noteq> 0"
definition alu_flag_negative :: "ALU \<Rightarrow> bool" where
  "alu_flag_negative alu \<longleftrightarrow> alu_flags alu AND ALU_FLAG_NEGATIVE \<noteq> 0"
definition alu_flag_carry :: "ALU \<Rightarrow> bool" where
  "alu_flag_carry alu \<longleftrightarrow> alu_flags alu AND ALU_FLAG_CARRY \<noteq> 0"
definition alu_flag_overflow :: "ALU \<Rightarrow> bool" where
  "alu_flag_overflow alu \<longleftrightarrow> alu_flags alu AND ALU_FLAG_OVERFLOW \<noteq> 0"

lemmas alu_flag_tests = alu_flag_zero_def alu_flag_negative_def alu_flag_carry_def
  alu_flag_overflow_def

section \<open>Multiplier and divider\<close>

record MultiplyUnit =
  mu_a :: u32
  mu_b :: u32
  mu_result_hi :: u32
  mu_result_lo :: u32
  mu_flags :: u8

record DivideUnit =
  du_dividend :: u32
  du_divisor :: u32
  du_quotient :: u32
  du_remainder :: u32
  du_div_by_zero :: bool

definition mul_unit_create :: MultiplyUnit where
  "mul_unit_create = \<lparr>mu_a = 0, mu_b = 0, mu_result_hi = 0, mu_result_lo = 0, mu_flags = 0\<rparr>"

definition mul_unit_set :: "MultiplyUnit \<Rightarrow> u32 \<Rightarrow> u32 \<Rightarrow> MultiplyUnit" where
  "mul_unit_set mu a b = mu\<lparr>mu_a := a, mu_b := b\<rparr>"

definition mul_unit_compute :: "MultiplyUnit \<Rightarrow> u64 \<times> MultiplyUnit" where
  "mul_unit_compute mu =
     (let product = (ucast (mu_a mu) :: u64) * ucast (mu_b mu)
      in (product, mu\<lparr>mu_result_hi := ucast (drop_bit 32 product),
                      mu_result_lo := ucast (product AND 0xFFFFFFFF),
                      mu_flags := (if product > 0xFFFFFFFF then ALU_FLAG_OVERFLOW else 0)\<rparr>))"

definition mul_unit_overflow :: "MultiplyUnit \<Rightarrow> bool" where
  "mul_unit_overflow mu \<longleftrightarrow> mu_flags mu AND ALU_FLAG_OVERFLOW \<noteq> 0"

definition div_unit_create :: DivideUnit where
  "div_unit_create = \<lparr>du_dividend = 0, du_divisor = 0, du_quotient = 0, du_remainder = 0,
     du_div_by_zero = False\<rparr>"

definition div_unit_set :: "DivideUnit \<Rightarrow> u32 \<Rightarrow> u32 \<Rightarrow> DivideUnit" where
  "div_unit_set du dividend divisor = du\<lparr>du_dividend := dividend, du_divisor := divisor\<rparr>"

definition div_unit_compute :: "DivideUnit \<Rightarrow> bool \<times> DivideUnit" where
  "div_unit_compute du =
     (let du1 = du\<lparr>du_div_by_zero := (du_divisor du = 0)\<rparr> in
      if du_div_by_zero du1 then (False, du1\<lparr>du_quotient := 0, du_remainder := 0\<rparr>)
      else (True, du1\<lparr>du_quotient := du_dividend du1 div du_divisor du1,
                      du_remainder := du_dividend du1 mod du_divisor du1\<rparr>))"

definition div_unit_quotient :: "DivideUnit \<Rightarrow> u32" where
  "div_unit_quotient du = du_quotient du"

definition div_unit_remainder :: "DivideUnit \<Rightarrow> u32" where
  "div_unit_remainder du = du_remainder du"

section \<open>Flag lemmas\<close>

lemma bit_or_flag: "bit (or_flag c m f) n \<longleftrightarrow> c \<and> bit m n \<or> bit f n"
  by (auto simp add: or_flag_def bit_simps)

definition popcount32 :: "u32 \<Rightarrow> nat" where
  "popcount32 x = card {i. i < 32 \<and> bit x i}"

lemma alu_parity_eq: "alu_parity res = of_bool (odd (popcount32 res))"
  unfolding alu_parity_def popcount32_def
proof (rule for_range_invariant [where I = "\<lambda>n p. p = of_bool (odd (card {i. i < n \<and> bit res i}))"])
    fix i and s :: u32 assume s: "s = of_bool (odd (card {j. j < i \<and> bit res j}))"
    show "s XOR (drop_bit i res AND 1) = of_bool (odd (card {j. j < Suc i \<and> bit res j}))"
      unfolding drop_and_1 s odd_card_step by (cases "bit res i") auto
qed simp_all

lemma bit_alu_flags:
  "bit ALU_FLAG_ZERO n \<longleftrightarrow> n = 0" "bit ALU_FLAG_NEGATIVE n \<longleftrightarrow> n = 1"
  "bit ALU_FLAG_CARRY n \<longleftrightarrow> n = 2" "bit ALU_FLAG_OVERFLOW n \<longleftrightarrow> n = 3"
  "bit ALU_FLAG_PARITY n \<longleftrightarrow> n = 4"
  unfolding alu_flag_defs by (auto simp only: bit_push_bit_iff bit_1_iff) simp_all

lemma alu_flag_iff_bit:
  "alu_flag_zero alu \<longleftrightarrow> bit (alu_flags alu) 0"
  "alu_flag_negative alu \<longleftrightarrow> bit (alu_flags alu) 1"
  "alu_flag_carry alu \<longleftrightarrow> bit (alu_flags alu) 2"
  "alu_flag_overflow alu \<longleftrightarrow> bit (alu_flags alu) 3"
  unfolding alu_flag_tests alu_flag_defs and_pow2_eq_0 by simp_all

lemma alu_compute_result:
  "fst (alu_compute alu) = fst (alu_switch (alu_op alu) (alu_a alu) (alu_b alu))"
  "alu_result (snd (alu_compute alu)) = fst (alu_compute alu)"
  by (simp_all add: alu_compute_def Let_def split: prod.splits)

lemma alu_compute_flags:
  fixes alu :: ALU
  defines "fl \<equiv> snd (alu_switch (alu_op alu) (alu_a alu) (alu_b alu))"
  shows "alu_flag_zero (snd (alu_compute alu)) \<longleftrightarrow> fst (alu_compute alu) = 0 \<or> bit fl 0"
    "alu_flag_negative (snd (alu_compute alu)) \<longleftrightarrow> sint (fst (alu_compute alu)) < 0 \<or> bit fl 1"
    "alu_flag_carry (snd (alu_compute alu)) \<longleftrightarrow> bit fl 2"
    "alu_flag_overflow (snd (alu_compute alu)) \<longleftrightarrow> bit fl 3"
    "bit (alu_flags (snd (alu_compute alu))) 4
      \<longleftrightarrow> odd (popcount32 (fst (alu_compute alu))) \<or> bit fl 4"
  unfolding fl_def
  by (simp_all add: alu_compute_def Let_def alu_flag_iff_bit bit_or_flag bit_alu_flags
      word_norm alu_parity_eq split: prod.splits)

lemma alu_switch_no_parity: "\<not> bit (snd (alu_switch op a b)) 4"
  by (cases op) (simp_all add: Let_def bit_or_flag bit_alu_flags)

lemma carry_out_iff: "a + b < a \<longleftrightarrow> 2 ^ 32 \<le> uint a + uint b" for a b :: u32
  using uint_plus_if' [of a b] uint_lt2p [of a] uint_lt2p [of b] uint_ge_0 [of a] uint_ge_0 [of b]
  by (auto simp: word_less_def)

lemma alu_switch_add: "alu_switch ALU_ADD a b = (a + b,
    or_flag (sint a + sint b \<notin> {- (2 ^ 31)..<2 ^ 31}) ALU_FLAG_OVERFLOW
      (or_flag (2 ^ 32 \<le> uint a + uint b) ALU_FLAG_CARRY 0))"
proof -
  have o1: "sint (a + b) \<noteq> sint a + sint b \<longleftrightarrow> sint a + sint b \<notin> {- (2 ^ 31)..<2 ^ 31}"
    using sint_range_u32 [of a] sint_range_u32 [of b] by (auto simp: sint_add_u32 Let_def)
  show ?thesis
    unfolding alu_switch.simps Let_def drop_bit_31_eq_0 add_overflow_bit not_not o1 carry_out_iff ..
qed

lemma alu_switch_sub: "alu_switch ALU_SUB a b = (a - b,
    or_flag (sint a - sint b \<notin> {- (2 ^ 31)..<2 ^ 31}) ALU_FLAG_OVERFLOW
      (or_flag (uint b \<le> uint a) ALU_FLAG_CARRY 0))"
proof -
  have o2: "sint (a - b) \<noteq> sint a - sint b \<longleftrightarrow> sint a - sint b \<notin> {- (2 ^ 31)..<2 ^ 31}"
    using sint_range_u32 [of a] sint_range_u32 [of b] by (auto simp: sint_diff_u32 Let_def)
  show ?thesis
    unfolding alu_switch.simps Let_def drop_bit_31_eq_0 sub_overflow_bit not_not o2 word_le_def ..
qed

lemma mul_unit_compute_product:
  fixes mu :: MultiplyUnit
  defines "m \<equiv> mul_unit_compute mu"
  shows "uint (fst m) = uint (mu_a mu) * uint (mu_b mu)"
    and "uint (mu_result_hi (snd m)) = uint (fst m) div 2 ^ 32"
    and "uint (mu_result_lo (snd m)) = uint (fst m) mod 2 ^ 32"
    and "mul_unit_overflow (snd m) \<longleftrightarrow> 2 ^ 32 \<le> uint (fst m)"
proof -
  let ?p = "(ucast (mu_a mu) :: u64) * ucast (mu_b mu)"
  have a: "0 \<le> uint (mu_a mu)" "uint (mu_a mu) < 2^32" and b: "0 \<le> uint (mu_b mu)" "uint (mu_b mu) < 2^32"
    using uint_lt2p [of "mu_a mu"] uint_lt2p [of "mu_b mu"] by simp_all
  have "uint (mu_a mu) * uint (mu_b mu) \<le> (2^32-1) * (2^32-1)" by (rule mult_mono) (use a b in auto)
  then show "uint (fst m) = uint (mu_a mu) * uint (mu_b mu)"
    using a b by (simp add: m_def mul_unit_compute_def Let_def uint_word_ariths)
  have "uint ?p div 2 ^ 32 < 2 ^ 32" "0 \<le> uint ?p div 2 ^ 32"
    using uint_lt2p [of ?p] by (simp_all add: pos_imp_zdiv_nonneg_iff)
  then show "uint (mu_result_hi (snd m)) = uint (fst m) div 2 ^ 32"
    by (simp add: m_def mul_unit_compute_def Let_def unsigned_ucast_eq unsigned_drop_bit_eq
        drop_bit_eq_div take_bit_eq_mod uint_div_distrib)
  have "?p AND 0xFFFFFFFF = take_bit 32 ?p" by (simp add: take_bit_eq_mask mask_eq_exp_minus_1)
  then show "uint (mu_result_lo (snd m)) = uint (fst m) mod 2 ^ 32"
    by (simp add: m_def mul_unit_compute_def Let_def unsigned_ucast_eq unsigned_take_bit_eq take_bit_eq_mod uint_mod_distrib)
  show "mul_unit_overflow (snd m) \<longleftrightarrow> 2 ^ 32 \<le> uint (fst m)"
    by (auto simp: m_def mul_unit_compute_def mul_unit_overflow_def Let_def word_less_def alu_flag_defs)
qed

section \<open>Properties\<close>

text \<open>
  After an addition or a subtraction the result is the sum or difference modulo
  \<open>2 ^ 32\<close>; carry means unsigned carry-out, respectively no borrow; overflow means that the
  signed result does not fit; zero and negative describe the result.
\<close>

theorem alu_add_sub_flags:
  fixes alu :: ALU and a b :: u32
  defines "add \<equiv> alu_compute (alu_set_inputs alu a b ALU_ADD)"
  defines "sub \<equiv> alu_compute (alu_set_inputs alu a b ALU_SUB)"
  shows "uint (fst add) = (uint a + uint b) mod 2 ^ 32
     \<and> (alu_flag_carry (snd add) \<longleftrightarrow> 2 ^ 32 \<le> uint a + uint b)
     \<and> (alu_flag_overflow (snd add) \<longleftrightarrow> sint a + sint b \<notin> {- (2 ^ 31)..<2 ^ 31})
     \<and> (alu_flag_zero (snd add) \<longleftrightarrow> fst add = 0)
     \<and> (alu_flag_negative (snd add) \<longleftrightarrow> sint (fst add) < 0)
     \<and> uint (fst sub) = (uint a - uint b) mod 2 ^ 32
     \<and> (alu_flag_carry (snd sub) \<longleftrightarrow> uint b \<le> uint a)
     \<and> (alu_flag_overflow (snd sub) \<longleftrightarrow> sint a - sint b \<notin> {- (2 ^ 31)..<2 ^ 31})
     \<and> (alu_flag_zero (snd sub) \<longleftrightarrow> a = b)
     \<and> (alu_flag_negative (snd sub) \<longleftrightarrow> sint (fst sub) < 0)"
  unfolding add_def sub_def alu_compute_flags alu_compute_result
  by (simp add: alu_set_inputs_def alu_switch_add alu_switch_sub bit_or_flag bit_alu_flags
      uint_word_ariths del: alu_switch.simps)

text \<open>
  What a comparison leaves in the flags.  The label computes equality and the signed order,
  but the common tail of the unit then also tests the first operand, which is the result of the
  label: zero is set for \<open>a = 0\<close> as well, and negative for every negative \<open>a\<close>.
\<close>

theorem alu_cmp_flags:
  fixes alu :: ALU and a b :: u32
  defines "cmp \<equiv> snd (alu_compute (alu_set_inputs alu a b ALU_CMP))"
  shows "alu_result cmp = a
     \<and> (alu_flag_zero cmp \<longleftrightarrow> a = b \<or> a = 0)
     \<and> (alu_flag_negative cmp \<longleftrightarrow> sint a < sint b \<or> sint a < 0)"
  unfolding cmp_def alu_compute_flags alu_compute_result
  by (auto simp add: alu_set_inputs_def bit_or_flag bit_alu_flags)

text \<open>
  The parity flag is the parity of the number of one bits of the result, for every
  operation.
\<close>

theorem alu_parity_flag:
  "bit (alu_flags (snd (alu_compute alu))) 4 \<longleftrightarrow> odd (popcount32 (fst (alu_compute alu)))"
  using alu_switch_no_parity [of "alu_op alu" "alu_a alu" "alu_b alu"]
  by (simp add: alu_compute_flags)

text \<open>
  The multiplier returns the exact 64-bit product, split over its two result registers,
  and reports overflow exactly when it does not fit 32 bits.  The divider satisfies the division
  equation with a remainder below the divisor; a zero divisor is reported and clears both
  outputs.
\<close>

theorem mul_div_units_exact:
  fixes mu :: MultiplyUnit and du :: DivideUnit and a b :: u32
  defines "m \<equiv> mul_unit_compute (mul_unit_set mu a b)"
  defines "d \<equiv> div_unit_compute (div_unit_set du a b)"
  shows "uint (fst m) = uint a * uint b
     \<and> uint (mu_result_hi (snd m)) * 2 ^ 32 + uint (mu_result_lo (snd m)) = uint a * uint b
     \<and> (mul_unit_overflow (snd m) \<longleftrightarrow> 2 ^ 32 \<le> uint a * uint b)
     \<and> (fst d \<longleftrightarrow> b \<noteq> 0) \<and> (du_div_by_zero (snd d) \<longleftrightarrow> b = 0)
     \<and> (if b = 0 then div_unit_quotient (snd d) = 0 \<and> div_unit_remainder (snd d) = 0
        else uint a = uint (div_unit_quotient (snd d)) * uint b + uint (div_unit_remainder (snd d))
          \<and> uint (div_unit_remainder (snd d)) < uint b)"
proof -
  have "0 < uint b" if "b \<noteq> 0"
    using that uint_ge_0 [of b] unsigned_eq_0_iff [of b, where 'a = int] by linarith
  then show ?thesis
    unfolding m_def d_def
    by (auto simp: mul_unit_compute_product mul_unit_set_def div_unit_compute_def div_unit_set_def
        div_unit_quotient_def div_unit_remainder_def Let_def uint_div_distrib uint_mod_distrib)
qed

end
