(* ===== verification/Sequential.thy ===== *)
theory Sequential
  imports Prelude
begin

text \<open>
  The storage elements of \<^verbatim>\<open>mini-digital-circuit/src/sequential.c\<close>: D, JK and T
  flip-flops, the SR and D latches, the parallel register, the universal shift register and the
  counters.  The timing constants and names of the flip-flops are constants of their
  constructors that no operation reads; they are left out of the records.
\<close>

section \<open>Flip-flops and latches\<close>

record DFlipFlop =
  dff_q :: bool
  dff_q_bar :: bool
  dff_clk :: bool
  dff_d :: bool
  dff_rst :: bool
  dff_pre :: bool

definition dff_create :: DFlipFlop where
  "dff_create = \<lparr>dff_q = False, dff_q_bar = True, dff_clk = False, dff_d = False,
     dff_rst = False, dff_pre = False\<rparr>"

definition dff_set_d :: "DFlipFlop \<Rightarrow> bool \<Rightarrow> DFlipFlop" where
  "dff_set_d dff val = dff\<lparr>dff_d := val\<rparr>"

definition dff_clock :: "DFlipFlop \<Rightarrow> DFlipFlop" where
  "dff_clock dff =
     (if \<not> dff_clk dff then
        let f1 = dff\<lparr>dff_clk := True\<rparr>;
            f2 = (if dff_rst f1 then f1\<lparr>dff_q := False, dff_q_bar := True\<rparr>
                  else if dff_pre f1 then f1\<lparr>dff_q := True, dff_q_bar := False\<rparr>
                  else f1\<lparr>dff_q := dff_d f1, dff_q_bar := \<not> dff_d f1\<rparr>)
        in f2\<lparr>dff_clk := False\<rparr>
      else dff)"

definition dff_reset :: "DFlipFlop \<Rightarrow> bool \<Rightarrow> DFlipFlop" where
  "dff_reset dff async =
     (if async then dff\<lparr>dff_q := False, dff_q_bar := True\<rparr> else dff\<lparr>dff_rst := True\<rparr>)"

definition dff_preset :: "DFlipFlop \<Rightarrow> DFlipFlop" where
  "dff_preset dff = dff\<lparr>dff_pre := True, dff_q := True, dff_q_bar := False\<rparr>"

definition dff_clock_with_enable :: "DFlipFlop \<Rightarrow> bool \<Rightarrow> DFlipFlop" where
  "dff_clock_with_enable dff enable = (if enable then dff_clock dff else dff)"

record JKFlipFlop =
  jk_q :: bool
  jk_q_bar :: bool
  jk_j :: bool
  jk_k :: bool
  jk_clk :: bool

definition jkff_create :: JKFlipFlop where
  "jkff_create = \<lparr>jk_q = False, jk_q_bar = True, jk_j = False, jk_k = False, jk_clk = False\<rparr>"

definition jkff_set_inputs :: "JKFlipFlop \<Rightarrow> bool \<Rightarrow> bool \<Rightarrow> JKFlipFlop" where
  "jkff_set_inputs jk j k = jk\<lparr>jk_j := j, jk_k := k\<rparr>"

definition jkff_clock :: "JKFlipFlop \<Rightarrow> JKFlipFlop" where
  "jkff_clock jk =
     (if \<not> jk_clk jk then
        let f1 = jk\<lparr>jk_clk := True\<rparr>;
            f2 = (if jk_j f1 \<and> jk_k f1 then f1\<lparr>jk_q := jk_q_bar f1, jk_q_bar := jk_q f1\<rparr>
                  else if jk_j f1 \<and> \<not> jk_k f1 then f1\<lparr>jk_q := True, jk_q_bar := False\<rparr>
                  else if \<not> jk_j f1 \<and> jk_k f1 then f1\<lparr>jk_q := False, jk_q_bar := True\<rparr>
                  else f1)
        in f2\<lparr>jk_clk := False\<rparr>
      else jk)"

definition jkff_reset :: "JKFlipFlop \<Rightarrow> JKFlipFlop" where
  "jkff_reset jk = jk\<lparr>jk_q := False, jk_q_bar := True\<rparr>"

record TFlipFlop =
  tf_q :: bool
  tf_q_bar :: bool
  tf_t :: bool
  tf_clk :: bool

definition tff_create :: TFlipFlop where
  "tff_create = \<lparr>tf_q = False, tf_q_bar = True, tf_t = False, tf_clk = False\<rparr>"

definition tff_set_t :: "TFlipFlop \<Rightarrow> bool \<Rightarrow> TFlipFlop" where
  "tff_set_t tf t = tf\<lparr>tf_t := t\<rparr>"

definition tff_clock :: "TFlipFlop \<Rightarrow> TFlipFlop" where
  "tff_clock tf =
     (if \<not> tf_clk tf then
        let f1 = tf\<lparr>tf_clk := True\<rparr>;
            f2 = (if tf_t f1 then f1\<lparr>tf_q := tf_q_bar f1, tf_q_bar := tf_q f1\<rparr> else f1)
        in f2\<lparr>tf_clk := False\<rparr>
      else tf)"

record SRLatch =
  sr_q :: bool
  sr_q_bar :: bool
  sr_s :: bool
  sr_r :: bool

definition sr_latch_create :: SRLatch where
  "sr_latch_create = \<lparr>sr_q = False, sr_q_bar = True, sr_s = False, sr_r = False\<rparr>"

definition sr_latch_set_inputs :: "SRLatch \<Rightarrow> bool \<Rightarrow> bool \<Rightarrow> SRLatch" where
  "sr_latch_set_inputs latch s r = latch\<lparr>sr_s := s, sr_r := r\<rparr>"

definition sr_latch_eval :: "SRLatch \<Rightarrow> SRLatch" where
  "sr_latch_eval latch =
     (if sr_s latch \<and> sr_r latch then latch
      else if sr_s latch then latch\<lparr>sr_q := True, sr_q_bar := False\<rparr>
      else if sr_r latch then latch\<lparr>sr_q := False, sr_q_bar := True\<rparr>
      else latch)"

record DLatch =
  dl_q :: bool
  dl_q_bar :: bool
  dl_d :: bool
  dl_enable :: bool

definition d_latch_create :: DLatch where
  "d_latch_create = \<lparr>dl_q = False, dl_q_bar = True, dl_d = False, dl_enable = False\<rparr>"

definition d_latch_set_inputs :: "DLatch \<Rightarrow> bool \<Rightarrow> bool \<Rightarrow> DLatch" where
  "d_latch_set_inputs latch d enable = latch\<lparr>dl_d := d, dl_enable := enable\<rparr>"

definition d_latch_eval :: "DLatch \<Rightarrow> DLatch" where
  "d_latch_eval latch =
     (if dl_enable latch then latch\<lparr>dl_q := dl_d latch, dl_q_bar := \<not> dl_d latch\<rparr> else latch)"

definition d_latch_output :: "DLatch \<Rightarrow> bool" where
  "d_latch_output latch = dl_q latch"

section \<open>Register\<close>

definition REG_MAX_WIDTH :: int where "REG_MAX_WIDTH = 64"

record Register =
  reg_width :: int
  reg_dffs :: "DFlipFlop arr"

text \<open>The flip-flops beyond the width are never touched; they stand for the rest of the array.\<close>

definition reg_create :: "int \<Rightarrow> Register" where
  "reg_create width =
     (let w = (if width > REG_MAX_WIDTH then REG_MAX_WIDTH else width);
          w1 = (if w < 1 then 1 else w)
      in \<lparr>reg_width = w1, reg_dffs = (\<lambda>_. dff_create)\<rparr>)"

definition reg_set_d :: "Register \<Rightarrow> int \<Rightarrow> bool \<Rightarrow> Register" where
  "reg_set_d r bit_index val =
     (if 0 \<le> bit_index \<and> bit_index < reg_width r
      then r\<lparr>reg_dffs := (reg_dffs r)(nat bit_index := dff_set_d (reg_dffs r (nat bit_index)) val)\<rparr>
      else r)"

definition reg_set_value :: "Register \<Rightarrow> u64 \<Rightarrow> Register" where
  "reg_set_value r value =
     for_range 0 (nat (reg_width r))
       (\<lambda>i r. let f = (reg_dffs r i)\<lparr>dff_d := drop_bit i value AND 1 \<noteq> 0\<rparr>
              in r\<lparr>reg_dffs := (reg_dffs r)(i := dff_clock f)\<rparr>) r"

definition reg_clock :: "Register \<Rightarrow> Register" where
  "reg_clock r =
     for_range 0 (nat (reg_width r))
       (\<lambda>i r. r\<lparr>reg_dffs := (reg_dffs r)(i := dff_clock (reg_dffs r i))\<rparr>) r"

definition reg_read :: "Register \<Rightarrow> u64" where
  "reg_read r =
     for_range 0 (nat (reg_width r))
       (\<lambda>i val. if dff_q (reg_dffs r i) then val OR push_bit i 1 else val) 0"

definition reg_get_width :: "Register \<Rightarrow> int" where
  "reg_get_width r = reg_width r"

section \<open>Universal shift register\<close>

definition SHIFT_REG_MAX :: int where "SHIFT_REG_MAX = 128"

datatype ShiftRegDir = SHIFT_LEFT | SHIFT_RIGHT | SHIFT_BIDIR

record ShiftRegister =
  sh_width :: int
  sh_bits :: "bool arr"
  sh_serial_in_left :: bool
  sh_serial_in_right :: bool
  sh_direction :: ShiftRegDir

definition shift_reg_create :: "int \<Rightarrow> ShiftRegDir \<Rightarrow> ShiftRegister" where
  "shift_reg_create width dir =
     (let w = (if width > SHIFT_REG_MAX then SHIFT_REG_MAX else width);
          w1 = (if w < 1 then 1 else w)
      in \<lparr>sh_width = w1, sh_bits = (\<lambda>_. False), sh_serial_in_left = False,
          sh_serial_in_right = False, sh_direction = dir\<rparr>)"

definition shift_reg_load :: "ShiftRegister \<Rightarrow> bool arr \<Rightarrow> ShiftRegister" where
  "shift_reg_load sr data =
     for_range 0 (nat (sh_width sr)) (\<lambda>i sr. sr\<lparr>sh_bits := (sh_bits sr)(i := data i)\<rparr>) sr"

definition shift_reg_serial_in :: "ShiftRegister \<Rightarrow> bool \<Rightarrow> bool \<Rightarrow> ShiftRegister" where
  "shift_reg_serial_in sr left_bit right_bit =
     sr\<lparr>sh_serial_in_left := left_bit, sh_serial_in_right := right_bit\<rparr>"

text \<open>\<open>for (i = n - 1; i > 0; i--) bits[i] = bits[i - 1]\<close>, with the bits still to be moved
  counted by the argument.\<close>

fun shift_up :: "nat \<Rightarrow> bool arr \<Rightarrow> bool arr" where
  "shift_up 0 b = b"
| "shift_up (Suc i) b = shift_up i (b(Suc i := b i))"

definition shift_down :: "nat \<Rightarrow> bool arr \<Rightarrow> bool arr" where
  "shift_down n b = for_range 0 n (\<lambda>i b. b(i := b (i + 1))) b"

definition shift_reg_shift :: "ShiftRegister \<Rightarrow> ShiftRegister" where
  "shift_reg_shift sr =
     (let last = nat (sh_width sr - 1) in
      case sh_direction sr of
        SHIFT_LEFT \<Rightarrow> sr\<lparr>sh_bits := (shift_up last (sh_bits sr))(0 := sh_serial_in_left sr)\<rparr>
      | SHIFT_RIGHT \<Rightarrow> sr\<lparr>sh_bits := (shift_down last (sh_bits sr))(last := sh_serial_in_right sr)\<rparr>
      | SHIFT_BIDIR \<Rightarrow> sr\<lparr>sh_bits := (shift_up last (sh_bits sr))(0 := sh_serial_in_left sr)\<rparr>)"

definition shift_reg_read :: "ShiftRegister \<Rightarrow> bool arr \<Rightarrow> bool arr" where
  "shift_reg_read sr out = for_range 0 (nat (sh_width sr)) (\<lambda>i out. out(i := sh_bits sr i)) out"

definition shift_reg_serial_out_left :: "ShiftRegister \<Rightarrow> bool" where
  "shift_reg_serial_out_left sr = sh_bits sr (nat (sh_width sr - 1))"

definition shift_reg_serial_out_right :: "ShiftRegister \<Rightarrow> bool" where
  "shift_reg_serial_out_right sr = sh_bits sr 0"

section \<open>Counters\<close>

definition COUNTER_MAX_BITS :: int where "COUNTER_MAX_BITS = 64"

datatype CounterType = COUNTER_BINARY | COUNTER_BCD | COUNTER_GRAY | COUNTER_JOHNSON
  | COUNTER_RING | COUNTER_UP_DOWN

record Counter =
  ctr_type :: CounterType
  ctr_num_bits :: int
  ctr_value :: u64
  ctr_max_value :: u64
  ctr_up :: bool

definition bin2gray :: "u64 \<Rightarrow> u64" where
  "bin2gray n = n XOR drop_bit 1 n"

text \<open>\<open>while (m) { m >>= 1; n ^= m; }\<close>\<close>

function gray_loop :: "u64 \<Rightarrow> u64 \<Rightarrow> u64" where
  "gray_loop m n = (if m \<noteq> 0 then let m' = drop_bit 1 m in gray_loop m' (n XOR m') else n)"
  by pat_completeness auto
termination
  by (relation "measure (\<lambda>(m, n). unat m)")
    (simp_all add: unat_half_less Let_def)

definition gray2bin :: "u64 \<Rightarrow> u64" where
  "gray2bin n = gray_loop n n"

text \<open>
  The shift \<open>1ULL << num_bits\<close> is undefined for 64 bits, a width the clamp lets through: the
  constructor then has no result.
\<close>

definition counter_create :: "CounterType \<Rightarrow> int \<Rightarrow> Counter option" where
  "counter_create ty num_bits =
     (let n = (if num_bits > COUNTER_MAX_BITS then COUNTER_MAX_BITS else num_bits);
          n1 = (if n < 1 then 1 else n)
      in if n1 \<ge> 64 then None
         else Some \<lparr>ctr_type = ty, ctr_num_bits = n1, ctr_value = 0,
                    ctr_max_value = (if ty = COUNTER_BCD then 9 else push_bit (nat n1) 1 - 1),
                    ctr_up = True\<rparr>)"

definition counter_reset :: "Counter \<Rightarrow> Counter" where
  "counter_reset c = c\<lparr>ctr_value := 0\<rparr>"

definition counter_binary_step :: "Counter \<Rightarrow> u64 \<Rightarrow> u64" where
  "counter_binary_step c v =
     (if ctr_up c then (v + 1) AND ctr_max_value c else (v - 1) AND ctr_max_value c)"

definition counter_tick :: "Counter \<Rightarrow> Counter" where
  "counter_tick c =
     (case ctr_type c of
        COUNTER_BINARY \<Rightarrow> c\<lparr>ctr_value := counter_binary_step c (ctr_value c)\<rparr>
      | COUNTER_UP_DOWN \<Rightarrow> c\<lparr>ctr_value := counter_binary_step c (ctr_value c)\<rparr>
      | COUNTER_BCD \<Rightarrow>
          c\<lparr>ctr_value := (if ctr_up c then (ctr_value c + 1) mod 10
                          else if ctr_value c = 0 then 9 else ctr_value c - 1)\<rparr>
      | COUNTER_GRAY \<Rightarrow>
          c\<lparr>ctr_value := bin2gray (counter_binary_step c (gray2bin (ctr_value c)))\<rparr>
      | COUNTER_JOHNSON \<Rightarrow> c\<lparr>ctr_value := counter_binary_step c (ctr_value c)\<rparr>
      | COUNTER_RING \<Rightarrow> c\<lparr>ctr_value := counter_binary_step c (ctr_value c)\<rparr>)"

definition counter_read :: "Counter \<Rightarrow> u64" where
  "counter_read c = ctr_value c"

definition counter_set_direction :: "Counter \<Rightarrow> bool \<Rightarrow> Counter" where
  "counter_set_direction c up = c\<lparr>ctr_up := up\<rparr>"

section \<open>Gray code and counters\<close>

declare gray_loop.simps [simp del]

lemma gray_loop_acc: "gray_loop m (n XOR k) = gray_loop m n XOR k"
proof (induction m n rule: gray_loop.induct)
  case (1 m n)
  show ?case
  proof (cases "m = 0")
    case False
    then have "gray_loop m (n XOR k) = gray_loop (drop_bit (Suc 0) m) ((n XOR drop_bit (Suc 0) m) XOR k)"
      by (subst gray_loop.simps) (simp add: Let_def ac_simps)
    also have "\<dots> = gray_loop (drop_bit (Suc 0) m) (n XOR drop_bit (Suc 0) m) XOR k"
      using "1" [OF False refl] by simp
    also have "\<dots> = gray_loop m n XOR k"
      using False by (simp add: gray_loop.simps [of m n] Let_def)
    finally show ?thesis .
  qed (simp add: gray_loop.simps)
qed

lemma gray_loop_prefix: "gray_loop (n XOR drop_bit (Suc 0) n) 0 = drop_bit (Suc 0) n"
proof (induction "unat n" arbitrary: n rule: less_induct)
  case less
  show ?case
  proof (cases "n = 0")
    case False
    let ?g = "n XOR drop_bit (Suc 0) n" and ?h = "drop_bit (Suc 0) n"
    have g1: "drop_bit (Suc 0) ?g = ?h XOR drop_bit (Suc 0) ?h" by simp
    have "?g \<noteq> 0"
    proof
      assume "?g = 0"
      then have "n = drop_bit (Suc 0) n" by (metis xor_cancel xor.right_neutral)
      then show False using unat_half_less [OF False] by simp
    qed
    then have "gray_loop ?g 0 = gray_loop (drop_bit (Suc 0) ?g) (0 XOR drop_bit (Suc 0) ?g)"
      by (subst gray_loop.simps) (simp add: Let_def)
    also have "\<dots> = gray_loop (drop_bit (Suc 0) ?g) 0 XOR drop_bit (Suc 0) ?g" by (rule gray_loop_acc)
    also have "\<dots> = drop_bit (Suc 0) ?h XOR (?h XOR drop_bit (Suc 0) ?h)"
      using less [OF unat_half_less [OF False]] by (simp add: g1)
    also have "\<dots> = ?h" by (simp add: ac_simps)
    finally show ?thesis .
  qed (simp add: gray_loop.simps)
qed

lemma gray2bin_bin2gray: "gray2bin (bin2gray n) = n"
proof -
  have "gray2bin (bin2gray n) = gray_loop (bin2gray n) (0 XOR bin2gray n)"
    by (simp add: gray2bin_def)
  also have "\<dots> = gray_loop (bin2gray n) 0 XOR bin2gray n" by (rule gray_loop_acc)
  also have "\<dots> = n" by (simp add: bin2gray_def gray_loop_prefix xor.commute [of _ "n XOR _"] xor.assoc)
  finally show ?thesis .
qed

lemma xor_succ_mask: "\<exists>j. (k::nat) XOR Suc k = mask (Suc j)"
proof (induction k rule: less_induct)
  case (less k)
  show ?case
  proof (cases "even k")
    case True
    then obtain m where "k = 2 * m" by (rule evenE)
    then have "k XOR Suc k = 1" by (simp add: xor_nat_rec [of "2 * m" "Suc (2 * m)"])
    then show ?thesis by (intro exI [of _ 0]) simp
  next
    case False
    then obtain m where k: "k = 2 * m + 1" by (rule oddE)
    with less [of m] obtain j where j: "m XOR Suc m = mask (Suc j)" by auto
    have "k XOR Suc k = Suc (2 * (m XOR Suc m))"
      by (simp add: k xor_nat_rec [of "Suc (2 * m)" "Suc (Suc (2 * m))"])
    also have "\<dots> = mask (Suc (Suc j))"
      unfolding j mask_eq_exp_minus_1 by (cases "(2::nat) ^ j") simp_all
    finally show ?thesis by blast
  qed
qed

lemma xor_succ_word: 
  fixes k :: u64
  assumes "k \<noteq> - 1"
  shows "\<exists>j<64. k XOR (k + 1) = mask (Suc j)"
proof -
  have s: "unat (k + 1) = Suc (unat k)" using assms
    by (metis Suc_eq_plus1 add.commute add_eq_0_iff unatSuc)
  obtain j where j: "unat k XOR Suc (unat k) = mask (Suc j)" using xor_succ_mask by blast
  have u: "unat (k XOR (k + 1)) = mask (Suc j)" by (simp only: unsigned_xor_eq s j)
  have b: "bit (k XOR (k + 1)) j" 
    using u by (metis bit_mask_iff bit_unsigned_iff lessI possible_bit_nat)
  have "j < 64" using bit_imp_le_length [OF b] by simp
  moreover have "k XOR (k + 1) = mask (Suc j)"
  proof (rule bit_word_eqI)
    fix n
    assume "n < LENGTH(64)"
    have "bit (k XOR (k + 1)) n \<longleftrightarrow> bit (unat (k XOR (k + 1))) n" by (simp add: bit_unsigned_iff)
    also have "\<dots> \<longleftrightarrow> n < Suc j" unfolding u by (simp add: bit_mask_iff)
    finally show "bit (k XOR (k + 1)) n = bit (mask (Suc j) :: u64) n"
      using \<open>n < LENGTH(64)\<close> by (simp add: bit_mask_iff)
  qed
  ultimately show ?thesis by blast
qed

lemma mask_xor_half: "mask (Suc j) XOR drop_bit (Suc 0) (mask (Suc j)) = push_bit j (1::u64)" if "j < 64"
  by (rule bit_word_eqI) (use that in \<open>auto simp: bit_simps\<close>)

lemma bin2gray_adjacent: "k \<noteq> - 1 \<Longrightarrow> \<exists>j<64. bin2gray k XOR bin2gray (k + 1) = push_bit j 1"
proof -
  assume "k \<noteq> - 1"
  then obtain j where j: "j < 64" "k XOR (k + 1) = mask (Suc j)" using xor_succ_word by blast
  have "bin2gray k XOR bin2gray (k + 1) = (k XOR (k + 1)) XOR drop_bit (Suc 0) (k XOR (k + 1))"
    by (simp add: bin2gray_def ac_simps)
  also have "\<dots> = push_bit j 1" unfolding j(2) by (rule mask_xor_half [OF j(1)])
  finally show ?thesis using j(1) by blast
qed

lemma bin2gray_mask: "0 < n \<Longrightarrow> n \<le> 64 \<Longrightarrow> bin2gray (mask n) = push_bit (n - 1) 1"
  using mask_xor_half [of "n - 1"] by (simp add: bin2gray_def)

lemma gray2bin_0: "gray2bin 0 = 0"
  by (simp add: gray2bin_def gray_loop.simps)

lemma bin2gray_gray2bin: "bin2gray (gray2bin g) = g"
proof -
  have "inj bin2gray" by (metis injI gray2bin_bin2gray)
  then have "surj bin2gray" by (simp add: finite_UNIV_inj_surj)
  then obtain k where "g = bin2gray k" by (metis surjD)
  then show ?thesis by (simp add: gray2bin_bin2gray)
qed

lemma bin2gray_le_mask: "k \<le> mask n \<Longrightarrow> bin2gray k \<le> mask n"
  by (auto simp: le_mask_iff_bits bin2gray_def bit_simps dest: Suc_lessD)

definition counter_inv :: "Counter \<Rightarrow> bool" where
  "counter_inv c \<longleftrightarrow>
     1 \<le> ctr_num_bits c \<and> ctr_num_bits c < 64
   \<and> ctr_max_value c = (if ctr_type c = COUNTER_BCD then 9 else mask (nat (ctr_num_bits c)))
   \<and> ctr_value c \<le> ctr_max_value c
   \<and> (ctr_type c = COUNTER_GRAY \<longrightarrow> gray2bin (ctr_value c) \<le> ctr_max_value c)"

inductive counter_reachable :: "Counter \<Rightarrow> bool" where
  create: "counter_create ty n = Some c \<Longrightarrow> counter_reachable c"
| tick: "counter_reachable c \<Longrightarrow> counter_reachable (counter_tick c)"
| reset: "counter_reachable c \<Longrightarrow> counter_reachable (counter_reset c)"
| direction: "counter_reachable c \<Longrightarrow> counter_reachable (counter_set_direction c up)"

lemma binary_step_le: "counter_binary_step c v \<le> ctr_max_value c"
  by (simp add: counter_binary_step_def word_and_le1)

lemma bcd_step: "v \<le> 9 \<Longrightarrow> (v + 1) mod 10 \<le> (9::u64)" "v \<le> 9 \<Longrightarrow> v \<noteq> 0 \<Longrightarrow> v - 1 \<le> (9::u64)"
proof -
  have "(v + 1) mod 10 < (10::u64)" by (rule word_mod_less_divisor) simp
  then show "(v + 1) mod 10 \<le> (9::u64)" by (simp add: word_less_def word_le_def)
  show "v \<le> 9 \<Longrightarrow> v \<noteq> 0 \<Longrightarrow> v - 1 \<le> (9::u64)"
    by (simp add: word_le_nat_alt unat_minus_one)
qed

lemma counter_inv_tick: "counter_inv c \<Longrightarrow> counter_inv (counter_tick c)"
  using binary_step_le [of c "ctr_value c"] binary_step_le [of c "gray2bin (ctr_value c)"]
  by (auto simp: counter_inv_def counter_tick_def bcd_step gray2bin_bin2gray intro!: bin2gray_le_mask split: CounterType.splits)

lemma counter_reachable_inv: "counter_reachable c \<Longrightarrow> counter_inv c"
proof (induction rule: counter_reachable.induct)
  case (create ty n c)
  then show ?case
    by (auto simp: counter_create_def counter_inv_def Let_def mask_eq_exp_minus_1 COUNTER_MAX_BITS_def gray2bin_0 split: if_splits)
next
  case (reset c)
  then show ?case by (auto simp: counter_inv_def counter_reset_def gray2bin_0)
next
  case (direction c up)
  then show ?case by (auto simp: counter_inv_def counter_set_direction_def)
qed (rule counter_inv_tick)

lemma gray_successor_adjacent:
  assumes "k \<le> mask n" "0 < n" "n < 64"
  shows "\<exists>j<64. bin2gray k XOR bin2gray ((k + 1) AND mask n) = push_bit j 1"
proof (cases "k = mask n")
  case True
  have "(mask n :: u64) + 1 = push_bit n 1" by (simp add: mask_eq_exp_minus_1 push_bit_of_1)
  moreover have "push_bit n 1 AND mask n = (0 :: u64)"
    by (rule bit_word_eqI) (auto simp: bit_simps)
  ultimately have "(k + 1) AND mask n = 0" unfolding True by simp
  then have "bin2gray k XOR bin2gray ((k + 1) AND mask n) = push_bit (n - 1) 1"
    using assms bin2gray_mask [of n] True by (simp add: bin2gray_def [of 0])
  then show ?thesis using assms by (intro exI [of _ "n - 1"]) simp
next
  case False
  have "uint (mask n :: u64) < 2 ^ 64 - 1" 
    unfolding uint_mask_eq using assms(3) power_strict_increasing [of n 64 "2::int"]
    by (simp add: mask_eq_exp_minus_1 min_def)
  with assms(1) have lt: "uint k < 2 ^ 64 - 1" by (simp add: word_le_def)
  then have k1: "uint (k + 1) = uint k + 1" by (simp add: uint_word_ariths)
  from lt have "k \<noteq> - 1" by (auto simp: unsigned_minus_1_eq_mask mask_eq_exp_minus_1)
  moreover have "k + 1 \<le> mask n"
    using assms(1) False k1 by (simp add: word_le_def word_uint_eq_iff)
  ultimately show ?thesis using bin2gray_adjacent [of k] by (simp add: and_max_eq_self)
qed

lemma gray_predecessor_adjacent:
  assumes "k \<le> mask n" "0 < n" "n < 64"
  shows "\<exists>j<64. bin2gray k XOR bin2gray ((k - 1) AND mask n) = push_bit j 1"
proof -
  let ?p = "(k - 1) AND mask n"
  have p: "?p \<le> mask n" by (rule word_and_le1)
  have "(?p + 1) AND mask n = k AND mask n"
    by (metis diff_add_cancel mask_eqs(1))
  then have "(?p + 1) AND mask n = k" using assms(1) by (simp add: and_max_eq_self)
  then show ?thesis
    using gray_successor_adjacent [OF p assms(2,3)] by (simp add: xor.commute)
qed

section \<open>Complementary outputs\<close>

text \<open>
  The contract every storage element keeps: the second output is the complement of the first
  and the clock input is low between operations.  It is stated once for an element with a set
  of operations and interpreted for the five elements of the source.
\<close>

locale storage_element =
  fixes init :: "'s" and step :: "'op \<Rightarrow> 's \<Rightarrow> 's" and q qb clk :: "'s \<Rightarrow> bool"
  assumes init_ok: "qb init = (\<not> q init)" "\<not> clk init"
    and step_ok: "qb s = (\<not> q s) \<Longrightarrow> \<not> clk s \<Longrightarrow> qb (step op s) = (\<not> q (step op s)) \<and> \<not> clk (step op s)"
begin

lemma run_keeps: "qb s = (\<not> q s) \<Longrightarrow> \<not> clk s
    \<Longrightarrow> qb (fold step ops s) = (\<not> q (fold step ops s)) \<and> \<not> clk (fold step ops s)"
  by (induction ops arbitrary: s) (simp_all add: step_ok)

lemma run_complementary: "qb (fold step ops init) = (\<not> q (fold step ops init))"
  using run_keeps [OF init_ok] by blast

end

text \<open>The operations of each element, one constructor per function of the interface.\<close>

datatype dff_op = DSetD bool | DClock | DReset bool | DPreset | DClockEnable bool
datatype jk_op = JKSet bool bool | JKClock | JKReset
datatype tff_op = TSet bool | TClock
datatype sr_op = SRSet bool bool | SREval
datatype dl_op = DLSet bool bool | DLEval

fun dff_step :: "dff_op \<Rightarrow> DFlipFlop \<Rightarrow> DFlipFlop" where
  "dff_step (DSetD v) f = dff_set_d f v"
| "dff_step DClock f = dff_clock f"
| "dff_step (DReset a) f = dff_reset f a"
| "dff_step DPreset f = dff_preset f"
| "dff_step (DClockEnable e) f = dff_clock_with_enable f e"

fun jk_step :: "jk_op \<Rightarrow> JKFlipFlop \<Rightarrow> JKFlipFlop" where
  "jk_step (JKSet j k) f = jkff_set_inputs f j k"
| "jk_step JKClock f = jkff_clock f"
| "jk_step JKReset f = jkff_reset f"

fun tff_step :: "tff_op \<Rightarrow> TFlipFlop \<Rightarrow> TFlipFlop" where
  "tff_step (TSet t) f = tff_set_t f t"
| "tff_step TClock f = tff_clock f"

fun sr_step :: "sr_op \<Rightarrow> SRLatch \<Rightarrow> SRLatch" where
  "sr_step (SRSet s r) l = sr_latch_set_inputs l s r"
| "sr_step SREval l = sr_latch_eval l"

fun dl_step :: "dl_op \<Rightarrow> DLatch \<Rightarrow> DLatch" where
  "dl_step (DLSet d e) l = d_latch_set_inputs l d e"
| "dl_step DLEval l = d_latch_eval l"

lemmas dff_ops = dff_create_def dff_set_d_def dff_clock_def dff_reset_def dff_preset_def
  dff_clock_with_enable_def
lemmas jk_ops = jkff_create_def jkff_set_inputs_def jkff_clock_def jkff_reset_def
lemmas latch_ops = sr_latch_create_def sr_latch_set_inputs_def sr_latch_eval_def
  d_latch_create_def d_latch_set_inputs_def d_latch_eval_def

interpretation dff: storage_element dff_create dff_step dff_q dff_q_bar dff_clk
proof unfold_locales
  fix op and s :: DFlipFlop assume "dff_q_bar s = (\<not> dff_q s)" "\<not> dff_clk s"
  then show "dff_q_bar (dff_step op s) = (\<not> dff_q (dff_step op s)) \<and> \<not> dff_clk (dff_step op s)"
    by (cases op) (simp_all add: dff_ops Let_def)
qed (simp_all add: dff_ops)

interpretation jk: storage_element jkff_create jk_step jk_q jk_q_bar jk_clk
proof unfold_locales
  fix op and s :: JKFlipFlop assume "jk_q_bar s = (\<not> jk_q s)" "\<not> jk_clk s"
  then show "jk_q_bar (jk_step op s) = (\<not> jk_q (jk_step op s)) \<and> \<not> jk_clk (jk_step op s)"
    by (cases op) (simp_all add: jk_ops Let_def)
qed (simp_all add: jk_ops)

interpretation tff: storage_element tff_create tff_step tf_q tf_q_bar tf_clk
proof unfold_locales
  fix op and s :: TFlipFlop assume "tf_q_bar s = (\<not> tf_q s)" "\<not> tf_clk s"
  then show "tf_q_bar (tff_step op s) = (\<not> tf_q (tff_step op s)) \<and> \<not> tf_clk (tff_step op s)"
    by (cases op) (simp_all add: tff_set_t_def tff_clock_def Let_def)
qed (simp_all add: tff_create_def)

interpretation sr: storage_element sr_latch_create sr_step sr_q sr_q_bar "\<lambda>_. False"
proof unfold_locales
  fix op and s :: SRLatch assume "sr_q_bar s = (\<not> sr_q s)"
  then show "sr_q_bar (sr_step op s) = (\<not> sr_q (sr_step op s)) \<and> \<not> False"
    by (cases op) (simp_all add: latch_ops)
qed (simp_all add: latch_ops)

interpretation dl: storage_element d_latch_create dl_step dl_q dl_q_bar "\<lambda>_. False"
proof unfold_locales
  fix op and s :: DLatch assume "dl_q_bar s = (\<not> dl_q s)"
  then show "dl_q_bar (dl_step op s) = (\<not> dl_q (dl_step op s)) \<and> \<not> False"
    by (cases op) (simp_all add: latch_ops)
qed (simp_all add: latch_ops)

section \<open>Registers and shift registers\<close>

definition reg_ready :: "Register \<Rightarrow> bool" where
  "reg_ready r \<longleftrightarrow> 1 \<le> reg_width r \<and> reg_width r \<le> 64
     \<and> (\<forall>i. \<not> dff_clk (reg_dffs r i) \<and> \<not> dff_rst (reg_dffs r i) \<and> \<not> dff_pre (reg_dffs r i))"

lemma reg_create_ready: "reg_ready (reg_create w)"
  by (simp add: reg_ready_def reg_create_def REG_MAX_WIDTH_def dff_create_def Let_def)

lemma reg_read_bits:
  assumes "0 \<le> reg_width r" "reg_width r \<le> 64"
  shows "bit (reg_read r) i \<longleftrightarrow> i < nat (reg_width r) \<and> dff_q (reg_dffs r i)"
proof -
  have "nat (reg_width r) \<le> 64" using assms by simp
  have "\<forall>j. bit (reg_read r) j \<longleftrightarrow> j < nat (reg_width r) \<and> dff_q (reg_dffs r j)"
    unfolding reg_read_def
  proof (rule for_range_invariant
      [where I = "\<lambda>n val. \<forall>j. bit val j \<longleftrightarrow> j < n \<and> dff_q (reg_dffs r j)"], goal_cases)
    case (3 i s)
    then have "i < 64" using \<open>nat (reg_width r) \<le> 64\<close> by simp
    with 3 show ?case by (auto simp: bit_simps less_Suc_eq)
  qed simp_all
  then show ?thesis by blast
qed

lemma reg_set_value_fields:
  assumes "reg_ready r"
  shows "reg_ready (reg_set_value r v) \<and> reg_width (reg_set_value r v) = reg_width r
    \<and> (\<forall>i<nat (reg_width r). dff_q (reg_dffs (reg_set_value r v) i) = bit v i)"
  unfolding reg_set_value_def
  by (rule for_range_invariant [where I = "\<lambda>n s. reg_ready s \<and> reg_width s = reg_width r
        \<and> (\<forall>i<n. dff_q (reg_dffs s i) = bit v i)"])
    (use assms in \<open>auto simp: reg_ready_def dff_clock_def Let_def drop_and_1 less_Suc_eq\<close>)

definition sh_list :: "ShiftRegister \<Rightarrow> bool list" where
  "sh_list sr = map (sh_bits sr) [0..<nat (sh_width sr)]"

lemma shift_up_nth: "shift_up n b j = (if 1 \<le> j \<and> j \<le> n then b (j - 1) else b j)"
  by (induction n arbitrary: b) (auto simp: le_Suc_eq)

lemma shift_down_nth: "shift_down n b j = (if j < n then b (Suc j) else b j)"
proof -
  have "\<forall>j. for_range 0 n (\<lambda>i b. b(i := b (i + 1))) b j = (if j < n then b (Suc j) else b j)"
    by (rule for_range_invariant
        [where I = "\<lambda>n s. \<forall>j. s j = (if j < n then b (Suc j) else b j)"]) auto
  then show ?thesis by (simp add: shift_down_def)
qed

section \<open>Properties\<close>

text \<open>
  Whatever sequence of operations drives it after its creation, a D, JK or T flip-flop or
  an SR or D latch has complementary outputs.
\<close>

theorem storage_elements_complementary:
  "(\<forall>ops. dff_q_bar (fold dff_step ops dff_create) = (\<not> dff_q (fold dff_step ops dff_create)))
   \<and> (\<forall>ops. jk_q_bar (fold jk_step ops jkff_create) = (\<not> jk_q (fold jk_step ops jkff_create)))
   \<and> (\<forall>ops. tf_q_bar (fold tff_step ops tff_create) = (\<not> tf_q (fold tff_step ops tff_create)))
   \<and> (\<forall>ops. sr_q_bar (fold sr_step ops sr_latch_create) = (\<not> sr_q (fold sr_step ops sr_latch_create)))
   \<and> (\<forall>ops. dl_q_bar (fold dl_step ops d_latch_create) = (\<not> dl_q (fold dl_step ops d_latch_create)))"
  by (intro conjI allI dff.run_complementary jk.run_complementary tff.run_complementary
      sr.run_complementary dl.run_complementary)

text \<open>
  A register whose flip-flops are not held by reset or preset reads back the low
  \<open>width\<close> bits of the value it was set to, and can be set again.
\<close>

theorem register_roundtrip:
  assumes "reg_ready r"
  shows "reg_read (reg_set_value r v) = take_bit (nat (reg_get_width r)) v
    \<and> reg_ready (reg_set_value r v)"
proof -
  note f = reg_set_value_fields [OF assms, of v]
  have w: "0 \<le> reg_width (reg_set_value r v)" "reg_width (reg_set_value r v) \<le> 64"
    using assms f by (auto simp: reg_ready_def)
  have "bit (reg_read (reg_set_value r v)) i \<longleftrightarrow> i < nat (reg_width r) \<and> bit v i" for i
    using f reg_read_bits [OF w, of i] by auto
  then show ?thesis
    using f by (auto simp: bit_eq_iff bit_take_bit_iff reg_get_width_def)
qed

theorem register_roundtrip_witness:
  "reg_ready (reg_create 8) \<and> reg_read (reg_set_value (reg_create 8) 0x1A5) = 0xA5"
proof
  show "reg_ready (reg_create 8)" by (rule reg_create_ready)
  have "reg_get_width (reg_create 8) = 8"
    by (simp add: reg_get_width_def reg_create_def REG_MAX_WIDTH_def)
  then show "reg_read (reg_set_value (reg_create 8) 0x1A5) = 0xA5"
    using register_roundtrip [OF reg_create_ready, of 8 "0x1A5"]
    by (simp add: take_bit_eq_mask mask_eq_exp_minus_1)
qed

text \<open>
  One shift moves the bits by one place, takes the serial input of the shifting side and
  drops the bit that the serial output of the other side showed.  The bidirectional setting
  shifts left.
\<close>

theorem shift_register_shifts:
  assumes "1 \<le> sh_width sr"
  shows "sh_list (shift_reg_shift sr) =
      (if sh_direction sr = SHIFT_RIGHT then tl (sh_list sr) @ [sh_serial_in_right sr]
       else sh_serial_in_left sr # butlast (sh_list sr))
    \<and> shift_reg_serial_out_left sr = last (sh_list sr)
    \<and> shift_reg_serial_out_right sr = hd (sh_list sr)"
proof -
  obtain n where n: "nat (sh_width sr) = Suc n" "nat (sh_width sr - 1) = n"
    using assms by (cases "nat (sh_width sr)") auto
  have up: "map ((shift_up n b)(0 := x)) [0..<Suc n] = x # butlast (map b [0..<Suc n])" for b x
    by (rule nth_equalityI) (auto simp: shift_up_nth nth_Cons' nth_butlast simp del: upt_Suc)
  have down: "map ((shift_down n b)(n := x)) [0..<Suc n] = tl (map b [0..<Suc n]) @ [x]" for b x
    by (rule nth_equalityI)
      (auto simp: shift_down_nth nth_append nth_tl simp del: upt_Suc)
  have last: "last (map b [0..<Suc n]) = b n" for b :: "bool arr" by simp
  have "sh_width (shift_reg_shift sr) = sh_width sr"
    by (simp add: shift_reg_shift_def Let_def split: ShiftRegDir.splits)
  then show ?thesis
    by (cases "sh_direction sr")
      (simp_all add: sh_list_def up down last shift_reg_shift_def n Let_def shift_reg_serial_out_left_def
        shift_reg_serial_out_right_def hd_map del: upt_Suc fun_upd_apply)
qed

theorem shift_register_shifts_witness:
  "sh_list (shift_reg_shift (shift_reg_serial_in (shift_reg_create 3 SHIFT_LEFT) True False))
     = [True, False, False]"
proof -
  let ?sr = "shift_reg_serial_in (shift_reg_create 3 SHIFT_LEFT) True False"
  have "1 \<le> sh_width ?sr"
    by (simp add: shift_reg_serial_in_def shift_reg_create_def SHIFT_REG_MAX_def)
  from shift_register_shifts [OF this] show ?thesis
    by (simp add: sh_list_def shift_reg_serial_in_def shift_reg_create_def SHIFT_REG_MAX_def
        upt_rec numeral_3_eq_3)
qed

text \<open>
  No counter ever leaves its range: whatever ticks, resets and direction changes follow its
  creation, its value is at most its maximum, and a decimal counter shows a digit.
\<close>

theorem counter_within_max:
  assumes "counter_reachable c"
  shows "counter_read c \<le> ctr_max_value c \<and> (ctr_type c = COUNTER_BCD \<longrightarrow> counter_read c \<le> 9)"
  using counter_reachable_inv [OF assms] by (auto simp: counter_inv_def counter_read_def)

theorem counter_within_max_witness:
  "\<exists>c. counter_create COUNTER_BCD 4 = Some c
     \<and> counter_read (counter_tick (counter_set_direction c False)) \<le> 9"
proof -
  obtain c where c: "counter_create COUNTER_BCD 4 = Some c" "ctr_type c = COUNTER_BCD"
    by (auto simp: counter_create_def COUNTER_MAX_BITS_def)
  have "counter_reachable (counter_tick (counter_set_direction c False))"
    by (intro counter_reachable.tick counter_reachable.direction counter_reachable.create [OF c(1)])
  from counter_within_max [OF this] c show ?thesis
    by (auto simp: counter_tick_def counter_set_direction_def)
qed

text \<open>
  A tick of a Gray-code counter is a step of the binary counter on the decoded value, modulo
  the range, and changes exactly one bit of the code.
\<close>

theorem gray_counter_tick:
  assumes "counter_reachable c" and "ctr_type c = COUNTER_GRAY"
  shows "gray2bin (counter_read (counter_tick c))
      = (if ctr_up c then gray2bin (counter_read c) + 1 else gray2bin (counter_read c) - 1)
        AND mask (nat (ctr_num_bits c))
    \<and> (\<exists>j<64. counter_read c XOR counter_read (counter_tick c) = push_bit j 1)"
proof -
  let ?n = "nat (ctr_num_bits c)" and ?k = "gray2bin (ctr_value c)"
  have inv: "?k \<le> mask ?n" "0 < ?n" "?n < 64" "ctr_max_value c = mask ?n"
    using counter_reachable_inv [OF assms(1)] assms(2) by (auto simp: counter_inv_def)
  have "\<exists>j<64. bin2gray ?k XOR bin2gray (counter_binary_step c ?k) = push_bit j 1"
    using gray_successor_adjacent [OF inv(1-3)] gray_predecessor_adjacent [OF inv(1-3)]
    by (simp add: counter_binary_step_def inv(4))
  then show ?thesis
    using assms(2) by (simp add: counter_read_def counter_tick_def gray2bin_bin2gray bin2gray_gray2bin counter_binary_step_def inv(4))
qed

theorem gray_counter_tick_witness:
  "\<exists>c. counter_create COUNTER_GRAY 3 = Some c
     \<and> gray2bin (counter_read (counter_tick (counter_set_direction c False))) = 7"
proof -
  obtain c where c: "counter_create COUNTER_GRAY 3 = Some c" "ctr_type c = COUNTER_GRAY"
      "ctr_num_bits c = 3" "ctr_value c = 0"
    by (auto simp: counter_create_def COUNTER_MAX_BITS_def)
  have "counter_reachable (counter_set_direction c False)"
    by (intro counter_reachable.direction counter_reachable.create [OF c(1)])
  from gray_counter_tick [OF this] c show ?thesis
    by (auto simp: counter_set_direction_def counter_read_def gray2bin_0 mask_eq_exp_minus_1)
qed

text \<open>
  The ring counter is not one-hot: it is the binary counter, starts at 0 and shows 3, two hot
  bits, after three ticks.
\<close>

theorem ring_counter_not_one_hot:
  "\<exists>c. counter_create COUNTER_RING 4 = Some c
     \<and> counter_read c = 0 \<and> counter_read (counter_tick (counter_tick (counter_tick c))) = 3"
  by (simp add: counter_create_def counter_tick_def counter_binary_step_def counter_read_def Let_def COUNTER_MAX_BITS_def)

end
