(* ===== verification/BoolAlg.thy ===== *)
theory BoolAlg
  imports Prelude
begin

text \<open>
  Two-level logic of \<^verbatim>\<open>mini-digital-circuit/src/boolean_algebra.c\<close>: sums of products and their
  evaluation, the product of sums, Karnaugh maps, the tabular minimiser, Shannon cofactors and the
  reduction of covered terms.  The used part of an array of terms is a list; numbers of variables and
  terms are naturals after the clamping of the constructors.  \<open>None\<close> is a write outside the 128
  implicants of a minimiser result.
\<close>

unbundle bit_operations_syntax

section \<open>Data\<close>

definition BA_MAX_VARS :: int where "BA_MAX_VARS = 8"
definition BA_MAX_TERMS :: nat where "BA_MAX_TERMS = 256"
definition BA_MAX_IMPLICANTS :: nat where "BA_MAX_IMPLICANTS = 128"

record Minterm =
  mt_num_vars :: nat
  mt_mask :: u8
  mt_values :: u8
  mt_is_dont_care :: bool

record Maxterm =
  xt_num_vars :: nat
  xt_mask :: u8
  xt_values :: u8

record SOP =
  sop_num_vars :: nat
  sop_terms :: "Minterm list"

record POS =
  pos_num_vars :: nat
  pos_terms :: "Maxterm list"

record KMap =
  km_num_vars :: nat
  km_cells :: "bool arr"

record KMap6 =
  k6_num_vars :: nat
  k6_rows :: nat
  k6_cols :: nat
  k6_cells :: "bool arr"
  k6_row_order :: "nat arr"
  k6_col_order :: "nat arr"

record Implicant =
  im_mask :: u8
  im_values :: u8
  im_covered :: "int list"
  im_is_prime :: bool

record QMCResult =
  qr_num_vars :: nat
  qr_primes :: "Implicant list"
  qr_minterm_indices :: "int list"
  qr_minterm_count :: int

section \<open>Sums of products\<close>

definition sop_create :: "int \<Rightarrow> SOP" where
  "sop_create num_vars =
     (let n = (if num_vars > BA_MAX_VARS then BA_MAX_VARS else num_vars)
      in \<lparr>sop_num_vars = nat (if n < 1 then 1 else n), sop_terms = []\<rparr>)"

definition sop_add_term :: "SOP \<Rightarrow> u8 \<Rightarrow> u8 \<Rightarrow> SOP" where
  "sop_add_term sop m vals =
     (if length (sop_terms sop) \<ge> BA_MAX_TERMS then sop
      else sop\<lparr>sop_terms := sop_terms sop @
             [\<lparr>mt_num_vars = sop_num_vars sop, mt_mask = m, mt_values = vals, mt_is_dont_care = False\<rparr>]\<rparr>)"

text \<open>The inner loop: every variable of the mask has the value the term asks for.\<close>

definition term_true :: "nat \<Rightarrow> Minterm \<Rightarrow> u8 \<Rightarrow> bool" where
  "term_true n t input_values =
     list_all (\<lambda>v. mt_mask t AND push_bit v 1 \<noteq> 0 \<longrightarrow> drop_bit v input_values AND 1 = drop_bit v (mt_values t) AND 1) [0..<n]"

definition sop_eval :: "SOP \<Rightarrow> u8 \<Rightarrow> bool" where
  "sop_eval sop input_values = list_ex (\<lambda>t. term_true (sop_num_vars sop) t input_values) (sop_terms sop)"

definition sop_to_pos :: "SOP \<Rightarrow> POS" where
  "sop_to_pos sop =
     \<lparr>pos_num_vars = sop_num_vars sop,
      pos_terms = take BA_MAX_TERMS (map (\<lambda>r. \<lparr>xt_num_vars = sop_num_vars sop,
            xt_mask = of_nat (2 ^ sop_num_vars sop - 1), xt_values = of_nat r\<rparr>)
          (filter (\<lambda>r. \<not> sop_eval sop (of_nat r)) [0..<2 ^ sop_num_vars sop]))\<rparr>"

section \<open>Karnaugh maps\<close>

definition kmap_create :: "int \<Rightarrow> KMap" where
  "kmap_create num_vars = \<lparr>km_num_vars = nat (if num_vars > 4 then 4 else if num_vars < 2 then 2 else num_vars), km_cells = (\<lambda>_. False)\<rparr>"

definition gray :: "nat \<Rightarrow> nat" where
  "gray i = i XOR (i div 2)"

definition kmap_set_cell :: "KMap \<Rightarrow> int \<Rightarrow> bool \<Rightarrow> KMap" where
  "kmap_set_cell km idx val =
     (if idx \<ge> 0 \<and> idx < 2 ^ km_num_vars km then km\<lparr>km_cells := (km_cells km)(gray (nat idx) := val)\<rparr> else km)"

definition kmap_get_cell :: "KMap \<Rightarrow> int \<Rightarrow> bool" where
  "kmap_get_cell km idx = (if idx < 0 \<or> idx \<ge> 2 ^ km_num_vars km then False else km_cells km (gray (nat idx)))"

definition kmap_simplify :: "KMap \<Rightarrow> SOP" where
  "kmap_simplify km =
     for_range 0 (2 ^ km_num_vars km)
       (\<lambda>i s. if km_cells km i then sop_add_term s (of_nat (2 ^ km_num_vars km - 1)) (of_nat (gray i)) else s)
       (sop_create (int (km_num_vars km)))"

definition kmap_from_sop :: "KMap \<Rightarrow> SOP \<Rightarrow> KMap" where
  "kmap_from_sop km sop =
     for_range 0 (2 ^ km_num_vars km) (\<lambda>r k. if sop_eval sop (of_nat r) then kmap_set_cell k (int r) True else k) km"

definition kmap6_create :: "int \<Rightarrow> KMap6" where
  "kmap6_create num_vars =
     (let n = nat (if num_vars > 6 then 6 else if num_vars < 2 then 2 else num_vars)
      in \<lparr>k6_num_vars = n, k6_rows = 2 ^ (n div 2), k6_cols = 2 ^ ((n + 1) div 2), k6_cells = (\<lambda>_. False),
          k6_row_order = gray, k6_col_order = gray\<rparr>)"

definition kmap6_index :: "KMap6 \<Rightarrow> nat \<Rightarrow> nat" where
  "kmap6_index km idx =
     (let r = (idx div 2 ^ (k6_num_vars km div 2)) mod 2 ^ (k6_num_vars km div 2);
          c = idx mod 2 ^ ((k6_num_vars km + 1) div 2)
      in r * k6_cols km + c)"

definition kmap6_set :: "KMap6 \<Rightarrow> int \<Rightarrow> bool \<Rightarrow> KMap6" where
  "kmap6_set km idx val =
     (if idx \<ge> 0 \<and> idx < 2 ^ k6_num_vars km then km\<lparr>k6_cells := (k6_cells km)(kmap6_index km (nat idx) := val)\<rparr> else km)"

definition kmap6_simplify :: "KMap6 \<Rightarrow> SOP" where
  "kmap6_simplify km =
     for_range 0 (2 ^ k6_num_vars km)
       (\<lambda>i s. if k6_cells km i then sop_add_term s (of_nat (2 ^ k6_num_vars km - 1)) (of_nat i) else s)
       (sop_create (int (k6_num_vars km)))"

section \<open>The tabular minimiser\<close>

definition qmc_minimize :: "int list \<Rightarrow> int \<Rightarrow> int \<Rightarrow> QMCResult option" where
  "qmc_minimize minterms count num_vars =
     (let n0 = (if num_vars > BA_MAX_VARS then BA_MAX_VARS else num_vars); n = nat (if n0 < 1 then 1 else n0);
          empty = \<lparr>qr_num_vars = n, qr_primes = [], qr_minterm_indices = [], qr_minterm_count = 0\<rparr>
      in if count \<le> 0 then Some empty
         else
           let k = min (nat count) BA_MAX_TERMS
           in if k > BA_MAX_IMPLICANTS \<or> k > length minterms then None
              else Some \<lparr>qr_num_vars = n,
                     qr_primes = map (\<lambda>m. \<lparr>im_mask = of_nat (2 ^ n - 1), im_values = word_of_int m, im_covered = [m], im_is_prime = True\<rparr>)
                       (take k minterms),
                     qr_minterm_indices = take k minterms, qr_minterm_count = count\<rparr>)"

definition qmc_to_sop :: "QMCResult \<Rightarrow> SOP" where
  "qmc_to_sop result =
     fold (\<lambda>p s. if length (sop_terms s) < BA_MAX_TERMS then sop_add_term s (im_mask p) (im_values p) else s)
       (qr_primes result) (sop_create (int (qr_num_vars result)))"

section \<open>Cofactors\<close>

definition cofactor_term :: "nat \<Rightarrow> bool \<Rightarrow> Minterm \<Rightarrow> Minterm option" where
  "cofactor_term var val t =
     (if mt_mask t AND push_bit var 1 \<noteq> 0 \<and> (drop_bit var (mt_values t) AND 1 = 1) \<noteq> val then None
      else Some (t\<lparr>mt_mask := mt_mask t AND NOT (push_bit var 1), mt_values := mt_values t AND NOT (push_bit var 1)\<rparr>))"

definition shannon_cofactor :: "SOP \<Rightarrow> int \<Rightarrow> bool \<Rightarrow> SOP" where
  "shannon_cofactor sop var val =
     (let co = sop_create (int (sop_num_vars sop))
      in if var < 0 \<or> var \<ge> int (sop_num_vars sop) then co
         else co\<lparr>sop_terms := take BA_MAX_TERMS (List.map_filter (cofactor_term (nat var) val) (sop_terms sop))\<rparr>)"

definition shannon_verify :: "SOP \<Rightarrow> int \<Rightarrow> bool" where
  "shannon_verify sop var =
     (if var < 0 \<or> var \<ge> int (sop_num_vars sop) then False
      else list_all (\<lambda>r. sop_eval sop (of_nat r) =
             (if bit r (nat var) then sop_eval (shannon_cofactor sop var True) (of_nat r)
              else sop_eval (shannon_cofactor sop var False) (of_nat r))) [0..<2 ^ sop_num_vars sop])"

section \<open>Covered terms\<close>

definition minterm_covers :: "Minterm \<Rightarrow> Minterm \<Rightarrow> bool" where
  "minterm_covers a b =
     (if mt_mask a AND mt_mask b \<noteq> mt_mask b then False
      else mt_values a AND mt_mask b = mt_values b AND mt_mask b)"

definition minterm_combine :: "Minterm \<Rightarrow> Minterm \<Rightarrow> Minterm option" where
  "minterm_combine a b =
     (if mt_mask a \<noteq> mt_mask b then None
      else
        let diff = mt_values a XOR mt_values b
        in if diff = 0 \<or> diff AND (diff - 1) \<noteq> 0 then None
           else Some \<lparr>mt_num_vars = mt_num_vars a, mt_mask = mt_mask a AND NOT diff, mt_values = mt_values a AND NOT diff,
                  mt_is_dont_care = False\<rparr>)"

text \<open>The two loops: every later term that \<open>t\<close> is taken to cover is moved out of the array.\<close>

function espresso_terms :: "Minterm list \<Rightarrow> Minterm list" where
  "espresso_terms [] = []"
| "espresso_terms (t # ts) = t # espresso_terms (filter (\<lambda>u. \<not> minterm_covers t u) ts)"
  by pat_completeness auto
termination by (relation "measure length") (auto simp: le_imp_less_Suc)

definition espresso_reduce :: "SOP \<Rightarrow> nat \<times> SOP" where
  "espresso_reduce sop =
     (let ts = espresso_terms (sop_terms sop) in (length (sop_terms sop) - length ts, sop\<lparr>sop_terms := ts\<rparr>))"

section \<open>Evaluation\<close>

lemma drop_and_eq: "drop_bit v x AND 1 = drop_bit v y AND 1 \<longleftrightarrow> (bit x v \<longleftrightarrow> bit y v)" for x y :: u8
  by (simp add: drop_and_1)

lemma term_true_iff: "term_true n t x \<longleftrightarrow> (\<forall>v < n. bit (mt_mask t) v \<longrightarrow> (bit x v \<longleftrightarrow> bit (mt_values t) v))"
  by (simp only: term_true_def list_all_iff drop_and_eq and_pow2_eq_0 not_not) auto

lemma sop_eval_iff: "sop_eval s x \<longleftrightarrow> (\<exists>t \<in> set (sop_terms s). term_true (sop_num_vars s) t x)"
  by (simp add: sop_eval_def list_ex_iff)

definition sop_ok :: "SOP \<Rightarrow> bool" where
  "sop_ok s \<longleftrightarrow> 1 \<le> sop_num_vars s \<and> sop_num_vars s \<le> 8 \<and> length (sop_terms s) \<le> 256"

lemma sop_create_ok: "1 \<le> n \<Longrightarrow> n \<le> 8 \<Longrightarrow> sop_create (int n) = \<lparr>sop_num_vars = n, sop_terms = []\<rparr>"
  by (simp add: sop_create_def BA_MAX_VARS_def)

definition drop_var :: "nat \<Rightarrow> Minterm \<Rightarrow> Minterm" where
  "drop_var var t = t\<lparr>mt_mask := mt_mask t AND NOT (push_bit var 1), mt_values := mt_values t AND NOT (push_bit var 1)\<rparr>"

lemma cofactor_term_bits: "cofactor_term var val t =
    (if bit (mt_mask t) var \<and> bit (mt_values t) var \<noteq> val then None else Some (drop_var var t))"
proof -
  have "drop_bit var (mt_values t) AND 1 = 1 \<longleftrightarrow> bit (mt_values t) var" by (simp add: drop_and_1)
  then show ?thesis by (simp only: cofactor_term_def and_pow2_eq_0 not_not drop_var_def)
qed

lemma drop_var_true: "term_true n (drop_var var t) x \<longleftrightarrow>
    (\<forall>v < n. v \<noteq> var \<longrightarrow> bit (mt_mask t) v \<longrightarrow> (bit x v \<longleftrightarrow> bit (mt_values t) v))"
proof -
  have "bit (w AND NOT (push_bit var 1)) v \<longleftrightarrow> bit w v \<and> v \<noteq> var" for w :: u8 and v
    by (auto simp: bit_simps dest: bit_imp_le_length)
  then show ?thesis by (simp only: term_true_iff drop_var_def) auto
qed

lemma cofactor_term_true:
  assumes "bit x var \<longleftrightarrow> val" and "var < n"
  shows "term_true n t x \<longleftrightarrow> (\<exists>u. cofactor_term var val t = Some u \<and> term_true n u x)"
  using assms by (auto simp: cofactor_term_bits drop_var_true) (auto simp: term_true_iff)

lemma cofactor_eval:
  assumes "sop_ok s" and "0 \<le> var" and "var < int (sop_num_vars s)" and "bit x (nat var) \<longleftrightarrow> val"
  shows "sop_eval (shannon_cofactor s var val) x = sop_eval s x"
proof -
  let ?ts = "List.map_filter (cofactor_term (nat var) val) (sop_terms s)"
  have "length ?ts \<le> length (sop_terms s)" by (simp add: List.map_filter_def)
  then have sc: "shannon_cofactor s var val = \<lparr>sop_num_vars = sop_num_vars s, sop_terms = ?ts\<rparr>"
    using assms by (simp add: shannon_cofactor_def sop_ok_def sop_create_ok Let_def BA_MAX_TERMS_def)
  have ts: "set ?ts = {u. \<exists>t \<in> set (sop_terms s). cofactor_term (nat var) val t = Some u}"
    by (force simp: List.map_filter_def)
  have v: "nat var < sop_num_vars s" using assms by auto
  have "(\<exists>u \<in> set ?ts. term_true (sop_num_vars s) u x) \<longleftrightarrow> (\<exists>t \<in> set (sop_terms s). term_true (sop_num_vars s) t x)"
    unfolding ts using cofactor_term_true [OF assms(4) v] by blast
  then show ?thesis by (simp add: sop_eval_iff sc)
qed

section \<open>Adjacent terms\<close>

lemma nat_power_of_two_test: "0 < n \<Longrightarrow> n AND (n - 1) = 0 \<Longrightarrow> \<exists>k. n = 2 ^ k" for n :: nat
proof (induction n rule: less_induct)
  case (less n)
  have r: "n AND (n - 1) = of_bool (odd n \<and> odd (n - 1)) + 2 * ((n div 2) AND ((n - 1) div 2))" by (rule and_nat_rec)
  show ?case
  proof (cases "even n")
    case True
    then obtain m where n: "n = 2 * m" by blast
    have "(n - 1) div 2 = m - 1" using less.prems(1) n by simp
    then have "m AND (m - 1) = 0" using r less.prems(2) n by simp
    then obtain k where "m = 2 ^ k" using less.IH [of m] less.prems(1) n by auto
    then have "n = 2 ^ Suc k" using n by simp
    then show ?thesis ..
  next
    case False
    then have "(n - 1) div 2 = n div 2" by (auto elim!: oddE)
    then have "n div 2 = 0" using r less.prems(2) False by simp
    then have "n = 2 ^ 0" using less.prems(1) by simp
    then show ?thesis ..
  qed
qed

lemma power_of_two_test: "d \<noteq> 0 \<Longrightarrow> d AND (d - 1) = 0 \<Longrightarrow> \<exists>k < 8. d = push_bit k 1" for d :: u8
proof -
  assume d: "d \<noteq> 0" and t: "d AND (d - 1) = 0"
  have "unat d AND (unat d - 1) = unat (d AND (d - 1))" using d by (simp add: unsigned_and_eq unat_minus_one)
  then obtain k where k: "unat d = 2 ^ k" using nat_power_of_two_test [of "unat d"] d t by (auto simp: unat_gt_0)
  have "k < 8"
  proof (rule ccontr)
    assume "\<not> k < 8"
    then have "(2 :: nat) ^ 8 \<le> 2 ^ k" by (intro power_increasing) simp_all
    then show False using unat_less_u8 [of d] k by simp
  qed
  moreover have "d = push_bit k 1"
  proof -
    have "d = of_nat (unat d)" by simp
    then show ?thesis unfolding k by (simp add: push_bit_eq_mult)
  qed
  ultimately show ?thesis by blast
qed

lemma all_but_one: "(\<forall>v < n. R v) \<longleftrightarrow> (\<forall>v < n. v \<noteq> k \<longrightarrow> R v) \<and> (k < n \<longrightarrow> R k)" for n :: nat
  by blast

lemma combine_true:
  assumes "minterm_combine a b = Some m"
  shows "term_true n m x \<longleftrightarrow> term_true n a x \<or> term_true n b x"
proof -
  let ?d = "mt_values a XOR mt_values b"
  have m: "mt_mask m = mt_mask a AND NOT ?d" "mt_values m = mt_values a AND NOT ?d" "mt_mask a = mt_mask b"
    and d: "?d \<noteq> 0" "?d AND (?d - 1) = 0"
    using assms by (auto simp: minterm_combine_def Let_def split: if_splits)
  obtain k where k: "k < 8" "?d = push_bit k 1" using power_of_two_test [OF d] by blast
  have dk: "bit ?d v \<longleftrightarrow> v = k" for v using k(1) unfolding k(2) by (auto simp: bit_simps)
  then have vals: "bit (mt_values b) v \<longleftrightarrow> (bit (mt_values a) v \<noteq> (v = k))" for v by (auto simp: bit_xor_iff)
  have mb: "bit (mt_mask m) v \<longleftrightarrow> bit (mt_mask a) v \<and> v \<noteq> k" "bit (mt_values m) v \<longleftrightarrow> bit (mt_values a) v \<and> v \<noteq> k" if "v < 8" for v
    using that dk [of v] unfolding m by (auto simp: bit_and_iff bit_not_iff)
  have len: "bit (mt_mask t) v \<Longrightarrow> v < 8" for t v using bit_imp_le_length by fastforce
  let ?P = "\<lambda>v. bit (mt_mask a) v \<longrightarrow> (bit x v \<longleftrightarrow> bit (mt_values a) v)"
  have "term_true n m x \<longleftrightarrow> (\<forall>v < n. v \<noteq> k \<longrightarrow> ?P v)"
    unfolding term_true_iff using mb len [of m] len [of a] by blast
  moreover have "term_true n a x \<longleftrightarrow> (\<forall>v < n. v \<noteq> k \<longrightarrow> ?P v) \<and> (k < n \<longrightarrow> ?P k)"
    unfolding term_true_iff by blast
  moreover have "term_true n b x \<longleftrightarrow> (\<forall>v < n. v \<noteq> k \<longrightarrow> ?P v) \<and>
      (k < n \<longrightarrow> bit (mt_mask a) k \<longrightarrow> (bit x k \<longleftrightarrow> \<not> bit (mt_values a) k))"
    unfolding term_true_iff m(3) [symmetric] vals by (subst all_but_one [of n _ k]) simp
  ultimately show ?thesis by argo
qed

section \<open>Terms with a full mask\<close>

lemma bit_of_nat_u8: "bit (of_nat r :: u8) v \<longleftrightarrow> v < 8 \<and> bit r v"
  by (simp add: bit_simps)

lemma bit_full_mask: "n \<le> 8 \<Longrightarrow> bit (of_nat (2 ^ n - 1) :: u8) v \<longleftrightarrow> v < n"
proof -
  assume n: "n \<le> 8"
  have "(of_nat (2 ^ n - 1) :: u8) = mask n" by (simp add: mask_eq_exp_minus_1)
  then show ?thesis using n by (auto simp: bit_mask_iff)
qed

lemma full_term_true:
  assumes "n \<le> 8" and "unat x < 2 ^ n" and "unat m < 2 ^ n" and "mt_mask t = of_nat (2 ^ n - 1)" and "mt_values t = m"
  shows "term_true n t x \<longleftrightarrow> x = m"
proof -
  have hi: "\<not> bit y v" if "unat y < 2 ^ n" "n \<le> v" for y :: u8 and v
  proof -
    have "(2 :: nat) ^ n \<le> 2 ^ v" using that(2) by (rule power_increasing) simp
    with that(1) have "unat y < 2 ^ v" by (rule less_le_trans)
    then have "unat y div 2 ^ v = 0" by simp
    then have "\<not> bit (unat y) v" by (simp add: bit_iff_odd)
    then show ?thesis by (simp add: bit_unsigned_iff)
  qed
  have "term_true n t x \<longleftrightarrow> (\<forall>v < n. bit x v \<longleftrightarrow> bit m v)"
    by (simp only: term_true_iff assms(4,5) bit_full_mask [OF assms(1)]) auto
  also have "\<dots> \<longleftrightarrow> x = m"
    using hi [OF assms(2)] hi [OF assms(3)] by (metis bit_eq_iff not_le)
  finally show ?thesis .
qed

section \<open>Properties\<close>

text \<open>
  The Shannon expansion holds of every sum of products: for each of its variables the two cofactors,
  chosen by that variable, evaluate to the function itself, so the check of the source always succeeds.
\<close>

theorem shannon_verify_succeeds:
  assumes "sop_ok s" and "0 \<le> var" and "var < int (sop_num_vars s)"
  shows "shannon_verify s var"
proof -
  have "bit (of_nat r :: u8) (nat var) \<longleftrightarrow> bit r (nat var)" for r :: nat
    using assms by (auto simp: bit_of_nat_u8 sop_ok_def)
  then have "bit r (nat var) \<Longrightarrow> sop_eval (shannon_cofactor s var True) (of_nat r) = sop_eval s (of_nat r)"
    "\<not> bit r (nat var) \<Longrightarrow> sop_eval (shannon_cofactor s var False) (of_nat r) = sop_eval s (of_nat r)" for r :: nat
    by (simp_all add: cofactor_eval [OF assms])
  then show ?thesis using assms by (simp add: shannon_verify_def list_all_iff)
qed

definition sop_example :: SOP where
  "sop_example = sop_add_term (sop_add_term (sop_create 3) 3 1) 6 4"

theorem shannon_verify_succeeds_witness: "shannon_verify sop_example 1"
  by (rule shannon_verify_succeeds)
    (simp_all add: sop_example_def sop_create_def sop_add_term_def sop_ok_def BA_MAX_VARS_def BA_MAX_TERMS_def)

text \<open>
  Combining two adjacent terms is exact: the combined term is true where one of the two is, whatever
  the bit in which they differ, inside the mask or outside.
\<close>

theorem minterm_combine_exact:
  assumes "minterm_combine a b = Some m"
  shows "term_true n m x \<longleftrightarrow> term_true n a x \<or> term_true n b x"
  by (rule combine_true [OF assms])

theorem minterm_combine_exact_witness:
  "term_true 2 \<lparr>mt_num_vars = 2, mt_mask = 1, mt_values = 1, mt_is_dont_care = False\<rparr> 3 \<longleftrightarrow>
   term_true 2 \<lparr>mt_num_vars = 2, mt_mask = 3, mt_values = 3, mt_is_dont_care = False\<rparr> 3 \<or>
   term_true 2 \<lparr>mt_num_vars = 2, mt_mask = 3, mt_values = 1, mt_is_dont_care = False\<rparr> 3"
  by (rule minterm_combine_exact) (simp add: minterm_combine_def Let_def)

definition covered_example :: SOP where
  "covered_example = sop_add_term (sop_add_term (sop_create 2) 3 3) 1 1"

lemma covers_implies: "minterm_covers a b \<Longrightarrow> term_true n a x \<Longrightarrow> term_true n b x"
proof -
  assume c: "minterm_covers a b" and t: "term_true n a x"
  then have e: "mt_mask a AND mt_mask b = mt_mask b" "mt_values a AND mt_mask b = mt_values b AND mt_mask b"
    by (auto simp: minterm_covers_def split: if_splits)
  have "bit (mt_mask b) v \<Longrightarrow> bit (mt_mask a) v \<and> (bit (mt_values a) v \<longleftrightarrow> bit (mt_values b) v)" for v
    using arg_cong [OF e(1), of "\<lambda>w. bit w v"] arg_cong [OF e(2), of "\<lambda>w. bit w v"] by (auto simp: bit_and_iff)
  then show ?thesis using t by (auto simp: term_true_iff)
qed

text \<open>
  The reduction of covered terms keeps the wrong one of a pair: a term is said to cover every term that
  is implied by it, so the general term is removed in favour of the special one.  Reducing
  \<open>A & B | A\<close> leaves \<open>A & B\<close>, which is false where only \<open>A\<close> holds.
\<close>

theorem espresso_keeps_special_term:
  "(minterm_covers a b \<longrightarrow> (\<forall>x. term_true n a x \<longrightarrow> term_true n b x)) \<and>
   sop_eval covered_example 1 \<and> \<not> sop_eval (snd (espresso_reduce covered_example)) 1"
proof -
  have "sop_eval covered_example 1 \<and> \<not> sop_eval (snd (espresso_reduce covered_example)) 1"
    by (simp add: covered_example_def sop_create_def sop_add_term_def BA_MAX_VARS_def BA_MAX_TERMS_def
        espresso_reduce_def minterm_covers_def sop_eval_def term_true_def upt_rec Let_def)
  then show ?thesis using covers_implies by blast
qed

theorem espresso_keeps_special_term_witness: "\<not> sop_eval (snd (espresso_reduce covered_example)) 1"
  using espresso_keeps_special_term by blast

lemma qmc_to_sop_terms:
  assumes "length ps + length (sop_terms s) \<le> 256"
  shows "sop_terms (fold (\<lambda>p s. if length (sop_terms s) < BA_MAX_TERMS then sop_add_term s (im_mask p) (im_values p) else s) ps s) =
    sop_terms s @ map (\<lambda>p. \<lparr>mt_num_vars = sop_num_vars s, mt_mask = im_mask p, mt_values = im_values p, mt_is_dont_care = False\<rparr>) ps \<and>
    sop_num_vars (fold (\<lambda>p s. if length (sop_terms s) < BA_MAX_TERMS then sop_add_term s (im_mask p) (im_values p) else s) ps s) = sop_num_vars s"
  using assms by (induction ps arbitrary: s) (simp_all add: sop_add_term_def BA_MAX_TERMS_def)

text \<open>
  The tabular minimiser followed by its conversion to a sum of products represents the given set of at
  most 128 minterms exactly (it combines none of them).
\<close>

theorem qmc_represents_minterms:
  assumes "1 \<le> n" and "n \<le> 8" and "\<forall>m \<in> set ms. 0 \<le> m \<and> m < 2 ^ n" and "length ms \<le> 128" and "unat x < 2 ^ n"
  shows "\<exists>r. qmc_minimize ms (int (length ms)) (int n) = Some r \<and> (sop_eval (qmc_to_sop r) x \<longleftrightarrow> uint x \<in> set ms)"
proof -
  let ?ps = "map (\<lambda>m. \<lparr>im_mask = of_nat (2 ^ n - 1), im_values = word_of_int m, im_covered = [m], im_is_prime = True\<rparr>) ms"
  define r where "r = \<lparr>qr_num_vars = n, qr_primes = ?ps, qr_minterm_indices = ms, qr_minterm_count = int (length ms)\<rparr>"
  have n: "nat (if int n < 1 then 1 else int n) = n" "\<not> int n > 8" using assms by auto
  have k: "min (length ms) 256 = length ms" using assms by simp
  have q: "qmc_minimize ms (int (length ms)) (int n) = Some r"
    by (cases "ms = []") (use assms(4) in \<open>simp_all only: qmc_minimize_def BA_MAX_VARS_def BA_MAX_TERMS_def
      BA_MAX_IMPLICANTS_def Let_def n k nat_int if_False r_def\<close>, simp_all)
  have r: "qr_primes r = ?ps" "qr_num_vars r = n" by (simp_all add: r_def)
  have t: "sop_num_vars (qmc_to_sop r) = n" "sop_terms (qmc_to_sop r) =
      map (\<lambda>p. \<lparr>mt_num_vars = n, mt_mask = im_mask p, mt_values = im_values p, mt_is_dont_care = False\<rparr>) ?ps"
    using qmc_to_sop_terms [of ?ps "sop_create (int n)"] sop_create_ok [OF assms(1,2)] assms(4)
    by (simp_all add: qmc_to_sop_def r)
  have "term_true n \<lparr>mt_num_vars = n, mt_mask = of_nat (2 ^ n - 1), mt_values = word_of_int m, mt_is_dont_care = False\<rparr> x \<longleftrightarrow> uint x = m"
    if "m \<in> set ms" for m
  proof -
    have m: "0 \<le> m" "m < 2 ^ n" using that assms(3) by auto
    have "(2 :: int) ^ n \<le> 2 ^ 8" by (rule power_increasing) (use assms(2) in simp_all)
    then have u: "uint (word_of_int m :: u8) = m" using m by (simp add: uint_word_of_int)
    then have "unat (word_of_int m :: u8) < 2 ^ n" using m by (simp add: unat_eq_nat_uint nat_less_iff)
    then show ?thesis using full_term_true [OF assms(2,5), of "word_of_int m"] u by (auto simp: word_uint_eq_iff)
  qed
  then have "sop_eval (qmc_to_sop r) x \<longleftrightarrow> uint x \<in> set ms"
    by (auto simp: sop_eval_iff t)
  with q show ?thesis by blast
qed

theorem qmc_represents_minterms_witness:
  "\<exists>r. qmc_minimize [1, 6] 2 3 = Some r \<and> sop_eval (qmc_to_sop r) 6"
  using qmc_represents_minterms [of 3 "[1, 6]" 6] by auto

section \<open>Karnaugh maps\<close>

lemma gray_less: "i < 2 ^ n \<Longrightarrow> gray i < 2 ^ n"
proof -
  assume i: "i < 2 ^ n"
  then have h: "i div 2 < 2 ^ n" by (rule le_less_trans [OF div_le_dividend])
  have "take_bit n (gray i) = gray i" using i h by (simp add: gray_def take_bit_xor take_bit_nat_eq_self)
  then show ?thesis by (simp add: take_bit_nat_eq_self_iff)
qed

lemma kmap_from_sop_cells:
  "km_num_vars (kmap_from_sop km s) = km_num_vars km \<and>
   (\<forall>i. km_cells (kmap_from_sop km s) i \<longleftrightarrow> km_cells km i \<or> (\<exists>r < 2 ^ km_num_vars km. sop_eval s (of_nat r) \<and> i = gray r))"
proof -
  let ?n = "km_num_vars km"
  let ?f = "\<lambda>r k. if sop_eval s (of_nat r) then kmap_set_cell k (int r) True else k"
  let ?I = "\<lambda>j (k :: KMap). km_num_vars k = ?n \<and> (\<forall>i. km_cells k i \<longleftrightarrow> km_cells km i \<or> (\<exists>r < j. sop_eval s (of_nat r) \<and> i = gray r))"
  have "?I (2 ^ ?n) (for_range 0 (2 ^ ?n) ?f km)"
  proof (rule for_range_invariant [where I = ?I])
    fix j k assume j: "j < 2 ^ ?n" and I: "?I j k"
    then have "int j < 2 ^ km_num_vars k" by (metis of_nat_less_iff of_nat_numeral of_nat_power)
    then show "?I (Suc j) (?f j k)" using I by (auto simp: kmap_set_cell_def less_Suc_eq)
  qed simp_all
  then show ?thesis by (simp add: kmap_from_sop_def)
qed

lemma collect_terms:
  assumes "k \<le> 256" and "1 \<le> n" and "n \<le> 8"
  shows "set (sop_terms (for_range 0 k (\<lambda>i s. if P i then sop_add_term s m (v i) else s) (sop_create (int n)))) =
      {\<lparr>mt_num_vars = n, mt_mask = m, mt_values = v i, mt_is_dont_care = False\<rparr> | i. i < k \<and> P i} \<and>
    sop_num_vars (for_range 0 k (\<lambda>i s. if P i then sop_add_term s m (v i) else s) (sop_create (int n))) = n"
proof -
  let ?f = "\<lambda>i s. if P i then sop_add_term s m (v i) else s"
  let ?I = "\<lambda>j (s :: SOP). set (sop_terms s) = {\<lparr>mt_num_vars = n, mt_mask = m, mt_values = v i, mt_is_dont_care = False\<rparr> | i. i < j \<and> P i} \<and>
      sop_num_vars s = n \<and> length (sop_terms s) \<le> j"
  have "?I k (for_range 0 k ?f (sop_create (int n)))"
  proof (rule for_range_invariant [where I = ?I])
    fix j s assume "j < k" and I: "?I j s"
    moreover have "{\<lparr>mt_num_vars = n, mt_mask = m, mt_values = v i, mt_is_dont_care = False\<rparr> | i. i < Suc j \<and> P i} =
        {\<lparr>mt_num_vars = n, mt_mask = m, mt_values = v i, mt_is_dont_care = False\<rparr> | i. i < j \<and> P i} \<union>
        (if P j then {\<lparr>mt_num_vars = n, mt_mask = m, mt_values = v j, mt_is_dont_care = False\<rparr>} else {})"
      by (auto simp: less_Suc_eq)
    ultimately show "?I (Suc j) (?f j s)"
      using assms(1) by (simp add: sop_add_term_def BA_MAX_TERMS_def)
  qed (simp_all add: sop_create_ok [OF assms(2,3)])
  then show ?thesis by simp
qed

lemma kmap_simplify_eval:
  assumes "2 \<le> km_num_vars km" and "km_num_vars km \<le> 4" and "unat x < 2 ^ km_num_vars km"
  shows "sop_eval (kmap_simplify km) x \<longleftrightarrow> (\<exists>i < 2 ^ km_num_vars km. km_cells km i \<and> x = of_nat (gray i))"
proof -
  let ?n = "km_num_vars km"
  have n: "1 \<le> ?n" "?n \<le> 8" using assms by simp_all
  have "(2 :: nat) ^ ?n \<le> 2 ^ 8" by (rule power_increasing) (use n in simp_all)
  then have k: "(2 :: nat) ^ ?n \<le> 256" by simp
  note c = collect_terms [OF k n, of "km_cells km" "of_nat (2 ^ ?n - 1)" "\<lambda>i. of_nat (gray i)", folded kmap_simplify_def]
  have t: "term_true ?n \<lparr>mt_num_vars = ?n, mt_mask = of_nat (2 ^ ?n - 1), mt_values = of_nat (gray i), mt_is_dont_care = False\<rparr> x \<longleftrightarrow>
      x = of_nat (gray i)" if "i < 2 ^ ?n" for i
  proof (rule full_term_true [OF n(2) assms(3)])
    have "gray i < 2 ^ ?n" using that by (rule gray_less)
    moreover then have "unat (of_nat (gray i) :: u8) = gray i" using k by (simp add: unat_of_nat)
    ultimately show "unat (of_nat (gray i) :: u8) < 2 ^ ?n" by simp
  qed simp_all
  show ?thesis unfolding sop_eval_iff using c t by (auto 0 3)
qed

text \<open>
  A Karnaugh map filled from a function and turned back into a sum of products does not give the
  function back: minterm \<open>m\<close> comes back as \<open>gray (gray m)\<close>, since the encoding is applied a second time
  where it should be inverted.  With two variables that is the identity, with three minterm 4 becomes 5.
\<close>

theorem kmap_roundtrip_twice_gray:
  assumes "2 \<le> n" and "n \<le> 4" and "unat x < 2 ^ n"
  shows "(sop_eval (kmap_simplify (kmap_from_sop (kmap_create (int n)) s)) x \<longleftrightarrow>
      (\<exists>m < 2 ^ n. sop_eval s (of_nat m) \<and> x = of_nat (gray (gray m)))) \<and> gray (gray 4) = 5"
proof -
  let ?k = "kmap_from_sop (kmap_create (int n)) s"
  have k: "km_num_vars (kmap_create (int n)) = n" "km_cells (kmap_create (int n)) i = False" for i
    using assms by (auto simp: kmap_create_def)
  have c: "km_num_vars ?k = n" "\<And>i. km_cells ?k i \<longleftrightarrow> (\<exists>m < 2 ^ n. sop_eval s (of_nat m) \<and> i = gray m)"
    using kmap_from_sop_cells [of "kmap_create (int n)" s] by (simp_all add: k)
  have "sop_eval (kmap_simplify ?k) x \<longleftrightarrow> (\<exists>i < 2 ^ n. km_cells ?k i \<and> x = of_nat (gray i))"
    using kmap_simplify_eval [of ?k x] assms by (simp add: c(1))
  also have "\<dots> \<longleftrightarrow> (\<exists>m < 2 ^ n. sop_eval s (of_nat m) \<and> x = of_nat (gray (gray m)))"
    unfolding c(2) using gray_less by blast
  finally show ?thesis by (simp add: gray_def)
qed

theorem kmap_roundtrip_twice_gray_witness:
  "sop_eval (kmap_simplify (kmap_from_sop (kmap_create (int 3)) (sop_add_term (sop_create 3) 7 4))) 5"
proof -
  have "\<exists>m < 2 ^ 3. sop_eval (sop_add_term (sop_create 3) 7 4) (of_nat m) \<and> (5 :: u8) = of_nat (gray (gray m))"
    by (rule exI [of _ 4]) (simp add: sop_eval_def term_true_def sop_add_term_def sop_create_def BA_MAX_VARS_def
        BA_MAX_TERMS_def gray_def upt_rec)
  then show ?thesis using kmap_roundtrip_twice_gray [of 3 5 "sop_add_term (sop_create 3) 7 4"] by simp
qed

end
