(* ===== verification/LogicGate.thy ===== *)
theory LogicGate
  imports Prelude
begin

text \<open>
  Gates, truth tables and Boolean expressions of \<^verbatim>\<open>mini-digital-circuit/src/logic_gate.c\<close>.  A gate is
  evaluated on the values of its input wires.  An expression is a tree whose missing children are
  \<open>Null\<close>; its nodes are not shared, so that freeing a part of a tree does not touch the rest.  \<open>None\<close> is
  a read of an input that the gate does not have.
\<close>

unbundle bit_operations_syntax

section \<open>Gates\<close>

definition LOGIC_MAX_INPUTS :: int where "LOGIC_MAX_INPUTS = 8"

datatype GateType = GATE_AND | GATE_OR | GATE_NOT | GATE_NAND | GATE_NOR | GATE_XOR | GATE_XNOR | GATE_BUF

datatype SignalValue = SIG_LOW | SIG_HIGH | SIG_Z | SIG_X

text \<open>The three loops over the inputs.\<close>

definition and_loop :: "bool list \<Rightarrow> bool" where "and_loop ins = foldl (\<lambda>r v. r \<and> v) True ins"
definition or_loop :: "bool list \<Rightarrow> bool" where "or_loop ins = foldl (\<lambda>r v. r \<or> v) False ins"
definition xor_loop :: "bool list \<Rightarrow> bool" where "xor_loop ins = foldl (\<lambda>r v. r \<noteq> v) False ins"

fun logic_eval :: "GateType \<Rightarrow> bool list \<Rightarrow> bool option" where
  "logic_eval GATE_AND ins = Some (and_loop ins)"
| "logic_eval GATE_OR ins = Some (or_loop ins)"
| "logic_eval GATE_NOT ins = (case ins of [] \<Rightarrow> None | v # _ \<Rightarrow> Some (\<not> v))"
| "logic_eval GATE_NAND ins = Some (\<not> and_loop ins)"
| "logic_eval GATE_NOR ins = Some (\<not> or_loop ins)"
| "logic_eval GATE_XOR ins = Some (xor_loop ins)"
| "logic_eval GATE_XNOR ins = Some (\<not> xor_loop ins)"
| "logic_eval GATE_BUF ins = (case ins of [] \<Rightarrow> None | v # _ \<Rightarrow> Some v)"

fun gate_complement :: "GateType \<Rightarrow> GateType" where
  "gate_complement GATE_AND = GATE_OR" | "gate_complement GATE_OR = GATE_AND"
| "gate_complement GATE_NAND = GATE_NOR" | "gate_complement GATE_NOR = GATE_NAND"
| "gate_complement GATE_XOR = GATE_XNOR" | "gate_complement GATE_XNOR = GATE_XOR"
| "gate_complement ty = ty"

fun gate_precedence :: "GateType \<Rightarrow> int" where
  "gate_precedence GATE_NOT = 3" | "gate_precedence GATE_BUF = 3"
| "gate_precedence GATE_AND = 2" | "gate_precedence GATE_NAND = 2"
| "gate_precedence GATE_XOR = 1" | "gate_precedence GATE_XNOR = 1"
| "gate_precedence _ = 0"

definition is_functionally_complete :: "GateType \<Rightarrow> bool" where
  "is_functionally_complete ty \<longleftrightarrow> ty = GATE_NAND \<or> ty = GATE_NOR"

section \<open>Truth tables\<close>

record TruthTable =
  tt_type :: GateType
  tt_num_inputs :: nat
  tt_table :: "bool arr"

definition row_inputs :: "nat \<Rightarrow> nat \<Rightarrow> bool list" where
  "row_inputs n r = map (\<lambda>b. (r div 2 ^ b) mod 2 = 1) [0..<n]"

definition truth_table_create :: "GateType \<Rightarrow> int \<Rightarrow> TruthTable" where
  "truth_table_create ty num_inputs =
     (let n0 = (if num_inputs > 8 then 8 else num_inputs); n = nat (if n0 < 1 then 1 else n0)
      in \<lparr>tt_type = ty, tt_num_inputs = n,
          tt_table = for_range 0 (min (2 ^ n) 256)
            (\<lambda>r t. t(r := the (logic_eval ty (row_inputs n r)))) (\<lambda>_. False)\<rparr>)"

definition truth_table_lookup :: "TruthTable \<Rightarrow> int \<Rightarrow> bool" where
  "truth_table_lookup tt row = (if row < 0 \<or> row \<ge> 2 ^ tt_num_inputs tt then False else tt_table tt (nat row))"

section \<open>Laws that the program checks by enumeration\<close>

definition verify_de_morgan :: "int \<Rightarrow> bool" where
  "verify_de_morgan num_inputs =
     (let n = nat (if num_inputs < 1 \<or> num_inputs > 6 then 2 else num_inputs)
      in list_all (\<lambda>r.
           let ins = row_inputs n r;
               and_r = foldl (\<lambda>x b. x \<and> b) True ins; nor_r = foldl (\<lambda>x b. x \<or> \<not> b) False ins;
               or_r = foldl (\<lambda>x b. x \<or> b) False ins; nand_r = foldl (\<lambda>x b. x \<and> \<not> b) True ins
           in (\<not> and_r) = nor_r \<and> (\<not> or_r) = nand_r) [0..<2 ^ n])"

definition verify_absorption :: bool where
  "verify_absorption = list_all (\<lambda>a. list_all (\<lambda>b. (a \<or> (a \<and> b)) = a) [False, True]) [False, True]"

definition verify_consensus :: bool where
  "verify_consensus = list_all (\<lambda>a. list_all (\<lambda>b. list_all (\<lambda>c.
     ((a \<and> b) \<or> (\<not> a \<and> c) \<or> (b \<and> c)) = ((a \<and> b) \<or> (\<not> a \<and> c))) [False, True]) [False, True]) [False, True]"

definition func_code :: "(bool \<Rightarrow> bool \<Rightarrow> bool) \<Rightarrow> nat" where
  "func_code f = (if f False False then 1 else 0) + (if f False True then 2 else 0) +
     (if f True False then 4 else 0) + (if f True True then 8 else 0)"

definition nand_synthesize_count :: "(bool \<Rightarrow> bool \<Rightarrow> bool) \<Rightarrow> int" where
  "nand_synthesize_count f =
     (let code = func_code f
      in if code \<in> {0, 15} then 0 else if code \<in> {1, 3, 5, 10, 12} then 1 else if code \<in> {2, 4, 7, 8} then 2
         else if code \<in> {11, 13, 14} then 3 else if code \<in> {6, 9} then 4 else 0)"

definition nor_synthesize_count :: "(bool \<Rightarrow> bool \<Rightarrow> bool) \<Rightarrow> int" where
  "nor_synthesize_count f =
     (let code = func_code f
      in if code \<in> {0, 15} then 0 else if code \<in> {1, 5, 10} then 1 else if code \<in> {3, 7, 12, 14} then 2
         else if code \<in> {2, 4, 8, 11, 13} then 3 else if code \<in> {6, 9} then 5 else 0)"

section \<open>Expressions\<close>

datatype BoolNodeType = BOOL_CONST | BOOL_VAR | BOOL_AND | BOOL_OR | BOOL_NOT | BOOL_XOR

datatype BoolExpr = Null | Node BoolNodeType bool int BoolExpr BoolExpr

definition bool_expr_const :: "bool \<Rightarrow> BoolExpr" where "bool_expr_const v = Node BOOL_CONST v (-1) Null Null"
definition bool_expr_var :: "int \<Rightarrow> BoolExpr" where "bool_expr_var i = Node BOOL_VAR False i Null Null"
definition bool_expr_create :: "BoolNodeType \<Rightarrow> BoolExpr \<Rightarrow> BoolExpr \<Rightarrow> BoolExpr" where
  "bool_expr_create ty l r = Node ty False (-1) l r"

fun bool_expr_eval :: "BoolExpr \<Rightarrow> (int \<Rightarrow> bool) option \<Rightarrow> bool" where
  "bool_expr_eval Null vals = False"
| "bool_expr_eval (Node BOOL_CONST c v l r) vals = c"
| "bool_expr_eval (Node BOOL_VAR c v l r) vals = (case vals of None \<Rightarrow> False | Some f \<Rightarrow> f v)"
| "bool_expr_eval (Node BOOL_AND c v l r) vals = (bool_expr_eval l vals \<and> bool_expr_eval r vals)"
| "bool_expr_eval (Node BOOL_OR c v l r) vals = (bool_expr_eval l vals \<or> bool_expr_eval r vals)"
| "bool_expr_eval (Node BOOL_NOT c v l r) vals = (\<not> bool_expr_eval l vals)"
| "bool_expr_eval (Node BOOL_XOR c v l r) vals = (bool_expr_eval l vals \<noteq> bool_expr_eval r vals)"

fun bool_expr_clone :: "BoolExpr \<Rightarrow> BoolExpr" where
  "bool_expr_clone Null = Null"
| "bool_expr_clone (Node ty c v l r) = Node ty c v (bool_expr_clone l) (bool_expr_clone r)"

text \<open>The constant a node is, if it is one.\<close>

fun const_of :: "BoolExpr \<Rightarrow> bool option" where
  "const_of (Node BOOL_CONST c v l r) = Some c"
| "const_of _ = None"

text \<open>The \<open>switch\<close> over a node whose children are simplified already.\<close>

fun simplify_node :: "BoolNodeType \<Rightarrow> bool \<Rightarrow> int \<Rightarrow> BoolExpr \<Rightarrow> BoolExpr \<Rightarrow> BoolExpr" where
  "simplify_node BOOL_AND c v l r =
     (case const_of r of
        Some b \<Rightarrow> if b then l else Node BOOL_CONST False v Null Null
      | None \<Rightarrow>
          (case const_of l of
             Some b \<Rightarrow> if b then r else Node BOOL_CONST False v Null Null
           | None \<Rightarrow> Node BOOL_AND c v l r))"
| "simplify_node BOOL_OR c v l r =
     (case const_of r of
        Some b \<Rightarrow> if b then Node BOOL_CONST True v Null Null else l
      | None \<Rightarrow>
          (case const_of l of
             Some b \<Rightarrow> if b then Node BOOL_CONST True v Null Null else r
           | None \<Rightarrow> Node BOOL_OR c v l r))"
| "simplify_node BOOL_NOT c v l r =
     (case l of
        Node BOOL_NOT c2 v2 l2 r2 \<Rightarrow> l2
      | _ \<Rightarrow> (case const_of l of Some b \<Rightarrow> Node BOOL_CONST (\<not> b) v Null r | None \<Rightarrow> Node BOOL_NOT c v l r))"
| "simplify_node ty c v l r = Node ty c v l r"

fun bool_expr_simplify :: "BoolExpr \<Rightarrow> BoolExpr" where
  "bool_expr_simplify Null = Null"
| "bool_expr_simplify (Node ty c v l r) = simplify_node ty c v (bool_expr_simplify l) (bool_expr_simplify r)"

fun bool_expr_node_count :: "BoolExpr \<Rightarrow> nat" where
  "bool_expr_node_count Null = 0"
| "bool_expr_node_count (Node ty c v l r) = 1 + bool_expr_node_count l + bool_expr_node_count r"

fun bool_expr_depth :: "BoolExpr \<Rightarrow> nat" where
  "bool_expr_depth Null = 0"
| "bool_expr_depth (Node ty c v l r) = 1 + max (bool_expr_depth l) (bool_expr_depth r)"

section \<open>Lemmas\<close>

lemma and_loop_iff: "and_loop ins \<longleftrightarrow> (\<forall>v \<in> set ins. v)"
proof -
  have "foldl (\<lambda>r v. r \<and> v) b ins \<longleftrightarrow> b \<and> (\<forall>v \<in> set ins. v)" for b by (induction ins arbitrary: b) auto
  then show ?thesis by (simp add: and_loop_def)
qed

lemma or_loop_iff: "or_loop ins \<longleftrightarrow> (\<exists>v \<in> set ins. v)"
proof -
  have "foldl (\<lambda>r v. r \<or> v) b ins \<longleftrightarrow> b \<or> (\<exists>v \<in> set ins. v)" for b by (induction ins arbitrary: b) auto
  then show ?thesis by (simp add: or_loop_def)
qed

lemma xor_loop_iff: "xor_loop ins \<longleftrightarrow> odd (length (filter id ins))"
proof -
  have "foldl (\<lambda>r v. r \<noteq> v) b ins \<longleftrightarrow> b \<noteq> odd (length (filter id ins))" for b by (induction ins arbitrary: b) auto
  then show ?thesis by (simp add: xor_loop_def)
qed

lemma const_of_Some: "const_of e = Some b \<longleftrightarrow> (\<exists>v l r. e = Node BOOL_CONST b v l r)"
  by (cases e rule: const_of.cases) auto

lemma simplify_node_eval: "bool_expr_eval (simplify_node ty c v l r) vals = bool_expr_eval (Node ty c v l r) vals"
  by (cases "(ty, c, v, l, r)" rule: simplify_node.cases)
    (auto simp: const_of_Some split: option.splits BoolExpr.splits BoolNodeType.splits)

lemma simplify_node_count: "bool_expr_node_count (simplify_node ty c v l r) \<le> bool_expr_node_count (Node ty c v l r)"
  by (cases "(ty, c, v, l, r)" rule: simplify_node.cases)
    (auto simp: const_of_Some split: option.splits BoolExpr.splits BoolNodeType.splits)

lemma simplify_node_depth: "bool_expr_depth (simplify_node ty c v l r) \<le> bool_expr_depth (Node ty c v l r)"
  by (cases "(ty, c, v, l, r)" rule: simplify_node.cases)
    (auto simp: const_of_Some split: option.splits BoolExpr.splits BoolNodeType.splits)

section \<open>Properties\<close>

text \<open>
  C27: Simplification of an expression keeps its value under every assignment, and the result has neither
  more nodes nor a greater depth.
\<close>

theorem bool_expr_simplify_correct:
  "bool_expr_eval (bool_expr_simplify e) vals = bool_expr_eval e vals \<and>
   bool_expr_node_count (bool_expr_simplify e) \<le> bool_expr_node_count e \<and>
   bool_expr_depth (bool_expr_simplify e) \<le> bool_expr_depth e"
proof (induction e)
  case (Node ty c v l r)
  have "bool_expr_eval (Node ty c v (bool_expr_simplify l) (bool_expr_simplify r)) vals = bool_expr_eval (Node ty c v l r) vals"
    using Node by (cases ty) simp_all
  moreover have "bool_expr_node_count (Node ty c v (bool_expr_simplify l) (bool_expr_simplify r)) \<le> bool_expr_node_count (Node ty c v l r)"
    "bool_expr_depth (Node ty c v (bool_expr_simplify l) (bool_expr_simplify r)) \<le> bool_expr_depth (Node ty c v l r)"
    using Node by auto
  ultimately show ?case
    using simplify_node_eval [of ty c v "bool_expr_simplify l" "bool_expr_simplify r" vals]
      simplify_node_count [of ty c v "bool_expr_simplify l" "bool_expr_simplify r"]
      simplify_node_depth [of ty c v "bool_expr_simplify l" "bool_expr_simplify r"]
    by (simp only: bool_expr_simplify.simps) linarith
qed simp

text \<open>
  The truth table of every gate with one to eight inputs lists the value of the gate on the bits of
  the row number, and nothing outside the table is true.
\<close>

theorem truth_table_rows:
  assumes "1 \<le> n" and "n \<le> 8"
  shows "truth_table_lookup (truth_table_create ty (int n)) row =
    (0 \<le> row \<and> row < 2 ^ n \<and> logic_eval ty (row_inputs n (nat row)) = Some True)"
proof -
  let ?g = "\<lambda>r. the (logic_eval ty (row_inputs n r))"
  let ?t = "for_range 0 (2 ^ n) (\<lambda>r t. t(r := ?g r)) (\<lambda>_. False)"
  have "?t = (\<lambda>r. r < 2 ^ n \<and> ?g r)"
    by (rule for_range_invariant [where I = "\<lambda>i t. t = (\<lambda>r. r < i \<and> ?g r)"]) (auto simp: fun_eq_iff less_Suc_eq)
  moreover have "(2 :: nat) ^ n \<le> 2 ^ 8" by (rule power_increasing) (use assms in simp_all)
  ultimately have t: "truth_table_create ty (int n) = \<lparr>tt_type = ty, tt_num_inputs = n, tt_table = (\<lambda>r. r < 2 ^ n \<and> ?g r)\<rparr>"
    using assms by (simp add: truth_table_create_def Let_def min_def)
  have e: "logic_eval ty (row_inputs n r) = Some b \<longleftrightarrow> b = ?g r" for r b
    using assms by (cases ty) (auto simp: row_inputs_def upt_conv_Cons)
  have "nat row < 2 ^ n \<longleftrightarrow> row < 2 ^ n" if "0 \<le> row"
    using that by (simp add: nat_less_iff)
  then show ?thesis by (auto simp: t truth_table_lookup_def e)
qed

theorem truth_table_rows_witness: "truth_table_lookup (truth_table_create GATE_XOR (int 3)) 7"
  using truth_table_rows [of 3 GATE_XOR 7] by (simp add: row_inputs_def xor_loop_def upt_rec)

text \<open>The gate counts say two NAND gates for \<open>NAND\<close> itself and one for \<open>NOR\<close>.\<close>

lemma nand_counts_of_basic_functions:
  "nand_synthesize_count (\<lambda>a b. \<not> (a \<and> b)) = 2 \<and> nand_synthesize_count (\<lambda>a b. \<not> (a \<or> b)) = 1 \<and>
   nor_synthesize_count (\<lambda>a b. \<not> (a \<or> b)) = 1"
  by (simp add: nand_synthesize_count_def nor_synthesize_count_def func_code_def)

text \<open>The laws hold, so the three checks succeed.\<close>

lemma laws_verified: "verify_de_morgan n \<and> verify_absorption \<and> verify_consensus"
proof -
  have "foldl (\<lambda>x b. x \<or> \<not> b) y ins \<longleftrightarrow> y \<or> (\<exists>v \<in> set ins. \<not> v)"
    "foldl (\<lambda>x b. x \<and> \<not> b) y ins \<longleftrightarrow> y \<and> (\<forall>v \<in> set ins. \<not> v)"
    "foldl (\<lambda>x b. x \<or> b) y ins \<longleftrightarrow> y \<or> (\<exists>v \<in> set ins. v)"
    "foldl (\<lambda>x b. x \<and> b) y ins \<longleftrightarrow> y \<and> (\<forall>v \<in> set ins. v)" for y ins
    by (induction ins arbitrary: y) auto
  then have "verify_de_morgan n" by (simp add: verify_de_morgan_def list_all_iff Let_def)
  then show ?thesis by (simp add: verify_absorption_def verify_consensus_def)
qed

end
