(* ===== verification/GateNet.thy ===== *)
theory GateNet
  imports LogicGate
begin

text \<open>
  Gate networks of \<^verbatim>\<open>mini-digital-circuit/src/logic_gate.c\<close>: wires and gates with their input and
  output pointers as wire numbers (an input that was not a wire is NULL), the topological sort by
  counting incoming edges, and the evaluation in that order.  \<open>None\<close> is a use of NULL or of an array
  outside its bounds.
\<close>

section \<open>Data\<close>

definition GATE_NET_MAX_GATES :: nat where "GATE_NET_MAX_GATES = 256"
definition GATE_NET_MAX_WIRES :: nat where "GATE_NET_MAX_WIRES = 512"

record NetGate =
  ng_type :: GateType
  ng_inputs :: "nat option list"
  ng_output :: nat

text \<open>\<open>order\<close> is the part that is not -1.\<close>

record GateNetwork =
  gn_gates :: "NetGate list"
  gn_wires :: "bool arr"
  gn_wire_count :: nat
  gn_sorted :: bool
  gn_order :: "nat list"

section \<open>Construction\<close>

definition gate_net_create :: GateNetwork where
  "gate_net_create = \<lparr>gn_gates = [], gn_wires = (\<lambda>_. False), gn_wire_count = 0, gn_sorted = False, gn_order = []\<rparr>"

definition gate_net_add_wire :: "GateNetwork \<Rightarrow> int \<times> GateNetwork" where
  "gate_net_add_wire net =
     (if gn_wire_count net \<ge> GATE_NET_MAX_WIRES then (-1, net)
      else (int (gn_wire_count net), net\<lparr>gn_wires := (gn_wires net)(gn_wire_count net := False), gn_wire_count := gn_wire_count net + 1\<rparr>))"

definition input_pointer :: "GateNetwork \<Rightarrow> int \<Rightarrow> nat option" where
  "input_pointer net i = (if i \<ge> 0 \<and> i < int (gn_wire_count net) then Some (nat i) else None)"

definition gate_net_add_gate :: "GateNetwork \<Rightarrow> GateType \<Rightarrow> int list \<Rightarrow> int \<Rightarrow> (int \<times> GateNetwork) option" where
  "gate_net_add_gate net ty input_ids out_id =
     (if length (gn_gates net) \<ge> GATE_NET_MAX_GATES then Some (-1, net)
      else if out_id < 0 \<or> out_id \<ge> int GATE_NET_MAX_WIRES then None
      else Some (int (length (gn_gates net)),
             net\<lparr>gn_gates := gn_gates net @ [\<lparr>ng_type = ty, ng_inputs = map (input_pointer net) (take (nat LOGIC_MAX_INPUTS) input_ids),
                   ng_output = nat out_id\<rparr>], gn_sorted := False\<rparr>))"

definition gate_net_reset :: "GateNetwork \<Rightarrow> GateNetwork" where
  "gate_net_reset net = net\<lparr>gn_wires := for_range 0 (gn_wire_count net) (\<lambda>i w. w(i := False)) (gn_wires net)\<rparr>"

section \<open>Sorting\<close>

text \<open>How often the inputs of gate \<open>j\<close> are the output of gate \<open>i\<close>.\<close>

definition edge_count :: "NetGate list \<Rightarrow> nat \<Rightarrow> nat \<Rightarrow> nat" where
  "edge_count gs i j = length (filter (\<lambda>w. w = Some (ng_output (gs ! i))) (ng_inputs (gs ! j)))"

definition indegrees :: "NetGate list \<Rightarrow> int arr" where
  "indegrees gs =
     for_range 0 (length gs) (\<lambda>i ind. for_range 0 (length gs)
       (\<lambda>j ind. if i = j then ind else ind(j := ind j + int (edge_count gs i j))) ind) (\<lambda>_. 0)"

text \<open>The loop over the inputs of gate \<open>j\<close>: \<open>if (input == out && --indegree[j] == 0) queue[qt++] = j\<close>.\<close>

definition release_gate :: "NetGate list \<Rightarrow> nat \<Rightarrow> nat \<Rightarrow> int arr \<times> nat list \<Rightarrow> int arr \<times> nat list" where
  "release_gate gs u j st =
     fold (\<lambda>w (ind, queue). if w = Some (ng_output (gs ! u))
        then (ind(j := ind j - 1), if ind j - 1 = 0 then queue @ [j] else queue) else (ind, queue)) (ng_inputs (gs ! j)) st"

definition release_all :: "NetGate list \<Rightarrow> nat \<Rightarrow> int arr \<times> nat list \<Rightarrow> int arr \<times> nat list" where
  "release_all gs u st = for_range 0 (length gs) (\<lambda>j st. if u = j then st else release_gate gs u j st) st"

text \<open>The queue is never longer than its 256 entries, or the loop writes outside it.\<close>

function topo_loop :: "NetGate list \<Rightarrow> nat \<Rightarrow> int arr \<times> nat list \<Rightarrow> nat list option" where
  "topo_loop gs qh (ind, queue) =
     (if length queue > GATE_NET_MAX_GATES then None
      else if qh < length queue then topo_loop gs (qh + 1) (release_all gs (queue ! qh) (ind, queue))
      else Some queue)"
  by pat_completeness auto
termination by (relation "measure (\<lambda>(gs, qh, ind, queue). GATE_NET_MAX_GATES - qh)") auto

definition gate_net_topo_sort :: "GateNetwork \<Rightarrow> (bool \<times> GateNetwork) option" where
  "gate_net_topo_sort net =
     (if gn_gates net = [] then Some (True, net\<lparr>gn_sorted := True\<rparr>)
      else
        let gs = gn_gates net; ind = indegrees gs
        in case topo_loop gs 0 (ind, filter (\<lambda>i. ind i = 0) [0..<length gs]) of
             None \<Rightarrow> None
           | Some order \<Rightarrow>
               let ok = (length order = length gs) in Some (ok, net\<lparr>gn_order := order, gn_sorted := ok\<rparr>))"

section \<open>Evaluation\<close>

text \<open>The conjunction and disjunction stop at the first input that decides them.\<close>

fun and_read :: "bool arr \<Rightarrow> nat option list \<Rightarrow> bool option" where
  "and_read w [] = Some True"
| "and_read w (None # ins) = None"
| "and_read w (Some i # ins) = (if w i then and_read w ins else Some False)"

fun or_read :: "bool arr \<Rightarrow> nat option list \<Rightarrow> bool option" where
  "or_read w [] = Some False"
| "or_read w (None # ins) = None"
| "or_read w (Some i # ins) = (if w i then Some True else or_read w ins)"

fun xor_read :: "bool arr \<Rightarrow> nat option list \<Rightarrow> bool option" where
  "xor_read w [] = Some False"
| "xor_read w (None # ins) = None"
| "xor_read w (Some i # ins) = map_option (\<lambda>r. w i \<noteq> r) (xor_read w ins)"

fun gate_read :: "bool arr \<Rightarrow> GateType \<Rightarrow> nat option list \<Rightarrow> bool option" where
  "gate_read w GATE_AND ins = and_read w ins"
| "gate_read w GATE_OR ins = or_read w ins"
| "gate_read w GATE_NOT ins = (case ins of Some i # _ \<Rightarrow> Some (\<not> w i) | _ \<Rightarrow> None)"
| "gate_read w GATE_NAND ins = map_option Not (and_read w ins)"
| "gate_read w GATE_NOR ins = map_option Not (or_read w ins)"
| "gate_read w GATE_XOR ins = xor_read w ins"
| "gate_read w GATE_XNOR ins = map_option Not (xor_read w ins)"
| "gate_read w GATE_BUF ins = (case ins of Some i # _ \<Rightarrow> Some (w i) | _ \<Rightarrow> None)"

fun eval_order :: "NetGate list \<Rightarrow> nat list \<Rightarrow> bool arr \<Rightarrow> bool arr option" where
  "eval_order gs [] w = Some w"
| "eval_order gs (g # order) w =
     (case gate_read w (ng_type (gs ! g)) (ng_inputs (gs ! g)) of
        None \<Rightarrow> None
      | Some v \<Rightarrow> eval_order gs order (w(ng_output (gs ! g) := v)))"

definition gate_net_evaluate :: "GateNetwork \<Rightarrow> GateNetwork option" where
  "gate_net_evaluate net =
     (case (if gn_sorted net then Some net else map_option snd (gate_net_topo_sort net)) of
        None \<Rightarrow> None
      | Some n \<Rightarrow>
          map_option (\<lambda>w. n\<lparr>gn_wires := w\<rparr>)
            (eval_order (gn_gates n) (filter (\<lambda>g. g < length (gn_gates n)) (take (length (gn_gates n)) (gn_order n))) (gn_wires n)))"

section \<open>The sort\<close>

text \<open>The edges the sort counts: from a gate to another that reads its output.\<close>

definition net_edges :: "NetGate list \<Rightarrow> (nat \<times> nat) set" where
  "net_edges gs = {(i, j). i < length gs \<and> j < length gs \<and> i \<noteq> j \<and> 0 < edge_count gs i j}"

definition open_preds :: "NetGate list \<Rightarrow> nat set \<Rightarrow> nat \<Rightarrow> int" where
  "open_preds gs don j = (\<Sum>i \<in> {..<length gs} - don - {j}. int (edge_count gs i j))"

lemma count_into_j: "for_range 0 m (\<lambda>j ind. if i = j then ind else ind(j := ind j + c j)) ind k =
    (if k < m \<and> k \<noteq> i then ind k + c k else ind k)" for c :: "nat \<Rightarrow> int"
proof (induction m)
  case (Suc m)
  show ?case using Suc by (cases "k = m"; cases "i = m") (simp_all add: for_range_Suc)
qed simp

lemma indegrees_val: "j < length gs \<Longrightarrow> indegrees gs j = open_preds gs {} j"
proof -
  assume j: "j < length gs"
  let ?f = "\<lambda>i j (ind :: int arr). if i = j then ind else ind(j := ind j + int (edge_count gs i j))"
  have "for_range 0 m (\<lambda>i ind. for_range 0 (length gs) (?f i) ind) (\<lambda>_. 0) j = (\<Sum>i \<in> {..<m} - {j}. int (edge_count gs i j))" for m
  proof (induction m)
    case (Suc m)
    have e: "{..<Suc m} - {j} = (if m = j then {..<m} - {j} else insert m ({..<m} - {j}))" by auto
    show ?case
    proof (cases "m = j")
      case True
      then show ?thesis using Suc e j by (simp add: for_range_Suc count_into_j)
    next
      case False
      then have "(\<Sum>i \<in> {..<Suc m} - {j}. int (edge_count gs i j)) = int (edge_count gs m j) + (\<Sum>i \<in> {..<m} - {j}. int (edge_count gs i j))"
        using e by (simp add: sum.insert)
      then show ?thesis using Suc False j by (simp add: for_range_Suc count_into_j)
    qed
  qed simp
  from this [of "length gs"] show ?thesis by (simp add: indegrees_def open_preds_def)
qed

lemma open_preds_step:
  assumes "u < length gs" and "u \<notin> don" and "u \<noteq> j"
  shows "open_preds gs (insert u don) j = open_preds gs don j - int (edge_count gs u j)"
proof -
  have "{..<length gs} - don - {j} = insert u ({..<length gs} - insert u don - {j})" using assms by auto
  then show ?thesis by (simp add: open_preds_def)
qed

lemma open_preds_nonneg: "0 \<le> open_preds gs don j"
  by (simp add: open_preds_def sum_nonneg)

lemma open_preds_0: "open_preds gs don j = 0 \<longleftrightarrow> (\<forall>i < length gs. i \<notin> don \<and> i \<noteq> j \<longrightarrow> edge_count gs i j = 0)"
  by (auto simp: open_preds_def sum_nonneg_eq_0_iff)

lemma fold_release:
  "int (length (filter (\<lambda>w. w = a) ws)) \<le> ind j \<Longrightarrow>
   fold (\<lambda>w (ind, queue). if w = a then (ind(j := ind j - 1), if ind j - 1 = 0 then queue @ [j] else queue) else (ind, queue)) ws (ind, queue) =
     (ind(j := ind j - int (length (filter (\<lambda>w. w = a) ws))),
      if 0 < length (filter (\<lambda>w. w = a) ws) \<and> ind j = int (length (filter (\<lambda>w. w = a) ws)) then queue @ [j] else queue)"
  for ind :: "int arr"
proof (induction ws arbitrary: ind queue)
  case (Cons w ws)
  show ?case
  proof (cases "w = a")
    case True
    have c: "int (length (filter (\<lambda>w. w = a) ws)) \<le> (ind(j := ind j - 1)) j" using Cons.prems True by simp
    show ?thesis
    proof (cases "ind j = 1")
      case one: True
      then have "filter (\<lambda>w. w = a) ws = []" using c by simp
      then show ?thesis using Cons.IH [of "ind(j := ind j - 1)" "queue @ [j]"] True one by (simp add: fun_upd_def cong: if_cong)
    next
      case False
      then show ?thesis using Cons.IH [of "ind(j := ind j - 1)" queue] c True Cons.prems by (auto simp: fun_upd_def algebra_simps cong: if_cong)
    qed
  qed (use Cons in simp)
qed simp

lemma release_gate_result:
  assumes "int (edge_count gs u j) \<le> ind j"
  shows "release_gate gs u j (ind, queue) =
    (ind(j := ind j - int (edge_count gs u j)),
     if 0 < edge_count gs u j \<and> ind j = int (edge_count gs u j) then queue @ [j] else queue)"
  using assms unfolding release_gate_def edge_count_def by (rule fold_release)

lemma release_all_result:
  assumes "\<And>j. j < length gs \<Longrightarrow> j \<noteq> u \<Longrightarrow> int (edge_count gs u j) \<le> ind j"
  shows "release_all gs u (ind, queue) =
    ((\<lambda>j. if j < length gs \<and> j \<noteq> u then ind j - int (edge_count gs u j) else ind j),
     queue @ filter (\<lambda>j. j \<noteq> u \<and> 0 < edge_count gs u j \<and> ind j = int (edge_count gs u j)) [0..<length gs])"
proof -
  have "m \<le> length gs \<Longrightarrow> for_range 0 m (\<lambda>j st. if u = j then st else release_gate gs u j st) (ind, queue) =
    ((\<lambda>j. if j < m \<and> j \<noteq> u then ind j - int (edge_count gs u j) else ind j),
     queue @ filter (\<lambda>j. j \<noteq> u \<and> 0 < edge_count gs u j \<and> ind j = int (edge_count gs u j)) [0..<m])" for m
  proof (induction m)
    case (Suc m)
    show ?case
    proof (cases "m = u")
      case True
      then show ?thesis using Suc by (auto simp: for_range_Suc fun_eq_iff less_Suc_eq)
    next
      case False
      let ?i = "\<lambda>j. if j < m \<and> j \<noteq> u then ind j - int (edge_count gs u j) else ind j"
      have r: "int (edge_count gs u m) \<le> ?i m" using assms [of m] Suc.prems False by simp
      have f: "?i(m := ?i m - int (edge_count gs u m)) = (\<lambda>j. if j < Suc m \<and> j \<noteq> u then ind j - int (edge_count gs u j) else ind j)"
        using False by (auto simp: fun_eq_iff less_Suc_eq)
      show ?thesis using Suc release_gate_result [of gs u m ?i, OF r] False f by (simp add: for_range_Suc)
    qed
  qed simp
  from this [of "length gs"] show ?thesis by (simp add: release_all_def)
qed

definition topo_inv :: "NetGate list \<Rightarrow> nat \<Rightarrow> int arr \<Rightarrow> nat list \<Rightarrow> bool" where
  "topo_inv gs qh ind queue \<longleftrightarrow>
     qh \<le> length queue \<and> distinct queue \<and> set queue \<subseteq> {..<length gs} \<and>
     (\<forall>j < length gs. ind j = open_preds gs (set (take qh queue)) j) \<and>
     (\<forall>j < length gs. j \<in> set queue \<longleftrightarrow> ind j = 0) \<and>
     (\<forall>p < length queue. \<forall>i. (i, queue ! p) \<in> net_edges gs \<longrightarrow> i \<in> set (take p queue))"

lemma topo_inv_step:
  assumes inv: "topo_inv gs qh ind queue" and q: "qh < length queue"
    and r: "release_all gs (queue ! qh) (ind, queue) = (ind', queue')"
  shows "topo_inv gs (Suc qh) ind' queue'"
proof -
  let ?u = "queue ! qh" and ?don = "set (take qh queue)" and ?n = "length gs"
  from inv have d: "distinct queue" and sub: "set queue \<subseteq> {..<?n}"
    and op: "\<And>j. j < ?n \<Longrightarrow> ind j = open_preds gs ?don j" and z: "\<And>j. j < ?n \<Longrightarrow> j \<in> set queue \<longleftrightarrow> ind j = 0"
    and pre: "\<And>p i. p < length queue \<Longrightarrow> (i, queue ! p) \<in> net_edges gs \<Longrightarrow> i \<in> set (take p queue)"
    unfolding topo_inv_def by blast+
  have u2: "?u \<in> set queue" by (rule nth_mem [OF q])
  then have u: "?u < ?n" "?u \<in> set queue" using sub by (simp_all add: subset_iff)
  have un: "?u \<notin> ?don" using d q by (auto simp: in_set_conv_nth distinct_conv_nth)
  have step: "open_preds gs (insert ?u ?don) j = ind j - int (edge_count gs ?u j)" if "j < ?n" "j \<noteq> ?u" for j
    using open_preds_step [OF u(1) un, of j] op [OF that(1)] that by auto
  have le: "int (edge_count gs ?u j) \<le> ind j" if "j < ?n" "j \<noteq> ?u" for j
    using step [OF that] open_preds_nonneg [of gs "insert ?u ?don" j] by simp
  let ?new = "filter (\<lambda>j. j \<noteq> ?u \<and> 0 < edge_count gs ?u j \<and> ind j = int (edge_count gs ?u j)) [0..<?n]"
  have ind': "ind' j = (if j < ?n \<and> j \<noteq> ?u then ind j - int (edge_count gs ?u j) else ind j)" for j
    using release_all_result [of gs ?u ind queue] le r by auto
  have q': "queue' = queue @ ?new" using release_all_result [of gs ?u ind queue] le r by simp
  have tk: "set (take (Suc qh) queue') = insert ?u ?don" using q q' by (simp add: take_Suc_conv_app_nth)
  have op': "ind' j = open_preds gs (insert ?u ?don) j" if "j < ?n" for j
  proof (cases "j = ?u")
    case True
    have "{..<?n} - insert ?u ?don - {?u} = {..<?n} - ?don - {?u}" by auto
    then show ?thesis using True op [OF u(1)] ind' [of j] by (simp add: open_preds_def)
  qed (use ind' [of j] step that in simp)
  have z': "j \<in> set queue' \<longleftrightarrow> ind' j = 0" if "j < ?n" for j
    using ind' [of j] z [OF that] z [OF u(1)] u(2) le [OF that] that by (auto simp: q')
  have dis: "distinct queue'" using d z by (auto simp: q')
  have pre': "i \<in> set (take p queue')" if p: "p < length queue'" and e: "(i, queue' ! p) \<in> net_edges gs" for p i
  proof (cases "p < length queue")
    case True
    then show ?thesis using pre [of p i] e by (simp add: q' nth_append)
  next
    case False
    let ?j = "queue' ! p"
    have "?j \<in> set queue'" using p by simp
    moreover have "?j < ?n" "i < ?n" "i \<noteq> ?j" "0 < edge_count gs i ?j" using e by (auto simp: net_edges_def)
    ultimately have "i \<in> insert ?u ?don" using z' op' open_preds_0 [of gs "insert ?u ?don" ?j] by fastforce
    moreover have "set (take (Suc qh) queue') \<subseteq> set (take p queue')" using False q by (intro set_take_subset_set_take) simp
    ultimately show ?thesis using tk by auto
  qed
  show ?thesis unfolding topo_inv_def
    using q q' dis sub op' z' pre' tk by auto
qed

lemma topo_inv_init: "topo_inv gs 0 (indegrees gs) (filter (\<lambda>i. indegrees gs i = 0) [0..<length gs])"
proof -
  let ?q = "filter (\<lambda>i. indegrees gs i = 0) [0..<length gs]"
  have "(i, ?q ! p) \<notin> net_edges gs" if "p < length ?q" for p i
  proof -
    have "?q ! p \<in> set ?q" using that by (rule nth_mem)
    then have j: "?q ! p < length gs" "indegrees gs (?q ! p) = 0" by auto
    then show ?thesis using open_preds_0 [of gs "{}" "?q ! p"] indegrees_val [OF j(1)] by (auto simp: net_edges_def)
  qed
  then show ?thesis by (auto simp: topo_inv_def indegrees_val)
qed

lemma topo_inv_length: "topo_inv gs qh ind queue \<Longrightarrow> length queue \<le> length gs"
proof -
  assume "topo_inv gs qh ind queue"
  then have "card (set queue) = length queue" "set queue \<subseteq> {..<length gs}" by (auto simp: topo_inv_def distinct_card)
  then show ?thesis using card_mono [of "{..<length gs}" "set queue"] by simp
qed

lemma topo_loop_result:
  assumes "topo_inv gs qh ind queue" and "length gs \<le> GATE_NET_MAX_GATES"
  shows "\<exists>order ind'. topo_loop gs qh (ind, queue) = Some order \<and> topo_inv gs (length order) ind' order"
  using assms
proof (induction gs qh "(ind, queue)" arbitrary: ind queue rule: topo_loop.induct)
  case (1 gs qh ind queue)
  have l: "\<not> length queue > GATE_NET_MAX_GATES" using topo_inv_length [OF 1(2)] 1(3) by simp
  show ?case
  proof (cases "qh < length queue")
    case True
    obtain ind' queue' where r: "release_all gs (queue ! qh) (ind, queue) = (ind', queue')" by (metis surj_pair)
    have "topo_inv gs (qh + 1) ind' queue'" using topo_inv_step [OF 1(2) True r] by simp
    then show ?thesis using 1(1) [OF l True, of ind' queue'] r l True 1(3) by simp
  next
    case False
    then have "qh = length queue" using 1(2) by (simp add: topo_inv_def)
    then show ?thesis using l 1(2) by auto
  qed
qed

lemma finite_net_edges: "finite (net_edges gs)"
  by (rule finite_subset [of _ "{..<length gs} \<times> {..<length gs}"]) (auto simp: net_edges_def)

lemma topo_order_acyclic:
  assumes inv: "topo_inv gs (length order) ind order"
  shows "length order = length gs \<longleftrightarrow> acyclic (net_edges gs)"
proof
  have d: "distinct order" and sub: "set order \<subseteq> {..<length gs}"
    and op: "\<And>j. j < length gs \<Longrightarrow> ind j = open_preds gs (set order) j"
    and z: "\<And>j. j < length gs \<Longrightarrow> j \<in> set order \<longleftrightarrow> ind j = 0"
    and pre: "\<And>p i. p < length order \<Longrightarrow> (i, order ! p) \<in> net_edges gs \<Longrightarrow> i \<in> set (take p order)"
    using inv unfolding topo_inv_def by auto
  have full: "length order = length gs \<longleftrightarrow> set order = {..<length gs}"
    using d sub by (metis card_lessThan card_subset_eq distinct_card finite_lessThan)
  show "acyclic (net_edges gs)" if "length order = length gs"
  proof -
    let ?pos = "\<lambda>i. THE p. p < length order \<and> order ! p = i"
    have pos: "?pos (order ! p) = p" if "p < length order" for p
      using d that by (intro the_equality) (auto simp: distinct_conv_nth)
    have "net_edges gs \<subseteq> measure ?pos"
    proof (rule subrelI)
      fix i j assume e: "(i, j) \<in> net_edges gs"
      then have "j \<in> set order" using full that by (auto simp: net_edges_def)
      then obtain p where p: "p < length order" "order ! p = j" by (auto simp: in_set_conv_nth)
      then have "i \<in> set (take p order)" using pre e by simp
      then obtain q where "q < p" "order ! q = i" using p(1) by (auto simp: in_set_conv_nth)
      then show "(i, j) \<in> measure ?pos" using pos [of p] pos [of q] p by (simp add: in_measure)
    qed
    then show ?thesis by (meson acyclic_subset wf_acyclic wf_measure)
  qed
  show "length order = length gs" if "acyclic (net_edges gs)"
  proof (rule ccontr)
    have wf: "wf (net_edges gs)" by (rule finite_acyclic_wf [OF finite_net_edges that])
    assume "length order \<noteq> length gs"
    then obtain r where "r \<in> {..<length gs} - set order" using full sub by auto
    then obtain m where m: "m \<in> {..<length gs} - set order"
      and min: "\<And>y. (y, m) \<in> net_edges gs \<Longrightarrow> y \<notin> {..<length gs} - set order"
      using wf by (metis wfE_min)
    have "edge_count gs i m = 0" if "i < length gs" "i \<notin> set order" "i \<noteq> m" for i
      using m min [of i] that by (cases "edge_count gs i m = 0") (auto simp: net_edges_def)
    then have "\<forall>i < length gs. i \<notin> set order \<and> i \<noteq> m \<longrightarrow> edge_count gs i m = 0" by blast
    then show False using m op [of m] z [of m] open_preds_0 [of gs "set order" m] by auto
  qed
qed

text \<open>
  C29: The topological sort of a network of gates decides whether the connections between different gates
  have no cycle, and returns the answer in the flag of the network too; the queue it uses never exceeds its array.
\<close>

theorem gate_net_topo_sort_acyclic:
  assumes "length (gn_gates net) \<le> GATE_NET_MAX_GATES"
  shows "\<exists>order. gate_net_topo_sort net =
    Some (acyclic (net_edges (gn_gates net)), net\<lparr>gn_order := order, gn_sorted := acyclic (net_edges (gn_gates net))\<rparr>)"
proof (cases "gn_gates net = []")
  case True
  have "acyclic (net_edges [])" by (simp add: net_edges_def acyclic_def)
  then show ?thesis using True by (intro exI [of _ "gn_order net"]) (simp add: gate_net_topo_sort_def)
next
  case False
  obtain order ind where o: "topo_loop (gn_gates net) 0 (indegrees (gn_gates net),
      filter (\<lambda>i. indegrees (gn_gates net) i = 0) [0..<length (gn_gates net)]) = Some order"
    and i: "topo_inv (gn_gates net) (length order) ind order"
    using topo_loop_result [OF topo_inv_init assms] by blast
  show ?thesis using False o topo_order_acyclic [OF i]
    by (intro exI [of _ order]) (simp add: gate_net_topo_sort_def Let_def)
qed

text \<open>\<open>w3 = w2 & w1\<close>, then \<open>w2 = ~w0\<close>: the gates are added in the wrong order.\<close>

definition and_not_net :: GateNetwork where
  "and_not_net = gate_net_create\<lparr>gn_wire_count := 4,
     gn_gates := [\<lparr>ng_type = GATE_AND, ng_inputs = [Some 2, Some 1], ng_output = 3\<rparr>, \<lparr>ng_type = GATE_NOT, ng_inputs = [Some 0], ng_output = 2\<rparr>]\<rparr>"

lemma and_not_acyclic: "acyclic (net_edges (gn_gates and_not_net))"
proof -
  have "net_edges (gn_gates and_not_net) \<subseteq> measure (\<lambda>i. 1 - i)"
    by (auto simp: net_edges_def and_not_net_def edge_count_def less_Suc_eq numeral_2_eq_2 in_measure)
  then show ?thesis by (meson acyclic_subset wf_acyclic wf_measure)
qed

theorem gate_net_topo_sort_acyclic_witness:
  "\<exists>order. gate_net_topo_sort and_not_net =
    Some (acyclic (net_edges (gn_gates and_not_net)), and_not_net\<lparr>gn_order := order, gn_sorted := acyclic (net_edges (gn_gates and_not_net))\<rparr>)"
  by (rule gate_net_topo_sort_acyclic) (simp add: and_not_net_def GATE_NET_MAX_GATES_def)

section \<open>Evaluation in sorted order\<close>

definition gate_driven :: "NetGate \<Rightarrow> bool" where
  "gate_driven g \<longleftrightarrow> None \<notin> set (ng_inputs g) \<and> Some (ng_output g) \<notin> set (ng_inputs g) \<and>
     (ng_type g \<in> {GATE_NOT, GATE_BUF} \<longrightarrow> ng_inputs g \<noteq> [])"

definition gate_settled :: "bool arr \<Rightarrow> NetGate \<Rightarrow> bool" where
  "gate_settled w g \<longleftrightarrow> gate_read w (ng_type g) (ng_inputs g) = Some (w (ng_output g))"

lemma and_read_total: "None \<notin> set ins \<Longrightarrow> and_read w ins = Some (and_loop (map (\<lambda>i. w (the i)) ins))"
  by (induction w ins rule: and_read.induct) (auto simp: and_loop_iff)

lemma or_read_total: "None \<notin> set ins \<Longrightarrow> or_read w ins = Some (or_loop (map (\<lambda>i. w (the i)) ins))"
  by (induction w ins rule: or_read.induct) (auto simp: or_loop_iff)

lemma xor_read_total: "None \<notin> set ins \<Longrightarrow> xor_read w ins = Some (xor_loop (map (\<lambda>i. w (the i)) ins))"
  by (induction w ins rule: xor_read.induct) (auto simp: xor_loop_iff)

lemma gate_read_logic:
  "None \<notin> set ins \<Longrightarrow> gate_read w ty ins = logic_eval ty (map (\<lambda>i. w (the i)) ins)"
proof (cases ins)
  case Nil
  then show ?thesis by (cases ty) (simp_all add: and_loop_iff or_loop_iff xor_loop_iff)
next
  case (Cons a list)
  moreover assume "None \<notin> set ins"
  ultimately obtain i where "ins = Some i # list" "None \<notin> set (Some i # list)" by (cases a) auto
  then show ?thesis
    by (cases ty) (simp_all add: and_read_total or_read_total xor_read_total del: and_read.simps or_read.simps xor_read.simps)
qed

lemma gate_read_driven:
  assumes "gate_driven g"
  shows "\<exists>v. gate_read w (ng_type g) (ng_inputs g) = Some v"
proof -
  have "None \<notin> set (ng_inputs g)" "ng_type g \<in> {GATE_NOT, GATE_BUF} \<longrightarrow> ng_inputs g \<noteq> []"
    using assms by (simp_all add: gate_driven_def)
  then show ?thesis by (cases "ng_type g"; cases "ng_inputs g") (simp_all add: gate_read_logic del: gate_read.simps)
qed

lemma gate_read_cong:
  assumes "None \<notin> set ins" and "\<And>i. Some i \<in> set ins \<Longrightarrow> w i = w' i"
  shows "gate_read w ty ins = gate_read w' ty ins"
proof -
  have "w (the x) = w' (the x)" if "x \<in> set ins" for x using assms that by (cases x) auto
  then have "map (\<lambda>i. w (the i)) ins = map (\<lambda>i. w' (the i)) ins" by (intro map_cong) auto
  then show ?thesis by (simp only: gate_read_logic [OF assms(1)])
qed

lemma edge_count_pos: "0 < edge_count gs i j \<longleftrightarrow> Some (ng_output (gs ! i)) \<in> set (ng_inputs (gs ! j))"
  by (auto simp: edge_count_def filter_empty_conv)

lemma eval_order_settles:
  assumes dr: "\<And>g. g \<in> set gs \<Longrightarrow> gate_driven g" and out: "distinct (map ng_output gs)"
    and d: "distinct (ds @ rs)" and sub: "set (ds @ rs) \<subseteq> {..<length gs}"
    and pre: "\<And>p i. p < length (ds @ rs) \<Longrightarrow> (i, (ds @ rs) ! p) \<in> net_edges gs \<Longrightarrow> i \<in> set (take p (ds @ rs))"
    and st: "\<And>h. h \<in> set ds \<Longrightarrow> gate_settled w (gs ! h)"
  shows "\<exists>w'. eval_order gs rs w = Some w' \<and> (\<forall>h \<in> set (ds @ rs). gate_settled w' (gs ! h))"
  using d sub pre st
proof (induction rs arbitrary: ds w)
  case (Cons g rs)
  have g: "g < length gs" "g \<notin> set ds" using Cons.prems(1,2) by auto
  have gd: "gate_driven (gs ! g)" by (rule dr) (simp add: g)
  obtain v where v: "gate_read w (ng_type (gs ! g)) (ng_inputs (gs ! g)) = Some v" using gate_read_driven [OF gd] by blast
  let ?w = "w(ng_output (gs ! g) := v)"
  have gs: "gate_settled ?w (gs ! g)"
  proof -
    have "gate_read ?w (ng_type (gs ! g)) (ng_inputs (gs ! g)) = gate_read w (ng_type (gs ! g)) (ng_inputs (gs ! g))"
      using gd by (intro gate_read_cong) (auto simp: gate_driven_def)
    then show ?thesis using v by (simp add: gate_settled_def)
  qed
  have hs: "gate_settled ?w (gs ! h)" if h: "h \<in> set ds" for h
  proof -
    have hl: "h < length gs" "h \<noteq> g" using h Cons.prems(2) g by auto
    have o: "ng_output (gs ! h) \<noteq> ng_output (gs ! g)"
      using out hl g(1) by (auto simp: distinct_conv_nth)
    obtain p where p: "p < length ds" "ds ! p = h" using h by (auto simp: in_set_conv_nth)
    have "(g, h) \<notin> net_edges gs"
    proof
      assume "(g, h) \<in> net_edges gs"
      then have "g \<in> set (take p (ds @ g # rs))" using Cons.prems(3) [of p g] p by (simp add: nth_append)
      then show False using p g(2) set_take_subset [of p ds] by auto
    qed
    then have n: "Some (ng_output (gs ! g)) \<notin> set (ng_inputs (gs ! h))"
      using hl g(1) by (auto simp: net_edges_def edge_count_pos)
    have "gate_driven (gs ! h)" by (rule dr) (simp add: hl)
    then have "gate_read ?w (ng_type (gs ! h)) (ng_inputs (gs ! h)) = gate_read w (ng_type (gs ! h)) (ng_inputs (gs ! h))"
      using n by (intro gate_read_cong) (auto simp: gate_driven_def)
    then show ?thesis using Cons.prems(4) [OF h] o by (simp add: gate_settled_def)
  qed
  have st': "\<And>h. h \<in> set (ds @ [g]) \<Longrightarrow> gate_settled ?w (gs ! h)" using gs hs by auto
  have "\<exists>w'. eval_order gs rs ?w = Some w' \<and> (\<forall>h \<in> set ((ds @ [g]) @ rs). gate_settled w' (gs ! h))"
  proof (rule Cons.IH)
    show "distinct ((ds @ [g]) @ rs)" "set ((ds @ [g]) @ rs) \<subseteq> {..<length gs}" using Cons.prems(1,2) by auto
    show "i \<in> set (take p ((ds @ [g]) @ rs))" if "p < length ((ds @ [g]) @ rs)" "(i, ((ds @ [g]) @ rs) ! p) \<in> net_edges gs" for p i
      using Cons.prems(3) [of p i] that by simp
  qed (rule st')
  then show ?case using v by simp
qed simp

lemma eval_order_undriven:
  "eval_order gs order w = Some w' \<Longrightarrow> i \<notin> (\<lambda>g. ng_output (gs ! g)) ` set order \<Longrightarrow> w' i = w i"
  by (induction order arbitrary: w) (auto split: option.splits)

text \<open>
  C28: Evaluating a network of gates settles it in one pass: when there are at most 256 gates, the
  connections have no cycle, no two gates drive one wire, and every gate has proper inputs other
  than its own output, evaluation succeeds, afterwards the output wire of every gate has the value
  of the gate on the values its input wires have at the end, and every wire that no gate drives
  (the inputs of the network) has the value it had before. This covers the first evaluation, which
  sorts, and evaluations of a network that carries the result of a sort, which do not sort again;
  the result carries it, so that new input values can be set and the network evaluated again.
\<close>

theorem gate_net_evaluate_settles:
  assumes "length (gn_gates net) \<le> GATE_NET_MAX_GATES"
    and "gn_sorted net \<longrightarrow> gate_net_topo_sort net = Some (True, net)"
    and "acyclic (net_edges (gn_gates net))" and "distinct (map ng_output (gn_gates net))"
    and "\<And>g. g \<in> set (gn_gates net) \<Longrightarrow> gate_driven g"
  shows "\<exists>net'. gate_net_evaluate net = Some net' \<and> gn_gates net' = gn_gates net \<and>
    gn_sorted net' \<and> gate_net_topo_sort net' = Some (True, net') \<and>
    (\<forall>g \<in> set (gn_gates net). logic_eval (ng_type g) (map (\<lambda>i. gn_wires net' (the i)) (ng_inputs g)) =
       Some (gn_wires net' (ng_output g))) \<and>
    (\<forall>i. i \<in> ng_output ` set (gn_gates net) \<or> gn_wires net' i = gn_wires net i)"
proof (cases "gn_gates net = []")
  case True
  then show ?thesis by (simp add: gate_net_evaluate_def gate_net_topo_sort_def)
next
  case False
  let ?gs = "gn_gates net"
  obtain order ind where o: "topo_loop ?gs 0 (indegrees ?gs, filter (\<lambda>i. indegrees ?gs i = 0) [0..<length ?gs]) = Some order"
    and i: "topo_inv ?gs (length order) ind order"
    using topo_loop_result [OF topo_inv_init assms(1)] by blast
  have len: "length order = length ?gs" using topo_order_acyclic [OF i] assms(3) by simp
  have d: "distinct order" and sub: "set order \<subseteq> {..<length ?gs}"
    and pre: "\<And>p i. p < length order \<Longrightarrow> (i, order ! p) \<in> net_edges ?gs \<Longrightarrow> i \<in> set (take p order)"
    using i unfolding topo_inv_def by auto
  have full: "set order = {..<length ?gs}"
    using d sub len by (metis card_lessThan card_subset_eq distinct_card finite_lessThan)
  have f: "filter (\<lambda>g. g < length ?gs) order = order" using sub by (auto intro: filter_True)
  obtain w where w: "eval_order ?gs order (gn_wires net) = Some w" "\<forall>h \<in> set order. gate_settled w (?gs ! h)"
    using eval_order_settles [of ?gs "[]" order "gn_wires net"] assms(4,5) d sub pre by auto
  have "gate_settled w g" if "g \<in> set ?gs" for g
    using w(2) that full by (auto simp: in_set_conv_nth)
  then have st: "\<forall>g \<in> set ?gs. logic_eval (ng_type g) (map (\<lambda>i. w (the i)) (ng_inputs g)) = Some (w (ng_output g))"
    using assms(5) by (auto simp: gate_settled_def gate_read_logic gate_driven_def)
  have "(\<lambda>g. ng_output (?gs ! g)) ` set order \<subseteq> ng_output ` set ?gs" using sub by auto
  then have un: "\<forall>i. i \<in> ng_output ` set ?gs \<or> w i = gn_wires net i" using eval_order_undriven [OF w(1)] by blast
  let ?n = "net\<lparr>gn_order := order, gn_sorted := True\<rparr>"
  have sort: "gate_net_topo_sort net = Some (True, ?n)" "gate_net_topo_sort (?n\<lparr>gn_wires := w\<rparr>) = Some (True, ?n\<lparr>gn_wires := w\<rparr>)"
    using False o len by (simp_all add: gate_net_topo_sort_def Let_def)
  have "(if gn_sorted net then Some net else map_option snd (gate_net_topo_sort net)) = Some ?n"
    using sort(1) assms(2) by simp
  then have "gate_net_evaluate net = Some (?n\<lparr>gn_wires := w\<rparr>)" using w(1) len f by (simp add: gate_net_evaluate_def)
  then show ?thesis using sort(2) st un by (intro exI [of _ "?n\<lparr>gn_wires := w\<rparr>"]) simp
qed

theorem gate_net_evaluate_settles_witness:
  "\<exists>net'. gate_net_evaluate (and_not_net\<lparr>gn_wires := \<lambda>i. i < 2\<rparr>) = Some net' \<and> gn_gates net' = gn_gates and_not_net \<and>
    gn_wires net' 0 \<and> gn_wires net' 1 \<and>
    (\<forall>g \<in> set (gn_gates and_not_net). logic_eval (ng_type g) (map (\<lambda>i. gn_wires net' (the i)) (ng_inputs g)) =
       Some (gn_wires net' (ng_output g)))"
proof -
  let ?n = "and_not_net\<lparr>gn_wires := \<lambda>i. i < 2\<rparr>"
  have g: "gn_gates ?n = gn_gates and_not_net" "\<not> gn_sorted ?n" "gn_wires ?n = (\<lambda>i. i < 2)" "length (gn_gates ?n) \<le> GATE_NET_MAX_GATES"
    "distinct (map ng_output (gn_gates ?n))" "0 \<notin> ng_output ` set (gn_gates ?n)" "1 \<notin> ng_output ` set (gn_gates ?n)"
    by (simp_all add: and_not_net_def gate_net_create_def GATE_NET_MAX_GATES_def)
  have d: "gate_driven x" if "x \<in> set (gn_gates ?n)" for x using that by (auto simp: and_not_net_def gate_driven_def)
  have ac: "acyclic (net_edges (gn_gates ?n))" using and_not_acyclic g(1) by simp
  have "gn_sorted ?n \<longrightarrow> gate_net_topo_sort ?n = Some (True, ?n)" using g(2) by blast
  from gate_net_evaluate_settles [OF g(4) this ac g(5) d]
  obtain net' where n: "gate_net_evaluate ?n = Some net'" "gn_gates net' = gn_gates ?n"
    "\<forall>g \<in> set (gn_gates ?n). logic_eval (ng_type g) (map (\<lambda>i. gn_wires net' (the i)) (ng_inputs g)) = Some (gn_wires net' (ng_output g))"
    "\<forall>i. i \<in> ng_output ` set (gn_gates ?n) \<or> gn_wires net' i = gn_wires ?n i" by blast
  have "gn_wires net' 0" using spec [OF n(4), of 0] g(6) by (simp only: g(3)) simp
  moreover have "gn_wires net' 1" using spec [OF n(4), of 1] g(7) by (simp only: g(3)) simp
  ultimately show ?thesis using n(1-3) unfolding g(1) by blast
qed

end
