(* ===== verification/Combinational.thy ===== *)
theory Combinational
  imports GateNet "HOL-Library.Signed_Division"
begin

text \<open>
  The combinational blocks of \<^verbatim>\<open>mini-digital-circuit/src/combinational.c\<close>: adders, the array
  multiplier, comparator, multiplexer, decoder, priority encoder, barrel shifter, and the netlist
  container.  The wires of a block are fields that hold their values.  \<open>None\<close> is a shift by a negative
  amount or by the width of the type, which C leaves undefined.
\<close>

section \<open>Data\<close>

definition ADDER_MAX_WIDTH :: int where "ADDER_MAX_WIDTH = 64"
definition MUL_MAX_WIDTH :: int where "MUL_MAX_WIDTH = 16"
definition COMP_MAX_WIDTH :: int where "COMP_MAX_WIDTH = 64"
definition MUX_MAX_INPUTS :: int where "MUX_MAX_INPUTS = 32"
definition DECODER_MAX_N :: int where "DECODER_MAX_N = 8"
definition BARREL_MAX_WIDTH :: int where "BARREL_MAX_WIDTH = 64"

record HalfAdder =
  ha_a :: bool
  ha_b :: bool
  ha_sum :: bool
  ha_carry :: bool

record FullAdder =
  fa_a :: bool
  fa_b :: bool
  fa_cin :: bool
  fa_sum :: bool
  fa_cout :: bool

record RippleAdder =
  ra_a :: "bool arr"
  ra_b :: "bool arr"
  ra_sum :: "bool arr"
  ra_carry_out :: bool
  ra_width :: nat

record CarryLookaheadAdder =
  cla_a :: "bool arr"
  cla_b :: "bool arr"
  cla_sum :: "bool arr"
  cla_carry_in :: bool
  cla_carry_out :: bool
  cla_width :: nat
  cla_p :: "bool arr"
  cla_g :: "bool arr"
  cla_c :: "bool arr"

record ArrayMultiplier =
  am_a_width :: int
  am_b_width :: int
  am_a_val :: u32
  am_b_val :: u32
  am_product :: u64

record MagnitudeComparator =
  mc_width :: nat
  mc_a_val :: u64
  mc_b_val :: u64
  mc_eq :: bool
  mc_gt :: bool
  mc_lt :: bool

record Multiplexer =
  mx_num_inputs :: int
  mx_sel_width :: nat
  mx_inputs :: "u64 arr"
  mx_sel :: int
  mx_output :: u64

record Decoder =
  dc_n_inputs :: nat
  dc_input_val :: int
  dc_output_mask :: "u8 arr"

record PriorityEncoder =
  pe_n_inputs :: nat
  pe_n_outputs :: nat
  pe_input_mask :: u64
  pe_output_val :: nat
  pe_valid :: bool

datatype ShiftType = SHIFT_LL | SHIFT_LR | SHIFT_AR | SHIFT_ROL | SHIFT_ROR

record BarrelShifter =
  br_width :: nat
  br_type :: ShiftType
  br_input_val :: u64
  br_shift_amount :: int
  br_output_val :: u64

record Combinational =
  cb_gates :: "NetGate list"
  cb_wires :: "bool arr"
  cb_wire_count :: nat

definition clamp :: "int \<Rightarrow> int \<Rightarrow> int" where
  "clamp hi w = (let v = (if w > hi then hi else w) in if v < 1 then 1 else v)"

section \<open>Adders\<close>

definition half_adder_create :: HalfAdder where
  "half_adder_create = \<lparr>ha_a = False, ha_b = False, ha_sum = False, ha_carry = False\<rparr>"

definition half_adder_set_inputs :: "HalfAdder \<Rightarrow> bool \<Rightarrow> bool \<Rightarrow> HalfAdder" where
  "half_adder_set_inputs ha a b = ha\<lparr>ha_a := a, ha_b := b\<rparr>"

definition half_adder_evaluate :: "HalfAdder \<Rightarrow> HalfAdder" where
  "half_adder_evaluate ha = ha\<lparr>ha_sum := (ha_a ha \<noteq> ha_b ha), ha_carry := (ha_a ha \<and> ha_b ha)\<rparr>"

definition full_adder_create :: FullAdder where
  "full_adder_create = \<lparr>fa_a = False, fa_b = False, fa_cin = False, fa_sum = False, fa_cout = False\<rparr>"

definition full_adder_set_inputs :: "FullAdder \<Rightarrow> bool \<Rightarrow> bool \<Rightarrow> bool \<Rightarrow> FullAdder" where
  "full_adder_set_inputs fa a b cin = fa\<lparr>fa_a := a, fa_b := b, fa_cin := cin\<rparr>"

definition full_adder_evaluate :: "FullAdder \<Rightarrow> FullAdder" where
  "full_adder_evaluate fa =
     (let axb = (fa_a fa \<noteq> fa_b fa)
      in fa\<lparr>fa_sum := (axb \<noteq> fa_cin fa), fa_cout := (fa_a fa \<and> fa_b fa \<or> axb \<and> fa_cin fa)\<rparr>)"

definition ripple_adder_create :: "int \<Rightarrow> RippleAdder" where
  "ripple_adder_create w = \<lparr>ra_a = (\<lambda>_. False), ra_b = (\<lambda>_. False), ra_sum = (\<lambda>_. False), ra_carry_out = False,
     ra_width = nat (clamp ADDER_MAX_WIDTH w)\<rparr>"

definition ripple_adder_set_inputs :: "RippleAdder \<Rightarrow> u64 \<Rightarrow> u64 \<Rightarrow> RippleAdder" where
  "ripple_adder_set_inputs ra a b =
     for_range 0 (ra_width ra) (\<lambda>i r. r\<lparr>ra_a := (ra_a r)(i := drop_bit i a AND 1 \<noteq> 0), ra_b := (ra_b r)(i := drop_bit i b AND 1 \<noteq> 0)\<rparr>) ra"

definition ripple_adder_compute :: "RippleAdder \<Rightarrow> u64 \<times> RippleAdder" where
  "ripple_adder_compute ra =
     (case for_range 0 (ra_width ra) (\<lambda>i (carry, acc).
         let a = ra_a ra i; b = ra_b ra i; s = ((a \<noteq> b) \<noteq> carry)
         in ((a \<and> b) \<or> (carry \<and> (a \<noteq> b)), acc OR push_bit i (of_bool s))) (False, 0)
      of (carry, acc) \<Rightarrow> (acc, ra\<lparr>ra_carry_out := carry\<rparr>))"

definition cla_create :: "int \<Rightarrow> CarryLookaheadAdder" where
  "cla_create w = \<lparr>cla_a = (\<lambda>_. False), cla_b = (\<lambda>_. False), cla_sum = (\<lambda>_. False), cla_carry_in = False, cla_carry_out = False,
     cla_width = nat (clamp ADDER_MAX_WIDTH w), cla_p = (\<lambda>_. False), cla_g = (\<lambda>_. False), cla_c = (\<lambda>_. False)\<rparr>"

definition cla_set_inputs :: "CarryLookaheadAdder \<Rightarrow> u64 \<Rightarrow> u64 \<Rightarrow> bool \<Rightarrow> CarryLookaheadAdder" where
  "cla_set_inputs cla a b cin =
     (let r = for_range 0 (cla_width cla) (\<lambda>i r.
         let ai = (drop_bit i a AND 1 \<noteq> 0); bi = (drop_bit i b AND 1 \<noteq> 0)
         in r\<lparr>cla_a := (cla_a r)(i := ai), cla_b := (cla_b r)(i := bi),
              cla_p := (cla_p r)(i := (ai \<noteq> bi)), cla_g := (cla_g r)(i := (ai \<and> bi))\<rparr>) cla
      in r\<lparr>cla_c := (cla_c r)(0 := cin)\<rparr>)"

definition cla_carries :: "CarryLookaheadAdder \<Rightarrow> CarryLookaheadAdder" where
  "cla_carries cla = for_range 0 (cla_width cla)
     (\<lambda>i r. r\<lparr>cla_c := (cla_c r)(i + 1 := cla_g r i \<or> (cla_p r i \<and> cla_c r i))\<rparr>) cla"

definition cla_compute :: "CarryLookaheadAdder \<Rightarrow> u64 \<times> CarryLookaheadAdder" where
  "cla_compute cla0 =
     (let cla = cla_carries cla0
      in case for_range 0 (cla_width cla) (\<lambda>i (r, acc).
           let si = (cla_p r i \<noteq> cla_c r i) in (r\<lparr>cla_sum := (cla_sum r)(i := si)\<rparr>, acc OR push_bit i (of_bool si))) (cla, 0)
         of (r, acc) \<Rightarrow> (acc, r\<lparr>cla_carry_out := cla_c r (cla_width r)\<rparr>))"

definition cla_get_carry_out :: "CarryLookaheadAdder \<Rightarrow> bool" where
  "cla_get_carry_out cla = cla_carry_out cla"

section \<open>Multiplier and comparator\<close>

definition array_mul_create :: "int \<Rightarrow> int \<Rightarrow> ArrayMultiplier" where
  "array_mul_create a_w b_w =
     \<lparr>am_a_width = (if a_w > MUL_MAX_WIDTH then MUL_MAX_WIDTH else a_w), am_b_width = (if b_w > MUL_MAX_WIDTH then MUL_MAX_WIDTH else b_w),
      am_a_val = 0, am_b_val = 0, am_product = 0\<rparr>"

definition array_mul_set_inputs :: "ArrayMultiplier \<Rightarrow> u32 \<Rightarrow> u32 \<Rightarrow> ArrayMultiplier" where
  "array_mul_set_inputs am a b = am\<lparr>am_a_val := a, am_b_val := b\<rparr>"

definition array_mul_compute :: "ArrayMultiplier \<Rightarrow> u64 \<times> ArrayMultiplier" where
  "array_mul_compute am =
     (let result = for_range 0 (nat (am_b_width am))
            (\<lambda>i r. if drop_bit i (am_b_val am) AND 1 \<noteq> 0 then r + push_bit i (ucast (am_a_val am)) else r) 0
      in (result, am\<lparr>am_product := result\<rparr>))"

definition mag_comp_create :: "int \<Rightarrow> MagnitudeComparator" where
  "mag_comp_create w = \<lparr>mc_width = nat (clamp COMP_MAX_WIDTH w), mc_a_val = 0, mc_b_val = 0, mc_eq = False, mc_gt = False, mc_lt = False\<rparr>"

definition mag_comp_set_inputs :: "MagnitudeComparator \<Rightarrow> u64 \<Rightarrow> u64 \<Rightarrow> MagnitudeComparator" where
  "mag_comp_set_inputs mc a b = mc\<lparr>mc_a_val := a, mc_b_val := b\<rparr>"

definition mag_comp_evaluate :: "MagnitudeComparator \<Rightarrow> MagnitudeComparator" where
  "mag_comp_evaluate mc = mc\<lparr>mc_gt := (mc_a_val mc > mc_b_val mc), mc_lt := (mc_a_val mc < mc_b_val mc), mc_eq := (mc_a_val mc = mc_b_val mc)\<rparr>"

section \<open>Routing\<close>

text \<open>The loop that counts the bits of a number.\<close>

fun count_bits :: "nat \<Rightarrow> nat" where
  "count_bits n = (if n > 0 then 1 + count_bits (n div 2) else 0)"

declare count_bits.simps [simp del]

definition mux_create :: "int \<Rightarrow> Multiplexer" where
  "mux_create num_inputs =
     (let m = (if num_inputs > MUX_MAX_INPUTS then MUX_MAX_INPUTS else num_inputs); n = (if m < 2 then 2 else m)
      in \<lparr>mx_num_inputs = n, mx_sel_width = count_bits (nat (n - 1)), mx_inputs = (\<lambda>_. 0), mx_sel = 0, mx_output = 0\<rparr>)"

definition mux_select :: "Multiplexer \<Rightarrow> int \<Rightarrow> Multiplexer" where
  "mux_select m sel =
     (let m1 = m\<lparr>mx_sel := sel\<rparr> in if sel \<ge> 0 \<and> sel < mx_num_inputs m then m1\<lparr>mx_output := mx_inputs m (nat sel)\<rparr> else m1)"

definition mux_get_output :: "Multiplexer \<Rightarrow> u64" where "mux_get_output m = mx_output m"

definition mux_set_input :: "Multiplexer \<Rightarrow> int \<Rightarrow> u64 \<Rightarrow> Multiplexer" where
  "mux_set_input m i v = (if i \<ge> 0 \<and> i < mx_num_inputs m then m\<lparr>mx_inputs := (mx_inputs m)(nat i := v)\<rparr> else m)"

definition decoder_create :: "int \<Rightarrow> Decoder" where
  "decoder_create n = \<lparr>dc_n_inputs = nat (clamp DECODER_MAX_N n), dc_input_val = 0, dc_output_mask = (\<lambda>_. 0)\<rparr>"

definition decoder_set_input :: "Decoder \<Rightarrow> int \<Rightarrow> Decoder" where
  "decoder_set_input d v =
     d\<lparr>dc_input_val := v, dc_output_mask := (if v \<ge> 0 \<and> v < 2 ^ dc_n_inputs d then (\<lambda>_. 0)(nat v := 1) else (\<lambda>_. 0))\<rparr>"

definition decoder_get_output :: "Decoder \<Rightarrow> int \<Rightarrow> bool" where
  "decoder_get_output d i = (if i < 0 \<or> i \<ge> 256 then False else dc_output_mask d (nat i) \<noteq> 0)"

definition pr_encoder_create :: "int \<Rightarrow> PriorityEncoder" where
  "pr_encoder_create n_inputs =
     (let n = nat (if n_inputs > 64 then 64 else if n_inputs < 2 then 2 else n_inputs)
      in \<lparr>pe_n_inputs = n, pe_n_outputs = count_bits (n - 1), pe_input_mask = 0, pe_output_val = 0, pe_valid = False\<rparr>)"

text \<open>The loop runs downwards and stops at the first line that is set.\<close>

definition pr_encoder_set_inputs :: "PriorityEncoder \<Rightarrow> u64 \<Rightarrow> PriorityEncoder" where
  "pr_encoder_set_inputs pe m =
     (case List.find (\<lambda>i. drop_bit i m AND 1 \<noteq> 0) (rev [0..<pe_n_inputs pe]) of
        Some i \<Rightarrow> pe\<lparr>pe_input_mask := m, pe_valid := True, pe_output_val := i\<rparr>
      | None \<Rightarrow> pe\<lparr>pe_input_mask := m, pe_valid := False, pe_output_val := 0\<rparr>)"

definition pr_encoder_get_output :: "PriorityEncoder \<Rightarrow> nat" where "pr_encoder_get_output pe = pe_output_val pe"
definition pr_encoder_is_valid :: "PriorityEncoder \<Rightarrow> bool" where "pr_encoder_is_valid pe = pe_valid pe"

section \<open>Barrel shifter\<close>

definition barrel_create :: "int \<Rightarrow> BarrelShifter" where
  "barrel_create w = \<lparr>br_width = nat (clamp BARREL_MAX_WIDTH w), br_type = SHIFT_LL, br_input_val = 0, br_shift_amount = 0, br_output_val = 0\<rparr>"

definition barrel_set_input :: "BarrelShifter \<Rightarrow> u64 \<Rightarrow> BarrelShifter" where
  "barrel_set_input bs v = bs\<lparr>br_input_val := v\<rparr>"

definition barrel_set_shift :: "BarrelShifter \<Rightarrow> ShiftType \<Rightarrow> int \<Rightarrow> BarrelShifter" where
  "barrel_set_shift bs ty amount = bs\<lparr>br_type := ty, br_shift_amount := amount smod int (br_width bs)\<rparr>"

definition shl64 :: "u64 \<Rightarrow> int \<Rightarrow> u64 option" where
  "shl64 x k = (if k < 0 \<or> k \<ge> 64 then None else Some (push_bit (nat k) x))"

definition shr64 :: "u64 \<Rightarrow> int \<Rightarrow> u64 option" where
  "shr64 x k = (if k < 0 \<or> k \<ge> 64 then None else Some (drop_bit (nat k) x))"

definition barrel_mask :: "nat \<Rightarrow> u64" where
  "barrel_mask w = (if w = 64 then NOT 0 else push_bit w 1 - 1)"

definition opt2 :: "(u64 \<Rightarrow> u64 \<Rightarrow> u64) \<Rightarrow> u64 option \<Rightarrow> u64 option \<Rightarrow> u64 option" where
  "opt2 f x y = Option.bind x (\<lambda>a. map_option (f a) y)"

fun barrel_result :: "ShiftType \<Rightarrow> u64 \<Rightarrow> int \<Rightarrow> nat \<Rightarrow> u64 option" where
  "barrel_result SHIFT_LL v sh w = map_option (\<lambda>x. x AND barrel_mask w) (shl64 v sh)"
| "barrel_result SHIFT_LR v sh w = shr64 v sh"
| "barrel_result SHIFT_AR v sh w =
     map_option (\<lambda>x. x AND barrel_mask w)
       (if v AND push_bit (w - 1) 1 \<noteq> 0
        then opt2 (OR) (shr64 v sh) (Option.bind (shl64 1 sh) (\<lambda>x. shl64 (x - 1) (int w - sh)))
        else shr64 v sh)"
| "barrel_result SHIFT_ROL v sh w = map_option (\<lambda>x. x AND barrel_mask w) (opt2 (OR) (shl64 v sh) (shr64 v (int w - sh)))"
| "barrel_result SHIFT_ROR v sh w = map_option (\<lambda>x. x AND barrel_mask w) (opt2 (OR) (shr64 v sh) (shl64 v (int w - sh)))"

definition barrel_compute :: "BarrelShifter \<Rightarrow> (u64 \<times> BarrelShifter) option" where
  "barrel_compute bs =
     map_option (\<lambda>r. (r, bs\<lparr>br_output_val := r\<rparr>))
       (barrel_result (br_type bs) (br_input_val bs AND barrel_mask (br_width bs)) (br_shift_amount bs) (br_width bs))"

section \<open>Netlists\<close>

definition comb_create :: Combinational where "comb_create = \<lparr>cb_gates = [], cb_wires = (\<lambda>_. False), cb_wire_count = 0\<rparr>"

definition comb_add_wire :: "Combinational \<Rightarrow> int \<times> Combinational" where
  "comb_add_wire c =
     (if cb_wire_count c \<ge> 512 then (-1, c)
      else (int (cb_wire_count c), c\<lparr>cb_wires := (cb_wires c)(cb_wire_count c := False), cb_wire_count := cb_wire_count c + 1\<rparr>))"

definition comb_add_gate :: "Combinational \<Rightarrow> GateType \<Rightarrow> int list \<Rightarrow> int \<Rightarrow> (int \<times> Combinational) option" where
  "comb_add_gate c ty ids out_id =
     (if length (cb_gates c) \<ge> 256 then Some (-1, c)
      else if out_id < 0 \<or> out_id \<ge> 512 then None
      else Some (int (length (cb_gates c)),
        c\<lparr>cb_gates := cb_gates c @ [\<lparr>ng_type = ty,
            ng_inputs = map (\<lambda>i. if i \<ge> 0 \<and> i < int (cb_wire_count c) then Some (nat i) else None) (take (nat LOGIC_MAX_INPUTS) ids),
            ng_output = nat out_id\<rparr>]\<rparr>))"

definition comb_evaluate :: "Combinational \<Rightarrow> Combinational option" where
  "comb_evaluate c = map_option (\<lambda>w. c\<lparr>cb_wires := w\<rparr>) (eval_order (cb_gates c) [0..<length (cb_gates c)] (cb_wires c))"

section \<open>Binary addition\<close>

text \<open>The number that \<open>n\<close> bits stand for, and the carry into position \<open>i\<close>.\<close>

definition bits_val :: "(nat \<Rightarrow> bool) \<Rightarrow> nat \<Rightarrow> int" where
  "bits_val f n = (\<Sum>i < n. of_bool (f i) * 2 ^ i)"

fun carry_at :: "(nat \<Rightarrow> bool) \<Rightarrow> (nat \<Rightarrow> bool) \<Rightarrow> bool \<Rightarrow> nat \<Rightarrow> bool" where
  "carry_at a b c 0 = c"
| "carry_at a b c (Suc i) = (a i \<and> b i \<or> (a i \<noteq> b i) \<and> carry_at a b c i)"

definition bits_word :: "(nat \<Rightarrow> bool) \<Rightarrow> nat \<Rightarrow> u64" where
  "bits_word f n = for_range 0 n (\<lambda>i acc. acc OR push_bit i (of_bool (f i))) 0"

lemma bits_val_bounds: "0 \<le> bits_val f n \<and> bits_val f n < 2 ^ n"
  by (induction n) (auto simp: bits_val_def)

lemma bit_bits_word: "n \<le> 64 \<Longrightarrow> bit (bits_word f n) k \<longleftrightarrow> k < n \<and> f k"
  by (induction n) (auto simp: bits_word_def for_range_Suc bit_or_iff bit_push_bit_iff bit_1_iff less_Suc_eq)

lemma bits_val_bit: "bits_val (bit x) n = take_bit n x" for x :: int
proof (induction n)
  case (Suc n)
  then show ?case by (simp add: bits_val_def take_bit_Suc_from_most mult.commute)
qed (simp add: bits_val_def)

lemma bits_val_word: "bits_val (bit w) n = uint w mod 2 ^ n" if "n \<le> 64" for w :: u64
proof -
  have "bits_val (bit w) n = bits_val (bit (uint w)) n"
    unfolding bits_val_def by (rule sum.cong) (use that in \<open>auto simp: bit_uint_iff\<close>)
  then show ?thesis by (simp add: bits_val_bit take_bit_eq_mod)
qed

lemma uint_bits_word: "n \<le> 64 \<Longrightarrow> uint (bits_word f n) = bits_val f n"
proof -
  assume n: "n \<le> 64"
  have w: "bits_word f n = take_bit n (bits_word f n)"
    by (rule bit_word_eqI) (auto simp: bit_take_bit_iff bit_bits_word [OF n])
  have "bits_val f n = bits_val (bit (bits_word f n)) n"
    unfolding bits_val_def by (rule sum.cong) (auto simp: bit_bits_word [OF n])
  also have "\<dots> = uint (bits_word f n) mod 2 ^ n" by (rule bits_val_word [OF n])
  also have "\<dots> = take_bit n (uint (bits_word f n))" by (simp only: take_bit_eq_mod)
  also have "\<dots> = uint (take_bit n (bits_word f n))" by (simp only: unsigned_take_bit_eq)
  finally show ?thesis using w by simp
qed

lemma bits_val_add:
  "bits_val (\<lambda>i. (a i \<noteq> b i) \<noteq> carry_at a b c i) n + 2 ^ n * of_bool (carry_at a b c n) =
     bits_val a n + bits_val b n + of_bool c"
proof (induction n)
  case (Suc n)
  then show ?case
    by (cases "a n"; cases "b n"; cases "carry_at a b c n") (simp_all add: bits_val_def)
qed (simp add: bits_val_def)

lemma drop_bit_test: "drop_bit i x AND 1 \<noteq> 0 \<longleftrightarrow> bit x i" for x :: "'a::len word"
  by (simp add: drop_and_1)

lemma ripple_inputs:
  "ripple_adder_set_inputs ra x y = ra\<lparr>ra_a := (\<lambda>i. if i < ra_width ra then bit x i else ra_a ra i),
     ra_b := (\<lambda>i. if i < ra_width ra then bit y i else ra_b ra i)\<rparr>"
proof -
  have "for_range 0 n (\<lambda>i r. r\<lparr>ra_a := (ra_a r)(i := drop_bit i x AND 1 \<noteq> 0), ra_b := (ra_b r)(i := drop_bit i y AND 1 \<noteq> 0)\<rparr>) ra =
    ra\<lparr>ra_a := (\<lambda>i. if i < n then bit x i else ra_a ra i), ra_b := (\<lambda>i. if i < n then bit y i else ra_b ra i)\<rparr>" for n
    by (induction n) (auto simp: for_range_Suc drop_bit_test fun_eq_iff less_Suc_eq intro!: RippleAdder.equality)
  then show ?thesis by (simp add: ripple_adder_set_inputs_def)
qed

lemma ripple_compute:
  "ripple_adder_compute ra =
     (bits_word (\<lambda>i. (ra_a ra i \<noteq> ra_b ra i) \<noteq> carry_at (ra_a ra) (ra_b ra) False i) (ra_width ra),
      ra\<lparr>ra_carry_out := carry_at (ra_a ra) (ra_b ra) False (ra_width ra)\<rparr>)"
proof -
  have "for_range 0 n (\<lambda>i (carry, acc). let a = ra_a ra i; b = ra_b ra i; s = ((a \<noteq> b) \<noteq> carry)
         in ((a \<and> b) \<or> (carry \<and> (a \<noteq> b)), acc OR push_bit i (of_bool s))) (False, 0) =
     (carry_at (ra_a ra) (ra_b ra) False n,
      bits_word (\<lambda>i. (ra_a ra i \<noteq> ra_b ra i) \<noteq> carry_at (ra_a ra) (ra_b ra) False i) n)" for n
    by (induction n) (auto simp: for_range_Suc bits_word_def Let_def)
  then show ?thesis by (simp add: ripple_adder_compute_def)
qed

lemma cla_inputs:
  "cla_set_inputs cla x y cin = cla\<lparr>cla_a := (\<lambda>i. if i < cla_width cla then bit x i else cla_a cla i),
     cla_b := (\<lambda>i. if i < cla_width cla then bit y i else cla_b cla i),
     cla_p := (\<lambda>i. if i < cla_width cla then bit x i \<noteq> bit y i else cla_p cla i),
     cla_g := (\<lambda>i. if i < cla_width cla then bit x i \<and> bit y i else cla_g cla i), cla_c := (cla_c cla)(0 := cin)\<rparr>"
proof -
  have "for_range 0 n (\<lambda>i r. let ai = (drop_bit i x AND 1 \<noteq> 0); bi = (drop_bit i y AND 1 \<noteq> 0)
         in r\<lparr>cla_a := (cla_a r)(i := ai), cla_b := (cla_b r)(i := bi),
              cla_p := (cla_p r)(i := (ai \<noteq> bi)), cla_g := (cla_g r)(i := (ai \<and> bi))\<rparr>) cla =
    cla\<lparr>cla_a := (\<lambda>i. if i < n then bit x i else cla_a cla i), cla_b := (\<lambda>i. if i < n then bit y i else cla_b cla i),
     cla_p := (\<lambda>i. if i < n then bit x i \<noteq> bit y i else cla_p cla i),
     cla_g := (\<lambda>i. if i < n then bit x i \<and> bit y i else cla_g cla i)\<rparr>" for n
    by (induction n) (auto simp: for_range_Suc drop_bit_test Let_def fun_eq_iff less_Suc_eq intro!: CarryLookaheadAdder.equality)
  then show ?thesis by (simp add: cla_set_inputs_def Let_def)
qed

lemma cla_carries_val:
  assumes "\<And>i. i < cla_width cla \<Longrightarrow> cla_p cla i = (a i \<noteq> b i) \<and> cla_g cla i = (a i \<and> b i)"
  shows "\<exists>c. cla_carries cla = cla\<lparr>cla_c := c\<rparr> \<and> (\<forall>i \<le> cla_width cla. c i = carry_at a b (cla_c cla 0) i)"
proof -
  define F where "F i r = r\<lparr>cla_c := (cla_c r)(i + 1 := cla_g r i \<or> (cla_p r i \<and> cla_c r i))\<rparr>" for i and r :: CarryLookaheadAdder
  have "n \<le> cla_width cla \<Longrightarrow>
    \<exists>c. for_range 0 n F cla = cla\<lparr>cla_c := c\<rparr> \<and> (\<forall>i \<le> n. c i = carry_at a b (cla_c cla 0) i)" for n
  proof (induction n)
    case 0
    show ?case by (intro exI [of _ "cla_c cla"]) simp
  next
    case (Suc n)
    obtain c where c: "for_range 0 n F cla = cla\<lparr>cla_c := c\<rparr>" "\<forall>i \<le> n. c i = carry_at a b (cla_c cla 0) i"
      using Suc.IH [OF Suc_leD [OF Suc.prems]] by blast
    have "for_range 0 (Suc n) F cla = cla\<lparr>cla_c := c(Suc n := carry_at a b (cla_c cla 0) (Suc n))\<rparr>"
      using c assms [of n] Suc.prems by (simp add: for_range_Suc F_def)
    moreover have "\<forall>i \<le> Suc n. (c(Suc n := carry_at a b (cla_c cla 0) (Suc n))) i = carry_at a b (cla_c cla 0) i"
      using c(2) by (simp add: le_Suc_eq)
    ultimately show ?case by blast
  qed
  from this [of "cla_width cla"] show ?thesis by (simp add: cla_carries_def F_def [abs_def])
qed

lemma cla_compute_val:
  assumes "\<And>i. i < cla_width cla \<Longrightarrow> cla_p cla i = (a i \<noteq> b i) \<and> cla_g cla i = (a i \<and> b i)"
  shows "fst (cla_compute cla) = bits_word (\<lambda>i. (a i \<noteq> b i) \<noteq> carry_at a b (cla_c cla 0) i) (cla_width cla) \<and>
    cla_get_carry_out (snd (cla_compute cla)) = carry_at a b (cla_c cla 0) (cla_width cla)"
proof -
  obtain c where c: "cla_carries cla = cla\<lparr>cla_c := c\<rparr>" "\<forall>i \<le> cla_width cla. c i = carry_at a b (cla_c cla 0) i"
    using cla_carries_val [OF assms] by blast
  define F where "F i = (\<lambda>(r :: CarryLookaheadAdder, acc :: u64). let si = (cla_p r i \<noteq> cla_c r i)
    in (r\<lparr>cla_sum := (cla_sum r)(i := si)\<rparr>, acc OR push_bit i (of_bool si)))" for i
  have "n \<le> cla_width cla \<Longrightarrow> \<exists>s. for_range 0 n F (cla\<lparr>cla_c := c\<rparr>, 0) =
      (cla\<lparr>cla_c := c, cla_sum := s\<rparr>, bits_word (\<lambda>i. (a i \<noteq> b i) \<noteq> carry_at a b (cla_c cla 0) i) n)" for n
  proof (induction n)
    case 0
    show ?case by (intro exI [of _ "cla_sum cla"]) (simp add: bits_word_def)
  next
    case (Suc n)
    obtain s where s: "for_range 0 n F (cla\<lparr>cla_c := c\<rparr>, 0) =
      (cla\<lparr>cla_c := c, cla_sum := s\<rparr>, bits_word (\<lambda>i. (a i \<noteq> b i) \<noteq> carry_at a b (cla_c cla 0) i) n)"
      using Suc.IH [OF Suc_leD [OF Suc.prems]] by blast
    let ?b = "(a n \<noteq> b n) \<noteq> carry_at a b (cla_c cla 0) n"
    have v: "(cla_p cla n \<noteq> c n) = ?b" using assms [of n] c(2) Suc.prems by simp
    have "for_range 0 (Suc n) F (cla\<lparr>cla_c := c\<rparr>, 0) = F n (for_range 0 n F (cla\<lparr>cla_c := c\<rparr>, 0))" by (simp add: for_range_Suc)
    also have "\<dots> = (cla\<lparr>cla_c := c, cla_sum := s(n := ?b)\<rparr>,
        bits_word (\<lambda>i. (a i \<noteq> b i) \<noteq> carry_at a b (cla_c cla 0) i) n OR push_bit n (of_bool ?b))"
      unfolding s using v by (simp add: F_def Let_def)
    also have "bits_word (\<lambda>i. (a i \<noteq> b i) \<noteq> carry_at a b (cla_c cla 0) i) n OR push_bit n (of_bool ?b) =
        bits_word (\<lambda>i. (a i \<noteq> b i) \<noteq> carry_at a b (cla_c cla 0) i) (Suc n)" by (simp add: bits_word_def for_range_Suc)
    finally show ?case by blast
  qed
  then obtain s where "for_range 0 (cla_width cla) F (cla\<lparr>cla_c := c\<rparr>, 0) =
      (cla\<lparr>cla_c := c, cla_sum := s\<rparr>, bits_word (\<lambda>i. (a i \<noteq> b i) \<noteq> carry_at a b (cla_c cla 0) i) (cla_width cla))"
    by blast
  then show ?thesis using c by (simp add: cla_compute_def Let_def cla_get_carry_out_def F_def [abs_def])
qed

text \<open>
  C31: The carry-lookahead adder adds: the word it returns and its carry line are together the sum of the two inputs
  cut to its width and the incoming carry, for every width from 1 to 64.
\<close>

theorem cla_adds:
  assumes "1 \<le> w" and "w \<le> 64"
    and "cla_compute (cla_set_inputs (cla_create (int w)) x y cin) = (r, cla)"
  shows "uint r + 2 ^ w * of_bool (cla_get_carry_out cla) = uint x mod 2 ^ w + uint y mod 2 ^ w + of_bool cin"
proof -
  let ?in = "cla_set_inputs (cla_create (int w)) x y cin"
  have w: "cla_width ?in = w" using assms(1,2) by (simp add: cla_inputs cla_create_def clamp_def ADDER_MAX_WIDTH_def)
  have pg: "\<And>i. i < cla_width ?in \<Longrightarrow> cla_p ?in i = (bit x i \<noteq> bit y i) \<and> cla_g ?in i = (bit x i \<and> bit y i)"
    using w by (simp add: cla_inputs)
  have c: "cla_c ?in 0 = cin" by (simp add: cla_inputs)
  have "r = bits_word (\<lambda>i. (bit x i \<noteq> bit y i) \<noteq> carry_at (bit x) (bit y) cin i) w"
      "cla_get_carry_out cla = carry_at (bit x) (bit y) cin w"
    using cla_compute_val [OF pg] assms(3) w c by simp_all
  then show ?thesis
    using assms(2) bits_val_add [of "bit x" "bit y" cin w] by (simp add: uint_bits_word bits_val_word)
qed

theorem cla_adds_witness:
  "uint (fst (cla_compute (cla_set_inputs (cla_create (int 8)) 200 100 True))) +
     2 ^ 8 * of_bool (cla_get_carry_out (snd (cla_compute (cla_set_inputs (cla_create (int 8)) 200 100 True)))) =
   uint (200 :: u64) mod 2 ^ 8 + uint (100 :: u64) mod 2 ^ 8 + of_bool True"
  by (rule cla_adds) simp_all

text \<open>
  The carry-lookahead adder is the ripple-carry adder: with no incoming carry both return the same word
  and the same carry for all inputs and widths.
\<close>

theorem cla_equals_ripple:
  "fst (cla_compute (cla_set_inputs (cla_create w) x y False)) = fst (ripple_adder_compute (ripple_adder_set_inputs (ripple_adder_create w) x y)) \<and>
   cla_get_carry_out (snd (cla_compute (cla_set_inputs (cla_create w) x y False))) =
     ra_carry_out (snd (ripple_adder_compute (ripple_adder_set_inputs (ripple_adder_create w) x y)))"
proof -
  let ?in = "cla_set_inputs (cla_create w) x y False" and ?ra = "ripple_adder_set_inputs (ripple_adder_create w) x y"
  have w: "cla_width ?in = ra_width ?ra" by (simp add: cla_inputs ripple_inputs cla_create_def ripple_adder_create_def)
  have pg: "\<And>i. i < cla_width ?in \<Longrightarrow> cla_p ?in i = (ra_a ?ra i \<noteq> ra_b ?ra i) \<and> cla_g ?in i = (ra_a ?ra i \<and> ra_b ?ra i)"
    using w by (simp add: cla_inputs ripple_inputs cla_create_def ripple_adder_create_def)
  have c: "cla_c ?in 0 = False" by (simp add: cla_inputs)
  show ?thesis unfolding ripple_compute using cla_compute_val [OF pg] c w by simp
qed

section \<open>Multiplication\<close>

text \<open>
  The array multiplier returns the product of the first input and the low bits of the second, as many as its
  second width: the first width is stored but never applied, and the 64-bit result does not wrap.
\<close>

theorem array_mul_product:
  assumes "am_b_width am \<le> 16"
  shows "uint (fst (array_mul_compute am)) = uint (am_a_val am) * (uint (am_b_val am) mod 2 ^ nat (am_b_width am))"
proof -
  let ?a = "uint (am_a_val am)" and ?b = "uint (am_b_val am)"
  define F where "F i (r :: u64) = (if drop_bit i (am_b_val am) AND 1 \<noteq> 0 then r + push_bit i (ucast (am_a_val am)) else r)" for i r
  have "n \<le> 16 \<Longrightarrow> uint (for_range 0 n F 0) = ?a * (?b mod 2 ^ n)" for n
  proof (induction n)
    case (Suc n)
    have m: "?b mod 2 ^ Suc n = 2 ^ n * of_bool (bit (am_b_val am) n) + ?b mod 2 ^ n"
      using take_bit_Suc_from_most [of n ?b] Suc.prems by (simp add: take_bit_eq_mod bit_uint_iff)
    have a: "0 \<le> ?a" "?a < 2 ^ 32" using uint_lt2p [of "am_a_val am"] by simp_all
    have p: "(2 :: int) ^ Suc n \<le> 2 ^ 16" using Suc.prems by (intro power_increasing) simp_all
    have b: "0 \<le> ?b mod 2 ^ Suc n" "?b mod 2 ^ Suc n < 2 ^ Suc n" by simp_all
    have "?a * (?b mod 2 ^ Suc n) \<le> 2 ^ 32 * 2 ^ 16" using a b p by (intro mult_mono) linarith+
    then have big: "?a * (?b mod 2 ^ Suc n) < 2 ^ 64" by simp
    have "?a * 2 ^ n \<le> 2 ^ 32 * 2 ^ 16" using a p by (intro mult_mono) simp_all
    then have small: "?a * 2 ^ n < 2 ^ 64" by simp
    have "uint (push_bit n (ucast (am_a_val am) :: u64)) = take_bit LENGTH(64) (push_bit n (uint (ucast (am_a_val am) :: u64)))"
      by (rule unsigned_push_bit_eq)
    also have "\<dots> = (?a * 2 ^ n) mod 2 ^ 64" by (simp add: push_bit_eq_mult take_bit_eq_mod)
    finally have pb: "uint (push_bit n (ucast (am_a_val am) :: u64)) = ?a * 2 ^ n" using small a by simp
    show ?case
    proof (cases "bit (am_b_val am) n")
      case True
      have "uint (for_range 0 (Suc n) F 0) = (uint (for_range 0 n F 0) + ?a * 2 ^ n) mod 2 ^ 64"
        using True pb by (simp add: for_range_Suc F_def drop_bit_test uint_word_ariths)
      also have "uint (for_range 0 n F 0) + ?a * 2 ^ n = ?a * (?b mod 2 ^ Suc n)"
        using Suc True m by (simp add: algebra_simps)
      finally show ?thesis using big a b by simp
    qed (use Suc m in \<open>simp add: for_range_Suc F_def drop_bit_test\<close>)
  qed simp
  from this [of "nat (am_b_width am)"] show ?thesis
    using assms by (simp add: array_mul_compute_def Let_def F_def [abs_def])
qed

theorem array_mul_product_witness:
  "uint (fst (array_mul_compute (array_mul_set_inputs (array_mul_create 4 4) 300 19))) =
   uint (am_a_val (array_mul_set_inputs (array_mul_create 4 4) 300 19)) *
     (uint (am_b_val (array_mul_set_inputs (array_mul_create 4 4) 300 19)) mod 2 ^ nat (am_b_width (array_mul_set_inputs (array_mul_create 4 4) 300 19)))"
  by (rule array_mul_product) (simp add: array_mul_set_inputs_def array_mul_create_def MUL_MAX_WIDTH_def)

section \<open>Priority\<close>

text \<open>
  The priority encoder reports the highest line that is set among its inputs, and it is valid exactly when
  there is one; lines beyond its width are ignored.
\<close>

theorem pr_encoder_highest:
  "(pr_encoder_is_valid (pr_encoder_set_inputs pe m) \<longleftrightarrow> (\<exists>i < pe_n_inputs pe. bit m i)) \<and>
   (pr_encoder_is_valid (pr_encoder_set_inputs pe m) \<longrightarrow>
      pr_encoder_get_output (pr_encoder_set_inputs pe m) = Max {i. i < pe_n_inputs pe \<and> bit m i})"
proof (cases "List.find (\<lambda>i. drop_bit i m AND 1 \<noteq> 0) (rev [0..<pe_n_inputs pe])")
  case None
  then have "\<not> pe_valid (pr_encoder_set_inputs pe m)" by (simp add: pr_encoder_set_inputs_def)
  moreover have "\<forall>i < pe_n_inputs pe. \<not> bit m i" using None by (simp add: find_None_iff drop_bit_test)
  ultimately show ?thesis by (simp add: pr_encoder_is_valid_def)
next
  case (Some i)
  then have i: "i < pe_n_inputs pe" "bit m i" "\<forall>j. i < j \<and> j < pe_n_inputs pe \<longrightarrow> \<not> bit m j"
    by (simp_all add: find_rev_upt drop_bit_test)
  then have "Max {i. i < pe_n_inputs pe \<and> bit m i} = i" by (intro Max_eqI) (auto simp: not_less [symmetric])
  moreover have "pr_encoder_set_inputs pe m = pe\<lparr>pe_input_mask := m, pe_valid := True, pe_output_val := i\<rparr>"
    using Some by (simp add: pr_encoder_set_inputs_def)
  ultimately show ?thesis using i by (auto simp: pr_encoder_is_valid_def pr_encoder_get_output_def)
qed

theorem pr_encoder_highest_witness:
  "(pr_encoder_is_valid (pr_encoder_set_inputs (pr_encoder_create 8) 0x124) \<longleftrightarrow> (\<exists>i < pe_n_inputs (pr_encoder_create 8). bit (0x124 :: u64) i)) \<and>
   (pr_encoder_is_valid (pr_encoder_set_inputs (pr_encoder_create 8) 0x124) \<longrightarrow>
      pr_encoder_get_output (pr_encoder_set_inputs (pr_encoder_create 8) 0x124) = Max {i. i < pe_n_inputs (pr_encoder_create 8) \<and> bit (0x124 :: u64) i})"
  by (rule pr_encoder_highest)

section \<open>Rotation\<close>

lemma bit_barrel_mask: "w \<le> 64 \<Longrightarrow> bit (barrel_mask w) k \<longleftrightarrow> k < w"
  by (cases "w = 64") (auto simp: barrel_mask_def bit_not_iff mask_eq_exp_minus_1 [symmetric] push_bit_of_1 bit_mask_iff)

lemma barrel_rotate:
  assumes "w \<le> 64" and "0 < s" and "s < w" and "\<And>k. bit v k \<Longrightarrow> k < w"
  shows "\<exists>r. barrel_result SHIFT_ROL v (int s) w = Some r \<and> (\<forall>k. bit r k \<longleftrightarrow> k < w \<and> bit v (if k < s then k + (w - s) else k - s))"
    and "\<exists>r. barrel_result SHIFT_ROR v (int s) w = Some r \<and> (\<forall>k. bit r k \<longleftrightarrow> k < w \<and> bit v (if k < w - s then k + s else k - (w - s)))"
proof -
  have ws: "nat (int w - int s) = w - s" by simp
  show "\<exists>r. barrel_result SHIFT_ROL v (int s) w = Some r \<and> (\<forall>k. bit r k \<longleftrightarrow> k < w \<and> bit v (if k < s then k + (w - s) else k - s))"
    using assms by (auto simp: opt2_def shl64_def shr64_def ws bit_and_iff bit_or_iff bit_push_bit_iff bit_drop_bit_eq bit_barrel_mask add.commute dest: assms(4))
  show "\<exists>r. barrel_result SHIFT_ROR v (int s) w = Some r \<and> (\<forall>k. bit r k \<longleftrightarrow> k < w \<and> bit v (if k < w - s then k + s else k - (w - s)))"
    using assms by (auto simp: opt2_def shl64_def shr64_def ws bit_and_iff bit_or_iff bit_push_bit_iff bit_drop_bit_eq bit_barrel_mask add.commute dest: assms(4))
qed

lemma smod_small: "0 \<le> k \<Longrightarrow> k < l \<Longrightarrow> k smod l = k" for k l :: int
  by (simp add: signed_modulo_int_def sgn_if)

text \<open>
  Rotating left and then right by the same amount restores the input cut to the width of the shifter,
  for every width up to 64 and every amount between zero and the width.
\<close>

theorem barrel_rotate_roundtrip:
  assumes "0 < s" and "s < w" and "w \<le> 64"
  shows "\<exists>r bs. barrel_compute (barrel_set_shift (barrel_set_input (barrel_create (int w)) v) SHIFT_ROL (int s)) = Some (r, bs) \<and>
    map_option fst (barrel_compute (barrel_set_shift (barrel_set_input bs r) SHIFT_ROR (int s))) = Some (v AND barrel_mask w)"
proof -
  let ?v = "v AND barrel_mask w" and ?b = "barrel_create (int w)"
  have v: "\<And>k. bit ?v k \<Longrightarrow> k < w" using assms(3) by (simp add: bit_and_iff bit_barrel_mask)
  obtain r where r: "barrel_result SHIFT_ROL ?v (int s) w = Some r" "\<And>k. bit r k \<longleftrightarrow> k < w \<and> bit ?v (if k < s then k + (w - s) else k - s)"
    using barrel_rotate(1) [OF assms(3,1,2) v] by blast
  have rw: "\<And>k. bit r k \<Longrightarrow> k < w" using r(2) by blast
  have rm: "r AND barrel_mask w = r" by (rule bit_word_eqI) (use rw assms(3) in \<open>auto simp: bit_and_iff bit_barrel_mask\<close>)
  obtain q where q: "barrel_result SHIFT_ROR r (int s) w = Some q" "\<And>k. bit q k \<longleftrightarrow> k < w \<and> bit r (if k < w - s then k + s else k - (w - s))"
    using barrel_rotate(2) [OF assms(3,1,2) rw] by blast
  have "bit q k \<longleftrightarrow> bit ?v k" for k
  proof (cases "k < w")
    case True
    show ?thesis
    proof (cases "k < w - s")
      case low: True
      then have "k + s < w" by linarith
      then show ?thesis using q(2) [of k] r(2) [of "k + s"] low True by simp
    next
      case False
      define i where "i = k - (w - s)"
      have i: "i < s" "i < w" "i + (w - s) = k" using i_def False True assms by linarith+
      have "bit q k \<longleftrightarrow> bit r i" using q(2) [of k] False True by (simp add: i_def)
      also have "\<dots> \<longleftrightarrow> bit ?v k" using r(2) [of i] i by (simp only: if_True simp_thms)
      finally show ?thesis .
    qed
  qed (use v q(2) in blast)
  then have "q = ?v" by (intro bit_word_eqI) simp
  moreover have "nat (clamp BARREL_MAX_WIDTH (int w)) = w" "int s smod int w = int s"
    using assms by (simp_all add: clamp_def BARREL_MAX_WIDTH_def smod_small)
  ultimately show ?thesis using r(1) q(1) rm
    by (simp add: barrel_compute_def barrel_set_shift_def barrel_set_input_def barrel_create_def del: barrel_result.simps)
qed

theorem barrel_rotate_roundtrip_witness:
  "\<exists>r bs. barrel_compute (barrel_set_shift (barrel_set_input (barrel_create (int 64)) 0x8001) SHIFT_ROL (int 7)) = Some (r, bs) \<and>
    map_option fst (barrel_compute (barrel_set_shift (barrel_set_input bs r) SHIFT_ROR (int 7))) = Some (0x8001 AND barrel_mask 64)"
  by (rule barrel_rotate_roundtrip) simp_all

text \<open>
  The arithmetic right shift fills with the sign: bit \<open>k\<close> of the result is bit \<open>k + s\<close> of the input, or
  its sign bit where that is beyond the width, for every amount between zero and the width.
\<close>

theorem barrel_arithmetic_shift:
  assumes "0 < s" and "s < w" and "w \<le> 64"
  shows "\<exists>r bs. barrel_compute (barrel_set_shift (barrel_set_input (barrel_create (int w)) v) SHIFT_AR (int s)) = Some (r, bs) \<and>
    (\<forall>k. bit r k \<longleftrightarrow> k < w \<and> bit v (min (k + s) (w - 1)))"
proof -
  let ?v = "v AND barrel_mask w"
  have ws: "nat (int w - int s) = w - s" by simp
  have sign: "?v AND push_bit (w - 1) 1 \<noteq> 0 \<longleftrightarrow> bit v (w - 1)"
    using assms by (simp only: and_pow2_eq_0 not_not) (simp add: bit_and_iff bit_barrel_mask)
  have m: "bit (push_bit (w - s) (push_bit s 1 - 1) :: u64) k \<longleftrightarrow> w - s \<le> k \<and> k < w" for k
    using assms by (auto simp: bit_push_bit_iff mask_eq_exp_minus_1 [symmetric] push_bit_of_1 bit_mask_iff)
  define M :: u64 where "M = push_bit (w - s) (push_bit s 1 - 1)"
  have mM: "bit M k \<longleftrightarrow> w - s \<le> k \<and> k < w" for k unfolding M_def by (rule m)
  define D where "D = drop_bit s ?v"
  define r where "r = (if bit v (w - 1) then D OR M else D) AND barrel_mask w"
  have "barrel_result SHIFT_AR ?v (int s) w = Some r"
    unfolding barrel_result.simps sign using assms by (auto simp: r_def M_def D_def opt2_def shl64_def shr64_def ws)
  moreover have "bit r k \<longleftrightarrow> k < w \<and> bit v (min (k + s) (w - 1))" for k
  proof -
    have d: "bit D k \<longleftrightarrow> k + s < w \<and> bit v (k + s)"
      unfolding D_def using assms(3) by (simp add: bit_drop_bit_eq bit_and_iff bit_barrel_mask add.commute) blast
    have e: "bit r k \<longleftrightarrow> k < w \<and> ((k + s < w \<and> bit v (k + s)) \<or> bit v (w - 1) \<and> w - s \<le> k)"
      using assms(3) d mM [of k] by (auto simp: r_def bit_and_iff bit_or_iff bit_barrel_mask)
    consider "k + s < w" "k < w" "\<not> w - s \<le> k" "min (k + s) (w - 1) = k + s"
      | "\<not> k + s < w" "w - s \<le> k" "min (k + s) (w - 1) = w - 1" using assms by linarith
    then show ?thesis by cases (simp_all only: e simp_thms)
  qed
  ultimately have "\<exists>r. barrel_result SHIFT_AR ?v (int s) w = Some r \<and> (\<forall>k. bit r k \<longleftrightarrow> k < w \<and> bit v (min (k + s) (w - 1)))" by blast
  moreover have "nat (clamp BARREL_MAX_WIDTH (int w)) = w" "int s smod int w = int s"
    using assms by (simp_all add: clamp_def BARREL_MAX_WIDTH_def smod_small)
  ultimately show ?thesis
    by (auto simp: barrel_compute_def barrel_set_shift_def barrel_set_input_def barrel_create_def simp del: barrel_result.simps)
qed

theorem barrel_arithmetic_shift_witness:
  "\<exists>r bs. barrel_compute (barrel_set_shift (barrel_set_input (barrel_create (int 8)) 0x90) SHIFT_AR (int 3)) = Some (r, bs) \<and>
    (\<forall>k. bit r k \<longleftrightarrow> k < 8 \<and> bit (0x90 :: u64) (min (k + 3) (8 - 1)))"
  by (rule barrel_arithmetic_shift) simp_all

text \<open>A rotation of 64 bits by zero, and any negative amount, shift by an amount that C leaves undefined.\<close>

lemma barrel_undefined_shifts:
  "barrel_compute (barrel_set_shift (barrel_set_input (barrel_create 64) v) SHIFT_ROL 0) = None"
  "barrel_compute (barrel_set_shift (barrel_set_input (barrel_create 8) v) SHIFT_LL (-1)) = None"
  by (simp_all add: barrel_compute_def barrel_set_shift_def barrel_set_input_def barrel_create_def clamp_def BARREL_MAX_WIDTH_def
    opt2_def shl64_def shr64_def signed_modulo_int_def)

text \<open>The comparator compares all 64 bits, whatever its width.\<close>

lemma mag_comp_ignores_width:
  "mc_eq (mag_comp_evaluate (mag_comp_set_inputs (mag_comp_create w) a b)) \<longleftrightarrow> a = b"
  by (simp add: mag_comp_evaluate_def mag_comp_set_inputs_def)

end
