(* ===== verification/Arbitration.thy ===== *)
theory Arbitration
  imports Prelude "HOL-Library.Signed_Division"
begin

text \<open>
  The contract of a fair arbiter, for the bus arbiter and the enclave scheduler: a locale whose client
  lemma bounds the wait, and the arithmetic of a scan that starts after the last one served.
\<close>

section \<open>Bounded waiting\<close>

fun grants :: "('s \<Rightarrow> 'op \<Rightarrow> int \<times> 's) \<Rightarrow> 's \<Rightarrow> 'op list \<Rightarrow> int list" where
  "grants step s [] = []"
| "grants step s (x # xs) = (case step s x of (g, s') \<Rightarrow> g # grants step s' xs)"

text \<open>
  A turn that does not serve a waiting client brings it closer, and what happens between two turns
  changes nothing for it unless it stops waiting.
\<close>

locale bounded_wait =
  fixes step :: "'s \<Rightarrow> 'op \<Rightarrow> int \<times> 's" and ok :: "'s \<Rightarrow> bool" and waits :: "'s \<Rightarrow> nat \<Rightarrow> bool"
    and distance :: "'s \<Rightarrow> nat \<Rightarrow> nat" and turn :: "'op \<Rightarrow> bool" and drops :: "'op \<Rightarrow> nat \<Rightarrow> bool"
  assumes ok_step: "ok s \<Longrightarrow> step s x = (g, s') \<Longrightarrow> ok s'"
    and turn_closer: "ok s \<Longrightarrow> waits s j \<Longrightarrow> turn x \<Longrightarrow> step s x = (g, s') \<Longrightarrow>
      g = int j \<or> waits s' j \<and> distance s' j < distance s j"
    and still_waits: "ok s \<Longrightarrow> waits s j \<Longrightarrow> \<not> turn x \<Longrightarrow> \<not> drops x j \<Longrightarrow> step s x = (g, s') \<Longrightarrow>
      waits s' j \<and> distance s' j = distance s j"
begin

lemma served_within_distance:
  "ok s \<Longrightarrow> waits s j \<Longrightarrow> \<forall>x \<in> set xs. \<not> drops x j \<Longrightarrow> distance s j < length (filter turn xs) \<Longrightarrow> int j \<in> set (grants step s xs)"
proof (induction xs arbitrary: s)
  case (Cons x xs)
  obtain g s' where st: "step s x = (g, s')" by (cases "step s x")
  have ok': "ok s'" by (rule ok_step [OF Cons.prems(1) st])
  have nd: "\<not> drops x j" "\<forall>y \<in> set xs. \<not> drops y j" using Cons.prems(3) by auto
  show ?case
  proof (cases "turn x")
    case True
    then consider "g = int j" | "waits s' j" "distance s' j < distance s j"
      using turn_closer [OF Cons.prems(1,2) True st] by blast
    then show ?thesis
    proof cases
      case 2
      then have "distance s' j < length (filter turn xs)" using Cons.prems(4) True by simp
      from Cons.IH [OF ok' 2(1) nd(2) this] show ?thesis by (simp add: st)
    qed (simp add: st)
  next
    case False
    with still_waits [OF Cons.prems(1,2) False nd(1) st] Cons.prems(4) Cons.IH [OF ok' _ nd(2)]
    show ?thesis by (simp add: st)
  qed
qed simp

end

section \<open>Scans in a ring\<close>

lemma smod_int_nonneg: "0 \<le> k \<Longrightarrow> 0 < l \<Longrightarrow> k smod l = k mod l" for k l :: int
  by (simp add: signed_modulo_int_def signed_divide_int_def minus_div_mult_eq_mod sgn_if)

text \<open>A master at offset \<open>i\<close> from the start is \<open>i\<close> steps away.\<close>

lemma offset_distance: "s < n \<Longrightarrow> i < n \<Longrightarrow> ((s + i) mod n + (n - s)) mod n = i" for n :: nat
proof -
  assume a: "s < n" "i < n"
  have "((s + i) mod n + (n - s)) mod n = (s + i + (n - s)) mod n" by (rule mod_add_left_eq)
  also have "s + i + (n - s) = n + i" using a by simp
  finally show ?thesis using a by simp
qed

lemma distance_offset: "s < n \<Longrightarrow> j < n \<Longrightarrow> (s + (j + (n - s)) mod n) mod n = j" for n :: nat
proof -
  assume a: "s < n" "j < n"
  have "(s + (j + (n - s)) mod n) mod n = (s + (j + (n - s))) mod n" by (rule mod_add_right_eq)
  also have "s + (j + (n - s)) = n + j" using a by simp
  finally show ?thesis using a by simp
qed

text \<open>After the master at offset \<open>i\<close> is served, one at offset \<open>d > i\<close> is \<open>d - i - 1\<close> steps away.\<close>

lemma served_distance: "s < n \<Longrightarrow> i < d \<Longrightarrow> d < n \<Longrightarrow>
    ((s + d) mod n + (n - ((s + i) mod n + 1) mod n)) mod n = d - i - 1" for n :: nat
proof -
  assume a: "s < n" "i < d" "d < n"
  let ?t = "((s + i) mod n + 1) mod n"
  have t: "?t < n" using a by simp
  have "(?t + (d - i - 1)) mod n = ((s + i) mod n + 1 + (d - i - 1)) mod n" by (rule mod_add_left_eq)
  also have "(s + i) mod n + 1 + (d - i - 1) = (s + i) mod n + (d - i)" using a by simp
  also have "((s + i) mod n + (d - i)) mod n = (s + i + (d - i)) mod n" by (rule mod_add_left_eq)
  also have "s + i + (d - i) = s + d" using a by simp
  finally show ?thesis using offset_distance [OF t, of "d - i - 1"] a by simp
qed

text \<open>A scan that starts at \<open>s\<close> serves a waiting \<open>j\<close> or leaves it closer to the next start.\<close>

lemma scan_closer:
  fixes n :: nat
  assumes "s < n" and "j < n" and "P j"
  obtains i where "find_index (\<lambda>i. P ((s + i) mod n)) 0 n = Some i"
    and "(s + i) mod n = j \<or> (j + (n - ((s + i) mod n + 1) mod n)) mod n < (j + (n - s)) mod n"
proof -
  let ?d = "(j + (n - s)) mod n"
  have d: "?d < n" "(s + ?d) mod n = j" using assms(1,2) distance_offset by simp_all
  obtain i where i: "find_index (\<lambda>i. P ((s + i) mod n)) 0 n = Some i"
    using d assms(3) find_index_None [of "\<lambda>i. P ((s + i) mod n)" 0 n] by auto
  then have "i \<le> ?d" using d assms(3) by (auto simp: find_index_Some not_le [symmetric])
  then consider "i = ?d" | "i < ?d" by linarith
  then show ?thesis
  proof cases
    case 1
    then show ?thesis using that [OF i] d by simp
  next
    case 2
    have "(j + (n - ((s + i) mod n + 1) mod n)) mod n = ?d - i - 1"
      using served_distance [OF assms(1) 2 d(1)] d(2) by simp
    then show ?thesis using that [OF i] 2 by simp
  qed
qed

end
