(* ===== verification/BusArbiter.thy ===== *)
theory BusArbiter
  imports Arbitration
begin

text \<open>
  The bus arbiter of \<^verbatim>\<open>mini-digital-circuit/src/bus_arbiter.c\<close>: masters with request and grant
  lines, three arbitration policies, and a bus of two arbiters.  The contract of a fair arbiter is the
  locale \<open>bounded_wait\<close> of Arbitration; round robin and time slots are instances of it, fixed priority is not.
  \<open>None\<close> is a division by zero time slots.
\<close>

section \<open>Data\<close>

definition BUS_MAX_MASTERS :: int where "BUS_MAX_MASTERS = 16"

datatype ArbiterType = ARB_FIXED_PRIORITY | ARB_ROUND_ROBIN | ARB_TDMA

record BusMaster =
  bm_priority :: int
  bm_request :: bool
  bm_grant :: bool
  bm_data :: u32
  bm_last_grant_cycle :: int

record BusArbiter =
  ba_type :: ArbiterType
  ba_masters :: "BusMaster arr"
  ba_num_masters :: nat
  ba_current_master :: int
  ba_tdma_slot :: int
  ba_tdma_num_slots :: int
  ba_cycle :: int
  ba_starvation :: "int arr"

record BusSystem =
  bs_address_arbiter :: BusArbiter
  bs_data_arbiter :: BusArbiter
  bs_address_bus :: u32
  bs_data_bus :: u32
  bs_read_write :: bool
  bs_busy :: bool

section \<open>Operations\<close>

definition bus_arbiter_create :: "ArbiterType \<Rightarrow> int \<Rightarrow> BusArbiter" where
  "bus_arbiter_create ty num_masters =
     (let m = (if num_masters > BUS_MAX_MASTERS then BUS_MAX_MASTERS else num_masters); n = nat (if m < 1 then 1 else m)
      in \<lparr>ba_type = ty,
          ba_masters = (\<lambda>i. \<lparr>bm_priority = int i, bm_request = False, bm_grant = False, bm_data = 0, bm_last_grant_cycle = -1\<rparr>),
          ba_num_masters = n, ba_current_master = -1, ba_tdma_slot = 0, ba_tdma_num_slots = int n, ba_cycle = 0,
          ba_starvation = (\<lambda>_. 0)\<rparr>)"

definition bus_arbiter_request :: "BusArbiter \<Rightarrow> int \<Rightarrow> BusArbiter" where
  "bus_arbiter_request arb i =
     (if i \<ge> 0 \<and> i < int (ba_num_masters arb)
      then arb\<lparr>ba_masters := (ba_masters arb)(nat i := (ba_masters arb (nat i))\<lparr>bm_request := True\<rparr>)\<rparr> else arb)"

definition bus_arbiter_release :: "BusArbiter \<Rightarrow> int \<Rightarrow> BusArbiter" where
  "bus_arbiter_release arb i =
     (if i \<ge> 0 \<and> i < int (ba_num_masters arb)
      then arb\<lparr>ba_masters := (ba_masters arb)(nat i := (ba_masters arb (nat i))\<lparr>bm_request := False, bm_grant := False\<rparr>)\<rparr> else arb)"

definition clear_grants :: "BusArbiter \<Rightarrow> BusArbiter" where
  "clear_grants arb = arb\<lparr>ba_masters := for_range 0 (ba_num_masters arb)
     (\<lambda>i ms. if bm_grant (ms i) then ms(i := (ms i)\<lparr>bm_grant := False\<rparr>) else ms) (ba_masters arb)\<rparr>"

definition grant_master :: "BusArbiter \<Rightarrow> nat \<Rightarrow> BusArbiter" where
  "grant_master arb m = arb\<lparr>ba_masters := (ba_masters arb)(m := (ba_masters arb m)\<lparr>bm_grant := True, bm_last_grant_cycle := ba_cycle arb\<rparr>),
     ba_current_master := int m, ba_cycle := ba_cycle arb + 1\<rparr>"

definition count_starvation :: "BusArbiter \<Rightarrow> nat \<Rightarrow> BusArbiter" where
  "count_starvation arb m = arb\<lparr>ba_starvation := for_range 0 (ba_num_masters arb)
     (\<lambda>j c. if j \<noteq> m \<and> bm_request (ba_masters arb j) then c(j := c j + 1) else c) (ba_starvation arb)\<rparr>"

definition rr_start :: "BusArbiter \<Rightarrow> nat" where
  "rr_start arb = nat ((ba_current_master arb + 1) smod int (ba_num_masters arb))"

definition bus_arbiter_arbitrate :: "BusArbiter \<Rightarrow> (int \<times> BusArbiter) option" where
  "bus_arbiter_arbitrate arb0 =
     (let arb = clear_grants arb0; n = ba_num_masters arb;
          idle = (\<lambda>a. (-1, a\<lparr>ba_cycle := ba_cycle a + 1\<rparr>))
      in case ba_type arb of
           ARB_FIXED_PRIORITY \<Rightarrow>
             (case find_index (\<lambda>i. bm_request (ba_masters arb i)) 0 n of
                Some i \<Rightarrow> Some (int i, grant_master arb i)
              | None \<Rightarrow> Some (idle arb))
         | ARB_ROUND_ROBIN \<Rightarrow>
             (case find_index (\<lambda>i. bm_request (ba_masters arb ((rr_start arb + i) mod n))) 0 n of
                Some i \<Rightarrow> let m = (rr_start arb + i) mod n in Some (int m, count_starvation (grant_master arb m) m)
              | None \<Rightarrow> Some (idle arb))
         | ARB_TDMA \<Rightarrow>
             if ba_tdma_num_slots arb = 0 then None
             else
               let slot = nat (ba_tdma_slot arb smod ba_tdma_num_slots arb)
               in if slot < n \<and> bm_request (ba_masters arb slot)
                  then Some (int slot, (grant_master arb slot)\<lparr>ba_tdma_slot := ba_tdma_slot arb + 1\<rparr>)
                  else Some (idle (arb\<lparr>ba_tdma_slot := ba_tdma_slot arb + 1, ba_cycle := ba_cycle arb + 1\<rparr>)))"

definition bus_arbiter_get_grant :: "BusArbiter \<Rightarrow> int" where
  "bus_arbiter_get_grant arb = ba_current_master arb"

definition bus_arbiter_set_priority :: "BusArbiter \<Rightarrow> int \<Rightarrow> int \<Rightarrow> BusArbiter" where
  "bus_arbiter_set_priority arb i prio =
     (if i \<ge> 0 \<and> i < int (ba_num_masters arb)
      then arb\<lparr>ba_masters := (ba_masters arb)(nat i := (ba_masters arb (nat i))\<lparr>bm_priority := prio\<rparr>)\<rparr> else arb)"

definition bus_arbiter_tdma_configure :: "BusArbiter \<Rightarrow> int \<Rightarrow> BusArbiter" where
  "bus_arbiter_tdma_configure arb num_slots = arb\<lparr>ba_tdma_num_slots := num_slots\<rparr>"

definition bus_arbiter_get_starvation :: "BusArbiter \<Rightarrow> int \<Rightarrow> int" where
  "bus_arbiter_get_starvation arb i = (if i \<ge> 0 \<and> i < int (ba_num_masters arb) then ba_starvation arb (nat i) else 0)"

definition bus_arbiter_has_contention :: "BusArbiter \<Rightarrow> bool" where
  "bus_arbiter_has_contention arb =
     (1 < for_range 0 (ba_num_masters arb) (\<lambda>i g. if bm_grant (ba_masters arb i) then g + 1 else g) (0 :: nat))"

definition bus_system_create :: "int \<Rightarrow> BusSystem" where
  "bus_system_create n = \<lparr>bs_address_arbiter = bus_arbiter_create ARB_ROUND_ROBIN n, bs_data_arbiter = bus_arbiter_create ARB_ROUND_ROBIN n,
     bs_address_bus = 0, bs_data_bus = 0, bs_read_write = True, bs_busy = False\<rparr>"

definition bus_system_tick :: "BusSystem \<Rightarrow> BusSystem option" where
  "bus_system_tick bus =
     (if bs_busy bus then Some bus
      else case bus_arbiter_arbitrate (bs_address_arbiter bus) of
             None \<Rightarrow> None
           | Some (_, a) \<Rightarrow> map_option (\<lambda>(_, d). bus\<lparr>bs_address_arbiter := a, bs_data_arbiter := d\<rparr>)
                              (bus_arbiter_arbitrate (bs_data_arbiter bus)))"

section \<open>Runs of the arbiter\<close>

datatype bus_op = Request int | Release int | Arbitrate

fun bus_step :: "BusArbiter \<Rightarrow> bus_op \<Rightarrow> int \<times> BusArbiter" where
  "bus_step arb (Request i) = (-1, bus_arbiter_request arb i)"
| "bus_step arb (Release i) = (-1, bus_arbiter_release arb i)"
| "bus_step arb Arbitrate = (case bus_arbiter_arbitrate arb of None \<Rightarrow> (-1, arb) | Some r \<Rightarrow> r)"

definition bus_drops :: "bus_op \<Rightarrow> nat \<Rightarrow> bool" where "bus_drops x j \<longleftrightarrow> x = Release (int j)"

definition bus_waits :: "BusArbiter \<Rightarrow> nat \<Rightarrow> bool" where
  "bus_waits arb j \<longleftrightarrow> j < ba_num_masters arb \<and> bm_request (ba_masters arb j)"

lemma clear_loop:
  "for_range 0 n (\<lambda>i ms. if bm_grant (ms i) then ms(i := (ms i)\<lparr>bm_grant := False\<rparr>) else ms) ms =
    (\<lambda>i. if i < n then (ms i)\<lparr>bm_grant := False\<rparr> else ms i)"
  by (induction n) (auto simp: for_range_Suc fun_eq_iff less_Suc_eq)

lemma clear_grants_fields [simp]:
  "ba_type (clear_grants arb) = ba_type arb" "ba_num_masters (clear_grants arb) = ba_num_masters arb"
  "ba_current_master (clear_grants arb) = ba_current_master arb" "ba_tdma_slot (clear_grants arb) = ba_tdma_slot arb"
  "ba_tdma_num_slots (clear_grants arb) = ba_tdma_num_slots arb" "bm_request (ba_masters (clear_grants arb) i) = bm_request (ba_masters arb i)"
  "rr_start (clear_grants arb) = rr_start arb"
  by (simp_all add: clear_grants_def clear_loop rr_start_def)

lemma clear_grants_grant: "i < ba_num_masters arb \<Longrightarrow> \<not> bm_grant (ba_masters (clear_grants arb) i)"
  by (simp add: clear_grants_def clear_loop)

lemma grant_master_fields [simp]:
  "ba_type (grant_master arb m) = ba_type arb" "ba_num_masters (grant_master arb m) = ba_num_masters arb"
  "ba_current_master (grant_master arb m) = int m" "ba_tdma_num_slots (grant_master arb m) = ba_tdma_num_slots arb"
  "ba_tdma_slot (grant_master arb m) = ba_tdma_slot arb" "bm_request (ba_masters (grant_master arb m) i) = bm_request (ba_masters arb i)"
  "bm_grant (ba_masters (grant_master arb m) i) \<longleftrightarrow> i = m \<or> bm_grant (ba_masters arb i)"
  by (simp_all add: grant_master_def)

lemma count_starvation_fields [simp]:
  "ba_type (count_starvation arb m) = ba_type arb" "ba_num_masters (count_starvation arb m) = ba_num_masters arb"
  "ba_current_master (count_starvation arb m) = ba_current_master arb" "ba_tdma_num_slots (count_starvation arb m) = ba_tdma_num_slots arb"
  "ba_tdma_slot (count_starvation arb m) = ba_tdma_slot arb" "ba_masters (count_starvation arb m) = ba_masters arb"
  by (simp_all add: count_starvation_def)

section \<open>Round robin\<close>

definition rr_ok :: "BusArbiter \<Rightarrow> bool" where
  "rr_ok arb \<longleftrightarrow> ba_type arb = ARB_ROUND_ROBIN \<and> 0 < ba_num_masters arb \<and>
     -1 \<le> ba_current_master arb \<and> ba_current_master arb < int (ba_num_masters arb)"

definition rr_distance :: "BusArbiter \<Rightarrow> nat \<Rightarrow> nat" where
  "rr_distance arb j = (j + (ba_num_masters arb - rr_start arb)) mod ba_num_masters arb"

lemma rr_start_val: "rr_ok arb \<Longrightarrow> rr_start arb = nat (ba_current_master arb + 1) mod ba_num_masters arb"
  by (simp add: rr_ok_def rr_start_def smod_int_nonneg nat_mod_distrib)

lemma rr_start_less: "rr_ok arb \<Longrightarrow> rr_start arb < ba_num_masters arb"
  using rr_start_val by (simp add: rr_ok_def)

lemma rr_arbitrate:
  assumes ok: "rr_ok arb" and w: "bus_waits arb j"
  shows "\<exists>i arb'. i \<le> rr_distance arb j \<and> bus_arbiter_arbitrate arb = Some (int ((rr_start arb + i) mod ba_num_masters arb), arb') \<and>
    ba_type arb' = ARB_ROUND_ROBIN \<and> ba_num_masters arb' = ba_num_masters arb \<and>
    ba_current_master arb' = int ((rr_start arb + i) mod ba_num_masters arb) \<and>
    (\<forall>k. bm_request (ba_masters arb' k) = bm_request (ba_masters arb k))"
proof -
  let ?n = "ba_num_masters arb" and ?s = "rr_start arb"
  have s: "?s < ?n" and j: "j < ?n" using rr_start_less [OF ok] w by (simp_all add: bus_waits_def)
  have d: "rr_distance arb j < ?n" "(?s + rr_distance arb j) mod ?n = j"
    using s distance_offset [OF s j] by (simp_all add: rr_distance_def)
  obtain i where i: "find_index (\<lambda>i. bm_request (ba_masters arb ((?s + i) mod ?n))) 0 ?n = Some i"
    using d w find_index_None [of "\<lambda>i. bm_request (ba_masters arb ((?s + i) mod ?n))" 0 ?n] by (auto simp: bus_waits_def)
  then have "i \<le> rr_distance arb j" using d w by (auto simp: find_index_Some bus_waits_def not_le [symmetric])
  then show ?thesis using i ok by (intro exI [of _ i]) (simp add: bus_arbiter_arbitrate_def Let_def rr_ok_def)
qed

lemma request_release_fields [simp]:
  "ba_type (bus_arbiter_request arb i) = ba_type arb" "ba_num_masters (bus_arbiter_request arb i) = ba_num_masters arb"
  "ba_current_master (bus_arbiter_request arb i) = ba_current_master arb" "ba_tdma_slot (bus_arbiter_request arb i) = ba_tdma_slot arb"
  "ba_tdma_num_slots (bus_arbiter_request arb i) = ba_tdma_num_slots arb"
  "ba_type (bus_arbiter_release arb i) = ba_type arb" "ba_num_masters (bus_arbiter_release arb i) = ba_num_masters arb"
  "ba_current_master (bus_arbiter_release arb i) = ba_current_master arb" "ba_tdma_slot (bus_arbiter_release arb i) = ba_tdma_slot arb"
  "ba_tdma_num_slots (bus_arbiter_release arb i) = ba_tdma_num_slots arb"
  by (simp_all add: bus_arbiter_request_def bus_arbiter_release_def)

lemma request_waits: "bus_waits arb j \<Longrightarrow> bus_waits (bus_arbiter_request arb i) j"
  by (simp add: bus_waits_def bus_arbiter_request_def)

lemma release_waits: "bus_waits arb j \<Longrightarrow> i \<noteq> int j \<Longrightarrow> bus_waits (bus_arbiter_release arb i) j"
  by (auto simp: bus_waits_def bus_arbiter_release_def)

lemma rr_arbitrate_idle:
  assumes "rr_ok arb" and "bus_arbiter_arbitrate arb = Some (g, arb')"
  shows "rr_ok arb'"
  using assms by (auto simp: rr_ok_def bus_arbiter_arbitrate_def Let_def split: option.splits)

interpretation rr: bounded_wait bus_step rr_ok bus_waits rr_distance "\<lambda>x. x = Arbitrate" bus_drops
proof
  fix arb :: BusArbiter and x j g arb'
  assume ok: "rr_ok arb" and st: "bus_step arb x = (g, arb')"
  have f: "\<And>a b. rr_ok a \<Longrightarrow> ba_type b = ba_type a \<Longrightarrow> ba_num_masters b = ba_num_masters a \<Longrightarrow>
      ba_current_master b = ba_current_master a \<Longrightarrow> rr_ok b" by (simp add: rr_ok_def)
  show "rr_ok arb'"
    using ok st rr_arbitrate_idle [OF ok] by (cases x) (auto intro: f split: option.splits)
  assume w: "bus_waits arb j"
  show "g = int j \<or> bus_waits arb' j \<and> rr_distance arb' j < rr_distance arb j" if x: "x = Arbitrate"
  proof -
    let ?n = "ba_num_masters arb" and ?s = "rr_start arb" and ?d = "rr_distance arb j"
    have s: "?s < ?n" and j: "j < ?n" using rr_start_less [OF ok] w by (simp_all add: bus_waits_def)
    have d: "?d < ?n" "(?s + ?d) mod ?n = j" using s distance_offset [OF s j] by (simp_all add: rr_distance_def)
    obtain i where i: "i \<le> ?d" "g = int ((?s + i) mod ?n)" "ba_num_masters arb' = ?n"
        "ba_current_master arb' = int ((?s + i) mod ?n)" "ba_type arb' = ARB_ROUND_ROBIN"
        "\<forall>k. bm_request (ba_masters arb' k) = bm_request (ba_masters arb k)"
      using rr_arbitrate [OF ok w] st x by auto
    show ?thesis
    proof (cases "i = ?d")
      case False
      then have lt: "i < ?d" using i(1) by simp
      have "rr_start arb' = ((?s + i) mod ?n + 1) mod ?n"
        using \<open>rr_ok arb'\<close> i(3,4) by (simp add: rr_start_val nat_add_distrib)
      then have "rr_distance arb' j = ?d - i - 1"
        using served_distance [OF s lt d(1)] i(3) d(2) by (simp add: rr_distance_def)
      then show ?thesis using lt i(3,6) w by (simp add: bus_waits_def)
    qed (use i(2) d(2) in simp)
  qed
  show "bus_waits arb' j \<and> rr_distance arb' j = rr_distance arb j" if "x \<noteq> Arbitrate" "\<not> bus_drops x j"
    using st w that by (cases x) (auto simp: bus_drops_def rr_distance_def rr_start_def request_waits release_waits)
qed

section \<open>Time slots\<close>

definition tdma_ok :: "BusArbiter \<Rightarrow> bool" where
  "tdma_ok arb \<longleftrightarrow> ba_type arb = ARB_TDMA \<and> int (ba_num_masters arb) \<le> ba_tdma_num_slots arb \<and>
     0 < ba_tdma_num_slots arb \<and> 0 \<le> ba_tdma_slot arb"

definition tdma_distance :: "BusArbiter \<Rightarrow> nat \<Rightarrow> nat" where
  "tdma_distance arb j = nat ((int j - ba_tdma_slot arb) mod ba_tdma_num_slots arb)"

lemma tdma_step:
  assumes "tdma_ok arb"
  shows "\<exists>arb'. bus_arbiter_arbitrate arb =
      Some (if bus_waits arb (nat (ba_tdma_slot arb mod ba_tdma_num_slots arb)) then ba_tdma_slot arb mod ba_tdma_num_slots arb else -1, arb') \<and>
    tdma_ok arb' \<and> ba_num_masters arb' = ba_num_masters arb \<and> ba_tdma_num_slots arb' = ba_tdma_num_slots arb \<and>
    ba_tdma_slot arb' = ba_tdma_slot arb + 1 \<and> (\<forall>k. bm_request (ba_masters arb' k) = bm_request (ba_masters arb k))"
  using assms by (auto simp: bus_arbiter_arbitrate_def Let_def tdma_ok_def bus_waits_def smod_int_nonneg)

lemma slot_distance:
  fixes n :: int
  assumes "0 < n" and "0 \<le> j" and "j < n"
  shows "s mod n = j \<or> (j - (s + 1)) mod n < (j - s) mod n"
proof (cases "(j - s) mod n = 0")
  case True
  then have "j mod n = s mod n" by (simp add: mod_eq_dvd_iff mod_0_imp_dvd)
  then show ?thesis using assms by simp
next
  case False
  have "0 \<le> (j - s) mod n" "(j - s) mod n < n" using assms(1) by simp_all
  then have b: "0 \<le> (j - s) mod n - 1" "(j - s) mod n - 1 < n" using False by linarith+
  have "(j - (s + 1)) mod n = ((j - s) mod n - 1) mod n" by (simp add: mod_diff_left_eq algebra_simps)
  then show ?thesis using b by simp
qed

interpretation tdma: bounded_wait bus_step tdma_ok bus_waits tdma_distance "\<lambda>x. x = Arbitrate" bus_drops
proof
  fix arb :: BusArbiter and x j g arb'
  assume ok: "tdma_ok arb" and st: "bus_step arb x = (g, arb')"
  show "tdma_ok arb'" using ok st tdma_step [OF ok] by (cases x) (auto simp: tdma_ok_def)
  assume w: "bus_waits arb j"
  show "g = int j \<or> bus_waits arb' j \<and> tdma_distance arb' j < tdma_distance arb j" if x: "x = Arbitrate"
  proof -
    let ?n = "ba_tdma_num_slots arb" and ?s = "ba_tdma_slot arb"
    have n: "0 < ?n" "int j < ?n" using ok w by (auto simp: tdma_ok_def bus_waits_def)
    consider "?s mod ?n = int j" | "(int j - (?s + 1)) mod ?n < (int j - ?s) mod ?n"
      using slot_distance [OF n(1) _ n(2)] by auto
    then show ?thesis
    proof cases
      case 1
      then show ?thesis using tdma_step [OF ok] st w x by auto
    next
      case 2
      moreover have "0 \<le> (int j - (?s + 1)) mod ?n" using n by simp
      ultimately have "nat ((int j - (?s + 1)) mod ?n) < nat ((int j - ?s) mod ?n)" by linarith
      then show ?thesis using tdma_step [OF ok] st w x by (auto simp: tdma_distance_def bus_waits_def)
    qed
  qed
  show "bus_waits arb' j \<and> tdma_distance arb' j = tdma_distance arb j" if "x \<noteq> Arbitrate" "\<not> bus_drops x j"
    using st w that by (cases x) (auto simp: bus_drops_def tdma_distance_def request_waits release_waits)
qed

section \<open>Properties\<close>

text \<open>
  C30: A round-robin arbiter makes no master wait longer than one round: a master whose request stays is granted
  the bus within as many arbitrations as there are masters, whatever requests and releases the others make.
\<close>

theorem bus_round_robin_bounded_wait:
  assumes "rr_ok arb" and "bus_waits arb j" and "\<forall>x \<in> set ops. x \<noteq> Release (int j)"
    and "ba_num_masters arb \<le> length (filter (\<lambda>x. x = Arbitrate) ops)"
  shows "int j \<in> set (grants bus_step arb ops)"
proof (rule rr.served_within_distance)
  have "rr_distance arb j < ba_num_masters arb" using assms(1) by (simp add: rr_distance_def rr_ok_def)
  then show "rr_distance arb j < length (filter (\<lambda>x. x = Arbitrate) ops)" using assms(4) by simp
qed (use assms in \<open>auto simp: bus_drops_def\<close>)

theorem bus_round_robin_bounded_wait_witness:
  "int 2 \<in> set (grants bus_step (bus_arbiter_request (bus_arbiter_create ARB_ROUND_ROBIN 3) 2)
     [Arbitrate, Request 0, Arbitrate, Release 1, Arbitrate])"
  by (rule bus_round_robin_bounded_wait)
    (auto simp: rr_ok_def bus_waits_def bus_arbiter_create_def bus_arbiter_request_def BUS_MAX_MASTERS_def)

text \<open>
  Time slots bound the wait in the same way when there is a slot for every master: a request that stays is
  granted within one frame of slots.
\<close>

theorem bus_tdma_bounded_wait:
  assumes "tdma_ok arb" and "bus_waits arb j" and "\<forall>x \<in> set ops. x \<noteq> Release (int j)"
    and "ba_tdma_num_slots arb \<le> int (length (filter (\<lambda>x. x = Arbitrate) ops))"
  shows "int j \<in> set (grants bus_step arb ops)"
proof (rule tdma.served_within_distance)
  have "0 < ba_tdma_num_slots arb" using assms(1) by (simp add: tdma_ok_def)
  then have "0 \<le> (int j - ba_tdma_slot arb) mod ba_tdma_num_slots arb"
      "(int j - ba_tdma_slot arb) mod ba_tdma_num_slots arb < ba_tdma_num_slots arb" by simp_all
  then show "tdma_distance arb j < length (filter (\<lambda>x. x = Arbitrate) ops)"
    unfolding tdma_distance_def using assms(4) by linarith
qed (use assms in \<open>auto simp: bus_drops_def\<close>)

theorem bus_tdma_bounded_wait_witness:
  "int 1 \<in> set (grants bus_step (bus_arbiter_request (bus_arbiter_create ARB_TDMA 2) 1) [Arbitrate, Arbitrate])"
  by (rule bus_tdma_bounded_wait)
    (auto simp: tdma_ok_def bus_waits_def bus_arbiter_create_def bus_arbiter_request_def BUS_MAX_MASTERS_def)

text \<open>
  The fixed-priority arbiter never serves a master while one with a lower number requests, for any number of
  arbitrations and whatever the priority fields say: the fields are stored but the policy does not read them.
\<close>

theorem bus_fixed_priority_starves:
  assumes "ba_type arb = ARB_FIXED_PRIORITY" and "bus_waits arb i" and "i < j"
  shows "int j \<notin> set (grants bus_step (bus_arbiter_set_priority arb m prio) (replicate n Arbitrate))"
proof -
  have "ba_type arb = ARB_FIXED_PRIORITY \<Longrightarrow> bus_waits arb i \<Longrightarrow> int j \<notin> set (grants bus_step arb (replicate n Arbitrate))" for arb
  proof (induction n arbitrary: arb)
    case (Suc n)
    from Suc.prems(2) obtain k where k: "find_index (\<lambda>i. bm_request (ba_masters (clear_grants arb) i)) 0 (ba_num_masters arb) = Some k"
      using find_index_None [of "\<lambda>i. bm_request (ba_masters (clear_grants arb) i)" 0 "ba_num_masters arb"] by (auto simp: bus_waits_def)
    then have "k \<le> i" using Suc.prems(2) by (auto simp: find_index_Some bus_waits_def not_le [symmetric])
    moreover have "bus_step arb Arbitrate = (int k, grant_master (clear_grants arb) k)"
      using k Suc.prems(1) by (simp add: bus_arbiter_arbitrate_def Let_def)
    moreover have "int j \<notin> set (grants bus_step (grant_master (clear_grants arb) k) (replicate n Arbitrate))"
      using Suc.prems by (intro Suc.IH) (simp_all add: bus_waits_def)
    ultimately show ?case using assms(3) by (simp del: bus_step.simps)
  qed simp
  note starves = this
  have "ba_type (bus_arbiter_set_priority arb m prio) = ARB_FIXED_PRIORITY" "bus_waits (bus_arbiter_set_priority arb m prio) i"
    using assms(1,2) by (auto simp: bus_arbiter_set_priority_def bus_waits_def)
  then show ?thesis by (rule starves)
qed

theorem bus_fixed_priority_starves_witness:
  "int 1 \<notin> set (grants bus_step (bus_arbiter_set_priority
     (bus_arbiter_request (bus_arbiter_request (bus_arbiter_create ARB_FIXED_PRIORITY 2) 0) 1) 1 (-5)) (replicate 9 Arbitrate))"
  by (rule bus_fixed_priority_starves [where i = 0])
    (auto simp: bus_waits_def bus_arbiter_create_def bus_arbiter_request_def BUS_MAX_MASTERS_def)

inductive bus_reachable :: "BusArbiter \<Rightarrow> bool" where
  create: "bus_reachable (bus_arbiter_create ty n)"
| request: "bus_reachable arb \<Longrightarrow> bus_reachable (bus_arbiter_request arb i)"
| release: "bus_reachable arb \<Longrightarrow> bus_reachable (bus_arbiter_release arb i)"
| arbitrate: "bus_reachable arb \<Longrightarrow> bus_arbiter_arbitrate arb = Some (g, arb') \<Longrightarrow> bus_reachable arb'"
| priority: "bus_reachable arb \<Longrightarrow> bus_reachable (bus_arbiter_set_priority arb i p)"
| tdma: "bus_reachable arb \<Longrightarrow> bus_reachable (bus_arbiter_tdma_configure arb n)"

definition bus_exclusive :: "BusArbiter \<Rightarrow> bool" where
  "bus_exclusive arb \<longleftrightarrow>
     (\<forall>i < ba_num_masters arb. bm_grant (ba_masters arb i) \<longrightarrow> bm_request (ba_masters arb i) \<and>
        (\<forall>j < ba_num_masters arb. bm_grant (ba_masters arb j) \<longrightarrow> j = i))"

lemma exclusive_clear: "bus_exclusive (clear_grants arb)"
  using clear_grants_grant by (simp add: bus_exclusive_def)

lemma exclusive_grant: "bm_request (ba_masters arb m) \<Longrightarrow> bus_exclusive (grant_master (clear_grants arb) m)"
  using clear_grants_grant by (auto simp: bus_exclusive_def)

lemma exclusive_fields: "ba_num_masters a = ba_num_masters b \<Longrightarrow> ba_masters a = ba_masters b \<Longrightarrow> bus_exclusive a = bus_exclusive b"
  by (simp add: bus_exclusive_def)

lemma exclusive_arbitrate:
  assumes "bus_arbiter_arbitrate arb = Some (g, arb')"
  shows "bus_exclusive arb'"
proof -
  have "ba_num_masters arb' = ba_num_masters (clear_grants arb) \<and> ba_masters arb' = ba_masters (clear_grants arb) \<or>
    (\<exists>m. bm_request (ba_masters arb m) \<and> ba_num_masters arb' = ba_num_masters (grant_master (clear_grants arb) m) \<and>
       ba_masters arb' = ba_masters (grant_master (clear_grants arb) m))"
    using assms by (auto simp: bus_arbiter_arbitrate_def Let_def find_index_Some split: ArbiterType.splits option.splits if_splits)
  then show ?thesis using exclusive_clear exclusive_grant exclusive_fields by metis
qed

lemma reachable_exclusive: "bus_reachable arb \<Longrightarrow> bus_exclusive arb"
proof (induction rule: bus_reachable.induct)
  case (create ty n)
  then show ?case by (simp add: bus_exclusive_def bus_arbiter_create_def Let_def)
next
  case (arbitrate arb g arb')
  then show ?case by (blast intro: exclusive_arbitrate)
qed (auto simp: bus_exclusive_def bus_arbiter_request_def bus_arbiter_release_def bus_arbiter_set_priority_def bus_arbiter_tdma_configure_def)

lemma count_grants:
  "for_range 0 n (\<lambda>i g. if G i then g + 1 else g) (0 :: nat) = card {i. i < n \<and> G i}"
proof (induction n)
  case (Suc n)
  have "{i. i < Suc n \<and> G i} = (if G n then insert n {i. i < n \<and> G i} else {i. i < n \<and> G i})" by (auto simp: less_Suc_eq)
  then show ?case using Suc by (simp add: for_range_Suc)
qed simp

text \<open>
  The bus is exclusive in every reachable state: the contention test of the program never reports two
  grants, for every policy, and a granted master is one that requests.
\<close>

theorem bus_grant_exclusive:
  assumes "bus_reachable arb"
  shows "\<not> bus_arbiter_has_contention arb \<and>
    (\<forall>i < ba_num_masters arb. bm_grant (ba_masters arb i) \<longrightarrow> bm_request (ba_masters arb i))"
proof -
  note e = reachable_exclusive [OF assms]
  have "card {i. i < ba_num_masters arb \<and> bm_grant (ba_masters arb i)} \<le> 1"
    using e by (auto simp: bus_exclusive_def card_le_Suc0_iff_eq)
  then show ?thesis using e by (auto simp: bus_arbiter_has_contention_def count_grants bus_exclusive_def)
qed

theorem bus_grant_exclusive_witness:
  "\<not> bus_arbiter_has_contention (bus_arbiter_request (bus_arbiter_create ARB_TDMA 4) 2)"
  by (rule bus_grant_exclusive [THEN conjunct1]) (intro bus_reachable.intros)

text \<open>An idle time slot counts two cycles, a used one counts one.\<close>

lemma bus_tdma_idle_two_cycles:
  assumes "tdma_ok arb" and "bus_arbiter_arbitrate arb = Some (g, arb')"
  shows "ba_cycle arb' = ba_cycle arb + (if g = -1 then 2 else 1)"
  using assms by (auto simp: bus_arbiter_arbitrate_def Let_def tdma_ok_def grant_master_def clear_grants_def split: if_splits)

end
