(* ===== verification/Fsm.thy ===== *)
theory Fsm
  imports Prelude
begin

text \<open>
  The finite state machines of \<^verbatim>\<open>mini-digital-circuit/src/fsm.c\<close>: states and transitions as lists
  of at most 64 and 256 entries, stepping, minimisation, conversion between Moore and Mealy machines,
  reachability, and the construction of string matchers.  \<open>None\<close> is an access outside the array of
  states.  Names and printing have no counterpart.
\<close>

section \<open>Data\<close>

definition FSM_MAX_STATES :: nat where "FSM_MAX_STATES = 64"
definition FSM_MAX_TRANSITIONS :: nat where "FSM_MAX_TRANSITIONS = 256"
definition FSM_GRAPH_MAX_PATHS :: nat where "FSM_GRAPH_MAX_PATHS = 512"

datatype FSMType = FSM_MOORE | FSM_MEALY

record FSMState =
  st_moore_output :: int
  st_is_initial :: bool
  st_is_accept :: bool
  st_encoding :: nat

record FSMTransition =
  tr_from_state :: int
  tr_input :: int
  tr_to_state :: int
  tr_mealy_output :: int

record FSM =
  fsm_type :: FSMType
  fsm_states :: "FSMState list"
  fsm_transitions :: "FSMTransition list"
  fsm_current_state :: int
  fsm_last_output :: int

record FSMEdge =
  ed_from :: int
  ed_input :: int
  ed_to :: int
  ed_output :: int

record FSMGraph =
  gr_num_states :: nat
  gr_num_inputs :: nat
  gr_edges :: "FSMEdge list"

section \<open>Building and stepping\<close>

definition fsm_create :: "FSMType \<Rightarrow> FSM" where
  "fsm_create ty = \<lparr>fsm_type = ty, fsm_states = [], fsm_transitions = [], fsm_current_state = 0, fsm_last_output = 0\<rparr>"

definition fsm_add_state :: "FSM \<Rightarrow> int \<Rightarrow> bool \<Rightarrow> bool \<Rightarrow> int \<times> FSM" where
  "fsm_add_state fsm out initial accept =
     (let n = length (fsm_states fsm)
      in if n \<ge> FSM_MAX_STATES then (-1, fsm)
         else (int n, fsm\<lparr>fsm_states := fsm_states fsm @ [\<lparr>st_moore_output = out, st_is_initial = initial, st_is_accept = accept, st_encoding = n\<rparr>],
                fsm_current_state := (if initial then int n else fsm_current_state fsm)\<rparr>))"

definition fsm_add_transition :: "FSM \<Rightarrow> int \<Rightarrow> int \<Rightarrow> int \<Rightarrow> int \<Rightarrow> FSM" where
  "fsm_add_transition fsm from inp to out =
     (if length (fsm_transitions fsm) \<ge> FSM_MAX_TRANSITIONS then fsm
      else fsm\<lparr>fsm_transitions := fsm_transitions fsm @ [\<lparr>tr_from_state = from, tr_input = inp, tr_to_state = to, tr_mealy_output = out\<rparr>]\<rparr>)"

definition fsm_reset :: "FSM \<Rightarrow> FSM" where
  "fsm_reset fsm =
     (case find_index (\<lambda>i. st_is_initial (fsm_states fsm ! i)) 0 (length (fsm_states fsm)) of
        Some i \<Rightarrow> fsm\<lparr>fsm_current_state := int i\<rparr>
      | None \<Rightarrow> fsm\<lparr>fsm_current_state := 0\<rparr>)"

definition state_at :: "FSM \<Rightarrow> int \<Rightarrow> FSMState option" where
  "state_at fsm i = (if 0 \<le> i \<and> i < int (length (fsm_states fsm)) then Some (fsm_states fsm ! nat i) else None)"

definition transition_of :: "FSM \<Rightarrow> int \<Rightarrow> int \<Rightarrow> FSMTransition option" where
  "transition_of fsm s inp = List.find (\<lambda>t. tr_from_state t = s \<and> tr_input t = inp) (fsm_transitions fsm)"

text \<open>The step prints the names of both states, so both have to exist.\<close>

definition fsm_step :: "FSM \<Rightarrow> int \<Rightarrow> (int \<times> FSM) option" where
  "fsm_step fsm inp =
     (case transition_of fsm (fsm_current_state fsm) inp of
        None \<Rightarrow> Some (fsm_current_state fsm, fsm)
      | Some t \<Rightarrow>
          (case (state_at fsm (fsm_current_state fsm), state_at fsm (tr_to_state t)) of
             (Some _, Some s) \<Rightarrow>
               Some (tr_to_state t, fsm\<lparr>fsm_current_state := tr_to_state t,
                 fsm_last_output := (if fsm_type fsm = FSM_MEALY then tr_mealy_output t else st_moore_output s)\<rparr>)
           | _ \<Rightarrow> None))"

definition fsm_get_output :: "FSM \<Rightarrow> int" where "fsm_get_output fsm = fsm_last_output fsm"

fun fsm_simulate :: "FSM \<Rightarrow> int list \<Rightarrow> FSM option" where
  "fsm_simulate fsm [] = Some fsm"
| "fsm_simulate fsm (i # ins) = Option.bind (fsm_step fsm i) (\<lambda>(_, f). fsm_simulate f ins)"

definition fsm_is_accept :: "FSM \<Rightarrow> bool option" where
  "fsm_is_accept fsm =
     (if fsm_current_state fsm \<ge> int (length (fsm_states fsm)) then Some False
      else map_option st_is_accept (state_at fsm (fsm_current_state fsm)))"

definition fsm_state_count :: "FSM \<Rightarrow> nat" where "fsm_state_count fsm = length (fsm_states fsm)"

section \<open>Minimisation\<close>

definition same_kind :: "FSM \<Rightarrow> nat \<Rightarrow> nat \<Rightarrow> bool" where
  "same_kind fsm i j \<longleftrightarrow> st_moore_output (fsm_states fsm ! i) = st_moore_output (fsm_states fsm ! j) \<and>
     st_is_accept (fsm_states fsm ! i) = st_is_accept (fsm_states fsm ! j)"

definition merge_class :: "nat \<Rightarrow> nat arr \<Rightarrow> nat \<Rightarrow> nat \<Rightarrow> nat arr" where
  "merge_class n eqv i j = (let old = eqv j in for_range 0 n (\<lambda>k e. if e k = old then e(k := e i) else e) eqv)"

definition merge_pair :: "FSM \<Rightarrow> nat \<Rightarrow> nat \<Rightarrow> bool \<times> nat arr \<Rightarrow> bool \<times> nat arr" where
  "merge_pair fsm i j = (\<lambda>(changed, e).
     if e i = e j then (changed, e)
     else if \<not> same_kind fsm i j then (changed, e)
     else (True, merge_class (length (fsm_states fsm)) e i j))"

definition minimize_pass :: "FSM \<Rightarrow> nat arr \<Rightarrow> bool \<times> nat arr" where
  "minimize_pass fsm eqv =
     (let n = length (fsm_states fsm)
      in for_range 0 n (\<lambda>i. for_range (i + 1) n (merge_pair fsm i)) (False, eqv))"

text \<open>The loop runs until a pass changes nothing.\<close>

partial_function (option) minimize_loop :: "FSM \<Rightarrow> nat arr \<Rightarrow> nat arr option" where
  "minimize_loop fsm eqv =
     (case minimize_pass fsm eqv of (changed, e) \<Rightarrow> if changed then minimize_loop fsm e else Some e)"

definition fsm_minimize :: "FSM \<Rightarrow> nat option" where
  "fsm_minimize fsm =
     (let n = length (fsm_states fsm)
      in if n \<le> 1 then Some n
         else map_option (\<lambda>e. for_range 0 n (\<lambda>i c. if e i = i then c + 1 else c) 0) (minimize_loop fsm id))"

definition fsm_merge_equivalent :: "FSM \<Rightarrow> nat" where
  "fsm_merge_equivalent fsm =
     (let n = length (fsm_states fsm)
      in if n \<le> 1 then 0
         else for_range 0 n (\<lambda>i. for_range (i + 1) n (\<lambda>j m. if same_kind fsm i j then m + 1 else m)) 0 div 2)"

section \<open>Conversion\<close>

definition fsm_convert_type :: "FSM \<Rightarrow> FSMType \<Rightarrow> FSM option" where
  "fsm_convert_type fsm new_type =
     (if fsm_type fsm = new_type then Some fsm
      else if fsm_type fsm = FSM_MOORE
      then if \<forall>t \<in> set (fsm_transitions fsm). state_at fsm (tr_to_state t) \<noteq> None
           then Some (fsm\<lparr>fsm_transitions := map (\<lambda>t. t\<lparr>tr_mealy_output := st_moore_output (fsm_states fsm ! nat (tr_to_state t))\<rparr>) (fsm_transitions fsm),
                       fsm_type := new_type\<rparr>)
           else None
      else Some (fsm\<lparr>fsm_states := map (\<lambda>s. s\<lparr>st_moore_output := (if st_is_accept s then 1 else 0)\<rparr>) (fsm_states fsm), fsm_type := new_type\<rparr>))"

section \<open>Graph operations\<close>

definition fsm_to_graph :: "FSM \<Rightarrow> FSMGraph" where
  "fsm_to_graph fsm = \<lparr>gr_num_states = length (fsm_states fsm), gr_num_inputs = 2,
     gr_edges = map (\<lambda>t. \<lparr>ed_from = tr_from_state t, ed_input = tr_input t, ed_to = tr_to_state t, ed_output = tr_mealy_output t\<rparr>)
       (take FSM_GRAPH_MAX_PATHS (fsm_transitions fsm))\<rparr>"

text \<open>The test reads the flag of a target before it compares the target with the number of states.\<close>

fun visit_targets :: "FSM \<Rightarrow> nat \<Rightarrow> FSMTransition list \<Rightarrow> bool arr \<times> nat list \<Rightarrow> (bool arr \<times> nat list) option" where
  "visit_targets fsm s [] st = Some st"
| "visit_targets fsm s (t # ts) (visited, queue) =
     (if tr_from_state t = int s
      then if tr_to_state t < 0 \<or> tr_to_state t \<ge> int FSM_MAX_STATES then None
           else let k = nat (tr_to_state t)
                in if \<not> visited k \<and> k < length (fsm_states fsm)
                   then visit_targets fsm s ts (visited(k := True), queue @ [k])
                   else visit_targets fsm s ts (visited, queue)
      else visit_targets fsm s ts (visited, queue))"

function reach_loop :: "FSM \<Rightarrow> nat \<Rightarrow> nat \<Rightarrow> bool arr \<times> nat list \<Rightarrow> nat list option" where
  "reach_loop fsm max_states qh (visited, queue) =
     (if qh < length queue \<and> qh < max_states
      then case visit_targets fsm (queue ! qh) (fsm_transitions fsm) (visited, queue) of
             None \<Rightarrow> None
           | Some st \<Rightarrow> reach_loop fsm max_states (qh + 1) st
      else Some (take qh queue))"
  by pat_completeness auto
termination by (relation "measure (\<lambda>(fsm, m, qh, st). m - qh)") auto

definition fsm_reachable_states :: "FSM \<Rightarrow> nat \<Rightarrow> nat list option" where
  "fsm_reachable_states fsm max_states =
     (if fsm_states fsm = [] then Some []
      else if fsm_current_state fsm < 0 \<or> fsm_current_state fsm \<ge> int FSM_MAX_STATES then None
      else let start = nat (fsm_current_state fsm)
           in reach_loop fsm max_states 0 ((\<lambda>_. False)(start := True), [start]))"

definition fsm_is_complete :: "FSM \<Rightarrow> int \<Rightarrow> bool" where
  "fsm_is_complete fsm num_inputs =
     list_all (\<lambda>s. list_all (\<lambda>i. transition_of fsm (int s) (int i) \<noteq> None) [0..<nat num_inputs]) [0..<length (fsm_states fsm)]"

section \<open>String matchers\<close>

definition kmp_match :: "u8 list \<Rightarrow> nat \<Rightarrow> nat \<Rightarrow> bool" where
  "kmp_match pat i k = list_all (\<lambda>j. pat ! j = pat ! (i - k + 1 + j)) [0..<k - 1]"

definition kmp_next :: "u8 list \<Rightarrow> nat \<Rightarrow> nat \<Rightarrow> nat" where
  "kmp_next pat i c =
     (if i < length pat \<and> c = unat (pat ! i) then i + 1
      else case List.find (\<lambda>k. c = unat (pat ! (k - 1)) \<and> kmp_match pat i k) (rev [1..<i + 1]) of
             Some k \<Rightarrow> k
           | None \<Rightarrow> 0)"

definition fsm_kmp_build :: "u8 list \<Rightarrow> FSM" where
  "fsm_kmp_build pat =
     (let m = length pat;
          f = for_range 0 (m + 1) (\<lambda>i f. snd (fsm_add_state f 0 (i = 0) (i = m))) (fsm_create FSM_MOORE)
      in for_range 0 (m + 1) (\<lambda>i. for_range 0 256 (\<lambda>c f. fsm_add_transition f (int i) (int c) (int (kmp_next pat i c)) 0)) f)"

definition fsm_regex_build :: "u8 list \<Rightarrow> FSM" where
  "fsm_regex_build pat =
     fsm_add_transition (snd (fsm_add_state (snd (fsm_add_state (fsm_create FSM_MOORE) 0 True False)) 0 False True)) 0 1 1 0"

section \<open>Conversion preserves behaviour\<close>

lemma find_map: "List.find P (map h xs) = map_option h (List.find (\<lambda>x. P (h x)) xs)"
  by (induction xs) auto

definition mealy_copy :: "FSM \<Rightarrow> FSM \<Rightarrow> bool" where
  "mealy_copy f g \<longleftrightarrow> fsm_type f = FSM_MOORE \<and> fsm_type g = FSM_MEALY \<and> fsm_states g = fsm_states f \<and>
     fsm_transitions g = map (\<lambda>t. t\<lparr>tr_mealy_output := st_moore_output (fsm_states f ! nat (tr_to_state t))\<rparr>) (fsm_transitions f) \<and>
     fsm_current_state g = fsm_current_state f \<and> fsm_last_output g = fsm_last_output f"

lemma mealy_copy_step:
  assumes "mealy_copy f g"
  shows "rel_option (\<lambda>(s, f') (s', g'). s = s' \<and> mealy_copy f' g') (fsm_step f i) (fsm_step g i)"
proof -
  have tr: "transition_of g s i = map_option (\<lambda>t. t\<lparr>tr_mealy_output := st_moore_output (fsm_states f ! nat (tr_to_state t))\<rparr>) (transition_of f s i)" for s
    using assms by (simp add: mealy_copy_def transition_of_def find_map)
  have st: "state_at g = state_at f" using assms by (simp add: mealy_copy_def state_at_def fun_eq_iff)
  show ?thesis
  proof (cases "transition_of f (fsm_current_state f) i")
    case None
    then show ?thesis using assms tr by (simp add: fsm_step_def) (simp add: mealy_copy_def)
  next
    case (Some t)
    have "transition_of g (fsm_current_state g) i = Some (t\<lparr>tr_mealy_output := st_moore_output (fsm_states f ! nat (tr_to_state t))\<rparr>)"
      using assms tr Some by (simp add: mealy_copy_def)
    then show ?thesis using assms Some st
      by (auto simp: fsm_step_def mealy_copy_def state_at_def split: option.splits)
  qed
qed

lemma mealy_copy_simulate:
  "mealy_copy f g \<Longrightarrow> rel_option mealy_copy (fsm_simulate f ins) (fsm_simulate g ins)"
proof (induction ins arbitrary: f g)
  case (Cons i ins)
  show ?case using mealy_copy_step [OF Cons.prems, of i]
    by (cases "fsm_step f i"; cases "fsm_step g i") (auto intro: Cons.IH)
qed simp

text \<open>
  Converting a Moore machine to a Mealy machine preserves its behaviour: after every sequence of inputs both
  machines are in the same state and show the same output, and one run fails exactly when the other does.
\<close>

theorem fsm_moore_to_mealy:
  assumes "fsm_type fsm = FSM_MOORE" and "fsm_convert_type fsm FSM_MEALY = Some g"
  shows "map_option (\<lambda>f. (fsm_current_state f, fsm_get_output f)) (fsm_simulate g ins) =
    map_option (\<lambda>f. (fsm_current_state f, fsm_get_output f)) (fsm_simulate fsm ins)"
proof -
  have "mealy_copy fsm g" using assms by (auto simp: fsm_convert_type_def mealy_copy_def split: if_splits)
  from mealy_copy_simulate [OF this, of ins] show ?thesis
    by (cases "fsm_simulate fsm ins"; cases "fsm_simulate g ins") (auto simp: mealy_copy_def fsm_get_output_def)
qed

definition toggle_machine :: FSM where
  "toggle_machine = fsm_add_transition (fsm_add_transition
     (snd (fsm_add_state (snd (fsm_add_state (fsm_create FSM_MOORE) 7 True False)) 9 False True)) 0 1 1 0) 1 1 0 0"

theorem fsm_moore_to_mealy_witness:
  "map_option (\<lambda>f. (fsm_current_state f, fsm_get_output f)) (fsm_simulate (the (fsm_convert_type toggle_machine FSM_MEALY)) [1, 0, 1, 1]) =
    map_option (\<lambda>f. (fsm_current_state f, fsm_get_output f)) (fsm_simulate toggle_machine [1, 0, 1, 1])"
  by (rule fsm_moore_to_mealy)
    (simp_all add: toggle_machine_def fsm_add_transition_def fsm_add_state_def fsm_create_def fsm_convert_type_def state_at_def
      FSM_MAX_STATES_def FSM_MAX_TRANSITIONS_def Let_def)

section \<open>Minimisation\<close>

definition class_inv :: "FSM \<Rightarrow> nat arr \<Rightarrow> bool" where
  "class_inv fsm e \<longleftrightarrow>
     (\<forall>k < length (fsm_states fsm). e k < length (fsm_states fsm) \<and> e (e k) = e k \<and> same_kind fsm (e k) k)"

lemma same_kind_sym: "same_kind fsm i j \<Longrightarrow> same_kind fsm j i"
  by (simp add: same_kind_def)

lemma same_kind_trans: "same_kind fsm i j \<Longrightarrow> same_kind fsm j k \<Longrightarrow> same_kind fsm i k"
  by (simp add: same_kind_def)

lemma merge_class_val:
  assumes "e i \<noteq> e j"
  shows "merge_class n e i j k = (if k < n \<and> e k = e j then e i else e k)"
proof -
  define F where "F k f = (if f k = e j then f(k := f i) else f)" for k and f :: "nat arr"
  have "for_range 0 m F e = (\<lambda>k. if k < m \<and> e k = e j then e i else e k)" for m
  proof (induction m)
    case (Suc m)
    have "for_range 0 (Suc m) F e = F m (\<lambda>k. if k < m \<and> e k = e j then e i else e k)"
      by (simp only: for_range_Suc [OF le0] Suc.IH)
    also have "\<dots> = (\<lambda>k. if k < Suc m \<and> e k = e j then e i else e k)"
      unfolding F_def using assms by (auto simp: fun_eq_iff less_Suc_eq)
    finally show ?case .
  qed simp
  then show ?thesis by (simp add: merge_class_def Let_def F_def [abs_def])
qed

lemma merge_class_inv:
  assumes "class_inv fsm e" and "i < length (fsm_states fsm)" and "j < length (fsm_states fsm)" and "e i \<noteq> e j" and "same_kind fsm i j"
  shows "class_inv fsm (merge_class (length (fsm_states fsm)) e i j)"
  unfolding class_inv_def
proof (intro allI impI)
  let ?n = "length (fsm_states fsm)"
  fix k assume k: "k < ?n"
  have c: "\<And>k. k < ?n \<Longrightarrow> e k < ?n \<and> e (e k) = e k \<and> same_kind fsm (e k) k" using assms(1) by (simp add: class_inv_def)
  have v: "merge_class ?n e i j k = (if k < ?n \<and> e k = e j then e i else e k)" for k
    using assms(4) by (rule merge_class_val)
  show "merge_class ?n e i j k < ?n \<and> merge_class ?n e i j (merge_class ?n e i j k) = merge_class ?n e i j k \<and>
    same_kind fsm (merge_class ?n e i j k) k"
  proof (cases "e k = e j")
    case True
    have "same_kind fsm (e j) k" using c [OF k] True by simp
    then have "same_kind fsm (e i) k"
      using c [OF assms(2)] c [OF assms(3)] assms(5) same_kind_sym same_kind_trans by meson
    then show ?thesis using True k c [OF assms(2)] assms(4) by (simp add: v)
  qed (use k c [OF k] in \<open>simp add: v\<close>)
qed

text \<open>A pass leaves no pair of one kind in different classes.\<close>

definition merged_upto :: "FSM \<Rightarrow> nat \<Rightarrow> nat \<Rightarrow> nat arr \<Rightarrow> bool" where
  "merged_upto fsm i j e \<longleftrightarrow>
     (\<forall>a b. a < b \<and> b < length (fsm_states fsm) \<and> same_kind fsm a b \<and> (a < i \<or> a = i \<and> b < j) \<longrightarrow> e a = e b)"

lemma merge_pair_step:
  assumes inv: "class_inv fsm e" and m: "merged_upto fsm i j e" and ij: "i < j" "j < length (fsm_states fsm)"
  shows "class_inv fsm (snd (merge_pair fsm i j (ch, e))) \<and> merged_upto fsm i (Suc j) (snd (merge_pair fsm i j (ch, e)))"
proof (cases "e i \<noteq> e j \<and> same_kind fsm i j")
  case True
  let ?n = "length (fsm_states fsm)"
  have v: "merge_class ?n e i j k = (if k < ?n \<and> e k = e j then e i else e k)" for k
    using conjunct1 [OF True] by (rule merge_class_val)
  have "merged_upto fsm i (Suc j) (merge_class ?n e i j)"
    unfolding merged_upto_def
  proof (intro allI impI)
    fix a b assume ab: "a < b \<and> b < ?n \<and> same_kind fsm a b \<and> (a < i \<or> a = i \<and> b < Suc j)"
    show "merge_class ?n e i j a = merge_class ?n e i j b"
    proof (cases "a = i \<and> b = j")
      case False
      then have "e a = e b" using m ab by (auto simp: merged_upto_def less_Suc_eq)
      then show ?thesis using ab by (simp add: v)
    qed (use True ij in \<open>simp add: v\<close>)
  qed
  then show ?thesis using True merge_class_inv [OF inv _ ij(2), of i] ij by (simp add: merge_pair_def)
next
  case False
  then have "snd (merge_pair fsm i j (ch, e)) = e" by (auto simp: merge_pair_def)
  moreover have "merged_upto fsm i (Suc j) e" using False m by (auto simp: merged_upto_def less_Suc_eq)
  ultimately show ?thesis using inv by simp
qed

lemma minimize_pass_merges:
  assumes "class_inv fsm e"
  shows "class_inv fsm (snd (minimize_pass fsm e)) \<and> merged_upto fsm (length (fsm_states fsm)) 0 (snd (minimize_pass fsm e))"
proof -
  let ?n = "length (fsm_states fsm)"
  let ?I = "\<lambda>i st. class_inv fsm (snd st) \<and> merged_upto fsm i 0 (snd st)"
  have "?I ?n (for_range 0 ?n (\<lambda>i. for_range (i + 1) ?n (merge_pair fsm i)) (False, e))"
  proof (rule for_range_invariant)
    show "?I 0 (False, e)" using assms by (simp add: merged_upto_def)
    fix i and st :: "bool \<times> nat arr" assume i: "i < ?n" and I: "?I i st"
    let ?J = "\<lambda>j (st :: bool \<times> nat arr). class_inv fsm (snd st) \<and> merged_upto fsm i j (snd st)"
    have "?J ?n (for_range (i + 1) ?n (merge_pair fsm i) st)"
    proof (rule for_range_invariant)
      show "?J (i + 1) st" using I by (auto simp: merged_upto_def)
      fix j and st' :: "bool \<times> nat arr" assume "i + 1 \<le> j" "j < ?n" "?J j st'"
      then show "?J (Suc j) (merge_pair fsm i j st')" using merge_pair_step [of fsm "snd st'" i j "fst st'"] by simp
    qed (use i in simp)
    then show "?I (Suc i) (for_range (i + 1) ?n (merge_pair fsm i) st)" by (auto simp: merged_upto_def less_Suc_eq)
  qed simp
  then show ?thesis by (simp add: minimize_pass_def Let_def)
qed

lemma minimize_pass_done:
  assumes "merged_upto fsm (length (fsm_states fsm)) 0 e"
  shows "minimize_pass fsm e = (False, e)"
proof -
  let ?n = "length (fsm_states fsm)"
  have p: "merge_pair fsm i j (False, e) = (False, e)" if "i < j" "j < ?n" for i j
    using assms that by (auto simp: merge_pair_def merged_upto_def)
  have "for_range 0 ?n (\<lambda>i. for_range (i + 1) ?n (merge_pair fsm i)) (False, e) = (False, e)"
    by (rule for_range_preserves, simp) (rule for_range_preserves, simp, use p in simp)
  then show ?thesis by (simp add: minimize_pass_def)
qed

lemma minimize_loop_result:
  assumes "class_inv fsm e"
  shows "\<exists>e'. minimize_loop fsm e = Some e' \<and> class_inv fsm e' \<and> merged_upto fsm (length (fsm_states fsm)) 0 e'"
proof -
  obtain ch e' where p: "minimize_pass fsm e = (ch, e')" by (cases "minimize_pass fsm e")
  then have e': "class_inv fsm e'" "merged_upto fsm (length (fsm_states fsm)) 0 e'"
    using minimize_pass_merges [OF assms] by simp_all
  have "minimize_loop fsm e' = Some e'"
    by (subst minimize_loop.simps) (simp add: minimize_pass_done [OF e'(2)])
  then have "minimize_loop fsm e = Some e'"
    by (subst minimize_loop.simps) (simp add: p)
  then show ?thesis using e' by blast
qed

lemma count_loop: "for_range 0 n (\<lambda>i c. if P i then c + 1 else c) 0 = card {i. i < n \<and> P i}" for n :: nat
proof (induction n)
  case (Suc n)
  have "{i. i < Suc n \<and> P i} = (if P n then insert n {i. i < n \<and> P i} else {i. i < n \<and> P i})" by (auto simp: less_Suc_eq)
  then show ?case using Suc by (simp add: for_range_Suc)
qed simp

definition state_kind :: "FSMState \<Rightarrow> int \<times> bool" where
  "state_kind s = (st_moore_output s, st_is_accept s)"

lemma same_kind_iff: "same_kind fsm i j \<longleftrightarrow> state_kind (fsm_states fsm ! i) = state_kind (fsm_states fsm ! j)"
  by (simp add: same_kind_def state_kind_def)

lemma representatives:
  assumes inv: "class_inv fsm e" and m: "merged_upto fsm (length (fsm_states fsm)) 0 e"
  shows "card {i. i < length (fsm_states fsm) \<and> e i = i} = card (state_kind ` set (fsm_states fsm))"
proof (rule bij_betw_same_card)
  let ?n = "length (fsm_states fsm)" and ?k = "\<lambda>i. state_kind (fsm_states fsm ! i)"
  have c: "\<And>k. k < ?n \<Longrightarrow> e k < ?n \<and> e (e k) = e k \<and> ?k (e k) = ?k k" using inv by (simp add: class_inv_def same_kind_iff)
  have lt: "e a = e b" if "a < b" "b < ?n" "?k a = ?k b" for a b
    using m that by (auto simp: merged_upto_def same_kind_iff)
  have eq: "e a = e b" if "a < ?n" "b < ?n" "?k a = ?k b" for a b
  proof (cases a b rule: linorder_cases)
    case less
    then show ?thesis using that(2,3) by (rule lt)
  next
    case greater
    then show ?thesis by (rule lt [OF _ that(1) that(3) [symmetric], symmetric])
  qed simp
  show "bij_betw ?k {i. i < ?n \<and> e i = i} (state_kind ` set (fsm_states fsm))"
    unfolding bij_betw_def
  proof
    show "inj_on ?k {i. i < ?n \<and> e i = i}"
    proof (rule inj_onI)
      fix a b assume a: "a \<in> {i. i < ?n \<and> e i = i}" and b: "b \<in> {i. i < ?n \<and> e i = i}" and k: "?k a = ?k b"
      have "e a = e b" by (rule eq) (use a b k in simp_all)
      moreover have "e a = a" "e b = b" using a b by simp_all
      ultimately show "a = b" by simp
    qed
    show "?k ` {i. i < ?n \<and> e i = i} = state_kind ` set (fsm_states fsm)"
    proof
      show "state_kind ` set (fsm_states fsm) \<subseteq> ?k ` {i. i < ?n \<and> e i = i}"
      proof
        fix x assume "x \<in> state_kind ` set (fsm_states fsm)"
        then obtain k where k: "k < ?n" "x = ?k k" by (auto simp: in_set_conv_nth)
        then have "x = ?k (e k)" "e k \<in> {i. i < ?n \<and> e i = i}" using c by simp_all
        then show "x \<in> ?k ` {i. i < ?n \<and> e i = i}" by (rule image_eqI)
      qed
    qed auto
  qed
qed

text \<open>
  The minimiser always terminates, and what it returns is the number of different pairs of output and
  acceptance among the states: it never looks at a transition, so it counts states as equivalent that a single
  input tells apart.
\<close>

theorem fsm_minimize_counts_kinds:
  "fsm_minimize fsm = Some (card (state_kind ` set (fsm_states fsm)))"
proof (cases "length (fsm_states fsm) \<le> 1")
  case True
  then have "fsm_states fsm = [] \<or> (\<exists>s. fsm_states fsm = [s])" by (cases "fsm_states fsm") auto
  then show ?thesis by (auto simp: fsm_minimize_def)
next
  case False
  have "class_inv fsm id" by (simp add: class_inv_def same_kind_def)
  then obtain e where e: "minimize_loop fsm id = Some e" "class_inv fsm e" "merged_upto fsm (length (fsm_states fsm)) 0 e"
    using minimize_loop_result by blast
  then show ?thesis using False representatives [OF e(2,3)]
    by (simp add: fsm_minimize_def Let_def count_loop)
qed

section \<open>Reachability\<close>

definition fsm_edges :: "FSM \<Rightarrow> (nat \<times> nat) set" where
  "fsm_edges fsm = {(a, b). \<exists>t \<in> set (fsm_transitions fsm). tr_from_state t = int a \<and> tr_to_state t = int b}"

definition fsm_ok :: "FSM \<Rightarrow> bool" where
  "fsm_ok fsm \<longleftrightarrow> length (fsm_states fsm) \<le> FSM_MAX_STATES \<and>
     0 \<le> fsm_current_state fsm \<and> fsm_current_state fsm < int (length (fsm_states fsm)) \<and>
     (\<forall>t \<in> set (fsm_transitions fsm). 0 \<le> tr_to_state t \<and> tr_to_state t < int (length (fsm_states fsm)))"

lemma visit_targets_result:
  assumes "\<forall>t \<in> set ts. 0 \<le> tr_to_state t \<and> tr_to_state t < int (length (fsm_states fsm))"
    and "length (fsm_states fsm) \<le> FSM_MAX_STATES" and "distinct queue" and "\<And>k. visited k \<longleftrightarrow> k \<in> set queue"
  shows "\<exists>visited' new. visit_targets fsm s ts (visited, queue) = Some (visited', queue @ new) \<and> distinct (queue @ new) \<and>
    (\<forall>k. visited' k \<longleftrightarrow> k \<in> set (queue @ new)) \<and>
    set (queue @ new) = set queue \<union> {k. \<exists>t \<in> set ts. tr_from_state t = int s \<and> tr_to_state t = int k}"
  using assms
proof (induction ts arbitrary: visited queue)
  case Nil
  then show ?case by auto
next
  case (Cons t ts)
  let ?k = "nat (tr_to_state t)"
  have t: "0 \<le> tr_to_state t" "tr_to_state t < int (length (fsm_states fsm))" "tr_to_state t < int FSM_MAX_STATES"
    using Cons.prems(1,2) by auto
  have ts: "\<forall>t \<in> set ts. 0 \<le> tr_to_state t \<and> tr_to_state t < int (length (fsm_states fsm))" using Cons.prems(1) by simp
  show ?case
  proof (cases "tr_from_state t = int s")
    case False
    then show ?thesis using Cons.IH [OF ts Cons.prems(2,3,4)] by auto
  next
    case True
    show ?thesis
    proof (cases "visited ?k")
      case vis: True
      then have "?k \<in> set queue" using Cons.prems(4) by blast
      then show ?thesis using Cons.IH [OF ts Cons.prems(2,3,4)] True t vis by auto
    next
      case new: False
      have d: "distinct (queue @ [?k])" using Cons.prems(3,4) new by auto
      have v: "\<And>k. (visited(?k := True)) k \<longleftrightarrow> k \<in> set (queue @ [?k])" using Cons.prems(4) by auto
      obtain visited' more where r: "visit_targets fsm s ts (visited(?k := True), queue @ [?k]) = Some (visited', (queue @ [?k]) @ more)"
        "distinct ((queue @ [?k]) @ more)" "\<forall>k. visited' k \<longleftrightarrow> k \<in> set ((queue @ [?k]) @ more)"
        "set ((queue @ [?k]) @ more) = set (queue @ [?k]) \<union> {k. \<exists>t \<in> set ts. tr_from_state t = int s \<and> tr_to_state t = int k}"
        using Cons.IH [OF ts Cons.prems(2) d v] by blast
      have "visit_targets fsm s (t # ts) (visited, queue) = Some (visited', queue @ (?k # more))"
        using r(1) True t new by (simp add: nat_less_iff)
      moreover have "set (queue @ (?k # more)) = set queue \<union> {k. \<exists>u \<in> set (t # ts). tr_from_state u = int s \<and> tr_to_state u = int k}"
        using r(4) True t by auto
      moreover have "distinct (queue @ (?k # more))" using r(2) by simp
      moreover have "\<forall>k. visited' k \<longleftrightarrow> k \<in> set (queue @ (?k # more))" using r(3) by simp
      ultimately show ?thesis by blast
    qed
  qed
qed

definition reach_inv :: "FSM \<Rightarrow> nat \<Rightarrow> bool arr \<Rightarrow> nat list \<Rightarrow> bool" where
  "reach_inv fsm qh visited queue \<longleftrightarrow> qh \<le> length queue \<and> distinct queue \<and> (\<forall>k. visited k \<longleftrightarrow> k \<in> set queue) \<and>
     set queue \<subseteq> {..<length (fsm_states fsm)} \<and> nat (fsm_current_state fsm) \<in> set queue \<and>
     (\<forall>k \<in> set queue. (nat (fsm_current_state fsm), k) \<in> (fsm_edges fsm)\<^sup>*) \<and>
     (\<forall>p < qh. \<forall>k. (queue ! p, k) \<in> fsm_edges fsm \<longrightarrow> k \<in> set queue)"

lemma reach_inv_step:
  assumes ok: "fsm_ok fsm" and inv: "reach_inv fsm qh visited queue" and q: "qh < length queue"
  shows "\<exists>visited' queue'. visit_targets fsm (queue ! qh) (fsm_transitions fsm) (visited, queue) = Some (visited', queue') \<and>
    reach_inv fsm (qh + 1) visited' queue'"
proof -
  let ?s = "queue ! qh" and ?start = "nat (fsm_current_state fsm)"
  have i: "distinct queue" "\<And>k. visited k \<longleftrightarrow> k \<in> set queue" "set queue \<subseteq> {..<length (fsm_states fsm)}" "?start \<in> set queue"
    "\<And>k. k \<in> set queue \<Longrightarrow> (?start, k) \<in> (fsm_edges fsm)\<^sup>*"
    "\<And>p k. p < qh \<Longrightarrow> (queue ! p, k) \<in> fsm_edges fsm \<Longrightarrow> k \<in> set queue"
    using inv unfolding reach_inv_def by blast+
  have o: "\<forall>t \<in> set (fsm_transitions fsm). 0 \<le> tr_to_state t \<and> tr_to_state t < int (length (fsm_states fsm))"
    "length (fsm_states fsm) \<le> FSM_MAX_STATES" using ok by (simp_all add: fsm_ok_def)
  obtain visited' new where r: "visit_targets fsm ?s (fsm_transitions fsm) (visited, queue) = Some (visited', queue @ new)"
      "distinct (queue @ new)" "\<forall>k. visited' k \<longleftrightarrow> k \<in> set (queue @ new)"
      "set (queue @ new) = set queue \<union> {k. \<exists>t \<in> set (fsm_transitions fsm). tr_from_state t = int ?s \<and> tr_to_state t = int k}"
    using visit_targets_result [OF o i(1,2), where s = ?s] by blast
  have e: "set (queue @ new) = set queue \<union> {k. (?s, k) \<in> fsm_edges fsm}"
    unfolding r(4) by (simp add: fsm_edges_def)
  have "?s \<in> set queue" using q by (rule nth_mem)
  then have reach: "(?start, k) \<in> (fsm_edges fsm)\<^sup>*" if "k \<in> set (queue @ new)" for k
    using that i(5) unfolding e by (auto intro: rtrancl_into_rtrancl)
  have bound: "set (queue @ new) \<subseteq> {..<length (fsm_states fsm)}"
    unfolding e using i(3) o(1) by (auto simp: fsm_edges_def)
  have succ: "k \<in> set (queue @ new)" if p: "p < qh + 1" and k: "((queue @ new) ! p, k) \<in> fsm_edges fsm" for p k
  proof (cases "p = qh")
    case True
    then show ?thesis using k q unfolding e by (simp add: nth_append)
  next
    case False
    then show ?thesis using i(6) [of p k] p k q by (simp add: nth_append)
  qed
  have "reach_inv fsm (qh + 1) visited' (queue @ new)"
    unfolding reach_inv_def using q r(2,3) bound i(4) reach succ by simp
  then show ?thesis using r(1) by blast
qed

lemma reach_loop_result:
  assumes "fsm_ok fsm" and "reach_inv fsm qh visited queue" and "length (fsm_states fsm) \<le> max_states"
  shows "\<exists>order visited'. reach_loop fsm max_states qh (visited, queue) = Some order \<and> reach_inv fsm (length order) visited' order"
  using assms
proof (induction fsm max_states qh "(visited, queue)" arbitrary: visited queue rule: reach_loop.induct)
  case (1 fsm max_states qh visited queue)
  have le: "length queue \<le> max_states"
  proof -
    have "card (set queue) = length queue" "set queue \<subseteq> {..<length (fsm_states fsm)}"
      using 1(3) by (auto simp: reach_inv_def distinct_card)
    then have "length queue \<le> length (fsm_states fsm)" using card_mono [of "{..<length (fsm_states fsm)}" "set queue"] by simp
    then show ?thesis using 1(4) by simp
  qed
  show ?case
  proof (cases "qh < length queue")
    case True
    obtain visited' queue' where r: "visit_targets fsm (queue ! qh) (fsm_transitions fsm) (visited, queue) = Some (visited', queue')"
      "reach_inv fsm (qh + 1) visited' queue'" using reach_inv_step [OF 1(2,3) True] by blast
    have c: "qh < length queue \<and> qh < max_states" using True le by simp
    show ?thesis using 1(1) [OF c r(1) 1(2) r(2) 1(4)] r(1) c by simp
  next
    case False
    then have "qh = length queue" using 1(3) by (simp add: reach_inv_def)
    then show ?thesis using 1(3) by auto
  qed
qed

text \<open>
  C32: The search for reachable states returns exactly the states that some sequence of transitions reaches from the
  current one, each of them once, for every machine whose current state and transitions stay among its states, when the caller
  asks for at least as many states as the machine has. The search starts at the current state, which after a
  step is not the initial one that the comment in the header names.
\<close>

theorem fsm_reachable_states_exact:
  assumes "fsm_ok fsm" and "length (fsm_states fsm) \<le> max_states"
  shows "\<exists>order. fsm_reachable_states fsm max_states = Some order \<and> distinct order \<and>
    set order = {k. (nat (fsm_current_state fsm), k) \<in> (fsm_edges fsm)\<^sup>*}"
proof -
  let ?start = "nat (fsm_current_state fsm)"
  have ok: "fsm_states fsm \<noteq> []" "0 \<le> fsm_current_state fsm" "fsm_current_state fsm < int FSM_MAX_STATES"
      "?start < length (fsm_states fsm)" using assms(1) by (auto simp: fsm_ok_def)
  have "reach_inv fsm 0 ((\<lambda>_. False)(?start := True)) [?start]" using ok(4) by (simp add: reach_inv_def)
  then obtain order visited' where o: "reach_loop fsm max_states 0 ((\<lambda>_. False)(?start := True), [?start]) = Some order"
      and inv: "reach_inv fsm (length order) visited' order"
    using reach_loop_result [OF assms(1) _ assms(2)] by blast
  have "k \<in> set order" if "(?start, k) \<in> (fsm_edges fsm)\<^sup>*" for k
    using that
  proof (induction rule: rtrancl_induct)
    case base
    show ?case using inv by (simp add: reach_inv_def)
  next
    case (step y z)
    then obtain p where "p < length order" "order ! p = y" by (auto simp: in_set_conv_nth)
    then show ?case using inv step(2) by (auto simp: reach_inv_def)
  qed
  moreover have "fsm_reachable_states fsm max_states = Some order" using o ok by (simp add: fsm_reachable_states_def Let_def)
  ultimately show ?thesis using inv by (auto simp: reach_inv_def)
qed

theorem fsm_reachable_states_exact_witness:
  "\<exists>order. fsm_reachable_states toggle_machine 64 = Some order \<and> distinct order \<and>
    set order = {k. (nat (fsm_current_state toggle_machine), k) \<in> (fsm_edges toggle_machine)\<^sup>*}"
  by (rule fsm_reachable_states_exact)
    (simp_all add: fsm_ok_def toggle_machine_def fsm_add_transition_def fsm_add_state_def fsm_create_def
      FSM_MAX_STATES_def FSM_MAX_TRANSITIONS_def Let_def)

section \<open>String matchers\<close>

definition kmp_transitions :: "u8 list \<Rightarrow> FSMTransition list" where
  "kmp_transitions pat = map (\<lambda>c. \<lparr>tr_from_state = 0, tr_input = int c, tr_to_state = int (kmp_next pat 0 c), tr_mealy_output = 0\<rparr>) [0..<256]"

lemma add_transitions_full:
  "length (fsm_transitions f) \<ge> 256 \<Longrightarrow> for_range 0 n (\<lambda>c f. fsm_add_transition f a (b c) (d c) x) f = f"
  by (induction n) (simp_all add: for_range_Suc fsm_add_transition_def FSM_MAX_TRANSITIONS_def)

lemma add_transitions_first:
  "fsm_transitions f = [] \<Longrightarrow> n \<le> 256 \<Longrightarrow> for_range 0 n (\<lambda>c f. fsm_add_transition f a (b c) (d c) x) f =
     f\<lparr>fsm_transitions := map (\<lambda>c. \<lparr>tr_from_state = a, tr_input = b c, tr_to_state = d c, tr_mealy_output = x\<rparr>) [0..<n]\<rparr>"
  by (induction n) (simp_all add: for_range_Suc fsm_add_transition_def FSM_MAX_TRANSITIONS_def)

lemma kmp_states:
  "for_range 0 n (\<lambda>i f. snd (fsm_add_state f 0 (i = 0) (i = m))) (fsm_create FSM_MOORE) =
     (fsm_create FSM_MOORE)\<lparr>fsm_states := map (\<lambda>i. \<lparr>st_moore_output = 0, st_is_initial = (i = 0), st_is_accept = (i = m), st_encoding = i\<rparr>) [0..<min n 64]\<rparr>"
proof (induction n)
  case 0
  then show ?case by (simp add: fsm_create_def)
next
  case (Suc n)
  show ?case unfolding for_range_Suc [OF le0] Suc.IH
    by (cases "n < 64") (auto simp: fsm_add_state_def fsm_create_def FSM_MAX_STATES_def Let_def min_def)
qed

lemma fsm_kmp_build_val:
  "fsm_kmp_build pat = (fsm_create FSM_MOORE)
     \<lparr>fsm_states := map (\<lambda>i. \<lparr>st_moore_output = 0, st_is_initial = (i = 0), st_is_accept = (i = length pat), st_encoding = i\<rparr>)
        [0..<min (length pat + 1) 64], fsm_transitions := kmp_transitions pat\<rparr>"
proof -
  let ?row = "\<lambda>i. for_range 0 256 (\<lambda>c f. fsm_add_transition f (int i) (int c) (int (kmp_next pat i c)) 0)"
  have rest: "length (fsm_transitions f) \<ge> 256 \<Longrightarrow> for_range 1 n ?row f = f" for n f
    by (rule for_range_preserves [where P = "\<lambda>g. g = f"]) (simp_all add: add_transitions_full)
  have "for_range 0 (length pat + 1) ?row f = f\<lparr>fsm_transitions := kmp_transitions pat\<rparr>" if "fsm_transitions f = []" for f
  proof -
    have "for_range 0 (length pat + 1) ?row f = for_range (Suc 0) (length pat + 1) ?row (?row 0 f)"
      by (rule for_range_step) simp
    also have "?row 0 f = f\<lparr>fsm_transitions := kmp_transitions pat\<rparr>"
      using that by (simp add: add_transitions_first kmp_transitions_def)
    also have "for_range (Suc 0) (length pat + 1) ?row \<dots> = \<dots>"
      by (rule rest [unfolded One_nat_def]) (simp add: kmp_transitions_def)
    finally show ?thesis .
  qed
  then show ?thesis by (simp add: fsm_kmp_build_def Let_def kmp_states) (simp add: fsm_create_def)
qed

lemma kmp_next_0: "kmp_next pat 0 c \<le> 1"
  by (simp add: kmp_next_def)

text \<open>
  The string matcher never accepts a pattern of two or more characters: its table of 256 transitions is full
  after the first state, so no input, not even the pattern itself, leads beyond the second state.
\<close>

theorem fsm_kmp_never_accepts:
  assumes "2 \<le> length pat"
  shows "\<exists>f. fsm_simulate (fsm_kmp_build pat) ins = Some f \<and> fsm_is_accept f = Some False"
proof -
  let ?ok = "\<lambda>f. fsm_states f = fsm_states (fsm_kmp_build pat) \<and> fsm_transitions f = kmp_transitions pat \<and>
    fsm_current_state f \<in> {0, 1}"
  have at: "\<exists>s. state_at f k = Some s" if "?ok f" "k \<in> {0, 1}" for f k
    using that assms by (auto simp: state_at_def fsm_kmp_build_val)
  have step: "\<exists>g r. fsm_step f i = Some (r, g) \<and> ?ok g" if f: "?ok f" for f i
  proof (cases "transition_of f (fsm_current_state f) i")
    case None
    then show ?thesis using f by (simp add: fsm_step_def)
  next
    case (Some t)
    then have "t \<in> set (kmp_transitions pat)" using f by (auto simp: transition_of_def find_Some_iff)
    then obtain c where "tr_to_state t = int (kmp_next pat 0 c)" by (auto simp: kmp_transitions_def)
    then have "tr_to_state t \<in> {0, 1}" using kmp_next_0 [of pat c] by auto
    then show ?thesis using Some f at [OF f, of "fsm_current_state f"] at [OF f, of "tr_to_state t"]
      by (auto simp: fsm_step_def)
  qed
  have run: "\<exists>g. fsm_simulate f ins = Some g \<and> ?ok g" if "?ok f" for f
    using that
  proof (induction ins arbitrary: f)
    case (Cons i ins)
    obtain g r where "fsm_step f i = Some (r, g)" "?ok g" using step [OF Cons.prems] by blast
    then show ?case using Cons.IH [of g] by simp
  qed simp
  have "?ok (fsm_kmp_build pat)" by (simp add: fsm_kmp_build_val fsm_create_def)
  then obtain g where g: "fsm_simulate (fsm_kmp_build pat) ins = Some g" "?ok g" using run by blast
  obtain l where l: "min (length pat + 1) 64 = l" by blast
  have "fsm_states (fsm_kmp_build pat) = map (\<lambda>i. \<lparr>st_moore_output = 0, st_is_initial = (i = 0), st_is_accept = (i = length pat), st_encoding = i\<rparr>) [0..<l]"
    unfolding fsm_kmp_build_val l by simp
  moreover have "2 \<le> l" using l assms by simp
  ultimately have "fsm_is_accept g = Some False" using g(2) assms by (auto simp: fsm_is_accept_def state_at_def)
  then show ?thesis using g(1) by blast
qed

theorem fsm_kmp_never_accepts_witness:
  "\<exists>f. fsm_simulate (fsm_kmp_build [0x61, 0x62]) [0x61, 0x62] = Some f \<and> fsm_is_accept f = Some False"
  by (rule fsm_kmp_never_accepts) simp

end
