(* ===== verification/ByteMemory.thy ===== *)
theory ByteMemory
  imports Prelude
begin

text \<open>
  The byte memory of the processor models (\<^verbatim>\<open>uint8_t memory[MEMORY_SIZE]\<close> in
  \<^verbatim>\<open>mini-cpu-arch/include/isa.h\<close> and \<^verbatim>\<open>ooo_exec.h\<close>) and its little-endian word
  accesses, which \<^verbatim>\<open>isa.c\<close>, \<^verbatim>\<open>pipeline.c\<close> and \<^verbatim>\<open>ooo_exec.c\<close> write out in the same
  way.  Addresses are 32-bit words, so \<open>addr + 4\<close> wraps as in C; a byte access beyond the array
  is undefined and gives \<open>None\<close>.  The locale \<open>word_memory\<close> states what the processors rely on.
\<close>

definition MEMORY_SIZE :: nat where "MEMORY_SIZE = 4096"

text \<open>\<open>if (addr + 4 <= MEMORY_SIZE)\<close>\<close>

definition mem_guard :: "u32 \<Rightarrow> bool" where
  "mem_guard addr \<longleftrightarrow> addr + 4 \<le> of_nat MEMORY_SIZE"

definition in_memory :: "u32 \<Rightarrow> bool" where
  "in_memory addr \<longleftrightarrow> unat addr < MEMORY_SIZE \<and> unat (addr + 1) < MEMORY_SIZE
     \<and> unat (addr + 2) < MEMORY_SIZE \<and> unat (addr + 3) < MEMORY_SIZE"

definition load32 :: "u8 arr \<Rightarrow> u32 \<Rightarrow> u32 option" where
  "load32 mem addr =
     (if in_memory addr
      then Some (ucast (mem (unat addr))
             OR push_bit 8 (ucast (mem (unat (addr + 1))))
             OR push_bit 16 (ucast (mem (unat (addr + 2))))
             OR push_bit 24 (ucast (mem (unat (addr + 3)))))
      else None)"

definition store32 :: "u8 arr \<Rightarrow> u32 \<Rightarrow> u32 \<Rightarrow> u8 arr option" where
  "store32 mem addr b =
     (if in_memory addr
      then Some (mem(unat addr := ucast (b AND 0xFF),
                     unat (addr + 1) := ucast (drop_bit 8 b AND 0xFF),
                     unat (addr + 2) := ucast (drop_bit 16 b AND 0xFF),
                     unat (addr + 3) := ucast (drop_bit 24 b AND 0xFF)))
      else None)"

section \<open>Addresses\<close>

lemma unat_offset: "unat (addr + n) = unat addr + unat n" if "unat addr + unat n < 2 ^ 32"
  for addr n :: u32
  using that by (simp add: unat_word_ariths)

lemma mem_guard_iff: "mem_guard addr \<longleftrightarrow> unat addr + 4 \<le> 4096 \<or> 2 ^ 32 - 4 \<le> unat addr"
proof -
  have "mem_guard addr \<longleftrightarrow> (unat addr + 4) mod 4294967296 \<le> 4096"
    by (simp add: mem_guard_def MEMORY_SIZE_def word_le_nat_alt unat_word_ariths)
  also have "\<dots> \<longleftrightarrow> unat addr + 4 \<le> 4096 \<or> 2 ^ 32 - 4 \<le> unat addr"
  proof (cases "unat addr + 4 < 4294967296")
    case True
    then show ?thesis by simp
  next
    case False
    moreover have "unat addr - 4294967292 < 4294967296"
      by (rule le_less_trans [OF diff_le_self unat_less_u32])
    ultimately have "(unat addr + 4) mod 4294967296 = unat addr + 4 - 4294967296"
      by (simp add: le_mod_geq)
    then show ?thesis using False unat_less_u32 [of addr] by simp
  qed
  finally show ?thesis .
qed

lemma in_memory_iff: "in_memory addr \<longleftrightarrow> unat addr + 4 \<le> 4096"
proof
  assume "in_memory addr"
  then have a: "unat addr < 4096" "unat (addr + 3) < 4096"
    by (auto simp: in_memory_def MEMORY_SIZE_def)
  then show "unat addr + 4 \<le> 4096" using unat_offset [of addr 3] by simp
next
  assume "unat addr + 4 \<le> 4096"
  then show "in_memory addr"
    using unat_offset [of addr 1] unat_offset [of addr 2] unat_offset [of addr 3]
    by (simp add: in_memory_def MEMORY_SIZE_def)
qed

section \<open>The contract\<close>

locale word_memory =
  fixes valid :: "u32 \<Rightarrow> bool"
    and ld :: "'m \<Rightarrow> u32 \<Rightarrow> u32 option"
    and st :: "'m \<Rightarrow> u32 \<Rightarrow> u32 \<Rightarrow> 'm option"
  assumes ld_total: "valid a \<longleftrightarrow> (\<exists>v. ld m a = Some v)"
    and st_total: "valid a \<longleftrightarrow> (\<exists>m'. st m a v = Some m')"
    and ld_st: "st m a v = Some m' \<Longrightarrow> ld m' a = Some v"
    and ld_st_disjoint: "st m a v = Some m' \<Longrightarrow> valid b \<Longrightarrow>
      unat a + 4 \<le> unat b \<or> unat b + 4 \<le> unat a \<Longrightarrow> ld m' b = ld m b"
begin

text \<open>A later store elsewhere keeps a stored word; a later store to it replaces it.\<close>

lemma ld_after_two:
  assumes "st m a v = Some m1" and "st m1 b w = Some m2"
    and "a = b \<or> unat a + 4 \<le> unat b \<or> unat b + 4 \<le> unat a"
  shows "ld m2 a = Some (if a = b then w else v)"
proof (cases "a = b")
  case True
  then show ?thesis using ld_st [OF assms(2)] by simp
next
  case False
  have "valid a" using st_total assms(1) by blast
  with False assms have "ld m2 a = ld m1 a"
    by (intro ld_st_disjoint [OF assms(2)]) auto
  with False show ?thesis using ld_st [OF assms(1)] by simp
qed

end

lemma load32_store32_bits:
  "(ucast (ucast (b AND 0xFF) :: u8) :: u32)
     OR push_bit 8 (ucast (ucast (drop_bit 8 b AND 0xFF) :: u8))
     OR push_bit 16 (ucast (ucast (drop_bit 16 b AND 0xFF) :: u8))
     OR push_bit 24 (ucast (ucast (drop_bit 24 b AND 0xFF) :: u8)) = b"
proof -
  have m: "(0xFF :: u32) = mask 8" by (simp add: mask_eq_exp_minus_1)
  show ?thesis
    unfolding m
  proof (rule bit_word_eqI, goal_cases)
    case (1 n)
    then consider "n < 8" | "8 \<le> n" "n < 16" | "16 \<le> n" "n < 24" | "24 \<le> n" "n < 32"
      by fastforce
    then show ?case by cases (simp_all add: bit_simps less_diff_conv2)
  qed
qed

interpretation mem: word_memory in_memory load32 store32
proof unfold_locales
  fix m m' :: "u8 arr" and a v b :: u32
  assume s: "store32 m a v = Some m'"
  then have i: "unat a + 4 \<le> 4096" by (auto simp: store32_def in_memory_iff split: if_splits)
  then have o: "unat (a + 1) = unat a + 1" "unat (a + 2) = unat a + 2" "unat (a + 3) = unat a + 3"
    using unat_offset [of a 1] unat_offset [of a 2] unat_offset [of a 3] by simp_all
  show "load32 m' a = Some v"
    using s i load32_store32_bits [of v]
    by (auto simp: store32_def load32_def o split: if_splits)
  assume "in_memory b" and d: "unat a + 4 \<le> unat b \<or> unat b + 4 \<le> unat a"
  then have ib: "unat b + 4 \<le> 4096" by (simp add: in_memory_iff)
  then have ob: "unat (b + 1) = unat b + 1" "unat (b + 2) = unat b + 2" "unat (b + 3) = unat b + 3"
    using unat_offset [of b 1] unat_offset [of b 2] unat_offset [of b 3] by simp_all
  show "load32 m' b = load32 m b"
    using s d by (auto simp: store32_def load32_def o ob split: if_splits)
qed (simp_all add: load32_def store32_def)

lemma load32_None: "load32 m a = None \<longleftrightarrow> \<not> in_memory a"
  by (simp add: load32_def)

lemma store32_None: "store32 m a v = None \<longleftrightarrow> \<not> in_memory a"
  by (simp add: store32_def)

lemma guard_unsafe_iff: "mem_guard addr \<and> \<not> in_memory addr \<longleftrightarrow> 2 ^ 32 - 4 \<le> unat addr"
  by (auto simp: mem_guard_iff in_memory_iff)

lemma guard_safe: "in_memory addr \<Longrightarrow> mem_guard addr"
  by (simp add: mem_guard_iff in_memory_iff)

end
