(* ===== verification/Isa.thy ===== *)
theory Isa
  imports ByteMemory
begin

text \<open>
  The instruction set simulator of \<^verbatim>\<open>mini-cpu-arch/src/isa.c\<close>: decoder, fetch,
  execution of one instruction, the step and the program loader, and the multi-port register
  file of \<^verbatim>\<open>register_file.c\<close>.  Signed immediates are kept as 32-bit words and read with
  \<open>sint\<close> where the code compares them as \<open>int32_t\<close>.  Fetch and execution return \<open>None\<close> when
  the code would access an array out of bounds.
\<close>

section \<open>Instructions and context\<close>

datatype Opcode = OP_ADD | OP_SUB | OP_AND | OP_OR | OP_XOR | OP_SLL | OP_SRL | OP_SRA | OP_SLT
  | OP_SLTU | OP_ADDI | OP_ANDI | OP_ORI | OP_XORI | OP_SLLI | OP_SRLI | OP_SRAI | OP_SLTI
  | OP_SLTIU | OP_LW | OP_SW | OP_LB | OP_SB | OP_BEQ | OP_BNE | OP_BLT | OP_BGE | OP_BLTU
  | OP_BGEU | OP_JAL | OP_JALR | OP_LUI | OP_AUIPC | OP_NOP

record Instruction =
  in_raw :: u32
  in_opcode :: Opcode
  in_rd :: u8
  in_rs1 :: u8
  in_rs2 :: u8
  in_funct3 :: u8
  in_funct7 :: u8
  in_immediate :: u32

record ISAContext =
  isa_registers :: "u32 arr"
  isa_pc :: u32
  isa_memory :: "u8 arr"
  isa_halted :: bool
  isa_cycles :: u64

definition MAX_REGISTERS :: nat where "MAX_REGISTERS = 16"

definition isa_init :: ISAContext where
  "isa_init = \<lparr>isa_registers = (\<lambda>_. 0), isa_pc = 0, isa_memory = (\<lambda>_. 0), isa_halted = False,
     isa_cycles = 0\<rparr>"

section \<open>Decoder\<close>

definition imm_i :: "u32 \<Rightarrow> u32" where
  "imm_i raw = (let i = drop_bit 20 raw AND 0xFFF in
     if i AND 0x800 \<noteq> 0 then i OR 0xFFFFF000 else i)"

definition imm_s :: "u32 \<Rightarrow> u32" where
  "imm_s raw = (let i = (drop_bit 7 raw AND 0x1F) OR push_bit 5 (drop_bit 25 raw) in
     if i AND 0x800 \<noteq> 0 then i OR 0xFFFFF000 else i)"

definition imm_b :: "u32 \<Rightarrow> u32" where
  "imm_b raw = (let i = (drop_bit 7 raw AND 0x1E) OR (drop_bit 25 raw AND 0x7E)
                      OR (drop_bit 7 raw AND 0x1) OR (drop_bit 31 raw AND 0x1) in
     if i AND 0x1000 \<noteq> 0 then i OR 0xFFFFE000 else i)"

definition imm_u :: "u32 \<Rightarrow> u32" where
  "imm_u raw = raw AND 0xFFFFF000"

definition imm_j :: "u32 \<Rightarrow> u32" where
  "imm_j raw = (let i = (drop_bit 21 raw AND 0x3FF) OR (drop_bit 20 raw AND 0x1)
                      OR (drop_bit 12 raw AND 0xFF) OR (drop_bit 31 raw AND 0x1) in
     if i AND 0x100000 \<noteq> 0 then i OR 0xFFE00000 else i)"

definition decode_r :: "u8 \<Rightarrow> u8 \<Rightarrow> Opcode" where
  "decode_r funct3 funct7 =
     (if funct3 = 0 then (if funct7 = 0 then OP_ADD else OP_SUB)
      else if funct3 = 1 then OP_SLL
      else if funct3 = 2 then OP_SLT
      else if funct3 = 3 then OP_SLTU
      else if funct3 = 4 then OP_XOR
      else if funct3 = 5 then (if funct7 = 0 then OP_SRL else OP_SRA)
      else if funct3 = 6 then OP_OR
      else if funct3 = 7 then OP_AND
      else OP_NOP)"

definition decode_i :: "u8 \<Rightarrow> u8 \<Rightarrow> Opcode" where
  "decode_i funct3 funct7 =
     (if funct3 = 0 then OP_ADDI
      else if funct3 = 1 then OP_SLLI
      else if funct3 = 2 then OP_SLTI
      else if funct3 = 3 then OP_SLTIU
      else if funct3 = 4 then OP_XORI
      else if funct3 = 5 then (if funct7 = 0 then OP_SRLI else OP_SRAI)
      else if funct3 = 6 then OP_ORI
      else if funct3 = 7 then OP_ANDI
      else OP_NOP)"

definition decode_b :: "u8 \<Rightarrow> Opcode" where
  "decode_b funct3 =
     (if funct3 = 0 then OP_BEQ
      else if funct3 = 1 then OP_BNE
      else if funct3 = 4 then OP_BLT
      else if funct3 = 5 then OP_BGE
      else if funct3 = 6 then OP_BLTU
      else if funct3 = 7 then OP_BGEU
      else OP_NOP)"

definition nop_instruction :: "u32 \<Rightarrow> Instruction" where
  "nop_instruction raw = \<lparr>in_raw = raw, in_opcode = OP_NOP, in_rd = 0, in_rs1 = 0, in_rs2 = 0,
     in_funct3 = 0, in_funct7 = 0, in_immediate = 0\<rparr>"

definition isa_decode :: "u32 \<Rightarrow> Instruction" where
  "isa_decode raw =
     (if raw = 0 then nop_instruction raw
      else
        let opcode_field = ucast (raw AND 0x7F) :: u8;
            rd_field = ucast (drop_bit 7 raw AND 0x1F) :: u8;
            funct3_field = ucast (drop_bit 12 raw AND 0x7) :: u8;
            rs1_field = ucast (drop_bit 15 raw AND 0x1F) :: u8;
            rs2_field = ucast (drop_bit 20 raw AND 0x1F) :: u8;
            funct7_field = ucast (drop_bit 25 raw AND 0x7F) :: u8;
            inst = (nop_instruction raw)\<lparr>in_rd := rd_field AND 0xF, in_rs1 := rs1_field AND 0xF,
              in_rs2 := rs2_field AND 0xF, in_funct3 := funct3_field, in_funct7 := funct7_field\<rparr>
        in if opcode_field = 0x33 then
             inst\<lparr>in_opcode := decode_r funct3_field funct7_field, in_immediate := 0\<rparr>
           else if opcode_field = 0x13 then
             inst\<lparr>in_immediate := imm_i raw, in_opcode := decode_i funct3_field funct7_field\<rparr>
           else if opcode_field = 0x03 then inst\<lparr>in_opcode := OP_LW, in_immediate := imm_i raw\<rparr>
           else if opcode_field = 0x23 then inst\<lparr>in_opcode := OP_SW, in_immediate := imm_s raw\<rparr>
           else if opcode_field = 0x63 then
             inst\<lparr>in_immediate := imm_b raw, in_opcode := decode_b funct3_field\<rparr>
           else if opcode_field = 0x6F then inst\<lparr>in_opcode := OP_JAL, in_immediate := imm_j raw\<rparr>
           else if opcode_field = 0x67 then inst\<lparr>in_opcode := OP_JALR, in_immediate := imm_i raw\<rparr>
           else if opcode_field = 0x37 then inst\<lparr>in_opcode := OP_LUI, in_immediate := imm_u raw\<rparr>
           else if opcode_field = 0x17 then inst\<lparr>in_opcode := OP_AUIPC, in_immediate := imm_u raw\<rparr>
           else inst)"

section \<open>Fetch\<close>

definition isa_fetch :: "ISAContext \<Rightarrow> Instruction option" where
  "isa_fetch ctx =
     (if isa_halted ctx \<or> \<not> mem_guard (isa_pc ctx) then Some (nop_instruction 0)
      else map_option isa_decode (load32 (isa_memory ctx) (isa_pc ctx)))"

section \<open>Execution\<close>

text \<open>The value for the destination register of every instruction that does not touch memory.\<close>

fun rd_value :: "Opcode \<Rightarrow> u32 \<Rightarrow> u32 \<Rightarrow> u32 \<Rightarrow> u32 \<Rightarrow> u32" where
  "rd_value OP_ADD pc a b imm = a + b"
| "rd_value OP_SUB pc a b imm = a - b"
| "rd_value OP_AND pc a b imm = a AND b"
| "rd_value OP_OR pc a b imm = a OR b"
| "rd_value OP_XOR pc a b imm = a XOR b"
| "rd_value OP_SLL pc a b imm = push_bit (unat (b AND 0x1F)) a"
| "rd_value OP_SRL pc a b imm = drop_bit (unat (b AND 0x1F)) a"
| "rd_value OP_SRA pc a b imm = signed_drop_bit (unat (b AND 0x1F)) a"
| "rd_value OP_SLT pc a b imm = (if sint a < sint b then 1 else 0)"
| "rd_value OP_SLTU pc a b imm = (if a < b then 1 else 0)"
| "rd_value OP_ADDI pc a b imm = a + imm"
| "rd_value OP_ANDI pc a b imm = a AND imm"
| "rd_value OP_ORI pc a b imm = a OR imm"
| "rd_value OP_XORI pc a b imm = a XOR imm"
| "rd_value OP_SLLI pc a b imm = push_bit (unat (imm AND 0x1F)) a"
| "rd_value OP_SRLI pc a b imm = drop_bit (unat (imm AND 0x1F)) a"
| "rd_value OP_SRAI pc a b imm = signed_drop_bit (unat (imm AND 0x1F)) a"
| "rd_value OP_SLTI pc a b imm = (if sint a < sint imm then 1 else 0)"
| "rd_value OP_SLTIU pc a b imm = (if a < imm then 1 else 0)"
| "rd_value OP_LUI pc a b imm = imm"
| "rd_value OP_AUIPC pc a b imm = pc + imm"
| "rd_value OP_JAL pc a b imm = pc + 4"
| "rd_value OP_JALR pc a b imm = pc + 4"
| "rd_value _ pc a b imm = 0"

fun branch_taken :: "Opcode \<Rightarrow> u32 \<Rightarrow> u32 \<Rightarrow> bool" where
  "branch_taken OP_BEQ a b \<longleftrightarrow> a = b"
| "branch_taken OP_BNE a b \<longleftrightarrow> a \<noteq> b"
| "branch_taken OP_BLT a b \<longleftrightarrow> sint a < sint b"
| "branch_taken OP_BGE a b \<longleftrightarrow> sint a \<ge> sint b"
| "branch_taken OP_BLTU a b \<longleftrightarrow> a < b"
| "branch_taken OP_BGEU a b \<longleftrightarrow> a \<ge> b"
| "branch_taken _ a b \<longleftrightarrow> False"

definition isa_next_pc :: "Opcode \<Rightarrow> u32 \<Rightarrow> u32 \<Rightarrow> u32 \<Rightarrow> u32 \<Rightarrow> u32" where
  "isa_next_pc op pc a b imm =
     (if op = OP_JAL then pc + imm
      else if op = OP_JALR then (a + imm) AND NOT 1
      else if branch_taken op a b then pc + imm
      else pc + 4)"

text \<open>The \<open>switch\<close>: destination value and memory, with the two memory labels.\<close>

definition isa_switch :: "u8 arr \<Rightarrow> Opcode \<Rightarrow> u32 \<Rightarrow> u32 \<Rightarrow> u32 \<Rightarrow> u32 \<Rightarrow> (u32 \<times> u8 arr) option" where
  "isa_switch mem op pc a b imm =
     (if op = OP_LW then
        (let addr = a + imm in
         if mem_guard addr then map_option (\<lambda>v. (v, mem)) (load32 mem addr) else Some (0, mem))
      else if op = OP_SW then
        (let addr = a + imm in
         if mem_guard addr then map_option (\<lambda>m. (0, m)) (store32 mem addr b) else Some (0, mem))
      else Some (rd_value op pc a b imm, mem))"

definition writes_rd :: "Opcode \<Rightarrow> bool" where
  "writes_rd op \<longleftrightarrow> op \<notin> {OP_SW, OP_BEQ, OP_BNE, OP_BLT, OP_BGE, OP_BLTU, OP_BGEU, OP_NOP}"

definition isa_execute :: "ISAContext \<Rightarrow> Instruction \<Rightarrow> ISAContext option" where
  "isa_execute ctx inst =
     (if isa_halted ctx then Some ctx
      else
        let regs = isa_registers ctx;
            a = (if unat (in_rs1 inst) < MAX_REGISTERS then regs (unat (in_rs1 inst)) else 0);
            b = (if unat (in_rs2 inst) < MAX_REGISTERS then regs (unat (in_rs2 inst)) else 0);
            op = in_opcode inst
        in case isa_switch (isa_memory ctx) op (isa_pc ctx) a b (in_immediate inst) of
             None \<Rightarrow> None
           | Some (rd_val, mem) \<Rightarrow>
               let ctx1 = ctx\<lparr>isa_memory := mem, isa_pc := isa_next_pc op (isa_pc ctx) a b (in_immediate inst),
                              isa_cycles := isa_cycles ctx + 1\<rparr>
               in if 0 < in_rd inst \<and> writes_rd op
                  then if unat (in_rd inst) < MAX_REGISTERS
                       then Some (ctx1\<lparr>isa_registers := regs(unat (in_rd inst) := rd_val)\<rparr>)
                       else None
                  else Some ctx1)"

definition isa_step :: "ISAContext \<Rightarrow> ISAContext option" where
  "isa_step ctx =
     (if isa_halted ctx then Some ctx
      else case isa_fetch ctx of None \<Rightarrow> None | Some inst \<Rightarrow> isa_execute ctx inst)"

text \<open>\<open>memcpy\<close> of the program words, least significant byte first as on the host.\<close>

definition program_byte :: "u32 list \<Rightarrow> nat \<Rightarrow> u8" where
  "program_byte program i = ucast (drop_bit (8 * (i mod 4)) (program ! (i div 4)))"

definition isa_load_program :: "ISAContext \<Rightarrow> u32 list \<Rightarrow> ISAContext" where
  "isa_load_program ctx program =
     (if program = [] then ctx
      else let bytes = (if 4 * length program > MEMORY_SIZE then MEMORY_SIZE else 4 * length program)
           in ctx\<lparr>isa_memory := (\<lambda>i. if i < bytes then program_byte program i else isa_memory ctx i)\<rparr>)"

section \<open>Register file\<close>

definition REGF_SIZE :: nat where "REGF_SIZE = 32"
definition REGF_WRITE_PORTS :: nat where "REGF_WRITE_PORTS = 2"

record RegisterFile =
  rf_regs :: "u32 arr"
  rf_read_ports :: "u32 arr"
  rf_read_valid :: "bool arr"
  rf_write_ports :: "u32 arr"
  rf_write_addrs :: "u8 arr"
  rf_write_en :: "bool arr"

definition regf_init :: RegisterFile where
  "regf_init = \<lparr>rf_regs = (\<lambda>_. 0), rf_read_ports = (\<lambda>_. 0), rf_read_valid = (\<lambda>_. False),
     rf_write_ports = (\<lambda>_. 0), rf_write_addrs = (\<lambda>_. 0), rf_write_en = (\<lambda>_. False)\<rparr>"

definition regf_read :: "RegisterFile \<Rightarrow> u8 \<Rightarrow> u32" where
  "regf_read rf index =
     (if unat index \<ge> REGF_SIZE then 0 else if index = 0 then 0 else rf_regs rf (unat index))"

definition regf_write :: "RegisterFile \<Rightarrow> u8 \<Rightarrow> u32 \<Rightarrow> RegisterFile" where
  "regf_write rf index value =
     (if unat index \<ge> REGF_SIZE then rf else if index = 0 then rf
      else rf\<lparr>rf_regs := (rf_regs rf)(unat index := value)\<rparr>)"

definition regf_clock :: "RegisterFile \<Rightarrow> RegisterFile" where
  "regf_clock rf =
     for_range 0 REGF_WRITE_PORTS
       (\<lambda>i rf. if rf_write_en rf i
               then (regf_write rf (rf_write_addrs rf i) (rf_write_ports rf i))
                      \<lparr>rf_write_en := (rf_write_en rf)(i := False)\<rparr>
               else rf) rf"

section \<open>Lemmas of the decoder and of the memory labels\<close>

lemma ucast_and_0xF_less: "unat ((x :: u8) AND 0xF) < 16"
proof -
  have "x AND 0xF \<le> 0xF" by (rule word_and_le1)
  then show ?thesis by (simp add: word_le_nat_alt)
qed

lemma isa_decode_rd: "unat (in_rd (isa_decode raw)) < MAX_REGISTERS"
  by (simp add: isa_decode_def nop_instruction_def Let_def ucast_and_0xF_less MAX_REGISTERS_def)

lemma isa_switch_None: "isa_switch mem op pc a b imm = None \<longleftrightarrow>
    (op = OP_LW \<or> op = OP_SW) \<and> 2 ^ 32 - 4 \<le> unat (a + imm)"
  using guard_unsafe_iff [of "a + imm"]
  by (auto simp: isa_switch_def Let_def load32_None store32_None)

lemma sign_extend_12:
  fixes x :: u32
  assumes "x \<le> mask 12"
  shows "(if x AND 0x800 \<noteq> 0 then x OR 0xFFFFF000 else x) = scast (ucast x :: 12 word)"
proof -
  have c: "(0x800 :: u32) = push_bit 11 1" "(0xFFFFF000 :: u32) = NOT (mask 12)"
    by (simp_all add: mask_eq_exp_minus_1)
  have b: "bit x n \<Longrightarrow> n < 12" for n using assms by (simp add: le_mask_iff_bits)
  show ?thesis
    unfolding c and_pow2_eq_0 not_not
  proof (rule bit_word_eqI, goal_cases)
    case (1 n)
    then consider "n < 11" | "n = 11" | "11 < n" by linarith
    then show ?case using 1 b [of n] by cases (auto simp: bit_simps min_def)
  qed
qed

lemma sint_scast_12: "sint (scast (y :: 12 word) :: u32) = sint y"
  using sint_greater_eq [of y] sint_less [of y]
  by (simp add: signed_scast_eq signed_take_bit_int_eq_self)

lemma imm_i_sint: "sint (imm_i raw) = sint (ucast (drop_bit 20 raw) :: 12 word)"
proof -
  have "drop_bit 20 raw AND 0xFFF \<le> mask 12" by (rule and_le_mask) (simp add: mask_eq_exp_minus_1)
  moreover have "ucast (drop_bit 20 raw AND 0xFFF) = (ucast (drop_bit 20 raw) :: 12 word)"
  proof -
    have m: "(0xFFF :: u32) = mask 12" by (simp add: mask_eq_exp_minus_1)
    show ?thesis unfolding m by (intro bit_word_eqI) (simp add: bit_simps)
  qed
  ultimately show ?thesis
    using sign_extend_12 [of "drop_bit 20 raw AND 0xFFF"] by (simp add: imm_i_def Let_def sint_scast_12)
qed

lemma imm_s_sint: "sint (imm_s raw) = sint (word_cat (ucast (drop_bit 25 raw) :: 7 word) (ucast (drop_bit 7 raw) :: 5 word) :: 12 word)"
proof -
  let ?i = "(drop_bit 7 raw AND 0x1F) OR push_bit 5 (drop_bit 25 raw)"
  have m: "(0x1F :: u32) = mask 5" by (simp add: mask_eq_exp_minus_1)
  have "bit ?i n \<Longrightarrow> n < 12" for n
    unfolding m using bit_imp_le_length [of raw "20 + n"] by (auto simp: bit_simps)
  then have "?i \<le> mask 12" by (auto simp: le_mask_iff_bits)
  moreover have "ucast ?i = (word_cat (ucast (drop_bit 25 raw) :: 7 word) (ucast (drop_bit 7 raw) :: 5 word) :: 12 word)"
    unfolding m by (rule bit_word_eqI) (auto simp: bit_simps bit_word_cat_iff)
  ultimately show ?thesis
    using sign_extend_12 [of ?i] by (simp add: imm_s_def Let_def sint_scast_12)
qed

lemma imm_b_range: "imm_b raw \<le> 127"
proof -
  have m: "(127 :: u32) = mask 7" by (simp add: mask_eq_exp_minus_1)
  have i: "(drop_bit 7 raw AND 0x1E) OR (drop_bit 25 raw AND 0x7E)
       OR (drop_bit 7 raw AND 0x1) OR (drop_bit 31 raw AND 0x1) \<le> mask 7" (is "?i \<le> _")
    by (intro or_le_mask and_le_mask) (simp_all add: mask_eq_exp_minus_1)
  then have "?i AND 0x1000 = 0" by (rule and_bit_eq_0 [where m = 12]) simp_all
  with i show ?thesis by (simp only: imm_b_def Let_def m) simp
qed

lemma imm_j_range: "imm_j raw \<le> 1023"
proof -
  have m: "(1023 :: u32) = mask 10" by (simp add: mask_eq_exp_minus_1)
  have i: "(drop_bit 21 raw AND 0x3FF) OR (drop_bit 20 raw AND 0x1)
       OR (drop_bit 12 raw AND 0xFF) OR (drop_bit 31 raw AND 0x1) \<le> mask 10" (is "?i \<le> _")
    by (intro or_le_mask and_le_mask) (simp_all add: mask_eq_exp_minus_1)
  then have "?i AND 0x100000 = 0" by (rule and_bit_eq_0 [where m = 20]) simp_all
  with i show ?thesis by (simp only: imm_j_def Let_def m) simp
qed

lemma decode_r_range: "decode_r f3 f7 \<in> {OP_ADD, OP_SUB, OP_SLL, OP_SLT, OP_SLTU, OP_XOR, OP_SRL, OP_SRA,
    OP_OR, OP_AND, OP_NOP}"
  by (simp add: decode_r_def)

lemma decode_i_range: "decode_i f3 f7 \<in> {OP_ADDI, OP_SLLI, OP_SLTI, OP_SLTIU, OP_XORI, OP_SRLI, OP_SRAI,
    OP_ORI, OP_ANDI, OP_NOP}"
  by (simp add: decode_i_def)

lemma decode_b_range: "decode_b f3 \<in> {OP_BEQ, OP_BNE, OP_BLT, OP_BGE, OP_BLTU, OP_BGEU, OP_NOP}"
  by (simp add: decode_b_def)

text \<open>The immediate that goes with each opcode of a decoded instruction.\<close>

lemma isa_decode_formats:
  fixes raw :: u32
  defines "op \<equiv> in_opcode (isa_decode raw)" and "imm \<equiv> in_immediate (isa_decode raw)"
  shows "op \<in> {OP_NOP, OP_ADD, OP_SUB, OP_SLL, OP_SLT, OP_SLTU, OP_XOR, OP_SRL, OP_SRA, OP_OR, OP_AND}
    \<or> op \<in> {OP_ADDI, OP_SLLI, OP_SLTI, OP_SLTIU, OP_XORI, OP_SRLI, OP_SRAI, OP_ORI, OP_ANDI, OP_LW, OP_JALR}
      \<and> imm = imm_i raw
    \<or> op = OP_SW \<and> imm = imm_s raw
    \<or> op \<in> {OP_BEQ, OP_BNE, OP_BLT, OP_BGE, OP_BLTU, OP_BGEU} \<and> imm = imm_b raw
    \<or> op = OP_JAL \<and> imm = imm_j raw
    \<or> op \<in> {OP_LUI, OP_AUIPC} \<and> imm = imm_u raw"
proof -
  let ?f3 = "ucast (drop_bit 12 raw AND 0x7) :: u8" and ?f7 = "ucast (drop_bit 25 raw AND 0x7F) :: u8"
  let ?oc = "ucast (raw AND 0x7F) :: u8"
  consider "raw = 0" | "raw \<noteq> 0" "?oc = 0x33" | "raw \<noteq> 0" "?oc = 0x13" | "raw \<noteq> 0" "?oc = 0x03"
    | "raw \<noteq> 0" "?oc = 0x23" | "raw \<noteq> 0" "?oc = 0x63" | "raw \<noteq> 0" "?oc = 0x6F"
    | "raw \<noteq> 0" "?oc = 0x67" | "raw \<noteq> 0" "?oc = 0x37" | "raw \<noteq> 0" "?oc = 0x17"
    | "raw \<noteq> 0" "?oc \<notin> {0x33, 0x13, 0x03, 0x23, 0x63, 0x6F, 0x67, 0x37, 0x17}"
    by blast
  then show ?thesis
  proof cases
    case 2
    then have "op = decode_r ?f3 ?f7" by (simp add: op_def isa_decode_def Let_def)
    then show ?thesis using decode_r_range [of ?f3 ?f7] by blast
  next
    case 3
    then have "op = decode_i ?f3 ?f7" "imm = imm_i raw"
      by (simp_all add: op_def imm_def isa_decode_def Let_def)
    then show ?thesis using decode_i_range [of ?f3 ?f7] by blast
  next
    case 6
    then have "op = decode_b ?f3" "imm = imm_b raw"
      by (simp_all add: op_def imm_def isa_decode_def Let_def)
    then show ?thesis using decode_b_range [of ?f3] by blast
  qed (simp_all add: op_def imm_def isa_decode_def nop_instruction_def Let_def)
qed

section \<open>Properties\<close>

text \<open>
  Fetch leaves the memory exactly when the program counter is one of the last four 32-bit
  values: the guard \<open>pc + 4 > MEMORY_SIZE\<close> is computed modulo \<open>2 ^ 32\<close> and lets them through.
\<close>

theorem isa_fetch_out_of_bounds:
  "isa_fetch ctx = None \<longleftrightarrow> \<not> isa_halted ctx \<and> 2 ^ 32 - 4 \<le> unat (isa_pc ctx)"
  using guard_unsafe_iff [of "isa_pc ctx"] by (auto simp: isa_fetch_def load32_None)

text \<open>
  The same for execution: of the instructions whose destination is a register, exactly the
  loads and stores whose effective address is one of the last four 32-bit values escape the guard
  and access the memory out of bounds.  Every other instruction executes.
\<close>

theorem isa_execute_out_of_bounds:
  fixes ctx :: ISAContext and inst :: Instruction
  defines "base \<equiv> (if unat (in_rs1 inst) < MAX_REGISTERS then isa_registers ctx (unat (in_rs1 inst)) else 0)"
  assumes "unat (in_rd inst) < MAX_REGISTERS"
  shows "isa_execute ctx inst = None \<longleftrightarrow>
     \<not> isa_halted ctx \<and> in_opcode inst \<in> {OP_LW, OP_SW} \<and> 2 ^ 32 - 4 \<le> unat (base + in_immediate inst)"
proof -
  let ?B = "if unat (in_rs2 inst) < MAX_REGISTERS then isa_registers ctx (unat (in_rs2 inst)) else 0"
  let ?sw = "isa_switch (isa_memory ctx) (in_opcode inst) (isa_pc ctx) base ?B (in_immediate inst)"
  have "isa_execute ctx inst = None \<longleftrightarrow> \<not> isa_halted ctx \<and> ?sw = None"
    unfolding isa_execute_def Let_def base_def [symmetric]
    by (cases ?sw) (simp_all add: assms(2) split: prod.split del: if_split)
  then show ?thesis unfolding isa_switch_None by simp
qed

theorem isa_execute_out_of_bounds_witness:
  "isa_execute isa_init ((nop_instruction 1)\<lparr>in_opcode := OP_LW, in_immediate := 0xFFFFFFFE\<rparr>) = None"
proof -
  let ?i = "(nop_instruction 1)\<lparr>in_opcode := OP_LW, in_immediate := 0xFFFFFFFE\<rparr>"
  have "unat (in_rd ?i) < MAX_REGISTERS" by (simp add: nop_instruction_def MAX_REGISTERS_def)
  from isa_execute_out_of_bounds [OF this, of isa_init] show ?thesis
    by (simp add: isa_init_def nop_instruction_def)
qed

inductive isa_reachable :: "ISAContext \<Rightarrow> bool" where
  init: "isa_reachable isa_init"
| load: "isa_reachable c \<Longrightarrow> isa_reachable (isa_load_program c prog)"
| step: "isa_reachable c \<Longrightarrow> isa_step c = Some c' \<Longrightarrow> isa_reachable c'"

lemma isa_execute_keeps_x0:
  assumes "isa_execute ctx inst = Some ctx'" "\<not> isa_halted ctx"
  shows "isa_registers ctx' 0 = isa_registers ctx 0 \<and> \<not> isa_halted ctx'"
proof -
  obtain A B v m where sw: "isa_switch (isa_memory ctx) (in_opcode inst) (isa_pc ctx) A B
      (in_immediate inst) = Some (v, m)"
    and A: "A = (if unat (in_rs1 inst) < MAX_REGISTERS then isa_registers ctx (unat (in_rs1 inst)) else 0)"
    and B: "B = (if unat (in_rs2 inst) < MAX_REGISTERS then isa_registers ctx (unat (in_rs2 inst)) else 0)"
    using assms unfolding isa_execute_def Let_def by (auto split: option.splits)
  have "unat (in_rd inst) \<noteq> 0" if "0 < in_rd inst" using that by (simp add: unat_gt_0 word_gt_0)
  then show ?thesis
    using assms unfolding isa_execute_def Let_def A [symmetric] B [symmetric] sw
    by (auto simp: word_gt_0 split: if_splits)
qed

text \<open>
  In every state the simulator reaches, whatever programs are loaded, register 0 reads zero,
  and the machine has not halted: no instruction of the set ever stops it.
\<close>

theorem isa_x0_zero_never_halts:
  assumes "isa_reachable c"
  shows "isa_registers c 0 = 0 \<and> \<not> isa_halted c"
  using assms
proof (induction rule: isa_reachable.induct)
  case (step c c')
  then show ?case
    by (auto simp: isa_step_def dest!: isa_execute_keeps_x0 split: option.splits)
qed (auto simp: isa_init_def isa_load_program_def Let_def)

theorem isa_x0_zero_never_halts_witness:
  "isa_registers (isa_load_program isa_init [0x00100013]) 0 = 0
     \<and> \<not> isa_halted (isa_load_program isa_init [0x00100013])"
  by (rule isa_x0_zero_never_halts) (intro isa_reachable.load isa_reachable.init)

lemma isa_execute_sw:
  assumes "\<not> isa_halted ctx" "in_opcode sw = OP_SW" "unat (in_rs1 sw) < 16" "unat (in_rs2 sw) < 16"
    and "in_memory (isa_registers ctx (unat (in_rs1 sw)) + in_immediate sw)"
  shows "\<exists>m. store32 (isa_memory ctx) (isa_registers ctx (unat (in_rs1 sw)) + in_immediate sw)
          (isa_registers ctx (unat (in_rs2 sw))) = Some m
     \<and> isa_execute ctx sw = Some (ctx\<lparr>isa_memory := m, isa_pc := isa_pc ctx + 4,
          isa_cycles := isa_cycles ctx + 1\<rparr>)"
proof -
  obtain m where m: "store32 (isa_memory ctx) (isa_registers ctx (unat (in_rs1 sw)) + in_immediate sw)
          (isa_registers ctx (unat (in_rs2 sw))) = Some m"
    using mem.st_total assms(5) by blast
  then show ?thesis
    using assms guard_safe [OF assms(5)]
    by (simp add: isa_execute_def isa_switch_def isa_next_pc_def writes_rd_def MAX_REGISTERS_def Let_def)
qed

text \<open>
  A word stored by one instruction is what a following load from the same address delivers,
  in the destination register and nowhere else.
\<close>

theorem isa_store_then_load:
  assumes "\<not> isa_halted ctx" and "in_opcode sw = OP_SW" and "in_opcode lw = OP_LW"
    and "unat (in_rs1 sw) < 16" "unat (in_rs2 sw) < 16" "unat (in_rs1 lw) < 16"
    and "0 < in_rd lw" "unat (in_rd lw) < 16"
    and addr: "isa_registers ctx (unat (in_rs1 lw)) + in_immediate lw
        = isa_registers ctx (unat (in_rs1 sw)) + in_immediate sw"
    and "in_memory (isa_registers ctx (unat (in_rs1 sw)) + in_immediate sw)"
  shows "\<exists>c1 c2. isa_execute ctx sw = Some c1 \<and> isa_execute c1 lw = Some c2
     \<and> isa_registers c2 = (isa_registers ctx)(unat (in_rd lw) := isa_registers ctx (unat (in_rs2 sw)))
     \<and> isa_pc c2 = isa_pc ctx + 8"
proof -
  obtain m where m: "store32 (isa_memory ctx) (isa_registers ctx (unat (in_rs1 sw)) + in_immediate sw)
          (isa_registers ctx (unat (in_rs2 sw))) = Some m"
      and e: "isa_execute ctx sw = Some (ctx\<lparr>isa_memory := m, isa_pc := isa_pc ctx + 4,
          isa_cycles := isa_cycles ctx + 1\<rparr>)"
    using isa_execute_sw [of ctx sw] assms by blast
  have "load32 m (isa_registers ctx (unat (in_rs1 lw)) + in_immediate lw)
      = Some (isa_registers ctx (unat (in_rs2 sw)))"
    using mem.ld_st [OF m] addr by simp
  then show ?thesis
    using assms guard_safe [OF assms(10)] e
    by (simp add: isa_execute_def isa_switch_def isa_next_pc_def writes_rd_def MAX_REGISTERS_def Let_def)
qed

theorem isa_store_then_load_witness:
  "\<exists>c1 c2. isa_execute (isa_init\<lparr>isa_registers := (\<lambda>_. 0)(3 := 0xDEADBEEF)\<rparr>)
        (isa_decode 0x00302823) = Some c1
     \<and> isa_execute c1 (isa_decode 0x01002283) = Some c2
     \<and> isa_registers c2 = (\<lambda>_. 0)(3 := 0xDEADBEEF, 5 := 0xDEADBEEF) \<and> isa_pc c2 = 8"
proof -
  let ?sw = "isa_decode 0x00302823" and ?lw = "isa_decode 0x01002283"
  let ?ctx = "isa_init\<lparr>isa_registers := (\<lambda>_. 0)(3 := 0xDEADBEEF)\<rparr>"
  have d: "in_opcode ?sw = OP_SW" "in_opcode ?lw = OP_LW" "in_rs1 ?sw = 0" "in_rs2 ?sw = 3"
      "in_rs1 ?lw = 0" "in_rd ?lw = 5" "in_immediate ?sw = 16" "in_immediate ?lw = 16"
    by (simp_all add: isa_decode_def imm_i_def imm_s_def nop_instruction_def Let_def)
  have "in_memory 16" by (simp add: in_memory_iff)
  then show ?thesis
    using isa_store_then_load [of ?ctx ?sw ?lw] by (simp add: d isa_init_def)
qed

text \<open>
  The 12-bit immediates are decoded with their sign: for the register-immediate instructions,
  loads and \<open>JALR\<close> it is the top field of the word, for stores the two fields of the S format.
\<close>

theorem isa_decode_immediates:
  "(in_opcode (isa_decode raw) \<in> {OP_ADDI, OP_ANDI, OP_ORI, OP_XORI, OP_SLLI, OP_SRLI, OP_SRAI,
       OP_SLTI, OP_SLTIU, OP_LW, OP_JALR}
     \<longrightarrow> sint (in_immediate (isa_decode raw)) = sint (ucast (drop_bit 20 raw) :: 12 word))
   \<and> (in_opcode (isa_decode raw) = OP_SW
     \<longrightarrow> sint (in_immediate (isa_decode raw))
       = sint (word_cat (ucast (drop_bit 25 raw) :: 7 word) (ucast (drop_bit 7 raw) :: 5 word) :: 12 word))"
  using isa_decode_formats [of raw] imm_i_sint [of raw] imm_s_sint [of raw]
  by (cases "in_opcode (isa_decode raw)") simp_all

text \<open>
  The branch and jump immediates are assembled without the shifts of their formats: a
  conditional branch never goes back, nor further than 127 bytes, and a \<open>JAL\<close> goes at most 1023
  bytes forward.
\<close>

theorem isa_branch_offsets_forward:
  assumes "in_opcode (isa_decode raw) \<in> {OP_BEQ, OP_BNE, OP_BLT, OP_BGE, OP_BLTU, OP_BGEU, OP_JAL}"
  shows "0 \<le> sint (in_immediate (isa_decode raw))
     \<and> sint (in_immediate (isa_decode raw)) \<le> (if in_opcode (isa_decode raw) = OP_JAL then 1023 else 127)"
proof -
  have "0 \<le> sint i \<and> sint i \<le> k" if "i \<le> word_of_int k" "0 \<le> k" "k < 1024" for i :: u32 and k
  proof -
    have u: "uint i \<le> k" using that by (simp add: word_le_def uint_word_of_int)
    then have "sint i = uint i" using that(3)
      unfolding sint_uint by (intro signed_take_bit_int_eq_self order_trans [OF _ uint_ge_0]) simp_all
    with u show ?thesis by simp
  qed
  from this [of _ 127] this [of _ 1023] show ?thesis
    using isa_decode_formats [of raw] assms imm_b_range [of raw] imm_j_range [of raw]
    by (cases "in_opcode (isa_decode raw)") simp_all
qed

theorem isa_branch_offsets_forward_witness:
  "in_opcode (isa_decode 0xFE000EE3) = OP_BEQ \<and> sint (in_immediate (isa_decode 0xFE000EE3)) \<in> {0..127}"
proof -
  have d: "in_opcode (isa_decode 0xFE000EE3) = OP_BEQ"
    by (simp add: isa_decode_def nop_instruction_def Let_def decode_b_def)
  with isa_branch_offsets_forward [of "0xFE000EE3"] show ?thesis by simp
qed

lemma regf_read_write: "regf_read (regf_write rf k v) i =
    (if i = 0 \<or> 32 \<le> unat i then 0 else if k = i then v else regf_read rf i)"
proof (cases "k = i")
  case False
  then have "unat k \<noteq> unat i" by (simp add: word_unat_eq_iff)
  then show ?thesis using False by (simp add: regf_read_def regf_write_def REGF_SIZE_def)
qed (simp add: regf_read_def regf_write_def REGF_SIZE_def)

text \<open>
  A clock edge of the register file commits both write ports, the second port last, clears
  their enables, and register 0 always reads zero.
\<close>

theorem regf_clock_commits:
  "regf_read (regf_clock rf) i =
     (if i = 0 \<or> 32 \<le> unat i then 0
      else if rf_write_en rf 1 \<and> rf_write_addrs rf 1 = i then rf_write_ports rf 1
      else if rf_write_en rf 0 \<and> rf_write_addrs rf 0 = i then rf_write_ports rf 0
      else regf_read rf i)
   \<and> \<not> rf_write_en (regf_clock rf) 0 \<and> \<not> rf_write_en (regf_clock rf) 1"
proof -
  have r: "for_range 0 2 f s = f 1 (f 0 s)" for f and s :: RegisterFile
    by (simp add: for_range_def upt_rec numeral_2_eq_2)
  have rd: "regf_read (rf\<lparr>rf_write_en := e\<rparr>) k = regf_read rf k" for rf e k
    by (simp add: regf_read_def)
  have z: "regf_read rf i = 0" if "i = 0 \<or> 32 \<le> unat i"
    using that by (auto simp: regf_read_def REGF_SIZE_def)
  have w: "rf_write_en (regf_write rf k v) = rf_write_en rf" "rf_write_ports (regf_write rf k v) = rf_write_ports rf"
    "rf_write_addrs (regf_write rf k v) = rf_write_addrs rf" for rf :: RegisterFile and k v
    by (simp_all add: regf_write_def)
  show ?thesis
    unfolding regf_clock_def REGF_WRITE_PORTS_def r
    by (cases "rf_write_en rf 0"; cases "rf_write_en rf 1") (simp_all add: w rd regf_read_write, auto simp: regf_read_def REGF_SIZE_def)
qed

end
