(* ===== verification/BranchPred.thy ===== *)
theory BranchPred
  imports Prelude
begin

text \<open>
  The branch predictors of \<^verbatim>\<open>mini-cpu-arch/src/branch_pred.c\<close>: static, bimodal, two-level
  and gshare prediction over 2-bit saturating counters and a global history register.  The
  counters are \<open>uint8_t\<close> cells; the locale \<open>saturating_counter\<close> states what the predictors
  rely on and is interpreted on the increments and decrements of the source.
\<close>

section \<open>State\<close>

definition BHT_SIZE :: u32 where "BHT_SIZE = 256"
definition PHT_ROWS :: u32 where "PHT_ROWS = 256"
definition PHT_COLS :: u8 where "PHT_COLS = 64"

definition SN :: u8 where "SN = 0"
definition WN :: u8 where "WN = 1"
definition WT :: u8 where "WT = 2"
definition ST :: u8 where "ST = 3"

lemmas bp_state_defs = SN_def WN_def WT_def ST_def

datatype PredictorType = PRED_ALWAYS_TAKEN | PRED_ALWAYS_NOT_TAKEN | PRED_BIMODAL
  | PRED_TWO_LEVEL | PRED_GSHARE

record BranchPredictor =
  bp_type :: PredictorType
  bp_bht :: "u8 arr"
  bp_pht :: "nat \<Rightarrow> u8 arr"
  bp_ghr :: u8
  bp_total_predictions :: u64
  bp_correct_predictions :: u64

definition bp_create :: "PredictorType \<Rightarrow> BranchPredictor" where
  "bp_create ty = \<lparr>bp_type = ty, bp_bht = (\<lambda>_. WN), bp_pht = (\<lambda>_ _. WN), bp_ghr = 0,
     bp_total_predictions = 0, bp_correct_predictions = 0\<rparr>"

section \<open>Indices\<close>

definition bht_index :: "u32 \<Rightarrow> nat" where
  "bht_index pc = unat (drop_bit 2 pc AND (BHT_SIZE - 1))"

definition pht_column :: "u8 \<Rightarrow> nat" where
  "pht_column ghr = unat (ghr AND (PHT_COLS - 1))"

definition gshare_hash :: "u32 \<Rightarrow> u8 \<Rightarrow> nat" where
  "gshare_hash pc ghr = unat ((drop_bit 2 pc XOR ucast ghr) AND (PHT_ROWS - 1))"

section \<open>Prediction and update\<close>

definition state_taken :: "u8 \<Rightarrow> bool" where
  "state_taken state \<longleftrightarrow> state = WT \<or> state = ST"

definition bp_predict :: "BranchPredictor \<Rightarrow> u32 \<Rightarrow> bool" where
  "bp_predict bp pc =
     (case bp_type bp of
        PRED_ALWAYS_TAKEN \<Rightarrow> True
      | PRED_ALWAYS_NOT_TAKEN \<Rightarrow> False
      | PRED_BIMODAL \<Rightarrow> state_taken (bp_bht bp (bht_index pc))
      | PRED_TWO_LEVEL \<Rightarrow> state_taken (bp_pht bp (bht_index pc) (pht_column (bp_ghr bp)))
      | PRED_GSHARE \<Rightarrow> state_taken (bp_pht bp (gshare_hash pc (bp_ghr bp)) 0))"

text \<open>The \<open>(*counter)++\<close> and \<open>(*counter)--\<close> of the update, with their guards.\<close>

definition counter_inc :: "u8 \<Rightarrow> u8" where
  "counter_inc c = (if c < ST then c + 1 else c)"

definition counter_dec :: "u8 \<Rightarrow> u8" where
  "counter_dec c = (if c > SN then c - 1 else c)"

definition counter_train :: "bool \<Rightarrow> u8 \<Rightarrow> u8" where
  "counter_train taken c = (if taken then counter_inc c else counter_dec c)"

text \<open>The first-level table of the two-level predictor clamps to the end states.\<close>

definition bht_train :: "bool \<Rightarrow> u8 \<Rightarrow> u8" where
  "bht_train taken c =
     (if taken then (if c < ST then c + 1 else ST) else (if c > SN then c - 1 else SN))"

definition shift_history :: "u8 \<Rightarrow> bool \<Rightarrow> u8" where
  "shift_history ghr taken = ucast (push_bit 1 (ucast ghr :: u32) OR (if taken then 1 else 0))"

definition bp_update :: "BranchPredictor \<Rightarrow> u32 \<Rightarrow> bool \<Rightarrow> BranchPredictor" where
  "bp_update bp pc taken =
     (let b = bht_index pc;
          bp1 =
            (case bp_type bp of
               PRED_ALWAYS_TAKEN \<Rightarrow> bp
             | PRED_ALWAYS_NOT_TAKEN \<Rightarrow> bp
             | PRED_BIMODAL \<Rightarrow> bp\<lparr>bp_bht := (bp_bht bp)(b := counter_train taken (bp_bht bp b))\<rparr>
             | PRED_TWO_LEVEL \<Rightarrow>
                 (let col = pht_column (bp_ghr bp) in
                  bp\<lparr>bp_bht := (bp_bht bp)(b := bht_train taken (bp_bht bp b)),
                     bp_pht := (bp_pht bp)(b := (bp_pht bp b)
                        (col := counter_train taken (bp_pht bp b col)))\<rparr>)
             | PRED_GSHARE \<Rightarrow>
                 (let h = gshare_hash pc (bp_ghr bp) in
                  bp\<lparr>bp_pht := (bp_pht bp)(h := (bp_pht bp h)
                        (0 := counter_train taken (bp_pht bp h 0)))\<rparr>))
      in bp1\<lparr>bp_ghr := shift_history (bp_ghr bp) taken\<rparr>)"

section \<open>The saturating counter\<close>

locale saturating_counter =
  fixes valid :: "'c \<Rightarrow> bool" and level :: "'c \<Rightarrow> nat" and top :: nat
    and train :: "bool \<Rightarrow> 'c \<Rightarrow> 'c"
  assumes level_le: "valid c \<Longrightarrow> level c \<le> top"
    and train_valid: "valid c \<Longrightarrow> valid (train t c)"
    and level_up: "valid c \<Longrightarrow> level (train True c) = min top (level c + 1)"
    and level_down: "valid c \<Longrightarrow> level (train False c) = level c - 1"
begin

lemma trained_level:
  "valid c \<Longrightarrow> valid ((train t ^^ n) c)
     \<and> level ((train t ^^ n) c) = (if t then min top (level c + n) else level c - n)"
proof (induction n)
  case 0
  then show ?case using level_le by auto
next
  case (Suc n)
  then show ?case by (cases t) (auto simp: train_valid level_up level_down)
qed

text \<open>Enough equal outcomes bring the counter to its end whatever it held before.\<close>

lemma saturates: "valid c \<Longrightarrow> top \<le> n \<Longrightarrow> level ((train t ^^ n) c) = (if t then top else 0)"
  using trained_level [of c n t] level_le [of c] by auto

text \<open>One outcome moves the level by at most one place.\<close>

lemma hysteresis: "valid c \<Longrightarrow> level (train t c) \<le> level c + 1 \<and> level c \<le> level (train t c) + 1"
  using level_le [of c] by (cases t) (auto simp: level_up level_down)

end

lemma counter_values: "c \<le> ST \<Longrightarrow> c = 0 \<or> c = 1 \<or> c = 2 \<or> c = (3::u8)"
  unfolding ST_def by (simp add: word_le_nat_alt word_unat_eq_iff) arith

interpretation pht: saturating_counter "\<lambda>c. c \<le> ST" unat 3 counter_train
proof unfold_locales
  fix c :: u8 and t
  assume "c \<le> ST"
  then consider "c = 0" | "c = 1" | "c = 2" | "c = 3" using counter_values by blast
  note cases = this
  show "unat c \<le> 3" using cases by cases simp_all
  show "counter_train t c \<le> ST" "unat (counter_train True c) = min 3 (unat c + 1)"
    "unat (counter_train False c) = unat c - 1"
    by (use cases in \<open>cases; simp add: counter_train_def counter_inc_def counter_dec_def bp_state_defs\<close>)+
qed

interpretation bht: saturating_counter "\<lambda>c. c \<le> ST" unat 3 bht_train
proof unfold_locales
  fix c :: u8 and t
  assume "c \<le> ST"
  then consider "c = 0" | "c = 1" | "c = 2" | "c = 3" using counter_values by blast
  note cases = this
  show "unat c \<le> 3" using cases by cases simp_all
  show "bht_train t c \<le> ST" "unat (bht_train True c) = min 3 (unat c + 1)"
    "unat (bht_train False c) = unat c - 1"
    by (use cases in \<open>cases; simp add: bht_train_def bp_state_defs\<close>)+
qed

lemma state_taken_level: "c \<le> ST \<Longrightarrow> state_taken c \<longleftrightarrow> 2 \<le> unat c"
  by (drule counter_values) (auto simp: state_taken_def bp_state_defs)

section \<open>Invariant of the predictor\<close>

definition bp_inv :: "BranchPredictor \<Rightarrow> bool" where
  "bp_inv bp \<longleftrightarrow> (\<forall>i. bp_bht bp i \<le> ST) \<and> (\<forall>i j. bp_pht bp i j \<le> ST)
     \<and> bp_total_predictions bp = 0 \<and> bp_correct_predictions bp = 0"

lemma bp_create_inv: "bp_inv (bp_create ty)"
  by (simp add: bp_inv_def bp_create_def bp_state_defs)

lemma bp_update_inv: "bp_inv bp \<Longrightarrow> bp_inv (bp_update bp pc taken)"
  by (simp add: bp_inv_def bp_update_def Let_def pht.train_valid bht.train_valid
      split: PredictorType.split)

fun bp_run :: "BranchPredictor \<Rightarrow> (u32 \<times> bool) list \<Rightarrow> BranchPredictor" where
  "bp_run bp [] = bp"
| "bp_run bp ((pc, taken) # bs) = bp_run (bp_update bp pc taken) bs"

lemma bp_run_inv: "bp_inv bp \<Longrightarrow> bp_inv (bp_run bp bs)"
  by (induction bp bs rule: bp_run.induct) (simp_all add: bp_update_inv)

lemma bp_update_type [simp]: "bp_type (bp_update bp pc taken) = bp_type bp"
  by (simp add: bp_update_def Let_def split: PredictorType.split)

lemma bp_update_ghr [simp]: "bp_ghr (bp_update bp pc taken) = shift_history (bp_ghr bp) taken"
  by (simp add: bp_update_def Let_def)

lemma bit_shift_history: "bit (shift_history ghr taken) i \<longleftrightarrow>
    i < 8 \<and> (if i = 0 then taken else bit ghr (i - 1))"
proof -
  have p: "bit (push_bit 1 (ucast ghr :: u32)) i \<longleftrightarrow> 1 \<le> i \<and> i < 32 \<and> bit ghr (i - 1)"
    using bit_imp_le_length [of ghr "i - 1"]
    by (auto simp only: bit_push_bit_iff bit_unsigned_iff) (simp_all add: bit_simps)
  show ?thesis
    unfolding shift_history_def bit_unsigned_iff bit_or_iff p by (auto simp: bit_simps)
qed

lemma bp_run_append: "bp_run bp (xs @ ys) = bp_run (bp_run bp xs) ys"
  by (induction bp xs rule: bp_run.induct) simp_all

lemma mask_index_less: "unat (x AND 255) < 256" for x :: u32
  using word_and_le1 [of x 255] by (simp add: word_le_nat_alt)

text \<open>The counter that a prediction for \<open>pc\<close> reads under the history \<open>ghr\<close>.\<close>

definition bp_consulted :: "BranchPredictor \<Rightarrow> u32 \<Rightarrow> u8 \<Rightarrow> u8" where
  "bp_consulted bp pc ghr =
     (case bp_type bp of
        PRED_TWO_LEVEL \<Rightarrow> bp_pht bp (bht_index pc) (pht_column ghr)
      | PRED_GSHARE \<Rightarrow> bp_pht bp (gshare_hash pc ghr) 0
      | _ \<Rightarrow> bp_bht bp (bht_index pc))"

section \<open>Properties\<close>

text \<open>
  In every predictor reached from its creation by any sequence of updates, all counters are
  2-bit values and the statistics are still zero: no operation ever counts a prediction, so the
  reported accuracy is 0 however the predictor behaves.  The table indices stay inside the tables.
\<close>

theorem bp_counters_two_bit:
  "bp_bht (bp_run (bp_create ty) bs) i \<le> ST \<and> bp_pht (bp_run (bp_create ty) bs) i j \<le> ST
   \<and> bp_total_predictions (bp_run (bp_create ty) bs) = 0
   \<and> bp_correct_predictions (bp_run (bp_create ty) bs) = 0
   \<and> bht_index pc < 256 \<and> gshare_hash pc ghr < 256 \<and> pht_column ghr < 64"
proof -
  have "unat (ghr AND 63) < 64"
    using word_and_le1 [of ghr 63] by (simp add: word_le_nat_alt)
  then show ?thesis
    using bp_run_inv [OF bp_create_inv, of ty bs]
    by (simp add: bp_inv_def bht_index_def gshare_hash_def pht_column_def BHT_SIZE_def
        PHT_ROWS_def PHT_COLS_def mask_index_less)
qed

text \<open>
  The global history register holds the last eight outcomes, the most recent in bit 0.
\<close>

theorem bp_history_register:
  assumes "i < 8" and "i < length bs"
  shows "bit (bp_ghr (bp_run (bp_create ty) bs)) i = snd (rev bs ! i)"
  using assms
proof (induction bs arbitrary: i rule: rev_induct)
  case (snoc x bs)
  obtain pc t where x: "x = (pc, t)" by (cases x)
  show ?case
    using snoc by (cases i) (simp_all add: x bp_run_append bit_shift_history)
qed simp

theorem bp_history_register_witness:
  "bit (bp_ghr (bp_run (bp_create PRED_GSHARE) [(4, True), (8, False), (4, False)])) 2 = True"
  using bp_history_register [of 2 "[(4, True), (8, False), (4, False)]" PRED_GSHARE]
  by (simp add: numeral_2_eq_2)

text \<open>
  A bimodal predictor learns a branch: after two updates with the same outcome it predicts
  that outcome for the branch, from any history, and after three it still predicts it when one
  opposite outcome follows.  Branches of other table entries are not affected.
\<close>

theorem bimodal_learns:
  fixes bs :: "(u32 \<times> bool) list" and pc pc' :: u32 and t :: bool
  defines "bp \<equiv> bp_run (bp_create PRED_BIMODAL) bs"
  defines "bp2 \<equiv> bp_run bp [(pc, t), (pc, t)]"
  defines "bp4 \<equiv> bp_run bp [(pc, t), (pc, t), (pc, t), (pc, \<not> t)]"
  shows "bp_predict bp2 pc = t \<and> bp_predict bp4 pc = t
    \<and> (bht_index pc' = bht_index pc \<or> bp_predict bp4 pc' = bp_predict bp pc')"
proof -
  let ?i = "bht_index pc"
  have ty: "bp_type bp = PRED_BIMODAL"
    unfolding bp_def by (induction bs rule: rev_induct)
      (auto simp: bp_create_def bp_run_append)
  have v: "bp_bht bp ?i \<le> ST"
    using bp_run_inv [OF bp_create_inv, of PRED_BIMODAL bs] by (simp add: bp_def bp_inv_def)
  have u: "bp_bht (bp_update b q s) = (bp_bht b)(bht_index q := counter_train s (bp_bht b (bht_index q)))"
    if "bp_type b = PRED_BIMODAL" for b q s
    using that by (simp add: bp_update_def Let_def)
  have b2: "bp_bht bp2 ?i = (counter_train t ^^ 2) (bp_bht bp ?i)"
    and b4: "bp_bht bp4 ?i = counter_train (\<not> t) ((counter_train t ^^ 3) (bp_bht bp ?i))"
    by (simp_all add: bp2_def bp4_def u ty numeral_2_eq_2 numeral_3_eq_3)
  have o: "bp_bht bp4 j = bp_bht bp j" if "j \<noteq> ?i" for j
    using that by (simp add: bp4_def u ty)
  have l2: "(counter_train t ^^ 2) (bp_bht bp ?i) \<le> ST"
      "2 \<le> unat ((counter_train t ^^ 2) (bp_bht bp ?i)) \<longleftrightarrow> t"
    using pht.trained_level [OF v, of 2 t] pht.level_le [OF v] by (auto split: if_splits)
  have v3: "(counter_train t ^^ 3) (bp_bht bp ?i) \<le> ST" using pht.trained_level [OF v] by blast
  have l3: "unat ((counter_train t ^^ 3) (bp_bht bp ?i)) = (if t then 3 else 0)"
    by (rule pht.saturates [OF v]) simp
  have l4: "2 \<le> unat (bp_bht bp4 ?i) \<longleftrightarrow> t"
    unfolding b4 using pht.level_up [OF v3] pht.level_down [OF v3] l3 by (cases t) simp_all
  have p: "bp_predict b q = state_taken (bp_bht b (bht_index q))" if "bp_type b = PRED_BIMODAL" for b q
    using that by (simp add: bp_predict_def)
  have ty2: "bp_type bp2 = PRED_BIMODAL" "bp_type bp4 = PRED_BIMODAL"
    by (simp_all add: bp2_def bp4_def ty)
  show ?thesis
    using l2 l4 pht.train_valid [OF v3, of "\<not> t"] o [of "bht_index pc'"]
    by (auto simp: p ty ty2 b2 b4 state_taken_level)
qed

text \<open>
  An update trains exactly the counter that the prediction consulted: under the history of the
  prediction, the predictor's answer for the branch after the update is that of the consulted
  counter moved towards the outcome.
\<close>

theorem bp_update_trains_consulted:
  assumes "bp_type bp \<in> {PRED_BIMODAL, PRED_TWO_LEVEL, PRED_GSHARE}"
  shows "bp_predict bp pc = state_taken (bp_consulted bp pc (bp_ghr bp))
    \<and> bp_consulted (bp_update bp pc taken) pc (bp_ghr bp)
      = counter_train taken (bp_consulted bp pc (bp_ghr bp))"
  using assms by (auto simp: bp_predict_def bp_consulted_def bp_update_def Let_def)

theorem bp_update_trains_consulted_witness:
  "bp_consulted (bp_update (bp_create PRED_GSHARE) 16 True) 16 0 = WT"
  using bp_update_trains_consulted [of "bp_create PRED_GSHARE" 16 True]
  by (simp add: bp_create_def bp_consulted_def counter_train_def counter_inc_def bp_state_defs)

end
