(* ===== verification/Pipeline.thy ===== *)
theory Pipeline
  imports Isa
begin

text \<open>
  The five-stage pipeline of \<^verbatim>\<open>mini-cpu-arch/src/pipeline.c\<close>: the four pipeline registers
  around the simulator context of theory Isa, the forwarding unit, the load-use hazard detection,
  the five stage functions and the cycle that runs them from write-back to fetch.  Every stage
  that can access the memory or the register array out of bounds returns an option.
\<close>

section \<open>State\<close>

record PipelineReg =
  pr_valid :: bool
  pr_stalled :: bool
  pr_inst :: Instruction
  pr_pc :: u32
  pr_next_pc :: u32
  pr_reg_write_en :: u8
  pr_rd :: u8
  pr_rs1 :: u8
  pr_rs2 :: u8
  pr_rs1_val :: u32
  pr_rs2_val :: u32
  pr_imm :: u32
  pr_alu_result :: u32
  pr_mem_data :: u32
  pr_mem_read :: bool
  pr_mem_write :: bool
  pr_branch_taken :: bool

record Pipeline =
  if_id :: PipelineReg
  id_ex :: PipelineReg
  ex_mem :: PipelineReg
  mem_wb :: PipelineReg
  pl_isa :: ISAContext
  forward_a :: bool
  forward_b :: bool
  forward_a_val :: u32
  forward_b_val :: u32
  pl_cycles :: u32
  stall_count :: u32
  bubble_count :: u32

text \<open>\<open>memset\<close> of a pipeline register: the enumerator 0 of the opcode is \<open>OP_ADD\<close>.\<close>

definition zero_instruction :: Instruction where
  "zero_instruction = \<lparr>in_raw = 0, in_opcode = OP_ADD, in_rd = 0, in_rs1 = 0, in_rs2 = 0,
     in_funct3 = 0, in_funct7 = 0, in_immediate = 0\<rparr>"

definition zero_pipeline_reg :: PipelineReg where
  "zero_pipeline_reg = \<lparr>pr_valid = False, pr_stalled = False, pr_inst = zero_instruction, pr_pc = 0,
     pr_next_pc = 0, pr_reg_write_en = 0, pr_rd = 0, pr_rs1 = 0, pr_rs2 = 0, pr_rs1_val = 0,
     pr_rs2_val = 0, pr_imm = 0, pr_alu_result = 0, pr_mem_data = 0, pr_mem_read = False,
     pr_mem_write = False, pr_branch_taken = False\<rparr>"

definition pipeline_init :: Pipeline where
  "pipeline_init = \<lparr>if_id = zero_pipeline_reg, id_ex = zero_pipeline_reg,
     ex_mem = zero_pipeline_reg, mem_wb = zero_pipeline_reg, pl_isa = isa_init,
     forward_a = False, forward_b = False, forward_a_val = 0, forward_b_val = 0,
     pl_cycles = 0, stall_count = 0, bubble_count = 0\<rparr>"

section \<open>Forwarding and hazards\<close>

text \<open>The test that a later stage holds a valid producer of register \<open>rs\<close>.\<close>

definition produces :: "PipelineReg \<Rightarrow> u8 \<Rightarrow> bool" where
  "produces r rs \<longleftrightarrow> pr_valid r \<and> pr_reg_write_en r \<noteq> 0 \<and> pr_rd r \<noteq> 0 \<and> pr_rd r = rs"

text \<open>The four tests of the unit, in their order.\<close>

definition fwd_a_ex :: "Pipeline \<Rightarrow> Pipeline" where
  "fwd_a_ex p = (if produces (ex_mem p) (pr_rs1 (id_ex p))
     then p\<lparr>forward_a := True, forward_a_val := pr_alu_result (ex_mem p)\<rparr> else p)"

definition fwd_a_wb :: "Pipeline \<Rightarrow> Pipeline" where
  "fwd_a_wb p = (if produces (mem_wb p) (pr_rs1 (id_ex p)) \<and> \<not> produces (ex_mem p) (pr_rs1 (id_ex p))
     then p\<lparr>forward_a := True, forward_a_val := pr_alu_result (mem_wb p)\<rparr> else p)"

definition fwd_b_ex :: "Pipeline \<Rightarrow> Pipeline" where
  "fwd_b_ex p = (if produces (ex_mem p) (pr_rs2 (id_ex p))
     then p\<lparr>forward_b := True, forward_b_val := pr_alu_result (ex_mem p)\<rparr> else p)"

definition fwd_b_wb :: "Pipeline \<Rightarrow> Pipeline" where
  "fwd_b_wb p = (if produces (mem_wb p) (pr_rs2 (id_ex p)) \<and> \<not> produces (ex_mem p) (pr_rs2 (id_ex p))
     then p\<lparr>forward_b := True, forward_b_val := pr_alu_result (mem_wb p)\<rparr> else p)"

lemmas fwd_defs = fwd_a_ex_def fwd_a_wb_def fwd_b_ex_def fwd_b_wb_def

definition forwarding_unit :: "Pipeline \<Rightarrow> Pipeline" where
  "forwarding_unit p =
     fwd_b_wb (fwd_b_ex (fwd_a_wb (fwd_a_ex (p\<lparr>forward_a := False, forward_b := False\<rparr>))))"

definition detect_load_use_hazard :: "Pipeline \<Rightarrow> bool" where
  "detect_load_use_hazard p \<longleftrightarrow>
     pr_mem_read (id_ex p) \<and> (pr_rd (id_ex p) = pr_rs1 (if_id p) \<or> pr_rd (id_ex p) = pr_rs2 (if_id p))"

section \<open>Stages\<close>

definition pipeline_fetch :: "Pipeline \<Rightarrow> Pipeline option" where
  "pipeline_fetch p =
     (if isa_halted (pl_isa p) \<or> \<not> mem_guard (isa_pc (pl_isa p))
      then Some (p\<lparr>if_id := (if_id p)\<lparr>pr_valid := False\<rparr>\<rparr>)
      else case isa_fetch (pl_isa p) of
             None \<Rightarrow> None
           | Some inst \<Rightarrow>
               Some (p\<lparr>if_id := (if_id p)\<lparr>pr_inst := inst, pr_pc := isa_pc (pl_isa p),
                          pr_next_pc := isa_pc (pl_isa p) + 4, pr_valid := True, pr_stalled := False\<rparr>,
                       pl_isa := (pl_isa p)\<lparr>isa_pc := isa_pc (pl_isa p) + 4\<rparr>\<rparr>))"

definition is_imm_op :: "Opcode \<Rightarrow> bool" where
  "is_imm_op op \<longleftrightarrow> op \<in> {OP_ADDI, OP_ANDI, OP_ORI, OP_XORI, OP_SLLI, OP_SRLI, OP_SRAI, OP_SLTI,
     OP_SLTIU, OP_LW, OP_SW, OP_LB, OP_SB}"

text \<open>The control signals of the \<open>switch\<close>: write enable, memory read, memory write, jump.\<close>

fun decode_signals :: "Opcode \<Rightarrow> u8 \<times> bool \<times> bool \<times> bool" where
  "decode_signals OP_LW = (1, True, False, False)"
| "decode_signals OP_LB = (1, True, False, False)"
| "decode_signals OP_SW = (0, False, True, False)"
| "decode_signals OP_SB = (0, False, True, False)"
| "decode_signals OP_JAL = (1, False, False, True)"
| "decode_signals OP_JALR = (1, False, False, True)"
| "decode_signals OP_BEQ = (0, False, False, False)"
| "decode_signals OP_BNE = (0, False, False, False)"
| "decode_signals OP_BLT = (0, False, False, False)"
| "decode_signals OP_BGE = (0, False, False, False)"
| "decode_signals OP_BLTU = (0, False, False, False)"
| "decode_signals OP_BGEU = (0, False, False, False)"
| "decode_signals OP_NOP = (0, False, False, False)"
| "decode_signals _ = (1, False, False, False)"

definition pipeline_decode :: "Pipeline \<Rightarrow> Pipeline" where
  "pipeline_decode p =
     (if \<not> pr_valid (if_id p) then p\<lparr>id_ex := (id_ex p)\<lparr>pr_valid := False\<rparr>\<rparr>
      else
        let inst = pr_inst (if_id p);
            regs = isa_registers (pl_isa p);
            (we, mr, mw, bt) = decode_signals (in_opcode inst)
        in p\<lparr>id_ex := (id_ex p)\<lparr>pr_inst := inst, pr_pc := pr_pc (if_id p), pr_rd := in_rd inst,
               pr_rs1 := in_rs1 inst, pr_rs2 := in_rs2 inst, pr_imm := in_immediate inst,
               pr_rs1_val := regs (unat (in_rs1 inst AND 0xF)),
               pr_rs2_val := (if is_imm_op (in_opcode inst) then in_immediate inst
                              else regs (unat (in_rs2 inst AND 0xF))),
               pr_reg_write_en := we, pr_mem_read := mr, pr_mem_write := mw,
               pr_branch_taken := bt, pr_valid := True\<rparr>,
             if_id := (if_id p)\<lparr>pr_valid := False\<rparr>\<rparr>)"

text \<open>
  The \<open>switch\<close> of the execute stage.  It shares the arithmetic labels with the simulator;
  loads and stores compute the address, the conditional branches the next program counter, and
  the jumps their target.
\<close>

definition is_branch :: "Opcode \<Rightarrow> bool" where
  "is_branch op \<longleftrightarrow> op \<in> {OP_BEQ, OP_BNE, OP_BLT, OP_BGE, OP_BLTU, OP_BGEU}"

definition ex_result :: "Opcode \<Rightarrow> u32 \<Rightarrow> u32 \<Rightarrow> u32 \<Rightarrow> u32 \<Rightarrow> u32" where
  "ex_result op pc a b imm =
     (if op \<in> {OP_LW, OP_LB, OP_SW, OP_SB} then a + imm
      else if is_branch op then (if branch_taken op a b then pc + imm else pc + 4)
      else if op = OP_JAL then pc + imm
      else if op = OP_JALR then (a + imm) AND NOT 1
      else rd_value op pc a b imm)"

definition pipeline_execute :: "Pipeline \<Rightarrow> Pipeline" where
  "pipeline_execute p =
     (if \<not> pr_valid (id_ex p) then p\<lparr>ex_mem := (ex_mem p)\<lparr>pr_valid := False\<rparr>\<rparr>
      else
        let p1 = forwarding_unit p;
            a = (if forward_a p1 then forward_a_val p1 else pr_rs1_val (id_ex p1));
            b = (if forward_b p1 then forward_b_val p1 else pr_rs2_val (id_ex p1));
            op = in_opcode (pr_inst (id_ex p1));
            result = ex_result op (pr_pc (id_ex p1)) a b (pr_imm (id_ex p1));
            idx = (if is_branch op then (id_ex p1)\<lparr>pr_branch_taken := branch_taken op a b\<rparr> else id_ex p1);
            p2 = p1\<lparr>ex_mem := (ex_mem p1)\<lparr>pr_alu_result := result, pr_reg_write_en := pr_reg_write_en idx,
                      pr_rd := pr_rd idx, pr_rs2_val := b, pr_mem_read := pr_mem_read idx,
                      pr_mem_write := pr_mem_write idx, pr_branch_taken := pr_branch_taken idx,
                      pr_pc := pr_pc idx, pr_valid := True\<rparr>\<rparr>;
            p3 = (if pr_branch_taken idx
                  then p2\<lparr>pl_isa := (pl_isa p2)\<lparr>isa_pc := result\<rparr>,
                          if_id := (if_id p2)\<lparr>pr_valid := False\<rparr>, bubble_count := bubble_count p2 + 1\<rparr>
                  else p2)
        in p3\<lparr>id_ex := idx\<lparr>pr_valid := False\<rparr>\<rparr>)"

definition pipeline_memory :: "Pipeline \<Rightarrow> Pipeline option" where
  "pipeline_memory p =
     (if \<not> pr_valid (ex_mem p) then Some (p\<lparr>mem_wb := (mem_wb p)\<lparr>pr_valid := False\<rparr>\<rparr>)
      else
        let e = ex_mem p;
            addr = pr_alu_result e;
            wb = (mem_wb p)\<lparr>pr_alu_result := pr_alu_result e, pr_reg_write_en := pr_reg_write_en e,
                   pr_rd := pr_rd e, pr_pc := pr_pc e, pr_valid := True\<rparr>
        in case (if pr_mem_read e \<and> mem_guard addr
                 then map_option (\<lambda>v. wb\<lparr>pr_alu_result := v\<rparr>) (load32 (isa_memory (pl_isa p)) addr)
                 else Some wb) of
             None \<Rightarrow> None
           | Some wb' \<Rightarrow>
               (case (if pr_mem_write e \<and> mem_guard addr
                      then store32 (isa_memory (pl_isa p)) addr (pr_rs2_val e)
                      else Some (isa_memory (pl_isa p))) of
                  None \<Rightarrow> None
                | Some m \<Rightarrow>
                    Some (p\<lparr>mem_wb := wb', pl_isa := (pl_isa p)\<lparr>isa_memory := m\<rparr>,
                            ex_mem := e\<lparr>pr_valid := False\<rparr>\<rparr>)))"

definition pipeline_writeback :: "Pipeline \<Rightarrow> Pipeline option" where
  "pipeline_writeback p =
     (if \<not> pr_valid (mem_wb p) then Some p
      else
        let w = mem_wb p; p' = p\<lparr>mem_wb := w\<lparr>pr_valid := False\<rparr>\<rparr>
        in if pr_reg_write_en w \<noteq> 0 \<and> pr_rd w \<noteq> 0
           then if unat (pr_rd w) < MAX_REGISTERS
                then Some (p'\<lparr>pl_isa := (pl_isa p)\<lparr>isa_registers :=
                       (isa_registers (pl_isa p))(unat (pr_rd w) := pr_alu_result w)\<rparr>\<rparr>)
                else None
           else Some p')"

definition pipeline_cycle :: "Pipeline \<Rightarrow> Pipeline option" where
  "pipeline_cycle p =
     (if isa_halted (pl_isa p) then Some p
      else if detect_load_use_hazard p then
        (case pipeline_writeback (p\<lparr>stall_count := stall_count p + 1\<rparr>) of
           None \<Rightarrow> None | Some p1 \<Rightarrow> pipeline_memory p1)
      else
        (case pipeline_writeback p of
           None \<Rightarrow> None
         | Some p1 \<Rightarrow>
             (case pipeline_memory p1 of
                None \<Rightarrow> None
              | Some p2 \<Rightarrow>
                  (case pipeline_fetch (pipeline_decode (pipeline_execute p2)) of
                     None \<Rightarrow> None
                   | Some p3 \<Rightarrow> Some (p3\<lparr>pl_cycles := pl_cycles p3 + 1\<rparr>)))))"

definition pipeline_load_program :: "Pipeline \<Rightarrow> u32 list \<Rightarrow> Pipeline" where
  "pipeline_load_program p prog = p\<lparr>pl_isa := isa_load_program (pl_isa p) prog\<rparr>"

fun pipeline_run :: "nat \<Rightarrow> Pipeline \<Rightarrow> Pipeline option" where
  "pipeline_run 0 p = Some p"
| "pipeline_run (Suc n) p =
     (case pipeline_cycle p of None \<Rightarrow> None | Some p' \<Rightarrow> pipeline_run n p')"

section \<open>Frame facts of the stages\<close>

lemma forwarding_unit_fields [simp]:
  "id_ex (forwarding_unit p) = id_ex p" "ex_mem (forwarding_unit p) = ex_mem p"
  "if_id (forwarding_unit p) = if_id p" "mem_wb (forwarding_unit p) = mem_wb p"
  "pl_isa (forwarding_unit p) = pl_isa p"
  by (simp_all add: forwarding_unit_def fwd_defs)

lemma forwarding_unit_choice:
  "forward_a (forwarding_unit p) \<longleftrightarrow>
     produces (ex_mem p) (pr_rs1 (id_ex p)) \<or> produces (mem_wb p) (pr_rs1 (id_ex p))"
  "forward_a (forwarding_unit p) \<Longrightarrow> forward_a_val (forwarding_unit p) =
     pr_alu_result (if produces (ex_mem p) (pr_rs1 (id_ex p)) then ex_mem p else mem_wb p)"
  "forward_b (forwarding_unit p) \<longleftrightarrow>
     produces (ex_mem p) (pr_rs2 (id_ex p)) \<or> produces (mem_wb p) (pr_rs2 (id_ex p))"
  "forward_b (forwarding_unit p) \<Longrightarrow> forward_b_val (forwarding_unit p) =
     pr_alu_result (if produces (ex_mem p) (pr_rs2 (id_ex p)) then ex_mem p else mem_wb p)"
  by (cases "produces (ex_mem p) (pr_rs1 (id_ex p))"; cases "produces (ex_mem p) (pr_rs2 (id_ex p))";
      cases "produces (mem_wb p) (pr_rs1 (id_ex p))"; cases "produces (mem_wb p) (pr_rs2 (id_ex p))";
      simp add: forwarding_unit_def fwd_defs)+

lemma pipeline_writeback_fields:
  assumes "pipeline_writeback p = Some p'"
  shows "if_id p' = if_id p" "id_ex p' = id_ex p" "ex_mem p' = ex_mem p" "\<not> pr_valid (mem_wb p')"
    "isa_pc (pl_isa p') = isa_pc (pl_isa p)" "isa_halted (pl_isa p') = isa_halted (pl_isa p)"
    "isa_memory (pl_isa p') = isa_memory (pl_isa p)"
    "pl_cycles p' = pl_cycles p" "stall_count p' = stall_count p"
    "isa_registers (pl_isa p') 0 = isa_registers (pl_isa p) 0"
  using assms by (auto simp: pipeline_writeback_def Let_def unat_eq_0 split: if_splits)

lemma pipeline_memory_fields:
  assumes "pipeline_memory p = Some p'"
  shows "if_id p' = if_id p" "id_ex p' = id_ex p" "\<not> pr_valid (ex_mem p')"
    "isa_pc (pl_isa p') = isa_pc (pl_isa p)" "isa_halted (pl_isa p') = isa_halted (pl_isa p)"
    "isa_registers (pl_isa p') = isa_registers (pl_isa p)"
    "pl_cycles p' = pl_cycles p" "stall_count p' = stall_count p"
  using assms by (auto simp: pipeline_memory_def Let_def split: if_splits option.splits)

lemma pipeline_memory_idle:
  "\<not> pr_valid (ex_mem p) \<Longrightarrow> pipeline_memory p = Some (p\<lparr>mem_wb := (mem_wb p)\<lparr>pr_valid := False\<rparr>\<rparr>)"
  by (simp add: pipeline_memory_def)

lemma pipeline_execute_fields:
  "pr_rs1 (if_id (pipeline_execute p)) = pr_rs1 (if_id p)"
  "pr_rs2 (if_id (pipeline_execute p)) = pr_rs2 (if_id p)"
  "isa_halted (pl_isa (pipeline_execute p)) = isa_halted (pl_isa p)"
  "isa_registers (pl_isa (pipeline_execute p)) = isa_registers (pl_isa p)"
  by (simp_all add: pipeline_execute_def Let_def)

lemma pipeline_decode_fields:
  "pr_rs1 (if_id (pipeline_decode p)) = pr_rs1 (if_id p)"
  "pr_rs2 (if_id (pipeline_decode p)) = pr_rs2 (if_id p)"
  "ex_mem (pipeline_decode p) = ex_mem p" "pl_isa (pipeline_decode p) = pl_isa p"
  by (simp_all add: pipeline_decode_def Let_def split: prod.split)

lemma pipeline_fetch_fields:
  assumes "pipeline_fetch p = Some p'"
  shows "pr_rs1 (if_id p') = pr_rs1 (if_id p)" "pr_rs2 (if_id p') = pr_rs2 (if_id p)"
    "ex_mem p' = ex_mem p" "id_ex p' = id_ex p" "isa_halted (pl_isa p') = isa_halted (pl_isa p)"
    "isa_registers (pl_isa p') = isa_registers (pl_isa p)"
  using assms by (auto simp: pipeline_fetch_def split: if_splits option.splits)

lemmas stage_fields = pipeline_writeback_fields pipeline_memory_fields pipeline_execute_fields
  pipeline_decode_fields pipeline_fetch_fields

lemma pipeline_cycle_flow:
  assumes "pipeline_cycle p = Some p'" "\<not> isa_halted (pl_isa p)" "\<not> detect_load_use_hazard p"
  obtains p1 p2 p3 where "pipeline_writeback p = Some p1" "pipeline_memory p1 = Some p2"
    "pipeline_fetch (pipeline_decode (pipeline_execute p2)) = Some p3"
    "p' = p3\<lparr>pl_cycles := pl_cycles p3 + 1\<rparr>"
  using assms by (auto simp: pipeline_cycle_def split: option.splits)

lemma pipeline_cycle_stall:
  assumes "pipeline_cycle p = Some p'" "\<not> isa_halted (pl_isa p)" "detect_load_use_hazard p"
  obtains p1 where "pipeline_writeback (p\<lparr>stall_count := stall_count p + 1\<rparr>) = Some p1"
    "pipeline_memory p1 = Some p'"
  using assms by (auto simp: pipeline_cycle_def split: option.splits)

section \<open>A concrete program\<close>

fun isa_run :: "nat \<Rightarrow> ISAContext \<Rightarrow> ISAContext option" where
  "isa_run 0 c = Some c"
| "isa_run (Suc n) c = (case isa_step c of None \<Rightarrow> None | Some c' \<Rightarrow> isa_run n c')"

definition gap_program :: "u32 list" where
  "gap_program = [0x00500093, 0x00000013, 0x00108133]"

definition gap_memory :: "u8 arr" where
  "gap_memory = (\<lambda>i. if i < 12 then program_byte gap_program i else 0)"

lemma gap_load: 
  "load32 gap_memory 0 = Some 0x00500093"
  "load32 gap_memory 4 = Some 0x00000013"
  "load32 gap_memory 8 = Some 0x00108133"
  "load32 gap_memory 12 = Some 0"
  "load32 gap_memory 16 = Some 0"
  "load32 gap_memory 20 = Some 0"
  "load32 gap_memory 24 = Some 0"
  "load32 gap_memory 28 = Some 0"
  by (simp_all add: load32_def in_memory_iff program_byte_def gap_program_def gap_memory_def)

lemma gap_init: "isa_load_program isa_init gap_program =
   \<lparr>isa_registers = \<lambda>_. 0, isa_pc = 0, isa_memory = gap_memory, isa_halted = False, isa_cycles = 0\<rparr>"
  by (simp add: isa_load_program_def gap_program_def isa_init_def MEMORY_SIZE_def gap_memory_def fun_eq_iff)

lemma gap_dec:
 "isa_decode 0x00500093 = (nop_instruction 0x00500093)\<lparr>in_opcode := OP_ADDI, in_rd := 1, in_immediate := 5, in_rs2 := 5\<rparr>"
 "isa_decode 0x00000013 = (nop_instruction 0x00000013)\<lparr>in_opcode := OP_ADDI\<rparr>"
 "isa_decode 0x00108133 = (nop_instruction 0x00108133)\<lparr>in_opcode := OP_ADD, in_rd := 2, in_rs1 := 1, in_rs2 := 1\<rparr>"
 "isa_decode 0 = nop_instruction 0"
  by (simp_all add: isa_decode_def nop_instruction_def Let_def decode_i_def decode_r_def imm_i_def)

lemmas stage_eval = detect_load_use_hazard_def pipeline_writeback_def pipeline_memory_def pipeline_execute_def
   forwarding_unit_def fwd_defs produces_def pipeline_decode_def pipeline_fetch_def isa_fetch_def mem_guard_def MEMORY_SIZE_def
   gap_load gap_dec Let_def nop_instruction_def is_imm_op_def ex_result_def is_branch_def MAX_REGISTERS_def
   pipeline_init_def zero_pipeline_reg_def pipeline_cycle_def zero_instruction_def

lemma run_numeral:
  "isa_run (numeral k) c = (case isa_step c of None \<Rightarrow> None | Some c' \<Rightarrow> isa_run (pred_numeral k) c')"
  "pipeline_run (numeral k) p =
     (case pipeline_cycle p of None \<Rightarrow> None | Some p' \<Rightarrow> pipeline_run (pred_numeral k) p')"
  by (simp_all add: numeral_eq_Suc)


text \<open>A producer of \<open>x1 = 5\<close> behind the execute stage, \<open>ADD x2, x1, x1\<close> in front of it.\<close>

definition adjacent_example :: Pipeline where
  "adjacent_example = pipeline_init\<lparr>
     ex_mem := zero_pipeline_reg\<lparr>pr_valid := True, pr_reg_write_en := 1, pr_rd := 1, pr_alu_result := 5\<rparr>,
     id_ex := zero_pipeline_reg\<lparr>pr_valid := True, pr_reg_write_en := 1, pr_rd := 2, pr_rs1 := 1, pr_rs2 := 1\<rparr>,
     pl_isa := isa_load_program isa_init gap_program\<rparr>"

text \<open>A load of register 0 in the ID/EX register.\<close>

definition stalled_example :: Pipeline where
  "stalled_example = pipeline_init\<lparr>id_ex := zero_pipeline_reg\<lparr>pr_valid := True, pr_mem_read := True\<rparr>\<rparr>"

text \<open>\<open>SW x1, 16(x0)\<close> waiting to be decoded.\<close>

definition store_example :: Pipeline where
  "store_example = pipeline_init\<lparr>if_id := zero_pipeline_reg\<lparr>pr_valid := True,
     pr_inst := (nop_instruction 0x00102823)\<lparr>in_opcode := OP_SW, in_rs2 := 1, in_immediate := 16\<rparr>\<rparr>\<rparr>"

lemma adjacent_runs: "\<exists>p'. pipeline_cycle adjacent_example = Some p'"
  by (simp add: adjacent_example_def gap_init stage_eval)

lemma stalled_runs: "\<exists>p'. pipeline_run 3 stalled_example = Some p'"
  by (simp add: stalled_example_def stage_eval run_numeral isa_init_def)

lemma store_runs: "\<exists>p'. pipeline_memory (pipeline_execute (pipeline_decode store_example)) = Some p'"
  by (simp add: store_example_def stage_eval store32_def in_memory_iff isa_init_def)

lemma gap_runs: "\<exists>p. pipeline_run 2 (pipeline_load_program pipeline_init gap_program) = Some p"
  by (simp add: pipeline_load_program_def gap_init stage_eval run_numeral)

section \<open>Properties\<close>

text \<open>
  The result of an instruction reaches the next instruction: in the cycle after a register
  producer left the execute stage, a dependent instruction in that stage computes with the
  producer's result on both operands.
\<close>

theorem pipeline_forwards_adjacent:
  assumes cyc: "pipeline_cycle p = Some p'" and run: "\<not> isa_halted (pl_isa p)" "\<not> detect_load_use_hazard p"
    and prod: "pr_valid (ex_mem p)" "pr_reg_write_en (ex_mem p) \<noteq> 0" "pr_rd (ex_mem p) \<noteq> 0"
      "\<not> pr_mem_read (ex_mem p)"
    and cons: "pr_valid (id_ex p)"
  shows "pr_alu_result (ex_mem p') =
    ex_result (in_opcode (pr_inst (id_ex p))) (pr_pc (id_ex p))
      (if pr_rs1 (id_ex p) = pr_rd (ex_mem p) then pr_alu_result (ex_mem p) else pr_rs1_val (id_ex p))
      (if pr_rs2 (id_ex p) = pr_rd (ex_mem p) then pr_alu_result (ex_mem p) else pr_rs2_val (id_ex p))
      (pr_imm (id_ex p))"
proof -
  from cyc run obtain p1 p2 p3 where s: "pipeline_writeback p = Some p1" "pipeline_memory p1 = Some p2"
    "pipeline_fetch (pipeline_decode (pipeline_execute p2)) = Some p3"
    and p': "p' = p3\<lparr>pl_cycles := pl_cycles p3 + 1\<rparr>"
    by (rule pipeline_cycle_flow)
  have wb: "pr_valid (mem_wb p2)" "pr_reg_write_en (mem_wb p2) = pr_reg_write_en (ex_mem p)"
    "pr_rd (mem_wb p2) = pr_rd (ex_mem p)" "pr_alu_result (mem_wb p2) = pr_alu_result (ex_mem p)"
    using s(2) prod pipeline_writeback_fields(3) [OF s(1)]
    by (auto simp: pipeline_memory_def Let_def split: if_splits option.splits)
  have ex: "\<not> pr_valid (ex_mem p2)" "id_ex p2 = id_ex p"
    using pipeline_memory_fields [OF s(2)] pipeline_writeback_fields [OF s(1)] by simp_all
  have pe: "produces (ex_mem p2) r = False"
    "produces (mem_wb p2) r = (r = pr_rd (ex_mem p))" for r
    using wb ex prod by (auto simp: produces_def)
  have "pr_alu_result (ex_mem p') = pr_alu_result (ex_mem (pipeline_execute p2))"
    by (simp add: p' pipeline_fetch_fields [OF s(3)] pipeline_decode_fields)
  also have "\<dots> = ex_result (in_opcode (pr_inst (id_ex p))) (pr_pc (id_ex p))
      (if pr_rs1 (id_ex p) = pr_rd (ex_mem p) then pr_alu_result (ex_mem p) else pr_rs1_val (id_ex p))
      (if pr_rs2 (id_ex p) = pr_rd (ex_mem p) then pr_alu_result (ex_mem p) else pr_rs2_val (id_ex p))
      (pr_imm (id_ex p))"
    using cons ex(2) forwarding_unit_choice [of p2] wb(4)
    by (simp add: pipeline_execute_def Let_def pe)
  finally show ?thesis .
qed

theorem pipeline_forwards_adjacent_witness:
  "\<exists>p'. pipeline_cycle adjacent_example = Some p' \<and> pr_alu_result (ex_mem p') = 10"
proof -
  obtain p' where p': "pipeline_cycle adjacent_example = Some p'"
    using adjacent_runs by blast
  have "pr_alu_result (ex_mem p') = 10"
    by (subst pipeline_forwards_adjacent [OF p'])
      (simp_all add: adjacent_example_def gap_init stage_eval)
  with p' show ?thesis by blast
qed

lemma pipeline_cycle_keeps_blind:
  assumes "pipeline_cycle p = Some p'" "pr_rs1 (if_id p) = 0" "pr_rs2 (if_id p) = 0"
  shows "pr_rs1 (if_id p') = 0 \<and> pr_rs2 (if_id p') = 0"
proof -
  consider "isa_halted (pl_isa p)" | "\<not> isa_halted (pl_isa p)" "detect_load_use_hazard p"
    | "\<not> isa_halted (pl_isa p)" "\<not> detect_load_use_hazard p" by blast
  then show ?thesis
  proof cases
    case 1
    then show ?thesis using assms by (simp add: pipeline_cycle_def)
  next
    case 2
    with assms(1) obtain p1 where "pipeline_writeback (p\<lparr>stall_count := stall_count p + 1\<rparr>) = Some p1"
      "pipeline_memory p1 = Some p'" by (rule pipeline_cycle_stall)
    then show ?thesis using assms(2,3) by (simp add: stage_fields)
  next
    case 3
    with assms(1) obtain p1 p2 p3 where "pipeline_writeback p = Some p1" "pipeline_memory p1 = Some p2"
      "pipeline_fetch (pipeline_decode (pipeline_execute p2)) = Some p3"
      "p' = p3\<lparr>pl_cycles := pl_cycles p3 + 1\<rparr>" by (rule pipeline_cycle_flow)
    then show ?thesis using assms(2,3) by (simp add: stage_fields)
  qed
qed

lemma pipeline_run_blind:
  "pipeline_run n p = Some p' \<Longrightarrow> pr_rs1 (if_id p) = 0 \<Longrightarrow> pr_rs2 (if_id p) = 0
    \<Longrightarrow> pr_rs1 (if_id p') = 0 \<and> pr_rs2 (if_id p') = 0"
  by (induction n arbitrary: p) (auto split: option.splits dest: pipeline_cycle_keeps_blind)

text \<open>
  The hazard unit never sees the source registers of the instruction being decoded: fetch does
  not fill those fields of the IF/ID register, so in every pipeline that runs a program they are 0
  and the unit stalls exactly for loads whose destination is register 0.
\<close>

theorem pipeline_hazard_unit_blind:
  assumes "pipeline_run n (pipeline_load_program pipeline_init prog) = Some p"
  shows "detect_load_use_hazard p \<longleftrightarrow> pr_mem_read (id_ex p) \<and> pr_rd (id_ex p) = 0"
  using pipeline_run_blind [OF assms]
  by (simp add: pipeline_load_program_def pipeline_init_def zero_pipeline_reg_def detect_load_use_hazard_def)

theorem pipeline_hazard_unit_blind_witness:
  "\<exists>p. pipeline_run 2 (pipeline_load_program pipeline_init gap_program) = Some p
     \<and> (detect_load_use_hazard p \<longleftrightarrow> pr_mem_read (id_ex p) \<and> pr_rd (id_ex p) = 0)"
proof -
  obtain p where "pipeline_run 2 (pipeline_load_program pipeline_init gap_program) = Some p"
    using gap_runs by blast
  with pipeline_hazard_unit_blind [OF this] show ?thesis by blast
qed

lemma hazard_cycle_frozen:
  assumes "pipeline_cycle p = Some p'" "\<not> isa_halted (pl_isa p)" "detect_load_use_hazard p"
  shows "if_id p' = if_id p \<and> id_ex p' = id_ex p \<and> isa_pc (pl_isa p') = isa_pc (pl_isa p)
    \<and> pl_cycles p' = pl_cycles p \<and> stall_count p' = stall_count p + 1 
    \<and> \<not> isa_halted (pl_isa p') \<and> detect_load_use_hazard p' \<and> \<not> pr_valid (ex_mem p')"
proof -
  from assms obtain p1 where "pipeline_writeback (p\<lparr>stall_count := stall_count p + 1\<rparr>) = Some p1"
    "pipeline_memory p1 = Some p'" by (rule pipeline_cycle_stall)
  then show ?thesis using assms(2,3) by (simp add: stage_fields detect_load_use_hazard_def)
qed

text \<open>
  A stall is for ever.  The stalled cycle runs only write-back and memory, so the load stays in
  the execute stage and keeps the hazard: after any number of cycles the two front registers, the
  program counter and the cycle count are what they were, and only the stall counter has moved.
\<close>

theorem pipeline_stall_permanent:
  assumes "pipeline_run n p = Some p'" and "\<not> isa_halted (pl_isa p)" and "detect_load_use_hazard p"
  shows "if_id p' = if_id p \<and> id_ex p' = id_ex p \<and> isa_pc (pl_isa p') = isa_pc (pl_isa p)
    \<and> pl_cycles p' = pl_cycles p \<and> stall_count p' = stall_count p + of_nat n \<and> detect_load_use_hazard p'"
  using assms
proof (induction n arbitrary: p)
  case (Suc n)
  then obtain q where q: "pipeline_cycle p = Some q" "pipeline_run n q = Some p'"
    by (auto split: option.splits)
  from hazard_cycle_frozen [OF q(1) Suc.prems(2,3)] Suc.IH [OF q(2)] show ?case by simp
qed simp


theorem pipeline_stall_permanent_witness:
  "\<exists>p. pipeline_run 3 stalled_example = Some p \<and> stall_count p = 3 \<and> pl_cycles p = 0"
proof -
  obtain p where p: "pipeline_run 3 stalled_example = Some p"
    using stalled_runs by blast
  have "stall_count p = 3 \<and> pl_cycles p = 0"
    using pipeline_stall_permanent [OF p] by (simp add: stalled_example_def stage_eval isa_init_def)
  with p show ?thesis by blast
qed












text \<open>
  A store writes its own offset.  Decode puts the immediate in the second operand of every
  instruction with an immediate, stores among them, and execute passes that operand on as the
  data: when no result is forwarded, the word in memory after \<open>SW rs2, imm(rs1)\<close> is \<open>imm\<close>.
\<close>

theorem pipeline_store_writes_immediate:
  assumes sw: "pr_valid (if_id p)" "in_opcode (pr_inst (if_id p)) = OP_SW"
    and nofwd: "\<not> pr_valid (ex_mem p)" "\<not> pr_valid (mem_wb p)"
    and addr: "addr = isa_registers (pl_isa p) (unat (in_rs1 (pr_inst (if_id p)) AND 0xF)) + in_immediate (pr_inst (if_id p))"
      "mem_guard addr"
    and run: "pipeline_memory (pipeline_execute (pipeline_decode p)) = Some p'"
  shows "load32 (isa_memory (pl_isa p')) addr = Some (in_immediate (pr_inst (if_id p)))"
proof -
  have pe: "produces (ex_mem p) r = False" "produces (mem_wb p) r = False" for r
    using nofwd by (simp_all add: produces_def)
  have "store32 (isa_memory (pl_isa p)) addr (in_immediate (pr_inst (if_id p))) =
      Some (isa_memory (pl_isa p'))"
    using run sw addr
    by (auto simp: pipeline_decode_def pipeline_execute_def pipeline_memory_def Let_def forwarding_unit_choice pe
        is_imm_op_def ex_result_def is_branch_def split: if_splits option.splits)
  then show ?thesis by (auto dest: mem.ld_st)
qed

theorem pipeline_store_writes_immediate_witness:
  "\<exists>p'. pipeline_memory (pipeline_execute (pipeline_decode store_example)) = Some p'
     \<and> load32 (isa_memory (pl_isa p')) 16 = Some 16"
proof -
  have f: "pr_valid (if_id store_example)" "in_opcode (pr_inst (if_id store_example)) = OP_SW"
    "\<not> pr_valid (ex_mem store_example)" "\<not> pr_valid (mem_wb store_example)"
    "isa_registers (pl_isa store_example) = (\<lambda>_. 0)" "in_immediate (pr_inst (if_id store_example)) = 16"
    by (simp_all add: store_example_def pipeline_init_def zero_pipeline_reg_def isa_init_def)
  obtain p' where p': "pipeline_memory (pipeline_execute (pipeline_decode store_example)) = Some p'"
    using store_runs by blast
  have "load32 (isa_memory (pl_isa p')) 16 = Some 16"
    using pipeline_store_writes_immediate [OF f(1-4) _ _ p', of 16] 
    by (simp add: f mem_guard_def MEMORY_SIZE_def)
  with p' show ?thesis by blast
qed

end
