(* ===== verification/Ring.thy ===== *)
theory Ring
  imports Prelude
begin

text \<open>
  Ring buffers as the command queues and the reorder buffer use them: an array, the index of the
  oldest element, and a number of elements.  \<open>ring_list\<close> reads the content as a list from
  the oldest to the youngest element; the locale states the contract of a bounded first-in first-out
  queue that the models of the code are interpreted in.
\<close>

definition ring_list :: "'a arr \<Rightarrow> nat \<Rightarrow> nat \<Rightarrow> nat \<Rightarrow> 'a list" where
  "ring_list buf depth head n = map (\<lambda>i. buf ((head + i) mod depth)) [0..<n]"

lemma length_ring_list [simp]: "length (ring_list buf depth head n) = n"
  by (simp add: ring_list_def)

lemma ring_list_0 [simp]: "ring_list buf depth head 0 = []"
  by (simp add: ring_list_def)

lemma ring_index_inj:
  "i < depth \<Longrightarrow> n < depth \<Longrightarrow> (head + i) mod depth = (head + n) mod depth \<longleftrightarrow> i = n" for depth :: nat
proof (induction i n rule: linorder_wlog)
  case (le i n)
  have "(head + n) mod depth = (head + i) mod depth \<longleftrightarrow> depth dvd n - i"
    using mod_eq_dvd_iff_nat [of "head + i" "head + n" depth] le(1) by simp
  moreover have "depth dvd n - i \<longleftrightarrow> n = i" using le by (auto dest: dvd_imp_le)
  ultimately show ?case by auto
qed auto

lemma ring_list_push:
  assumes "n < depth"
  shows "ring_list (buf((head + n) mod depth := x)) depth head (Suc n) = ring_list buf depth head n @ [x]"
  using assms by (simp add: ring_list_def ring_index_inj)

lemma ring_list_pop:
  assumes "0 < n"
  shows "ring_list buf depth head n = buf (head mod depth) # ring_list buf depth (Suc head mod depth) (n - 1)"
proof -
  obtain m where m: "n = Suc m" using assms by (cases n) auto
  have "[0..<Suc m] = 0 # map Suc [0..<m]" by (simp add: map_Suc_upt upt_conv_Cons)
  then show ?thesis by (simp add: ring_list_def m mod_simps)
qed

lemma ring_list_cong: "(\<And>i. i < n \<Longrightarrow> a ((head + i) mod depth) = b ((head + i) mod depth)) \<Longrightarrow>
    ring_list a depth head n = ring_list b depth head n"
  by (simp add: ring_list_def)

section \<open>Rings with a free slot\<close>

text \<open>
  The number of elements of a ring that keeps only its head and its tail; the ring is full when one
  slot is left.
\<close>

definition gap_count :: "nat \<Rightarrow> nat \<Rightarrow> nat \<Rightarrow> nat" where
  "gap_count depth head tail = (if head \<le> tail then tail - head else depth + tail - head)"

lemma gap_count_less: "head < depth \<Longrightarrow> tail < depth \<Longrightarrow> gap_count depth head tail < depth"
  by (auto simp: gap_count_def)

lemma gap_count_0: "head < depth \<Longrightarrow> tail < depth \<Longrightarrow> gap_count depth head tail = 0 \<longleftrightarrow> head = tail"
  by (auto simp: gap_count_def)

lemma gap_tail: "head < depth \<Longrightarrow> tail < depth \<Longrightarrow> (head + gap_count depth head tail) mod depth = tail"
  by (auto simp: gap_count_def)

lemma Suc_mod_if: "i < n \<Longrightarrow> Suc i mod n = (if Suc i = n then 0 else Suc i)"
  by simp

lemma gap_full: "head < depth \<Longrightarrow> tail < depth \<Longrightarrow> Suc tail mod depth = head \<longleftrightarrow> depth - 1 \<le> gap_count depth head tail"
  by (auto simp: gap_count_def Suc_mod_if)

lemma gap_push: "head < depth \<Longrightarrow> tail < depth \<Longrightarrow> Suc tail mod depth \<noteq> head \<Longrightarrow>
    gap_count depth head (Suc tail mod depth) = Suc (gap_count depth head tail)"
  by (auto simp: gap_count_def Suc_mod_if split: if_splits)

lemma gap_pop: "head < depth \<Longrightarrow> tail < depth \<Longrightarrow> head \<noteq> tail \<Longrightarrow>
    gap_count depth (Suc head mod depth) tail = gap_count depth head tail - 1"
  by (auto simp: gap_count_def Suc_mod_if split: if_splits)

section \<open>Bounded queues\<close>

text \<open>A batch of enqueue operations that all succeed.\<close>

fun enq_all :: "('q \<Rightarrow> 'a \<Rightarrow> 'q option) \<Rightarrow> 'q \<Rightarrow> 'a list \<Rightarrow> 'q option" where
  "enq_all enq q [] = Some q"
| "enq_all enq q (x # xs) = (case enq q x of None \<Rightarrow> None | Some q' \<Rightarrow> enq_all enq q' xs)"

locale bounded_queue =
  fixes inv :: "'q \<Rightarrow> bool" and content :: "'q \<Rightarrow> 'a list" and cap :: "'q \<Rightarrow> nat"
    and enq :: "'q \<Rightarrow> 'a \<Rightarrow> 'q option"
  assumes enq_accepts: "inv q \<Longrightarrow> (enq q x = None) \<longleftrightarrow> cap q \<le> length (content q)"
    and enq_content: "inv q \<Longrightarrow> enq q x = Some q' \<Longrightarrow> content q' = content q @ [x] \<and> inv q' \<and> cap q' = cap q"
begin

text \<open>A batch is accepted exactly when it fits, and then follows the old content in order.\<close>

lemma enq_all_content:
  "inv q \<Longrightarrow> enq_all enq q xs = Some q' \<Longrightarrow> content q' = content q @ xs \<and> inv q' \<and> cap q' = cap q"
proof (induction xs arbitrary: q)
  case (Cons x xs)
  then obtain p where "enq q x = Some p" "enq_all enq p xs = Some q'" by (auto split: option.splits)
  with Cons.IH [of p] enq_content [OF Cons.prems(1), of x p] show ?case by simp
qed simp

lemma enq_all_fits:
  "inv q \<Longrightarrow> length (content q) \<le> cap q \<Longrightarrow> (\<exists>q'. enq_all enq q xs = Some q') \<longleftrightarrow> length (content q) + length xs \<le> cap q"
proof (induction xs arbitrary: q)
  case (Cons x xs)
  show ?case
  proof (cases "enq q x")
    case None
    then show ?thesis using enq_accepts [OF Cons.prems(1), of x] Cons.prems(2) by simp
  next
    case (Some p)
    have "length (content q) < cap q" using enq_accepts [OF Cons.prems(1), of x] Some by (simp add: not_le)
    then show ?thesis using Cons.IH [of p] enq_content [OF Cons.prems(1) Some] Some by simp
  qed
qed simp

end

end
