(* ===== verification/OooExec.thy ===== *)
theory OooExec
  imports Isa Ring
begin

text \<open>
  The Tomasulo processor of \<^verbatim>\<open>mini-cpu-arch/src/ooo_exec.c\<close>: reservation stations, register status,
  the reorder buffer as a ring, the common data bus, issue, execute, write-back and commit.
  \<open>None\<close> is an access outside the 16 registers or the 4096 bytes of memory.
\<close>

unbundle bit_operations_syntax

section \<open>State\<close>

definition MAX_RS :: nat where "MAX_RS = 16"
definition MAX_ROB :: u32 where "MAX_ROB = 32"

record ReservationStation =
  rs_busy :: bool
  rs_op :: Opcode
  rs_vj :: u32
  rs_vk :: u32
  rs_qj :: u32
  rs_qk :: u32
  rs_dest :: u32
  rs_qj_valid :: bool
  rs_qk_valid :: bool
  rs_addr :: u32
  rs_executing :: bool
  rs_cycles_left :: u32

record RegisterStatus =
  rst_rob_num :: u32
  rst_ready :: bool

record CDBEntry =
  cdb_value :: u32
  cdb_tag :: u32
  cdb_valid :: bool

record ROBEntry =
  rob_busy :: bool
  rob_ready :: bool
  rob_committed :: bool
  rob_inst :: Instruction
  rob_value :: u32
  rob_pc :: u32
  rob_index :: u32
  rob_rd :: u8
  rob_is_store :: bool
  rob_store_addr :: u32
  rob_store_data :: u32

record OOOProcessor =
  oo_rs :: "ReservationStation arr"
  oo_reg_status :: "RegisterStatus arr"
  oo_rob :: "ROBEntry arr"
  oo_rob_head :: u32
  oo_rob_tail :: u32
  oo_rob_count :: u32
  oo_cdb :: CDBEntry
  oo_registers :: "u32 arr"
  oo_memory :: "u8 arr"
  oo_pc :: u32
  oo_cycles :: u32
  oo_issued :: u32
  oo_committed :: u32

definition zero_rs :: ReservationStation where
  "zero_rs = \<lparr>rs_busy = False, rs_op = OP_ADD, rs_vj = 0, rs_vk = 0, rs_qj = 0, rs_qk = 0, rs_dest = 0,
     rs_qj_valid = False, rs_qk_valid = False, rs_addr = 0, rs_executing = False, rs_cycles_left = 0\<rparr>"

definition zero_rob :: ROBEntry where
  "zero_rob = \<lparr>rob_busy = False, rob_ready = False, rob_committed = False,
     rob_inst = (nop_instruction 0)\<lparr>in_opcode := OP_ADD\<rparr>, rob_value = 0, rob_pc = 0, rob_index = 0,
     rob_rd = 0, rob_is_store = False, rob_store_addr = 0, rob_store_data = 0\<rparr>"

definition ooo_init :: OOOProcessor where
  "ooo_init = \<lparr>oo_rs = \<lambda>_. zero_rs, oo_reg_status = \<lambda>_. \<lparr>rst_rob_num = -1, rst_ready = True\<rparr>,
     oo_rob = \<lambda>_. zero_rob, oo_rob_head = 0, oo_rob_tail = 0, oo_rob_count = 0,
     oo_cdb = \<lparr>cdb_value = 0, cdb_tag = 0, cdb_valid = False\<rparr>, oo_registers = \<lambda>_. 0, oo_memory = \<lambda>_. 0,
     oo_pc = 0, oo_cycles = 0, oo_issued = 0, oo_committed = 0\<rparr>"

section \<open>Issue\<close>

definition find_free_rs :: "OOOProcessor \<Rightarrow> nat option" where
  "find_free_rs p = find_index (\<lambda>i. \<not> rs_busy (oo_rs p i)) 0 MAX_RS"

definition find_free_rob :: "OOOProcessor \<Rightarrow> u32 option" where
  "find_free_rob p = (if oo_rob_count p \<ge> MAX_ROB then None else Some (oo_rob_tail p))"

text \<open>A new youngest entry of the reorder buffer.\<close>

definition rob_push :: "OOOProcessor \<Rightarrow> ROBEntry \<Rightarrow> OOOProcessor option" where
  "rob_push p e =
     (case find_free_rob p of
        None \<Rightarrow> None
      | Some r \<Rightarrow> Some (p\<lparr>oo_rob := (oo_rob p)(unat r := e), oo_rob_tail := (oo_rob_tail p + 1) mod MAX_ROB,
                          oo_rob_count := oo_rob_count p + 1\<rparr>))"

definition ooo_is_imm_op :: "Opcode \<Rightarrow> bool" where
  "ooo_is_imm_op op \<longleftrightarrow> op \<in> {OP_ADDI, OP_ANDI, OP_ORI, OP_XORI, OP_SLLI, OP_SRLI, OP_SRAI, OP_SLTI, OP_SLTIU,
     OP_LW, OP_SW, OP_LUI, OP_AUIPC, OP_JALR}"

text \<open>The reservation station of an issued instruction: operands, or the tags they wait for.\<close>

definition fill_rs :: "OOOProcessor \<Rightarrow> ReservationStation \<Rightarrow> Instruction \<Rightarrow> u32 \<Rightarrow> ReservationStation" where
  "fill_rs p rs inst r =
     (let r1 = unat (in_rs1 inst); r2 = unat (in_rs2 inst);
          s0 = rs\<lparr>rs_busy := True, rs_op := in_opcode inst, rs_executing := False, rs_cycles_left := 1, rs_dest := r\<rparr>;
          s1 = (if in_rs1 inst \<noteq> 0 \<and> \<not> rst_ready (oo_reg_status p r1)
                then s0\<lparr>rs_qj := rst_rob_num (oo_reg_status p r1), rs_qj_valid := True, rs_vj := 0\<rparr>
                else s0\<lparr>rs_vj := oo_registers p r1, rs_qj_valid := False\<rparr>)
      in if ooo_is_imm_op (in_opcode inst) then s1\<lparr>rs_vk := in_immediate inst, rs_qk_valid := False\<rparr>
         else if in_rs2 inst \<noteq> 0 \<and> \<not> rst_ready (oo_reg_status p r2)
              then s1\<lparr>rs_qk := rst_rob_num (oo_reg_status p r2), rs_qk_valid := True, rs_vk := 0\<rparr>
              else s1\<lparr>rs_vk := oo_registers p r2, rs_qk_valid := False\<rparr>)"

definition new_rob_entry :: "OOOProcessor \<Rightarrow> Instruction \<Rightarrow> u32 \<Rightarrow> ROBEntry" where
  "new_rob_entry p inst r = (oo_rob p (unat r))\<lparr>rob_busy := True, rob_ready := False, rob_committed := False,
     rob_inst := inst, rob_pc := oo_pc p, rob_index := r, rob_rd := in_rd inst, rob_value := 0,
     rob_is_store := (in_opcode inst = OP_SW)\<rparr>"

definition ooo_issue :: "OOOProcessor \<Rightarrow> Instruction \<Rightarrow> OOOProcessor option" where
  "ooo_issue p inst =
     (if in_opcode inst = OP_NOP then Some (p\<lparr>oo_pc := oo_pc p + 4\<rparr>)
      else case (find_free_rs p, find_free_rob p) of
             (Some i, Some r) \<Rightarrow>
               if unat (in_rs1 inst) \<ge> MAX_REGISTERS \<or> unat (in_rd inst) \<ge> MAX_REGISTERS \<or>
                  (\<not> ooo_is_imm_op (in_opcode inst) \<and> unat (in_rs2 inst) \<ge> MAX_REGISTERS) then None
               else
                 let p1 = p\<lparr>oo_rs := (oo_rs p)(i := fill_rs p (oo_rs p i) inst r)\<rparr>
                 in (case rob_push p1 (new_rob_entry p inst r) of
                       None \<Rightarrow> None
                     | Some p2 \<Rightarrow>
                         let p3 = (if in_rd inst \<noteq> 0
                                   then p2\<lparr>oo_reg_status := (oo_reg_status p2)(unat (in_rd inst) :=
                                          \<lparr>rst_rob_num = r, rst_ready = False\<rparr>)\<rparr>
                                   else p2)
                         in Some (p3\<lparr>oo_pc := oo_pc p3 + 4, oo_issued := oo_issued p3 + 1\<rparr>))
           | _ \<Rightarrow> Some p)"

section \<open>Execute\<close>

definition start_rs :: "nat \<Rightarrow> OOOProcessor \<Rightarrow> OOOProcessor" where
  "start_rs i p =
     (let rs = oo_rs p i
      in if \<not> rs_busy rs \<or> rs_executing rs \<or> rs_qj_valid rs \<or> rs_qk_valid rs then p
         else p\<lparr>oo_rs := (oo_rs p)(i := rs\<lparr>rs_executing := True, rs_cycles_left := 1\<rparr>)\<rparr>)"

text \<open>The \<open>switch\<close>: the result and the memory of a finished station.\<close>

definition ooo_switch :: "u8 arr \<Rightarrow> Opcode \<Rightarrow> u32 \<Rightarrow> u32 \<Rightarrow> (u32 \<times> u8 arr) option" where
  "ooo_switch mem op a b =
     (if op = OP_LW then
        (if mem_guard (a + b) then map_option (\<lambda>v. (v, mem)) (load32 mem (a + b)) else Some (0, mem))
      else if op = OP_SW then
        (if mem_guard (a + b) then map_option (\<lambda>m. (0, m)) (store32 mem (a + b) b) else Some (0, mem))
      else if op \<in> {OP_ADD, OP_SUB, OP_AND, OP_OR, OP_XOR, OP_ADDI, OP_SLTI}
           then Some (rd_value op 0 a b b, mem)
           else Some (0, mem))"

definition finish_rs :: "nat \<Rightarrow> OOOProcessor option \<Rightarrow> OOOProcessor option" where
  "finish_rs i s =
     (case s of
        None \<Rightarrow> None
      | Some p \<Rightarrow>
          let rs = oo_rs p i
          in if \<not> rs_busy rs \<or> \<not> rs_executing rs then Some p
             else
               let rs1 = rs\<lparr>rs_cycles_left := rs_cycles_left rs - 1\<rparr>
               in if rs_cycles_left rs1 = 0
                  then (case ooo_switch (oo_memory p) (rs_op rs1) (rs_vj rs1) (rs_vk rs1) of
                          None \<Rightarrow> None
                        | Some (res, mem) \<Rightarrow>
                            Some (p\<lparr>oo_memory := mem,
                                    oo_cdb := \<lparr>cdb_value = res, cdb_tag = rs_dest rs1, cdb_valid = True\<rparr>,
                                    oo_rs := (oo_rs p)(i := rs1\<lparr>rs_busy := False, rs_executing := False\<rparr>)\<rparr>))
                  else Some (p\<lparr>oo_rs := (oo_rs p)(i := rs1)\<rparr>))"

text \<open>The return value says whether a station started.\<close>

definition ooo_execute :: "OOOProcessor \<Rightarrow> (bool \<times> OOOProcessor) option" where
  "ooo_execute p =
     (let started = (\<exists>i \<in> {0..<MAX_RS}. rs_busy (oo_rs p i) \<and> \<not> rs_executing (oo_rs p i) \<and>
                      \<not> rs_qj_valid (oo_rs p i) \<and> \<not> rs_qk_valid (oo_rs p i))
      in map_option (Pair started)
           (for_range 0 MAX_RS finish_rs (Some (for_range 0 MAX_RS start_rs p))))"

section \<open>Write result\<close>

definition wake_operand :: "CDBEntry \<Rightarrow> ReservationStation \<Rightarrow> ReservationStation" where
  "wake_operand cdb rs =
     (let s1 = (if rs_busy rs \<and> rs_qj_valid rs \<and> rs_qj rs = cdb_tag cdb
                then rs\<lparr>rs_vj := cdb_value cdb, rs_qj_valid := False\<rparr> else rs)
      in if rs_busy s1 \<and> rs_qk_valid s1 \<and> rs_qk s1 = cdb_tag cdb
         then s1\<lparr>rs_vk := cdb_value cdb, rs_qk_valid := False\<rparr> else s1)"

definition update_register :: "CDBEntry \<Rightarrow> nat \<Rightarrow> OOOProcessor \<Rightarrow> OOOProcessor" where
  "update_register cdb i p =
     (if rst_rob_num (oo_reg_status p i) = cdb_tag cdb
      then p\<lparr>oo_reg_status := (oo_reg_status p)(i := (oo_reg_status p i)\<lparr>rst_ready := True\<rparr>),
             oo_registers := (oo_registers p)(i := cdb_value cdb)\<rparr>
      else p)"

definition ooo_write_result :: "OOOProcessor \<Rightarrow> OOOProcessor" where
  "ooo_write_result p =
     (let cdb = oo_cdb p; k = unat (cdb_tag cdb)
      in if \<not> cdb_valid cdb then p
         else
           let p1 = (if cdb_tag cdb < MAX_ROB
                     then p\<lparr>oo_rob := (oo_rob p)(k := (oo_rob p k)\<lparr>rob_value := cdb_value cdb, rob_ready := True\<rparr>)\<rparr>
                     else p);
               p2 = for_range 0 MAX_REGISTERS (update_register cdb) p1;
               p3 = for_range 0 MAX_RS (\<lambda>i q. q\<lparr>oo_rs := (oo_rs q)(i := wake_operand cdb (oo_rs q i))\<rparr>) p2
           in p3\<lparr>oo_cdb := cdb\<lparr>cdb_valid := False\<rparr>\<rparr>)"

section \<open>Commit\<close>

text \<open>The destination of the oldest entry, which the loop writes and retires.\<close>

definition retire_register :: "ROBEntry \<Rightarrow> u32 arr \<Rightarrow> u32 arr" where
  "retire_register rob regs =
     (if rob_rd rob \<noteq> 0 \<and> \<not> rob_is_store rob then regs(unat (rob_rd rob) := rob_value rob) else regs)"

definition retire_head :: "OOOProcessor \<Rightarrow> OOOProcessor" where
  "retire_head p =
     (let h = unat (oo_rob_head p); rob = oo_rob p h
      in p\<lparr>oo_registers := retire_register rob (oo_registers p),
           oo_rob := (oo_rob p)(h := rob\<lparr>rob_busy := False, rob_committed := True\<rparr>),
           oo_rob_head := (oo_rob_head p + 1) mod MAX_ROB, oo_rob_count := oo_rob_count p - 1,
           oo_committed := oo_committed p + 1\<rparr>)"

function ooo_commit :: "OOOProcessor \<Rightarrow> OOOProcessor" where
  "ooo_commit p =
     (if oo_rob_count p > 0 \<and> rob_busy (oo_rob p (unat (oo_rob_head p))) \<and> rob_ready (oo_rob p (unat (oo_rob_head p)))
      then ooo_commit (retire_head p) else p)"
  by pat_completeness auto

lemma count_pred: "(n :: u32) > 0 \<Longrightarrow> unat (n - 1) < unat n"
  by (simp add: unat_minus_one word_gt_0 unat_gt_0)

termination ooo_commit
  by (relation "measure (\<lambda>p. unat (oo_rob_count p))") (auto simp: retire_head_def Let_def intro: count_pred)

declare ooo_commit.simps [simp del]

definition ooo_step :: "OOOProcessor \<Rightarrow> OOOProcessor option" where
  "ooo_step p =
     (case ooo_execute (ooo_write_result p) of
        None \<Rightarrow> None
      | Some (started, q) \<Rightarrow> let r = ooo_commit q in Some (r\<lparr>oo_cycles := oo_cycles r + 1\<rparr>))"

fun ooo_run :: "nat \<Rightarrow> OOOProcessor \<Rightarrow> OOOProcessor option" where
  "ooo_run 0 p = Some p"
| "ooo_run (Suc n) p = (case ooo_step p of None \<Rightarrow> None | Some q \<Rightarrow> ooo_run n q)"

section \<open>The reorder buffer as a queue\<close>

definition rob_ring :: "OOOProcessor \<Rightarrow> bool" where
  "rob_ring p \<longleftrightarrow> unat (oo_rob_head p) < 32 \<and> unat (oo_rob_count p) \<le> 32 \<and>
     unat (oo_rob_tail p) = (unat (oo_rob_head p) + unat (oo_rob_count p)) mod 32"

definition rob_list :: "OOOProcessor \<Rightarrow> ROBEntry list" where
  "rob_list p = ring_list (oo_rob p) 32 (unat (oo_rob_head p)) (unat (oo_rob_count p))"

lemma rob_next: "unat i < 32 \<Longrightarrow> unat ((i + 1) mod MAX_ROB) = (unat i + 1) mod 32"
  using unat_add_lem [of i 1] by (simp add: unat_mod MAX_ROB_def)

lemma rob_free_iff: "rob_ring p \<Longrightarrow> find_free_rob p = None \<longleftrightarrow> 32 \<le> unat (oo_rob_count p)"
  by (simp add: find_free_rob_def MAX_ROB_def word_le_nat_alt)

interpretation rob: bounded_queue rob_ring rob_list "\<lambda>_. 32" rob_push
proof unfold_locales
  fix p p' e
  assume inv: "rob_ring p"
  show "(rob_push p e = None) \<longleftrightarrow> 32 \<le> length (rob_list p)"
    using rob_free_iff [OF inv] by (cases "find_free_rob p") (simp_all add: rob_push_def rob_list_def)
  assume push: "rob_push p e = Some p'"
  then have n: "unat (oo_rob_count p) < 32"
    using rob_free_iff [OF inv] by (auto simp: rob_push_def not_le split: option.splits)
  have r: "find_free_rob p = Some (oo_rob_tail p)" using push by (auto simp: rob_push_def find_free_rob_def split: if_splits)
  have p': "p' = p\<lparr>oo_rob := (oo_rob p)(unat (oo_rob_tail p) := e), oo_rob_tail := (oo_rob_tail p + 1) mod MAX_ROB,
      oo_rob_count := oo_rob_count p + 1\<rparr>" using push r by (simp add: rob_push_def)
  have c: "unat (oo_rob_count p + 1) = Suc (unat (oo_rob_count p))"
    using n unat_add_lem [of "oo_rob_count p" 1] by simp
  have t: "unat (oo_rob_tail p) = (unat (oo_rob_head p) + unat (oo_rob_count p)) mod 32" "unat (oo_rob_tail p) < 32"
    using inv by (simp_all add: rob_ring_def)
  have "rob_list p' = rob_list p @ [e]"
    using ring_list_push [OF n, of "oo_rob p" "unat (oo_rob_head p)" e] by (simp add: rob_list_def p' c t(1))
  moreover have "rob_ring p'"
    using inv n t(2) by (simp add: rob_ring_def p' c rob_next mod_simps)
  ultimately show "rob_list p' = rob_list p @ [e] \<and> rob_ring p' \<and> (32 :: nat) = 32" by simp
qed

section \<open>Commit\<close>

lemma retire_head_result:
  assumes inv: "rob_ring p" and n: "oo_rob_count p > 0"
  shows "rob_ring (retire_head p) \<and> rob_list p = oo_rob p (unat (oo_rob_head p)) # rob_list (retire_head p)"
proof -
  have pos: "0 < unat (oo_rob_count p)" using n by (simp add: word_gt_0 unat_gt_0)
  have c: "unat (oo_rob_count p - 1) = unat (oo_rob_count p) - 1" using n by (simp add: unat_minus_one word_gt_0)
  have h: "unat (oo_rob_head p) < 32" "unat (oo_rob_count p) \<le> 32" using inv by (simp_all add: rob_ring_def)
  have hn: "unat ((oo_rob_head p + 1) mod MAX_ROB) = (unat (oo_rob_head p) + 1) mod 32" using h by (simp add: rob_next)
  have ring: "rob_ring (retire_head p)"
  proof -
    obtain m where "unat (oo_rob_count p) = Suc m" using pos by (cases "unat (oo_rob_count p)") auto
    then show ?thesis using inv h by (simp add: rob_ring_def retire_head_def Let_def c hn mod_simps)
  qed
  have "rob_list (retire_head p) = ring_list (oo_rob p) 32 (Suc (unat (oo_rob_head p)) mod 32) (unat (oo_rob_count p) - 1)"
  proof -
    have "(Suc (unat (oo_rob_head p)) mod 32 + i) mod 32 \<noteq> unat (oo_rob_head p)" if "i < unat (oo_rob_count p) - 1" for i
    proof -
      have "(unat (oo_rob_head p) + (i + 1)) mod 32 \<noteq> (unat (oo_rob_head p) + 0) mod 32"
        using that h ring_index_inj [of "i + 1" 32 0 "unat (oo_rob_head p)"] by auto
      then show ?thesis using h by (simp add: mod_simps)
    qed
    then show ?thesis
      by (simp add: rob_list_def retire_head_def Let_def c hn ring_list_def)
  qed
  with ring show ?thesis
    using ring_list_pop [OF pos, of "oo_rob p" 32 "unat (oo_rob_head p)"] h by (simp add: rob_list_def)
qed

lemma rob_list_empty: "rob_list p = [] \<longleftrightarrow> oo_rob_count p = 0"
  by (metis length_0_conv length_ring_list rob_list_def unat_eq_zero)

lemma ooo_commit_result:
  "rob_ring p \<Longrightarrow> \<forall>e \<in> set (rob_list p). rob_busy e \<Longrightarrow>
     rob_ring (ooo_commit p) \<and> rob_list (ooo_commit p) = dropWhile rob_ready (rob_list p) \<and>
     oo_registers (ooo_commit p) = fold retire_register (takeWhile rob_ready (rob_list p)) (oo_registers p) \<and>
     oo_committed (ooo_commit p) = oo_committed p + of_nat (length (takeWhile rob_ready (rob_list p)))"
proof (induction p rule: ooo_commit.induct)
  case (1 p)
  let ?e = "oo_rob p (unat (oo_rob_head p))"
  show ?case
  proof (cases "oo_rob_count p > 0")
    case False
    then have "rob_list p = []" by (simp add: rob_list_empty word_gt_0)
    then show ?thesis using False 1(2) by (simp add: ooo_commit.simps [of p])
  next
    case True
    note rh = retire_head_result [OF 1(2) True]
    then have busy: "rob_busy ?e" using 1(3) by (metis list.set_intros(1))
    show ?thesis
    proof (cases "rob_ready ?e")
      case False
      then show ?thesis using True rh 1(2) by (simp add: ooo_commit.simps [of p])
    next
      case ready: True
      have eq: "ooo_commit p = ooo_commit (retire_head p)"
        using True busy ready by (simp add: ooo_commit.simps [of p])
      have r: "rob_ring (retire_head p)" "rob_list p = ?e # rob_list (retire_head p)" using rh by simp_all
      have f: "oo_registers (retire_head p) = retire_register ?e (oo_registers p)"
        "oo_committed (retire_head p) = oo_committed p + 1" by (simp_all add: retire_head_def Let_def)
      have "\<forall>e \<in> set (rob_list (retire_head p)). rob_busy e" using 1(3) r(2) by (metis list.set_intros(2))
      from 1(1) [OF _ r(1) this] True busy ready show ?thesis by (simp add: eq f r(2))
    qed
  qed
qed

section \<open>What the other operations do to the reorder buffer\<close>

definition rob_fields :: "OOOProcessor \<Rightarrow> (nat \<Rightarrow> ROBEntry) \<times> u32 \<times> u32 \<times> u32 \<times> u32" where
  "rob_fields p = (oo_rob p, oo_rob_head p, oo_rob_tail p, oo_rob_count p, oo_committed p)"

lemma rob_fields_cong:
  "rob_fields q = rob_fields p \<Longrightarrow> rob_ring q = rob_ring p \<and> rob_list q = rob_list p \<and> oo_committed q = oo_committed p"
  by (simp add: rob_fields_def rob_ring_def rob_list_def)

lemma start_rs_rob [simp]: "rob_fields (start_rs i p) = rob_fields p"
  by (simp add: start_rs_def rob_fields_def Let_def)

lemma finish_rs_rob: "finish_rs i (Some p) = Some q \<Longrightarrow> rob_fields q = rob_fields p"
  by (auto simp: finish_rs_def rob_fields_def Let_def split: if_splits option.splits)

lemma ooo_execute_rob:
  assumes "ooo_execute p = Some (b, q)"
  shows "rob_fields q = rob_fields p"
proof -
  let ?s = "for_range 0 MAX_RS start_rs p"
  have s: "rob_fields ?s = rob_fields p" by (rule for_range_preserves) simp_all
  have "\<forall>q. for_range 0 MAX_RS finish_rs (Some ?s) = Some q \<longrightarrow> rob_fields q = rob_fields p"
  proof (rule for_range_preserves)
    fix i t assume "\<forall>q. t = Some q \<longrightarrow> rob_fields q = rob_fields p"
    then show "\<forall>q. finish_rs i t = Some q \<longrightarrow> rob_fields q = rob_fields p"
      by (cases t) (auto simp: finish_rs_def [of i None] dest: finish_rs_rob)
  qed (use s in simp)
  with assms show ?thesis by (auto simp: ooo_execute_def)
qed

lemma ooo_write_result_rob:
  "rob_fields (ooo_write_result p) = (if cdb_valid (oo_cdb p) \<and> cdb_tag (oo_cdb p) < MAX_ROB
     then rob_fields (p\<lparr>oo_rob := (oo_rob p)(unat (cdb_tag (oo_cdb p)) :=
       (oo_rob p (unat (cdb_tag (oo_cdb p))))\<lparr>rob_value := cdb_value (oo_cdb p), rob_ready := True\<rparr>)\<rparr>)
     else rob_fields p)"
proof -
  have u: "rob_fields (for_range 0 n (update_register cdb) q) = rob_fields q" for n cdb q
    by (rule for_range_preserves) (simp_all add: update_register_def rob_fields_def)
  have w: "rob_fields (for_range 0 n (\<lambda>i q. q\<lparr>oo_rs := (oo_rs q)(i := wake_operand cdb (oo_rs q i))\<rparr>) q) = rob_fields q" for n cdb q
    by (rule for_range_preserves) (simp_all add: rob_fields_def)
  have c: "rob_fields (q\<lparr>oo_cdb := x\<rparr>) = rob_fields q" for q x by (simp add: rob_fields_def)
  show ?thesis by (simp add: ooo_write_result_def Let_def c w u)
qed
section \<open>Reachable processors\<close>

definition rob_inv :: "OOOProcessor \<Rightarrow> bool" where
  "rob_inv p \<longleftrightarrow> rob_ring p \<and> (\<forall>e \<in> set (rob_list p). rob_busy e)"

text \<open>The public operations of \<^verbatim>\<open>ooo_exec.h\<close> in any order: the phases one by one, or a whole cycle.\<close>

inductive ooo_reachable :: "OOOProcessor \<Rightarrow> bool" where
  init: "ooo_reachable ooo_init"
| issue: "ooo_reachable p \<Longrightarrow> ooo_issue p inst = Some q \<Longrightarrow> ooo_reachable q"
| execute: "ooo_reachable p \<Longrightarrow> ooo_execute p = Some (b, q) \<Longrightarrow> ooo_reachable q"
| write_result: "ooo_reachable p \<Longrightarrow> ooo_reachable (ooo_write_result p)"
| commit: "ooo_reachable p \<Longrightarrow> ooo_reachable (ooo_commit p)"
| step: "ooo_reachable p \<Longrightarrow> ooo_step p = Some q \<Longrightarrow> ooo_reachable q"

lemma rob_inv_cong: "rob_fields q = rob_fields p \<Longrightarrow> rob_inv q = rob_inv p"
  using rob_fields_cong [of q p] by (simp add: rob_inv_def)

lemma rob_inv_ready:
  assumes "rob_inv p"
  shows "rob_inv (p\<lparr>oo_rob := (oo_rob p)(k := (oo_rob p k)\<lparr>rob_value := v, rob_ready := True\<rparr>)\<rparr>)"
  using assms by (auto simp: rob_inv_def rob_ring_def rob_list_def ring_list_def)

lemma ooo_write_result_inv:
  assumes "rob_inv p"
  shows "rob_inv (ooo_write_result p)"
proof (cases "cdb_valid (oo_cdb p) \<and> cdb_tag (oo_cdb p) < MAX_ROB")
  case True
  show ?thesis
    using rob_inv_cong [OF ooo_write_result_rob [of p, unfolded if_P [OF True]]] rob_inv_ready [OF assms] by simp
next
  case False
  show ?thesis
    using rob_inv_cong [OF ooo_write_result_rob [of p, unfolded if_not_P [OF False]]] assms by simp
qed

lemma ooo_commit_inv: "rob_inv p \<Longrightarrow> rob_inv (ooo_commit p)"
  using ooo_commit_result [of p] by (auto simp: rob_inv_def dest: set_dropWhileD)


lemma ooo_issue_list:
  assumes inv: "rob_inv p" and iss: "ooo_issue p inst = Some q"
  shows "rob_inv q \<and> (\<exists>e. rob_inst e = inst \<and> rob_rd e = in_rd inst \<and> (rob_is_store e \<longleftrightarrow> in_opcode inst = OP_SW) \<and>
     \<not> rob_ready e \<and> rob_list q =
       (if in_opcode inst \<noteq> OP_NOP \<and> find_free_rob p \<noteq> None \<and> find_free_rs p \<noteq> None then rob_list p @ [e] else rob_list p))"
proof (cases "in_opcode inst = OP_NOP \<or> find_free_rs p = None \<or> find_free_rob p = None")
  case True
  then have "rob_fields q = rob_fields p"
    using iss by (auto simp: ooo_issue_def rob_fields_def split: option.splits if_splits)
  then have "rob_inv q" "rob_list q = rob_list p" using rob_inv_cong rob_fields_cong inv by metis+
  then show ?thesis using True by (intro conjI exI [of _ "new_rob_entry p inst 0"]) (auto simp: new_rob_entry_def)
next
  case False
  then obtain i r where ir: "find_free_rs p = Some i" "find_free_rob p = Some r" by auto
  let ?p1 = "p\<lparr>oo_rs := (oo_rs p)(i := fill_rs p (oo_rs p i) inst r)\<rparr>"
  let ?e = "new_rob_entry p inst r"
  obtain p2 where p2: "rob_push ?p1 ?e = Some p2"
    using iss False ir by (auto simp: ooo_issue_def Let_def split: if_splits option.splits)
  have q: "rob_fields q = rob_fields p2"
    using iss False ir p2 by (auto simp: ooo_issue_def Let_def rob_fields_def split: if_splits)
  have "rob_fields ?p1 = rob_fields p" by (simp add: rob_fields_def)
  from rob_fields_cong [OF this] inv have "rob_ring ?p1" "rob_list ?p1 = rob_list p" by (simp_all add: rob_inv_def)
  with rob.enq_content [OF _ p2] have "rob_list p2 = rob_list p @ [?e]" "rob_ring p2" by simp_all
  with rob_fields_cong [OF q] have "rob_list q = rob_list p @ [?e]" "rob_ring q" by simp_all
  then show ?thesis using inv ir False by (auto simp: rob_inv_def new_rob_entry_def)
qed



lemma ooo_reachable_inv: "ooo_reachable p \<Longrightarrow> rob_inv p"
proof (induction rule: ooo_reachable.induct)
  case init
  then show ?case by (simp add: rob_inv_def rob_ring_def rob_list_def ooo_init_def)
next
  case (issue p inst q)
  then show ?case using ooo_issue_list by blast
next
  case (execute p b q)
  then show ?case using rob_inv_cong ooo_execute_rob by blast
next
  case (step p q)
  then obtain b r where r: "ooo_execute (ooo_write_result p) = Some (b, r)" "q = (ooo_commit r)\<lparr>oo_cycles := oo_cycles (ooo_commit r) + 1\<rparr>"
    by (auto simp: ooo_step_def Let_def split: option.splits)
  have "rob_inv r" using ooo_execute_rob [OF r(1)] rob_inv_cong ooo_write_result_inv [OF step.IH] by metis
  then have "rob_inv (ooo_commit r)" by (rule ooo_commit_inv)
  then show ?case by (simp add: r(2) rob_inv_def rob_ring_def rob_list_def)
qed (simp_all add: ooo_write_result_inv ooo_commit_inv)


text \<open>The last entry that writes a register decides what it holds.\<close>

lemma fold_retire_register:
  "fold retire_register es regs n =
    (case find (\<lambda>e. \<not> rob_is_store e \<and> rob_rd e \<noteq> 0 \<and> unat (rob_rd e) = n) (rev es) of
       Some e \<Rightarrow> rob_value e | None \<Rightarrow> regs n)"
  by (induction es rule: rev_induct) (auto simp: retire_register_def)

section \<open>Properties\<close>


text \<open>
  C6: Commit is in order and complete.  In every state that the public operations reach it
  retires exactly the longest prefix of finished entries and stops at the first unfinished one;
  afterwards a register holds the value of the youngest retired entry that names it as its
  destination, stores excepted, and register 0 and every register that none of them names are as
  before.
\<close>

theorem ooo_commit_in_order:
  assumes "ooo_reachable p"
  shows "rob_list (ooo_commit p) = dropWhile rob_ready (rob_list p) \<and>
    oo_registers (ooo_commit p) n =
      (case find (\<lambda>e. \<not> rob_is_store e \<and> rob_rd e \<noteq> 0 \<and> unat (rob_rd e) = n) (rev (takeWhile rob_ready (rob_list p))) of
         Some e \<Rightarrow> rob_value e
       | None \<Rightarrow> oo_registers p n) \<and>
    oo_committed (ooo_commit p) = oo_committed p + of_nat (length (takeWhile rob_ready (rob_list p)))"
  using ooo_commit_result [of p] ooo_reachable_inv [OF assms] by (simp add: rob_inv_def fold_retire_register)

section \<open>A lost broadcast\<close>

text \<open>Nothing in flight can make the oldest entry ready: its station has gone without leaving its result on the bus.\<close>

definition ooo_stuck :: "OOOProcessor \<Rightarrow> bool" where
  "ooo_stuck p \<longleftrightarrow> oo_rob_count p > 0 \<and> \<not> rob_ready (oo_rob p (unat (oo_rob_head p))) \<and>
     oo_rob_head p < MAX_ROB \<and>
     (cdb_valid (oo_cdb p) \<longrightarrow> cdb_tag (oo_cdb p) \<noteq> oo_rob_head p) \<and>
     (\<forall>i. rs_busy (oo_rs p i) \<longrightarrow> rs_dest (oo_rs p i) \<noteq> oo_rob_head p)"

lemma commit_stuck: "ooo_stuck p \<Longrightarrow> ooo_commit p = p"
  by (simp add: ooo_stuck_def ooo_commit.simps [of p])

lemma start_rs_stuck: "ooo_stuck p \<Longrightarrow> ooo_stuck (start_rs i p)"
  by (simp add: ooo_stuck_def start_rs_def Let_def)

lemma finish_rs_stuck: "ooo_stuck p \<Longrightarrow> finish_rs i (Some p) = Some q \<Longrightarrow> ooo_stuck q"
  by (auto simp: ooo_stuck_def finish_rs_def Let_def split: if_splits option.splits)

lemma execute_stuck:
  assumes "ooo_stuck p" and "ooo_execute p = Some (b, q)"
  shows "ooo_stuck q"
proof -
  let ?s = "for_range 0 MAX_RS start_rs p"
  have s: "ooo_stuck ?s" by (rule for_range_preserves) (use assms(1) in \<open>simp_all add: start_rs_stuck\<close>)
  have "\<forall>q. for_range 0 MAX_RS finish_rs (Some ?s) = Some q \<longrightarrow> ooo_stuck q"
  proof (rule for_range_preserves)
    fix i t assume "\<forall>q. t = Some q \<longrightarrow> ooo_stuck q"
    then show "\<forall>q. finish_rs i t = Some q \<longrightarrow> ooo_stuck q"
      by (cases t) (auto simp: finish_rs_def [of i None] dest: finish_rs_stuck)
  qed (use s in simp)
  with assms(2) show ?thesis by (auto simp: ooo_execute_def)
qed

lemma wake_operand_fields [simp]:
  "rs_busy (wake_operand c s) = rs_busy s" "rs_dest (wake_operand c s) = rs_dest s"
  by (simp_all add: wake_operand_def Let_def)

lemma write_result_stuck:
  assumes "ooo_stuck p"
  shows "ooo_stuck (ooo_write_result p)"
proof (cases "cdb_valid (oo_cdb p)")
  case False
  then show ?thesis using assms by (simp add: ooo_write_result_def Let_def)
next
  case True
  let ?P = "\<lambda>q. ooo_stuck (q\<lparr>oo_cdb := (oo_cdb p)\<lparr>cdb_valid := False\<rparr>\<rparr>)"
  let ?k = "unat (cdb_tag (oo_cdb p))"
  let ?p1 = "if cdb_tag (oo_cdb p) < MAX_ROB then p\<lparr>oo_rob := (oo_rob p)(?k := (oo_rob p ?k)\<lparr>rob_value := cdb_value (oo_cdb p), rob_ready := True\<rparr>)\<rparr> else p"
  have 0: "?P ?p1"
    using assms True by (auto simp: ooo_stuck_def simp: word_unat_eq_iff)
  have 1: "?P (for_range 0 n (update_register (oo_cdb p)) q)" if "?P q" for n q
    by (rule for_range_preserves) (use that in \<open>simp_all add: update_register_def ooo_stuck_def\<close>)
  have 2: "?P (for_range 0 n (\<lambda>i q. q\<lparr>oo_rs := (oo_rs q)(i := wake_operand (oo_cdb p) (oo_rs q i))\<rparr>) q)" if "?P q" for n q
    by (rule for_range_preserves) (use that in \<open>simp_all add: ooo_stuck_def\<close>)
  show ?thesis
    using 2 [OF 1 [OF 0, of MAX_REGISTERS], of MAX_RS] True by (simp add: ooo_write_result_def Let_def)
qed

lemma ooo_step_stuck:
  assumes "ooo_stuck p" and "ooo_step p = Some q"
  shows "ooo_stuck q \<and> oo_rob_head q = oo_rob_head p \<and> oo_rob_count q = oo_rob_count p \<and> oo_committed q = oo_committed p"
proof -
  obtain b r where r: "ooo_execute (ooo_write_result p) = Some (b, r)" "q = (ooo_commit r)\<lparr>oo_cycles := oo_cycles (ooo_commit r) + 1\<rparr>"
    using assms(2) by (auto simp: ooo_step_def Let_def split: option.splits)
  have st: "ooo_stuck r" by (rule execute_stuck [OF write_result_stuck [OF assms(1)] r(1)])
  have w: "oo_rob_head (ooo_write_result p) = oo_rob_head p" "oo_rob_count (ooo_write_result p) = oo_rob_count p"
      "oo_committed (ooo_write_result p) = oo_committed p"
    using ooo_write_result_rob [of p] by (simp_all add: rob_fields_def split: if_splits)
  have "rob_fields r = rob_fields (ooo_write_result p)" by (rule ooo_execute_rob [OF r(1)])
  then show ?thesis using st w by (simp add: r(2) commit_stuck rob_fields_def ooo_stuck_def)
qed
definition oo_addi :: "u8 \<Rightarrow> u32 \<Rightarrow> Instruction" where
  "oo_addi rd imm = (nop_instruction 0)\<lparr>in_opcode := OP_ADDI, in_rd := rd, in_immediate := imm\<rparr>"

definition oo_two :: "u32 \<Rightarrow> u32 \<Rightarrow> OOOProcessor" where
  "oo_two a b = the (ooo_issue (the (ooo_issue ooo_init (oo_addi 1 a))) (oo_addi 2 b))"

definition rs_idle :: "OOOProcessor \<Rightarrow> bool" where
  "rs_idle p \<longleftrightarrow> (\<forall>i. \<not> rs_busy (oo_rs p i))"

lemma write_result_idle:
  assumes "rs_idle p"
  shows "rs_idle (ooo_write_result p)"
proof -
  have 1: "rs_idle q \<Longrightarrow> rs_idle (for_range 0 n (update_register cdb) q)" for q n cdb
    by (rule for_range_preserves) (simp_all add: update_register_def rs_idle_def)
  have 2: "rs_idle q \<Longrightarrow> rs_idle (for_range 0 n (\<lambda>i q. q\<lparr>oo_rs := (oo_rs q)(i := wake_operand cdb (oo_rs q i))\<rparr>) q)" for q n cdb
    by (rule for_range_preserves) (simp_all add: rs_idle_def)
  have 3: "rs_idle (q\<lparr>oo_cdb := c\<rparr>) = rs_idle q" "rs_idle (q\<lparr>oo_rob := r\<rparr>) = rs_idle q" for q c r
    by (simp_all add: rs_idle_def)
  show ?thesis using assms by (simp add: ooo_write_result_def Let_def 1 2 3)
qed

lemma execute_idle:
  assumes "rs_idle p"
  shows "ooo_execute p = Some (False, p)"
proof -
  have "for_range 0 MAX_RS start_rs p = p"
    by (rule for_range_preserves [where P = "\<lambda>q. q = p"]) (use assms in \<open>simp_all add: start_rs_def rs_idle_def\<close>)
  moreover have "for_range 0 MAX_RS finish_rs (Some p) = Some p"
    by (rule for_range_preserves [where P = "\<lambda>q. q = Some p"]) (use assms in \<open>simp_all add: finish_rs_def rs_idle_def\<close>)
  ultimately show ?thesis using assms by (simp add: ooo_execute_def rs_idle_def)
qed

lemma ooo_run_stuck:
  "ooo_stuck p \<Longrightarrow> rs_idle p \<Longrightarrow>
   \<exists>q. ooo_run n p = Some q \<and> oo_rob_count q = oo_rob_count p \<and> oo_committed q = oo_committed p"
proof (induction n arbitrary: p)
  case (Suc n)
  let ?w = "ooo_write_result p"
  let ?q = "?w\<lparr>oo_cycles := oo_cycles ?w + 1\<rparr>"
  have st: "ooo_step p = Some ?q"
    using execute_idle [OF write_result_idle [OF Suc.prems(2)]]
    by (simp add: ooo_step_def Let_def commit_stuck [OF write_result_stuck [OF Suc.prems(1)]])
  have "rs_idle ?q" using write_result_idle [OF Suc.prems(2)] by (simp add: rs_idle_def)
  with Suc.IH [of ?q] ooo_step_stuck [OF Suc.prems(1) st] st show ?case by auto
qed simp

lemma stations_list: "[0..<16] = [0 :: nat,1,2,3,4,5,6,7,8,9,10,11,12,13,14,15]"
  by (simp add: upt_rec)

lemmas oo_eval = ooo_init_def oo_addi_def zero_rs_def zero_rob_def nop_instruction_def find_free_rs_def find_free_rob_def rob_push_def
  ooo_is_imm_op_def fill_rs_def new_rob_entry_def ooo_issue_def MAX_RS_def MAX_ROB_def MAX_REGISTERS_def find_index_def stations_list
  word_le_nat_alt

text \<open>Stations 0 and 1 hold two additions with their operands, for entries 0 and 1.\<close>

definition two_additions :: "OOOProcessor \<Rightarrow> bool" where
  "two_additions p \<longleftrightarrow>
     oo_rob_head p = 0 \<and> oo_rob_count p = 2 \<and> oo_committed p = 0 \<and> \<not> rob_ready (oo_rob p 0) \<and> \<not> cdb_valid (oo_cdb p) \<and>
     (\<forall>i. rs_busy (oo_rs p i) \<longleftrightarrow> i < 2) \<and>
     (\<forall>i < 2. rs_op (oo_rs p i) = OP_ADDI \<and> \<not> rs_executing (oo_rs p i) \<and> \<not> rs_qj_valid (oo_rs p i) \<and>
        \<not> rs_qk_valid (oo_rs p i) \<and> rs_dest (oo_rs p i) = of_nat i)"

lemma two_issued:
  "\<exists>p q. ooo_issue ooo_init (oo_addi 1 a) = Some p \<and> ooo_issue p (oo_addi 2 b) = Some q \<and> two_additions q"
  by (simp add: oo_eval Let_def less_2_cases_iff two_additions_def)

lemma two_finish:
  assumes "two_additions p"
  shows "\<exists>q. ooo_step p = Some q \<and> ooo_stuck q \<and> rs_idle q \<and> oo_rob_count q = 2 \<and> oo_committed q = 0"
proof -
  have w: "ooo_write_result p = p" using assms by (simp add: two_additions_def ooo_write_result_def Let_def)
  let ?go = "\<lambda>r. r\<lparr>rs_executing := True, rs_cycles_left := 1\<rparr>"
  let ?p1 = "p\<lparr>oo_rs := (oo_rs p)(0 := ?go (oo_rs p 0), 1 := ?go (oo_rs p 1))\<rparr>"
  have "for_range 2 MAX_RS start_rs ?p1 = ?p1"
    by (rule for_range_preserves [where P = "\<lambda>q. q = ?p1"]) (use assms in \<open>simp_all add: start_rs_def two_additions_def\<close>)
  then have s: "for_range 0 MAX_RS start_rs p = ?p1"
    using assms by (simp add: for_range_step MAX_RS_def start_rs_def [of 0] start_rs_def [of "Suc 0"] two_additions_def Let_def numeral_2_eq_2)
  have "\<exists>q. finish_rs 1 (finish_rs 0 (Some ?p1)) = Some q \<and> ooo_stuck q \<and> rs_idle q \<and> oo_rob_count q = 2 \<and> oo_committed q = 0"
    using assms by (auto simp: finish_rs_def two_additions_def ooo_switch_def ooo_stuck_def rs_idle_def MAX_ROB_def Let_def)
  then obtain q where q: "finish_rs 1 (finish_rs 0 (Some ?p1)) = Some q" "ooo_stuck q" "rs_idle q" "oo_rob_count q = 2" "oo_committed q = 0" by blast
  have "for_range 2 MAX_RS finish_rs (Some q) = Some q"
    by (rule for_range_preserves [where P = "\<lambda>r. r = Some q"]) (use q(3) in \<open>simp_all add: finish_rs_def rs_idle_def\<close>)
  then have "for_range 0 MAX_RS finish_rs (Some ?p1) = Some q"
    using q(1) by (simp add: for_range_step MAX_RS_def numeral_2_eq_2)
  then have "ooo_execute p = Some (fst (the (ooo_execute p)), q)" by (simp add: ooo_execute_def s)
  then have "ooo_step p = Some (q\<lparr>oo_cycles := oo_cycles q + 1\<rparr>)"
    using q(2) by (cases "the (ooo_execute p)") (simp add: ooo_step_def w Let_def commit_stuck)
  then show ?thesis using q by (simp add: ooo_stuck_def rs_idle_def)
qed
text \<open>One addition in station 0: executing it frees the station and puts its result on the bus.\<close>

definition one_addition :: "OOOProcessor \<Rightarrow> bool" where
  "one_addition p \<longleftrightarrow>
     (\<forall>i. rs_busy (oo_rs p i) \<longleftrightarrow> i = 0) \<and> rs_op (oo_rs p 0) = OP_ADDI \<and> \<not> rs_executing (oo_rs p 0) \<and>
     \<not> rs_qj_valid (oo_rs p 0) \<and> \<not> rs_qk_valid (oo_rs p 0)"

lemma one_execute:
  assumes "one_addition p"
  shows "\<exists>b q. ooo_execute p = Some (b, q) \<and> rs_idle q \<and> rob_fields q = rob_fields p \<and>
     oo_registers q = oo_registers p \<and> oo_reg_status q = oo_reg_status p \<and>
     oo_cdb q = \<lparr>cdb_value = rs_vj (oo_rs p 0) + rs_vk (oo_rs p 0), cdb_tag = rs_dest (oo_rs p 0), cdb_valid = True\<rparr>"
proof -
  let ?p1 = "p\<lparr>oo_rs := (oo_rs p)(0 := (oo_rs p 0)\<lparr>rs_executing := True, rs_cycles_left := 1\<rparr>)\<rparr>"
  have "for_range 1 MAX_RS start_rs ?p1 = ?p1"
    by (rule for_range_preserves [where P = "\<lambda>q. q = ?p1"]) (use assms in \<open>simp_all add: start_rs_def one_addition_def\<close>)
  then have s: "for_range 0 MAX_RS start_rs p = ?p1"
    using assms by (simp add: for_range_step MAX_RS_def start_rs_def [of 0] one_addition_def Let_def)
  obtain q where q: "finish_rs 0 (Some ?p1) = Some q" "rs_idle q" "oo_registers q = oo_registers p" "oo_reg_status q = oo_reg_status p"
    "oo_cdb q = \<lparr>cdb_value = rs_vj (oo_rs p 0) + rs_vk (oo_rs p 0), cdb_tag = rs_dest (oo_rs p 0), cdb_valid = True\<rparr>"
    using assms by (auto simp: finish_rs_def one_addition_def ooo_switch_def rs_idle_def Let_def)
  have "for_range 1 MAX_RS finish_rs (Some q) = Some q"
    by (rule for_range_preserves [where P = "\<lambda>r. r = Some q"]) (use q(2) in \<open>simp_all add: finish_rs_def rs_idle_def\<close>)
  then have "for_range 0 MAX_RS finish_rs (Some ?p1) = Some q" using q(1) by (simp add: for_range_step MAX_RS_def)
  then obtain b where "ooo_execute p = Some (b, q)" by (auto simp: ooo_execute_def s Let_def)
  with q ooo_execute_rob [OF this] show ?thesis by blast
qed

lemma one_issued:
  "\<exists>p. ooo_issue ooo_init (oo_addi 1 5) = Some p \<and> one_addition p \<and> rs_vj (oo_rs p 0) + rs_vk (oo_rs p 0) = 5 \<and>
     rs_dest (oo_rs p 0) = 0 \<and> oo_rob_head p = 0 \<and> oo_rob_tail p = 1 \<and> oo_rob_count p = 1 \<and>
     rob_rd (oo_rob p 0) = 1 \<and> \<not> rob_is_store (oo_rob p 0) \<and>
     oo_registers p 1 = 0 \<and> (\<forall>i. rst_rob_num (oo_reg_status p i) = (if i = 1 then 0 else -1))"
  by (simp add: oo_eval Let_def one_addition_def)

lemma second_issued:
  assumes "rs_idle p" "oo_rob_head p = 0" "oo_rob_tail p = 1" "oo_rob_count p = 1"
  shows "\<exists>q. ooo_issue p (oo_addi 1 7) = Some q \<and> oo_cdb q = oo_cdb p \<and> oo_registers q = oo_registers p \<and>
     oo_rob_head q = 0 \<and> oo_rob_count q = 2 \<and> oo_rob q 0 = oo_rob p 0 \<and> \<not> rob_ready (oo_rob q 1) \<and>
     (\<forall>i. rst_rob_num (oo_reg_status q i) = (if i = 1 then 1 else rst_rob_num (oo_reg_status p i)))"
  using assms by (simp add: rs_idle_def oo_eval Let_def)

lemma write_result_registers:
  assumes "\<And>i. rst_rob_num (oo_reg_status p i) \<noteq> cdb_tag (oo_cdb p)"
  shows "oo_registers (ooo_write_result p) = oo_registers p"
proof -
  have 1: "for_range 0 n (update_register (oo_cdb p)) q = q" if "oo_reg_status q = oo_reg_status p" for n q
    by (rule for_range_preserves [where P = "\<lambda>r. r = q"]) (use assms that in \<open>simp_all add: update_register_def\<close>)
  have 2: "oo_registers (for_range 0 n (\<lambda>i q. q\<lparr>oo_rs := (oo_rs q)(i := wake_operand (oo_cdb p) (oo_rs q i))\<rparr>) q) = oo_registers q" for n q
    by (rule for_range_preserves) simp_all
  show ?thesis by (simp add: ooo_write_result_def Let_def 1 2)
qed

text \<open>A reachable state with a finished entry in front of an unfinished one for the same register.\<close>

lemma finished_and_waiting:
  "\<exists>p a b. ooo_reachable p \<and> rob_list p = [a, b] \<and> rob_ready a \<and> \<not> rob_ready b \<and> \<not> rob_is_store a \<and> rob_rd a = 1 \<and>
     rob_value a = 5 \<and> oo_registers p 1 = 0"
proof -
  obtain p where p: "ooo_issue ooo_init (oo_addi 1 5) = Some p" "one_addition p" "rs_vj (oo_rs p 0) + rs_vk (oo_rs p 0) = 5"
    "rs_dest (oo_rs p 0) = 0" "oo_rob_head p = 0" "oo_rob_tail p = 1" "oo_rob_count p = 1" "rob_rd (oo_rob p 0) = 1"
    "\<not> rob_is_store (oo_rob p 0)" "oo_registers p 1 = 0" "\<And>i. rst_rob_num (oo_reg_status p i) = (if i = 1 then 0 else -1)"
    using one_issued by blast
  obtain b q where q: "ooo_execute p = Some (b, q)" "rs_idle q" "rob_fields q = rob_fields p" "oo_registers q = oo_registers p"
    "oo_reg_status q = oo_reg_status p" "oo_cdb q = \<lparr>cdb_value = 5, cdb_tag = 0, cdb_valid = True\<rparr>"
    using one_execute [OF p(2)] p(3,4) by auto
  obtain r where r: "ooo_issue q (oo_addi 1 7) = Some r" "oo_cdb r = oo_cdb q" "oo_registers r = oo_registers q"
    "oo_rob_head r = 0" "oo_rob_count r = 2" "oo_rob r 0 = oo_rob q 0" "\<not> rob_ready (oo_rob r 1)"
    "\<And>i. rst_rob_num (oo_reg_status r i) = (if i = 1 then 1 else rst_rob_num (oo_reg_status q i))"
    using second_issued [OF q(2)] q(3) p(5-7) by (auto simp: rob_fields_def)
  let ?w = "ooo_write_result r"
  have "oo_registers ?w 1 = 0" using write_result_registers [of r] p(10,11) q(4-6) r(2,3,8) by auto
  moreover have "ooo_reachable ?w"
    by (intro ooo_reachable.write_result ooo_reachable.issue [OF _ r(1)] ooo_reachable.execute [OF _ q(1)]
        ooo_reachable.issue [OF ooo_reachable.init p(1)])
  moreover have "oo_rob ?w = (oo_rob r)(0 := (oo_rob r 0)\<lparr>rob_value := 5, rob_ready := True\<rparr>)" "oo_rob_head ?w = 0" "oo_rob_count ?w = 2"
    using ooo_write_result_rob [of r] q(6) r(2,4,5) by (simp_all add: rob_fields_def MAX_ROB_def)
  then have "rob_list ?w = [(oo_rob r 0)\<lparr>rob_value := 5, rob_ready := True\<rparr>, oo_rob r 1]"
    by (simp add: rob_list_def ring_list_def upt_rec)
  moreover have "oo_rob r 0 = oo_rob p 0" using r(6) q(3) by (simp add: rob_fields_def)
  ultimately show ?thesis using p(8,9) r(7) by auto
qed


theorem ooo_commit_in_order_witness:
  "\<exists>p. oo_registers p 1 = 0 \<and> length (rob_list p) = 2 \<and>
     oo_registers (ooo_commit p) 1 = 5 \<and> length (rob_list (ooo_commit p)) = 1"
proof -
  obtain p a b where p: "ooo_reachable p" "rob_list p = [a, b]" "rob_ready a" "\<not> rob_ready b" "\<not> rob_is_store a" "rob_rd a = 1"
     "rob_value a = 5" "oo_registers p 1 = 0" using finished_and_waiting by blast
  from ooo_commit_in_order [OF p(1), of 1] p(2-) show ?thesis by (intro exI [of _ p]) simp
qed

text \<open>
  C16: Two instructions that finish in one cycle deadlock the processor. The bus has room for one
  result, so the second station overwrites the broadcast of the first, whose station is already
  free: two independent additions issued from reset never commit, whatever the number of steps.
\<close>

theorem ooo_lost_broadcast_deadlocks:
  "\<exists>p q. ooo_issue ooo_init (oo_addi 1 a) = Some p \<and> ooo_issue p (oo_addi 2 b) = Some q \<and>
     (\<forall>n. \<exists>r. ooo_run n q = Some r \<and> oo_committed r = 0 \<and> oo_rob_count r = 2)"
proof -
  obtain p q where pq: "ooo_issue ooo_init (oo_addi 1 a) = Some p" "ooo_issue p (oo_addi 2 b) = Some q" "two_additions q"
    using two_issued by blast
  obtain s where s: "ooo_step q = Some s" "ooo_stuck s" "rs_idle s" "oo_rob_count s = 2" "oo_committed s = 0"
    using two_finish [OF pq(3)] by blast
  have "\<exists>r. ooo_run n q = Some r \<and> oo_committed r = 0 \<and> oo_rob_count r = 2" for n
  proof (cases n)
    case 0
    then show ?thesis using pq(3) by (simp add: two_additions_def)
  next
    case (Suc m)
    then show ?thesis using ooo_run_stuck [OF s(2,3), of m] s by auto
  qed
  with pq(1,2) show ?thesis by blast
qed

end
