(* ===== verification/Replacement.thy ===== *)
theory Replacement
  imports Prelude
begin

text \<open>
  The contract that the caches and the translation buffer expect from their victim choice: it
  stays inside the set and takes an unused way while there is one.  The client lemmas say what a
  fill does to the number of used ways.
\<close>

lemma u64_mod_ucast: "0 < unat (m :: u32) \<Longrightarrow> unat ((g :: u64) mod ucast m) < unat m"
proof -
  assume "0 < unat m"
  moreover have "unat (ucast m :: u64) = unat m" by (simp only: unat_eq_nat_uint uint_ucast_64)
  ultimately show ?thesis by (simp add: unat_mod)
qed

definition used_ways :: "nat \<Rightarrow> (nat \<Rightarrow> bool) \<Rightarrow> nat" where
  "used_ways n u = card {i. i < n \<and> u i}"

lemma used_ways_le: "used_ways n u \<le> n"
proof -
  have "card {i. i < n \<and> u i} \<le> card {..<n}" by (intro card_mono) auto
  then show ?thesis by (simp add: used_ways_def)
qed

lemma used_ways_full: "used_ways n u = n \<longleftrightarrow> (\<forall>i < n. u i)"
proof
  assume "used_ways n u = n"
  then have "{i. i < n \<and> u i} = {..<n}"
    by (intro card_subset_eq) (auto simp: used_ways_def)
  then show "\<forall>i < n. u i" by auto
next
  assume "\<forall>i < n. u i"
  then have "{i. i < n \<and> u i} = {..<n}" by auto
  then show "used_ways n u = n" by (simp add: used_ways_def)
qed

locale victim_choice =
  fixes ok :: "'s \<Rightarrow> bool" and size_of :: "'s \<Rightarrow> nat" and used :: "'s \<Rightarrow> nat \<Rightarrow> bool" and victim :: "'s \<Rightarrow> nat"
  assumes victim_in_range: "ok s \<Longrightarrow> 0 < size_of s \<Longrightarrow> victim s < size_of s"
    and victim_unused: "ok s \<Longrightarrow> \<exists>i < size_of s. \<not> used s i \<Longrightarrow> \<not> used s (victim s)"
begin

text \<open>A fill of the victim uses one more way until all are in use, and never loses one.\<close>

lemma used_ways_fill:
  assumes ok: "ok s" and pos: "0 < size_of s"
    and fill: "\<And>i. i < size_of s \<Longrightarrow> u' i \<longleftrightarrow> used s i \<or> i = victim s"
  shows "used_ways (size_of s) u' = min (size_of s) (used_ways (size_of s) (used s) + 1)"
proof -
  have v: "victim s < size_of s" by (rule victim_in_range [OF ok pos])
  have eq: "{i. i < size_of s \<and> u' i} = insert (victim s) {i. i < size_of s \<and> used s i}"
    using fill v by auto
  show ?thesis
  proof (cases "\<forall>i < size_of s. used s i")
    case True
    then have "insert (victim s) {i. i < size_of s \<and> used s i} = {i. i < size_of s \<and> used s i}" using v by auto
    then show ?thesis using True used_ways_full [of "size_of s" "used s"] by (simp add: used_ways_def eq)
  next
    case False
    then have "\<not> used s (victim s)" using victim_unused [OF ok] by auto
    moreover have "used_ways (size_of s) (used s) < size_of s"
      using False used_ways_full [of "size_of s" "used s"] used_ways_le [of "size_of s" "used s"] by force
    ultimately show ?thesis by (simp add: used_ways_def eq)
  qed
qed

end

end
