(* ===== verification/CacheArch.thy ===== *)
theory CacheArch
  imports Replacement
begin

text \<open>
  The set-associative cache of \<^verbatim>\<open>mini-computer-arch/src/cache.c\<close>: address decomposition, the four
  replacement policies, read, write and flush with their statistics.  The number that \<open>rand\<close>
  returns is a parameter of the operations.  \<open>None\<close> is a division by zero in the set-up, a way
  beyond the 32 of a set, or a copy beyond the 64 bytes of a line.  A copy of \<open>n\<close> bytes writes
  the first \<open>n\<close> entries of the target.
\<close>

unbundle bit_operations_syntax

section \<open>Data\<close>

definition CACHE_LINE_DATA_SIZE :: nat where "CACHE_LINE_DATA_SIZE = 64"
definition CACHE_MAX_ASSOCIATIVITY :: nat where "CACHE_MAX_ASSOCIATIVITY = 32"
definition CACHE_MAX_SETS :: u32 where "CACHE_MAX_SETS = 4096"

datatype ReplacementPolicy = LRU | FIFO | RANDOM | LFU
datatype WritePolicy = WRITE_THROUGH | WRITE_BACK

record CacheLine =
  ln_valid :: bool
  ln_dirty :: bool
  ln_tag :: u32
  ln_data :: "u8 arr"
  ln_lru_counter :: u64
  ln_access_count :: u64

type_synonym CacheSet = "CacheLine arr"

record CacheStatistics =
  cs_hits :: u64
  cs_misses :: u64
  cs_reads :: u64
  cs_writes :: u64
  cs_evictions :: u64
  cs_writebacks :: u64

record Cache =
  ca_num_sets :: u32
  ca_associativity :: u32
  ca_line_size :: u32
  ca_total_size :: u32
  ca_sets :: "CacheSet arr"
  ca_replacement :: ReplacementPolicy
  ca_write_policy :: WritePolicy
  ca_stats :: CacheStatistics
  ca_global_counter :: u64

text \<open>\<open>while (x >>= 1) result++\<close>\<close>

function log2_u32 :: "u32 \<Rightarrow> nat" where
  "log2_u32 x = (let x' = drop_bit 1 x in if x' \<noteq> 0 then log2_u32 x' + 1 else 0)"
  by pat_completeness auto

termination log2_u32
proof (relation "measure unat")
  fix x x' :: u32 assume "x' = drop_bit 1 x" "x' \<noteq> 0"
  then have "x \<noteq> 0" by auto
  then show "(x', x) \<in> measure unat" using unat_half_less [of x] \<open>x' = _\<close> by simp
qed simp

declare log2_u32.simps [simp del]

definition zero_cache_line :: CacheLine where
  "zero_cache_line = \<lparr>ln_valid = False, ln_dirty = False, ln_tag = 0, ln_data = \<lambda>_. 0, ln_lru_counter = 0,
     ln_access_count = 0\<rparr>"

definition cache_init :: "u32 \<Rightarrow> u32 \<Rightarrow> u32 \<Rightarrow> ReplacementPolicy \<Rightarrow> WritePolicy \<Rightarrow> Cache option" where
  "cache_init tsize lsize assoc rp wp =
     (if lsize = 0 \<or> assoc = 0 then None
      else
        let n = tsize div lsize div assoc;
            n1 = (if n < 1 then 1 else n);
            n2 = (if n1 > CACHE_MAX_SETS then CACHE_MAX_SETS else n1)
        in Some \<lparr>ca_num_sets = n2, ca_associativity = assoc, ca_line_size = lsize, ca_total_size = tsize,
             ca_sets = \<lambda>_ _. zero_cache_line, ca_replacement = rp, ca_write_policy = wp,
             ca_stats = \<lparr>cs_hits = 0, cs_misses = 0, cs_reads = 0, cs_writes = 0, cs_evictions = 0, cs_writebacks = 0\<rparr>,
             ca_global_counter = 0\<rparr>)"

text \<open>The tag, the index and the offset of an address.\<close>

definition cache_decompose_address :: "Cache \<Rightarrow> u32 \<Rightarrow> u32 \<times> u32 \<times> u32" where
  "cache_decompose_address c address =
     (let offset_bits = log2_u32 (ca_line_size c); index_bits = log2_u32 (ca_num_sets c)
      in (drop_bit (offset_bits + index_bits) address,
          drop_bit offset_bits address AND (push_bit index_bits 1 - 1),
          address AND (push_bit offset_bits 1 - 1)))"

section \<open>Replacement\<close>

definition find_replacement_candidate :: "CacheSet \<Rightarrow> u32 \<Rightarrow> ReplacementPolicy \<Rightarrow> u64 \<Rightarrow> u32 \<Rightarrow> nat" where
  "find_replacement_candidate s assoc rp gc r =
     (case find_index (\<lambda>i. \<not> ln_valid (s i)) 0 (unat assoc) of
        Some i \<Rightarrow> i
      | None \<Rightarrow>
          (case rp of
             LRU \<Rightarrow> argmin_from (\<lambda>i. ln_lru_counter (s i)) 0 1 (unat assoc)
           | FIFO \<Rightarrow> unat (gc mod ucast assoc)
           | RANDOM \<Rightarrow> unat (r mod assoc)
           | LFU \<Rightarrow> argmin_from (\<lambda>i. ln_access_count (s i)) 0 1 (unat assoc)))"

section \<open>Access\<close>

text \<open>The scan for a hit; the inner option is the way, the outer one the bound of the set.\<close>

definition cache_scan :: "Cache \<Rightarrow> CacheSet \<Rightarrow> u32 \<Rightarrow> nat option option" where
  "cache_scan c s tag =
     (let assoc = unat (ca_associativity c); hit = (\<lambda>i. ln_valid (s i) \<and> ln_tag (s i) = tag)
      in case find_index hit 0 (min assoc CACHE_MAX_ASSOCIATIVITY) of
           Some i \<Rightarrow> Some (Some i)
         | None \<Rightarrow> if assoc > CACHE_MAX_ASSOCIATIVITY then None else Some None)"

definition copy_length :: "Cache \<Rightarrow> u32 \<Rightarrow> nat" where
  "copy_length c offset = (if ca_line_size c - offset < 8 then unat (ca_line_size c - offset) else 8)"

definition copy_in_line :: "Cache \<Rightarrow> u32 \<Rightarrow> bool" where
  "copy_in_line c offset \<longleftrightarrow> unat offset + copy_length c offset \<le> CACHE_LINE_DATA_SIZE"

definition line_bytes :: "Cache \<Rightarrow> u32 \<Rightarrow> u8 arr \<Rightarrow> u8 arr \<Rightarrow> u8 arr" where
  "line_bytes c offset dat out = (\<lambda>k. if k < copy_length c offset then dat (unat offset + k) else out k)"

definition store_bytes :: "Cache \<Rightarrow> u32 \<Rightarrow> u8 arr \<Rightarrow> u8 arr \<Rightarrow> u8 arr" where
  "store_bytes c offset dat inp =
     (\<lambda>k. if unat offset \<le> k \<and> k < unat offset + copy_length c offset then inp (k - unat offset) else dat k)"

definition set_way :: "Cache \<Rightarrow> nat \<Rightarrow> nat \<Rightarrow> CacheLine \<Rightarrow> Cache" where
  "set_way c index i l = c\<lparr>ca_sets := (ca_sets c)(index := (ca_sets c index)(i := l))\<rparr>"

definition count_eviction :: "Cache \<Rightarrow> CacheLine \<Rightarrow> Cache" where
  "count_eviction c l =
     (if ln_valid l \<and> ln_dirty l \<and> ca_write_policy c = WRITE_BACK
      then c\<lparr>ca_stats := (ca_stats c)\<lparr>cs_writebacks := cs_writebacks (ca_stats c) + 1,
                                   cs_evictions := cs_evictions (ca_stats c) + 1\<rparr>\<rparr>
      else if ln_valid l then c\<lparr>ca_stats := (ca_stats c)\<lparr>cs_evictions := cs_evictions (ca_stats c) + 1\<rparr>\<rparr>
      else c)"

definition count_hit :: "Cache \<Rightarrow> Cache" where
  "count_hit c = c\<lparr>ca_stats := (ca_stats c)\<lparr>cs_hits := cs_hits (ca_stats c) + 1\<rparr>\<rparr>"

definition count_cmiss :: "Cache \<Rightarrow> Cache" where
  "count_cmiss c = c\<lparr>ca_stats := (ca_stats c)\<lparr>cs_misses := cs_misses (ca_stats c) + 1\<rparr>\<rparr>"

definition touch :: "Cache \<Rightarrow> CacheLine \<Rightarrow> CacheLine" where
  "touch c l = l\<lparr>ln_lru_counter := ca_global_counter c, ln_access_count := ln_access_count l + 1\<rparr>"

definition access_count_read :: "Cache \<Rightarrow> Cache" where
  "access_count_read c = c\<lparr>ca_stats := (ca_stats c)\<lparr>cs_reads := cs_reads (ca_stats c) + 1\<rparr>,
                           ca_global_counter := ca_global_counter c + 1\<rparr>"

definition access_count_write :: "Cache \<Rightarrow> Cache" where
  "access_count_write c = c\<lparr>ca_stats := (ca_stats c)\<lparr>cs_writes := cs_writes (ca_stats c) + 1\<rparr>,
                            ca_global_counter := ca_global_counter c + 1\<rparr>"

definition fill_way :: "Cache \<Rightarrow> u32 \<Rightarrow> CacheSet \<Rightarrow> nat" where
  "fill_way c r s = find_replacement_candidate s (ca_associativity c) (ca_replacement c) (ca_global_counter c) r"

definition cache_read :: "u32 \<Rightarrow> Cache \<Rightarrow> u32 \<Rightarrow> u8 arr \<Rightarrow> (bool \<times> u8 arr \<times> Cache) option" where
  "cache_read r c0 address out =
     (let (tag, index, offset) = cache_decompose_address c0 address;
          c = access_count_read c0;
          s = ca_sets c (unat index)
      in if index \<ge> ca_num_sets c then Some (False, out, count_cmiss c)
         else case cache_scan c s tag of
                None \<Rightarrow> None
              | Some (Some i) \<Rightarrow>
                  if copy_in_line c offset
                  then Some (True, line_bytes c offset (ln_data (s i)) out,
                             set_way (count_hit c) (unat index) i (touch c (s i)))
                  else None
              | Some None \<Rightarrow>
                  let v = fill_way c r s
                  in Some (False, out, set_way (count_eviction (count_cmiss c) (s v)) (unat index) v
                       \<lparr>ln_valid = True, ln_dirty = False, ln_tag = tag, ln_data = \<lambda>_. 0,
                        ln_lru_counter = ca_global_counter c, ln_access_count = 1\<rparr>))"

definition cache_write :: "u32 \<Rightarrow> Cache \<Rightarrow> u32 \<Rightarrow> u8 arr \<Rightarrow> (bool \<times> Cache) option" where
  "cache_write r c0 address inp =
     (let (tag, index, offset) = cache_decompose_address c0 address;
          c = access_count_write c0;
          s = ca_sets c (unat index)
      in if index \<ge> ca_num_sets c then Some (False, count_cmiss c)
         else case cache_scan c s tag of
                None \<Rightarrow> None
              | Some (Some i) \<Rightarrow>
                  if copy_in_line c offset
                  then let l = (touch c (s i))\<lparr>ln_dirty := True, ln_data := store_bytes c offset (ln_data (s i)) inp\<rparr>;
                           c1 = set_way (count_hit c) (unat index) i l
                       in Some (True, if ca_write_policy c = WRITE_THROUGH
                            then c1\<lparr>ca_stats := (ca_stats c1)\<lparr>cs_writebacks := cs_writebacks (ca_stats c1) + 1\<rparr>\<rparr>
                            else c1)
                  else None
              | Some None \<Rightarrow>
                  if copy_in_line c offset
                  then let v = fill_way c r s
                       in Some (False, set_way (count_eviction (count_cmiss c) (s v)) (unat index) v
                            \<lparr>ln_valid = True, ln_dirty = (ca_write_policy c = WRITE_BACK), ln_tag = tag,
                             ln_data = store_bytes c offset (\<lambda>_. 0) inp,
                             ln_lru_counter = ca_global_counter c, ln_access_count = 1\<rparr>)
                  else None)"

section \<open>Flush\<close>

definition flush_line :: "nat \<Rightarrow> nat \<Rightarrow> Cache \<Rightarrow> Cache" where
  "flush_line s i c =
     (let l = ca_sets c s i;
          c1 = (if ln_valid l \<and> ln_dirty l \<and> ca_write_policy c = WRITE_BACK
                then c\<lparr>ca_stats := (ca_stats c)\<lparr>cs_writebacks := cs_writebacks (ca_stats c) + 1\<rparr>\<rparr> else c)
      in set_way c1 s i (l\<lparr>ln_valid := False, ln_dirty := False, ln_tag := 0, ln_lru_counter := 0, ln_access_count := 0\<rparr>))"

definition cache_flush :: "Cache \<Rightarrow> Cache option" where
  "cache_flush c = (if unat (ca_associativity c) > CACHE_MAX_ASSOCIATIVITY then None else Some
     (for_range 0 (unat (ca_num_sets c)) (\<lambda>s. for_range 0 (unat (ca_associativity c)) (flush_line s)) c))"

section \<open>Victims\<close>

interpretation way: victim_choice
  "\<lambda>_. True" "\<lambda>(s, assoc, rp, gc, r). unat assoc" "\<lambda>(s, assoc, rp, gc, r) i. ln_valid (s i)"
  "\<lambda>(s, assoc, rp, gc, r). find_replacement_candidate s assoc rp gc r"
proof unfold_locales
  fix x :: "CacheSet \<times> u32 \<times> ReplacementPolicy \<times> u64 \<times> u32"
  obtain s assoc rp gc r where x: "x = (s, assoc, rp, gc, r)" by (cases x)
  show "(case x of (s, assoc, rp, gc, r) \<Rightarrow> find_replacement_candidate s assoc rp gc r)
      < (case x of (s, assoc, rp, gc, r) \<Rightarrow> unat assoc)"
    if "0 < (case x of (s, assoc, rp, gc, r) \<Rightarrow> unat assoc)"
    using that argmin_from_zero [of "unat assoc"] u64_mod_ucast [of assoc gc]
    by (auto simp: x find_replacement_candidate_def find_index_Some unat_mod split: option.splits ReplacementPolicy.splits)
  show "\<not> (case x of (s, assoc, rp, gc, r) \<Rightarrow> \<lambda>i. ln_valid (s i))
      (case x of (s, assoc, rp, gc, r) \<Rightarrow> find_replacement_candidate s assoc rp gc r)"
    if "\<exists>i < (case x of (s, assoc, rp, gc, r) \<Rightarrow> unat assoc). \<not> (case x of (s, assoc, rp, gc, r) \<Rightarrow> \<lambda>i. ln_valid (s i)) i"
    using that by (auto simp: x find_replacement_candidate_def find_index_Some find_index_None split: option.splits)
qed

lemmas candidate_in_range = way.victim_in_range [of "(s, assoc, rp, gc, r)" for s assoc rp gc r, simplified]

section \<open>Address arithmetic\<close>

lemma log2_u32_bounds: "x \<noteq> 0 \<Longrightarrow> 2 ^ log2_u32 x \<le> unat x \<and> unat x < 2 ^ (log2_u32 x + 1)"
proof (induction x rule: log2_u32.induct)
  case (1 x)
  have half: "unat (drop_bit 1 x) = unat x div 2" by (simp add: unsigned_drop_bit_eq drop_bit_eq_div unat_div)
  show ?case
  proof (cases "drop_bit 1 x = 0")
    case True
    then have "unat x < 2" using half by simp
    moreover have "0 < unat x" using 1(2) by (simp add: unat_gt_0)
    ultimately show ?thesis using True by (simp add: log2_u32.simps [of x])
  next
    case False
    have "2 ^ log2_u32 (drop_bit 1 x) \<le> unat x div 2 \<and> unat x div 2 < 2 ^ (log2_u32 (drop_bit 1 x) + 1)"
      using 1(1) [OF refl False False] half by simp
    moreover have "log2_u32 x = log2_u32 (drop_bit 1 x) + 1" using False by (simp add: log2_u32.simps [of x] Let_def)
    ultimately show ?thesis by auto
  qed
qed

lemma unat_drop: "unat (drop_bit k (x :: u32)) = unat x div 2 ^ k"
proof -
  have "unat (drop_bit k x) = drop_bit k (take_bit 32 (unat x))"
    by (simp only: unsigned_drop_bit_eq) simp
  also have "take_bit 32 (unat x) = unat x"
    using unat_less_u32 [of x] by (simp add: take_bit_nat_eq_self_iff)
  finally show ?thesis by (simp only: drop_bit_eq_div)
qed

lemma unat_and_low: "unat (x AND (push_bit n 1 - 1) :: u32) = unat x mod 2 ^ n"
proof -
  have "push_bit n 1 - 1 = (mask n :: u32)" by (simp add: mask_eq_exp_minus_1 push_bit_eq_mult)
  then have "x AND (push_bit n 1 - 1) = take_bit n x" by (simp only: take_bit_eq_mask)
  then have "unat (x AND (push_bit n 1 - 1)) = take_bit n (unat x)" by (simp only: unsigned_take_bit_eq)
  then show ?thesis by (simp only: take_bit_eq_mod)
qed

lemma log2_u32_less: "log2_u32 x < 32"
proof (cases "x = 0")
  case True
  then show ?thesis by (simp add: log2_u32.simps)
next
  case False
  then have "(2 :: nat) ^ log2_u32 x < 2 ^ 32" using log2_u32_bounds [OF False] unat_less_u32 [of x] by simp
  then show ?thesis by (simp only: power_strict_increasing_iff)
qed

lemma decompose_parts:
  assumes "cache_decompose_address c address = (tag, index, offset)"
  shows "unat tag = unat address div 2 ^ (log2_u32 (ca_line_size c) + log2_u32 (ca_num_sets c))"
    "unat index = unat address div 2 ^ log2_u32 (ca_line_size c) mod 2 ^ log2_u32 (ca_num_sets c)"
    "unat offset = unat address mod 2 ^ log2_u32 (ca_line_size c)"
  using assms [unfolded cache_decompose_address_def Let_def] unat_and_low unat_drop by auto

section \<open>Well-formed caches\<close>

text \<open>The sizes the set-up allows without leaving the arrays: 1 to 32 ways, lines of 1 to 64 bytes.\<close>

definition cache_ok :: "Cache \<Rightarrow> bool" where
  "cache_ok c \<longleftrightarrow> ca_num_sets c \<noteq> 0 \<and> 0 < unat (ca_associativity c) \<and>
     unat (ca_associativity c) \<le> CACHE_MAX_ASSOCIATIVITY \<and> 0 < unat (ca_line_size c) \<and>
     unat (ca_line_size c) \<le> CACHE_LINE_DATA_SIZE"

lemma mod_pow_less: "2 ^ k \<le> n \<Longrightarrow> m mod 2 ^ k < n" for n m :: nat
  by (rule less_le_trans [OF mod_less_divisor]) simp_all

lemma decompose_in_range:
  assumes "cache_decompose_address c address = (tag, index, offset)"
  shows "ca_num_sets c \<noteq> 0 \<Longrightarrow> unat index < unat (ca_num_sets c)"
    "ca_line_size c \<noteq> 0 \<Longrightarrow> unat offset < unat (ca_line_size c)"
  using log2_u32_bounds [of "ca_num_sets c"] log2_u32_bounds [of "ca_line_size c"]
  by (simp_all add: decompose_parts [OF assms] mod_pow_less)

lemma copy_in_line_ok:
  assumes "cache_ok c" "cache_decompose_address c address = (tag, index, offset)"
  shows "copy_in_line c offset"
proof -
  have "ca_line_size c \<noteq> 0" using assms(1) by (auto simp: cache_ok_def)
  then have o: "unat offset < unat (ca_line_size c)" by (rule decompose_in_range(2) [OF assms(2)])
  then have "unat (ca_line_size c - offset) = unat (ca_line_size c) - unat offset"
    by (simp add: unat_sub word_le_nat_alt)
  then show ?thesis using o assms(1)
    by (auto simp: copy_in_line_def copy_length_def cache_ok_def word_less_nat_alt)
qed

text \<open>What an access works on: the set of the address, its way on a hit, the victim on a miss.\<close>

definition lookup_way :: "Cache \<Rightarrow> CacheSet \<Rightarrow> u32 \<Rightarrow> nat option" where
  "lookup_way c s tag = find_index (\<lambda>i. ln_valid (s i) \<and> ln_tag (s i) = tag) 0 (unat (ca_associativity c))"

lemma cache_scan_ok: "cache_ok c \<Longrightarrow> cache_scan c s tag = Some (lookup_way c s tag)"
  by (auto simp: cache_scan_def lookup_way_def cache_ok_def Let_def min_absorb1 split: option.splits)

lemma set_way_frame [simp]:
  "ca_num_sets (set_way c s i l) = ca_num_sets c" "ca_associativity (set_way c s i l) = ca_associativity c"
  "ca_line_size (set_way c s i l) = ca_line_size c" "ca_stats (set_way c s i l) = ca_stats c"
  "ca_sets (set_way c s i l) = (ca_sets c)(s := (ca_sets c s)(i := l))"
  by (simp_all add: set_way_def)

lemma count_frame [simp]:
  "ca_num_sets (count_hit c) = ca_num_sets c" "ca_associativity (count_hit c) = ca_associativity c"
  "ca_line_size (count_hit c) = ca_line_size c" "ca_sets (count_hit c) = ca_sets c"
  "ca_num_sets (count_cmiss c) = ca_num_sets c" "ca_associativity (count_cmiss c) = ca_associativity c"
  "ca_line_size (count_cmiss c) = ca_line_size c" "ca_sets (count_cmiss c) = ca_sets c"
  "ca_num_sets (count_eviction c l) = ca_num_sets c" "ca_associativity (count_eviction c l) = ca_associativity c"
  "ca_line_size (count_eviction c l) = ca_line_size c" "ca_sets (count_eviction c l) = ca_sets c"
  by (simp_all add: count_hit_def count_cmiss_def count_eviction_def)

lemma lookup_way_unique:
  "lookup_way c s tag = Some i \<longleftrightarrow> i < unat (ca_associativity c) \<and> ln_valid (s i) \<and> ln_tag (s i) = tag
     \<and> (\<forall>j < i. \<not> (ln_valid (s j) \<and> ln_tag (s j) = tag))"
  by (auto simp: lookup_way_def find_index_Some)

lemma lookup_way_None:
  "lookup_way c s tag = None \<longleftrightarrow> (\<forall>j < unat (ca_associativity c). \<not> (ln_valid (s j) \<and> ln_tag (s j) = tag))"
  by (auto simp: lookup_way_def find_index_None)

lemma decompose_cong:
  "ca_num_sets c' = ca_num_sets c \<Longrightarrow> ca_line_size c' = ca_line_size c \<Longrightarrow>
     cache_decompose_address c' a = cache_decompose_address c a"
  by (simp add: cache_decompose_address_def)

section \<open>Accesses of well-formed caches\<close>

lemma access_count_frame [simp]:
  "ca_num_sets (access_count_read c) = ca_num_sets c" "ca_associativity (access_count_read c) = ca_associativity c"
  "ca_line_size (access_count_read c) = ca_line_size c" "ca_sets (access_count_read c) = ca_sets c"
  "ca_num_sets (access_count_write c) = ca_num_sets c" "ca_associativity (access_count_write c) = ca_associativity c"
  "ca_line_size (access_count_write c) = ca_line_size c" "ca_sets (access_count_write c) = ca_sets c"
  "ca_write_policy (access_count_write c) = ca_write_policy c"
  "cache_ok (access_count_read c) = cache_ok c" "cache_ok (access_count_write c) = cache_ok c"
  by (simp_all add: access_count_read_def access_count_write_def cache_ok_def)

lemma cong_frame:
  assumes "ca_associativity c' = ca_associativity c"
  shows "lookup_way c' = lookup_way c"
  using assms by (simp add: lookup_way_def fun_eq_iff)

lemma copy_cong:
  assumes "ca_line_size c' = ca_line_size c"
  shows "copy_length c' = copy_length c" "copy_in_line c' = copy_in_line c"
    "line_bytes c' = line_bytes c" "store_bytes c' = store_bytes c"
  using assms by (simp_all add: copy_length_def copy_in_line_def line_bytes_def store_bytes_def fun_eq_iff)

lemma cache_read_ok:
  assumes ok: "cache_ok c" and dec: "cache_decompose_address c a = (t, i, off)"
  shows "cache_read r c a out = (let c0 = access_count_read c; s = ca_sets c (unat i) in
     case lookup_way c s t of
       Some w \<Rightarrow> Some (True, line_bytes c off (ln_data (s w)) out,
                      set_way (count_hit c0) (unat i) w (touch c0 (s w)))
     | None \<Rightarrow> Some (False, out, set_way (count_eviction (count_cmiss c0) (s (fill_way c0 r s))) (unat i) (fill_way c0 r s)
          \<lparr>ln_valid = True, ln_dirty = False, ln_tag = t, ln_data = \<lambda>_. 0,
           ln_lru_counter = ca_global_counter c0, ln_access_count = 1\<rparr>))"
proof -
  have "unat i < unat (ca_num_sets c)" using decompose_in_range(1) [OF dec] ok by (simp add: cache_ok_def)
  then have i: "\<not> ca_num_sets c \<le> i" by (simp add: word_le_nat_alt)
  have scan: "cache_scan (access_count_read c) s t = Some (lookup_way c s t)" for s
    by (simp add: cache_scan_ok ok cong_frame [of "access_count_read c" c])
  have copy: "copy_in_line c off"
    by (rule copy_in_line_ok [OF ok dec])
  show ?thesis
    by (cases "lookup_way c (ca_sets c (unat i)) t")
      (simp_all only: cache_read_def dec Let_def prod.case access_count_frame i if_False scan copy if_True
        option.case copy_cong [OF access_count_frame(3)] simp_thms)
qed

lemma cache_write_ok:
  assumes ok: "cache_ok c" and dec: "cache_decompose_address c a = (t, i, off)"
  shows "cache_write r c a inp = (let c0 = access_count_write c; s = ca_sets c (unat i) in
     case lookup_way c s t of
       Some w \<Rightarrow> (let c1 = set_way (count_hit c0) (unat i) w
            ((touch c0 (s w))\<lparr>ln_dirty := True, ln_data := store_bytes c off (ln_data (s w)) inp\<rparr>)
          in Some (True, if ca_write_policy c = WRITE_THROUGH
                     then c1\<lparr>ca_stats := (ca_stats c1)\<lparr>cs_writebacks := cs_writebacks (ca_stats c1) + 1\<rparr>\<rparr> else c1))
     | None \<Rightarrow> Some (False, set_way (count_eviction (count_cmiss c0) (s (fill_way c0 r s))) (unat i) (fill_way c0 r s)
          \<lparr>ln_valid = True, ln_dirty = (ca_write_policy c = WRITE_BACK), ln_tag = t,
           ln_data = store_bytes c off (\<lambda>_. 0) inp,
           ln_lru_counter = ca_global_counter c0, ln_access_count = 1\<rparr>))"
proof -
  have "unat i < unat (ca_num_sets c)" using decompose_in_range(1) [OF dec] ok by (simp add: cache_ok_def)
  then have i: "\<not> ca_num_sets c \<le> i" by (simp add: word_le_nat_alt)
  have scan: "cache_scan (access_count_write c) s t = Some (lookup_way c s t)" for s
    by (simp add: cache_scan_ok ok cong_frame [of "access_count_write c" c])
  have copy: "copy_in_line c off"
    by (rule copy_in_line_ok [OF ok dec])
  show ?thesis
    by (cases "lookup_way c (ca_sets c (unat i)) t")
      (simp_all only: cache_write_def dec Let_def prod.case access_count_frame i if_False scan copy if_True
        option.case copy_cong [OF access_count_frame(7)] simp_thms)
qed

lemma fill_way_less: "cache_ok c \<Longrightarrow> fill_way c r s < unat (ca_associativity c)"
  using candidate_in_range [of "ca_associativity c"] by (simp add: fill_way_def cache_ok_def)

lemma lookup_after_hit:
  assumes "lookup_way c s t = Some w" "ln_valid l" "ln_tag l = t"
  shows "lookup_way c (s(w := l)) t = Some w"
  using assms by (simp add: lookup_way_unique)

lemma lookup_after_fill:
  assumes "lookup_way c s t = None" "v < unat (ca_associativity c)" "ln_valid l" "ln_tag l = t"
  shows "lookup_way c (s(v := l)) t = Some v"
  using assms by (auto simp: lookup_way_unique lookup_way_None)

lemma cache_read_total: "cache_ok c \<Longrightarrow> \<exists>h x c'. cache_read r c a out = Some (h, x, c')"
  by (cases "cache_decompose_address c a") (auto simp: cache_read_ok Let_def split: option.split)

lemma cache_write_total: "cache_ok c \<Longrightarrow> \<exists>h c'. cache_write r c a d = Some (h, c')"
  by (cases "cache_decompose_address c a") (auto simp: cache_write_ok Let_def split: option.split)

text \<open>After a write the block is in the set of the address, with the written bytes.\<close>

lemma cache_write_result:
  assumes ok: "cache_ok c" and dec: "cache_decompose_address c a = (t, i, off)"
    and wr: "cache_write r c a d = Some (h, c1)"
  obtains v where "cache_ok c1" "cache_decompose_address c1 a = (t, i, off)"
    "lookup_way c1 (ca_sets c1 (unat i)) t = Some v"
    "\<And>k. k < copy_length c off \<Longrightarrow> ln_data (ca_sets c1 (unat i) v) (unat off + k) = d k"
    "ca_line_size c1 = ca_line_size c"
proof -
  let ?s = "ca_sets c (unat i)" and ?c0 = "access_count_write c"
  note w = cache_write_ok [OF ok dec, of r d, unfolded Let_def]
  show ?thesis
  proof (cases "lookup_way c ?s t")
    case (Some v)
    have fr: "ca_num_sets c1 = ca_num_sets c" "ca_associativity c1 = ca_associativity c" "ca_line_size c1 = ca_line_size c"
      "ca_sets c1 (unat i) = ?s(v := (touch ?c0 (?s v))\<lparr>ln_dirty := True, ln_data := store_bytes c off (ln_data (?s v)) d\<rparr>)"
      using wr Some by (auto simp: w split: if_splits)
    show ?thesis
    proof (rule that [of v])
      show "lookup_way c1 (ca_sets c1 (unat i)) t = Some v"
        using Some lookup_way_unique [of c ?s t v]
        by (simp add: fr cong_frame [OF fr(2)] lookup_after_hit touch_def)
    qed (use ok fr dec in \<open>simp_all add: cache_ok_def decompose_cong [of c1 c] store_bytes_def\<close>)
  next
    case None
    have v: "fill_way ?c0 r ?s < unat (ca_associativity c)" using fill_way_less [of ?c0 r ?s] ok by simp
    have fr: "ca_num_sets c1 = ca_num_sets c" "ca_associativity c1 = ca_associativity c" "ca_line_size c1 = ca_line_size c"
      "ca_sets c1 (unat i) = ?s(fill_way ?c0 r ?s := \<lparr>ln_valid = True, ln_dirty = (ca_write_policy c = WRITE_BACK), ln_tag = t,
           ln_data = store_bytes c off (\<lambda>_. 0) d, ln_lru_counter = ca_global_counter ?c0, ln_access_count = 1\<rparr>)"
      using wr None by (auto simp: w)
    show ?thesis
    proof (rule that [of "fill_way ?c0 r ?s"])
      show "lookup_way c1 (ca_sets c1 (unat i)) t = Some (fill_way ?c0 r ?s)"
        using None v by (simp add: fr cong_frame [OF fr(2)] lookup_after_fill)
    qed (use ok fr dec in \<open>simp_all add: cache_ok_def decompose_cong [of c1 c] store_bytes_def\<close>)
  qed
qed

section \<open>Properties\<close>

text \<open>
  C8: A read of the address written last hits and returns the written bytes, on every
  replacement and write policy, whatever the cache held before and whatever \<open>rand\<close> returned.
\<close>

theorem cache_read_after_write:
  assumes ok: "cache_ok c" and wr: "cache_write r c a d = Some (h, c1)"
    and dec: "cache_decompose_address c a = (t, i, off)" and k: "k < copy_length c off"
  shows "\<exists>x c2. cache_read r' c1 a out = Some (True, x, c2) \<and> x k = d k"
proof -
  from cache_write_result [OF ok dec wr] obtain v where v: "cache_ok c1" "cache_decompose_address c1 a = (t, i, off)"
    "lookup_way c1 (ca_sets c1 (unat i)) t = Some v"
    "ln_data (ca_sets c1 (unat i) v) (unat off + k) = d k" "ca_line_size c1 = ca_line_size c"
    using k by metis
  show ?thesis
    using k v(4) by (simp add: cache_read_ok [OF v(1,2)] v(3) Let_def line_bytes_def copy_cong(1) [OF v(5)])
qed

text \<open>A small cache: 1024 bytes, lines of 64, two ways.\<close>

definition small_cache :: Cache where
  "small_cache = the (cache_init 1024 64 2 LRU WRITE_BACK)"

lemma log2_64: "log2_u32 64 = 6"
  by (simp add: log2_u32.simps Let_def)

lemma log2_8: "log2_u32 8 = 3"
  by (simp add: log2_u32.simps Let_def)

lemma small_cache_fields:
  "ca_num_sets small_cache = 8" "ca_line_size small_cache = 64" "cache_ok small_cache"
  "cache_decompose_address small_cache 0x1234 = (9, 0, 52)"
  by (simp_all add: small_cache_def cache_init_def CACHE_MAX_SETS_def cache_ok_def CACHE_MAX_ASSOCIATIVITY_def
      CACHE_LINE_DATA_SIZE_def cache_decompose_address_def log2_64 log2_8)

theorem cache_read_after_write_witness:
  "\<exists>h c1 x c2. cache_write 0 small_cache 0x1234 (\<lambda>k. of_nat k) = Some (h, c1)
     \<and> cache_read 0 c1 0x1234 (\<lambda>_. 0) = Some (True, x, c2) \<and> x 3 = 3"
proof -
  obtain h c1 where w: "cache_write 0 small_cache 0x1234 (\<lambda>k. of_nat k) = Some (h, c1)"
    using cache_write_total [OF small_cache_fields(3)] by blast
  have "3 < copy_length small_cache 52" by (simp add: copy_length_def small_cache_fields)
  from cache_read_after_write [OF small_cache_fields(3) w small_cache_fields(4) this] w show ?thesis by auto
qed

text \<open>
  The tag, index and offset of an address determine it, and both indices are inside the cache:
  the test of the index against the number of sets never fails.
\<close>

theorem cache_decompose_exact:
  assumes "cache_decompose_address c a = (t, i, off)" and "ca_num_sets c \<noteq> 0" and "ca_line_size c \<noteq> 0"
  shows "unat a = (unat t * 2 ^ log2_u32 (ca_num_sets c) + unat i) * 2 ^ log2_u32 (ca_line_size c) + unat off
    \<and> i < ca_num_sets c \<and> off < ca_line_size c"
proof -
  let ?o = "log2_u32 (ca_line_size c)" and ?n = "log2_u32 (ca_num_sets c)"
  have "unat a div 2 ^ ?o = unat t * 2 ^ ?n + unat i"
    using div_mult_mod_eq [of "unat a div 2 ^ ?o" "2 ^ ?n"]
    by (simp add: decompose_parts [OF assms(1)] power_add div_mult2_eq)
  then have "unat a = (unat t * 2 ^ ?n + unat i) * 2 ^ ?o + unat off"
    using decompose_parts(3) [OF assms(1)] div_mult_mod_eq [of "unat a" "2 ^ ?o"] by simp
  then show ?thesis using decompose_in_range [OF assms(1)] assms(2,3) by (simp add: word_less_nat_alt)
qed

theorem cache_decompose_exact_witness: "unat (0x1234 :: u32) = (9 * 2 ^ 3 + 0) * 2 ^ 6 + 52"
  using cache_decompose_exact [OF small_cache_fields(4)] by (simp add: small_cache_fields log2_64 log2_8)

inductive cache_reachable :: "Cache \<Rightarrow> bool" where
  init: "cache_init tsize lsize assoc rp wp = Some c \<Longrightarrow> unat assoc \<le> CACHE_MAX_ASSOCIATIVITY \<Longrightarrow>
    unat lsize \<le> CACHE_LINE_DATA_SIZE \<Longrightarrow> cache_reachable c"
| rd: "cache_reachable c \<Longrightarrow> cache_read r c a out = Some (h, x, c') \<Longrightarrow> cache_reachable c'"
| wr: "cache_reachable c \<Longrightarrow> cache_write r c a d = Some (h, c') \<Longrightarrow> cache_reachable c'"
| flush: "cache_reachable c \<Longrightarrow> cache_flush c = Some c' \<Longrightarrow> cache_reachable c'"

text \<open>Every access is a hit or a miss, and a set holds a block once.\<close>

definition cache_inv :: "Cache \<Rightarrow> bool" where
  "cache_inv c \<longleftrightarrow> cache_ok c \<and>
     cs_hits (ca_stats c) + cs_misses (ca_stats c) = cs_reads (ca_stats c) + cs_writes (ca_stats c) \<and>
     (\<forall>s < unat (ca_num_sets c). \<forall>i < unat (ca_associativity c). \<forall>j < unat (ca_associativity c).
        ln_valid (ca_sets c s i) \<longrightarrow> ln_valid (ca_sets c s j) \<longrightarrow>
        ln_tag (ca_sets c s i) = ln_tag (ca_sets c s j) \<longrightarrow> i = j)"

definition set_unique :: "Cache \<Rightarrow> CacheSet \<Rightarrow> bool" where
  "set_unique c s \<longleftrightarrow> (\<forall>i < unat (ca_associativity c). \<forall>j < unat (ca_associativity c).
     ln_valid (s i) \<longrightarrow> ln_valid (s j) \<longrightarrow> ln_tag (s i) = ln_tag (s j) \<longrightarrow> i = j)"

lemma cache_inv_unique: "cache_inv c \<longleftrightarrow> cache_ok c \<and>
     cs_hits (ca_stats c) + cs_misses (ca_stats c) = cs_reads (ca_stats c) + cs_writes (ca_stats c) \<and>
     (\<forall>s < unat (ca_num_sets c). set_unique c (ca_sets c s))"
  by (simp add: cache_inv_def set_unique_def)

lemma set_unique_hit:
  assumes "set_unique c s" "lookup_way c s t = Some w" "ln_tag l = t"
  shows "set_unique c (s(w := l))"
  using assms unfolding set_unique_def lookup_way_unique by (auto split: if_splits)

lemma set_unique_fill:
  assumes "set_unique c s" "lookup_way c s t = None" "ln_tag l = t"
  shows "set_unique c (s(v := l))"
  using assms unfolding set_unique_def lookup_way_None by (auto split: if_splits)

lemma count_stats [simp]:
  "cs_hits (ca_stats (count_hit c)) = cs_hits (ca_stats c) + 1" "cs_misses (ca_stats (count_hit c)) = cs_misses (ca_stats c)"
  "cs_reads (ca_stats (count_hit c)) = cs_reads (ca_stats c)" "cs_writes (ca_stats (count_hit c)) = cs_writes (ca_stats c)"
  "cs_hits (ca_stats (count_cmiss c)) = cs_hits (ca_stats c)" "cs_misses (ca_stats (count_cmiss c)) = cs_misses (ca_stats c) + 1"
  "cs_reads (ca_stats (count_cmiss c)) = cs_reads (ca_stats c)" "cs_writes (ca_stats (count_cmiss c)) = cs_writes (ca_stats c)"
  "cs_hits (ca_stats (count_eviction c l)) = cs_hits (ca_stats c)" "cs_misses (ca_stats (count_eviction c l)) = cs_misses (ca_stats c)"
  "cs_reads (ca_stats (count_eviction c l)) = cs_reads (ca_stats c)" "cs_writes (ca_stats (count_eviction c l)) = cs_writes (ca_stats c)"
  "cs_hits (ca_stats (access_count_read c)) = cs_hits (ca_stats c)" "cs_misses (ca_stats (access_count_read c)) = cs_misses (ca_stats c)"
  "cs_reads (ca_stats (access_count_read c)) = cs_reads (ca_stats c) + 1" "cs_writes (ca_stats (access_count_read c)) = cs_writes (ca_stats c)"
  "cs_hits (ca_stats (access_count_write c)) = cs_hits (ca_stats c)" "cs_misses (ca_stats (access_count_write c)) = cs_misses (ca_stats c)"
  "cs_reads (ca_stats (access_count_write c)) = cs_reads (ca_stats c)" "cs_writes (ca_stats (access_count_write c)) = cs_writes (ca_stats c) + 1"
  by (simp_all add: count_hit_def count_cmiss_def count_eviction_def access_count_read_def access_count_write_def)

text \<open>The shape of an update that keeps the invariant.\<close>

lemma cache_inv_step:
  assumes inv: "cache_inv c"
    and "ca_num_sets c' = ca_num_sets c" "ca_associativity c' = ca_associativity c" "ca_line_size c' = ca_line_size c"
    and "cs_hits (ca_stats c') + cs_misses (ca_stats c') = cs_reads (ca_stats c') + cs_writes (ca_stats c')"
    and "ca_sets c' = (ca_sets c)(i := s')" "i < unat (ca_num_sets c) \<Longrightarrow> set_unique c s'"
  shows "cache_inv c'"
proof -
  have "set_unique c' = set_unique c" using assms(3) by (simp add: set_unique_def fun_eq_iff)
  with assms show ?thesis by (auto simp: cache_inv_unique cache_ok_def)
qed

lemma cache_read_inv:
  assumes inv: "cache_inv c" and rd: "cache_read r c a out = Some (h, x, c')"
  shows "cache_inv c'"
proof -
  obtain t i off where dec: "cache_decompose_address c a = (t, i, off)" by (metis prod_cases3)
  have ok: "cache_ok c" and st: "cs_hits (ca_stats c) + cs_misses (ca_stats c) = cs_reads (ca_stats c) + cs_writes (ca_stats c)"
    using inv by (simp_all add: cache_inv_unique)
  have i: "unat i < unat (ca_num_sets c)" using decompose_in_range(1) [OF dec] ok by (simp add: cache_ok_def)
  have u: "set_unique c (ca_sets c (unat i))" using inv i by (simp add: cache_inv_unique)
  note r = rd [unfolded cache_read_ok [OF ok dec] Let_def]
  show ?thesis
  proof (cases "lookup_way c (ca_sets c (unat i)) t")
    case (Some w)
    with r have c': "c' = set_way (count_hit (access_count_read c)) (unat i) w (touch (access_count_read c) (ca_sets c (unat i) w))"
      by simp
    have "ln_tag (ca_sets c (unat i) w) = t" using Some by (simp add: lookup_way_unique)
    then show ?thesis
      using st by (intro cache_inv_step [OF inv, where i = "unat i" and s' = "(ca_sets c (unat i))(w := touch (access_count_read c) (ca_sets c (unat i) w))"])
        (simp_all add: c' set_unique_hit [OF u Some] touch_def algebra_simps)
  next
    case None
    with r show ?thesis
      using st by (intro cache_inv_step [OF inv, where i = "unat i"])
        (auto simp: set_unique_fill [OF u None] algebra_simps)
  qed
qed

lemma cache_write_inv:
  assumes inv: "cache_inv c" and wr: "cache_write r c a d = Some (h, c')"
  shows "cache_inv c'"
proof -
  obtain t i off where dec: "cache_decompose_address c a = (t, i, off)" by (metis prod_cases3)
  have ok: "cache_ok c" and st: "cs_hits (ca_stats c) + cs_misses (ca_stats c) = cs_reads (ca_stats c) + cs_writes (ca_stats c)"
    using inv by (simp_all add: cache_inv_unique)
  have i: "unat i < unat (ca_num_sets c)" using decompose_in_range(1) [OF dec] ok by (simp add: cache_ok_def)
  have u: "set_unique c (ca_sets c (unat i))" using inv i by (simp add: cache_inv_unique)
  note w = wr [unfolded cache_write_ok [OF ok dec] Let_def]
  show ?thesis
  proof (cases "lookup_way c (ca_sets c (unat i)) t")
    case (Some w)
    have tag: "ln_tag (ca_sets c (unat i) w) = t" using Some by (simp add: lookup_way_unique)
    show ?thesis
      using st w Some tag by (intro cache_inv_step [OF inv, where i = "unat i"])
        (auto simp: set_unique_hit [OF u Some] touch_def algebra_simps split: if_splits)
  next
    case None
    with w show ?thesis
      using st by (intro cache_inv_step [OF inv, where i = "unat i"])
        (auto simp: set_unique_fill [OF u None] algebra_simps)
  qed
qed

lemma flush_line_inv:
  assumes "cache_inv c"
  shows "cache_inv (flush_line s i c)"
  using assms
  by (intro cache_inv_step [OF assms, where i = s and s' = "(ca_sets c s)(i := (ca_sets c s i)
      \<lparr>ln_valid := False, ln_dirty := False, ln_tag := 0, ln_lru_counter := 0, ln_access_count := 0\<rparr>)"])
    (auto simp: flush_line_def Let_def set_unique_def cache_inv_unique split: if_splits)

lemma cache_reachable_inv: "cache_reachable c \<Longrightarrow> cache_inv c"
proof (induction rule: cache_reachable.induct)
  case (init tsize lsize assoc rp wp c)
  then show ?case
    by (auto simp: cache_init_def cache_inv_def cache_ok_def zero_cache_line_def CACHE_MAX_SETS_def Let_def unat_gt_0
        word_less_nat_alt split: if_splits)
next
  case (flush c c')
  then show ?case
    by (auto simp: cache_flush_def intro!: for_range_preserves flush_line_inv split: if_splits)
qed (auto intro: cache_read_inv cache_write_inv)

text \<open>
  In every state of a cache of at most 32 ways and 64-byte lines that reads, writes and flushes
  can reach, hits and misses add up to reads and writes and no set holds a block twice; and
  no access leaves the arrays.
\<close>

theorem cache_reachable_wf:
  assumes "cache_reachable c"
  shows "cache_inv c \<and> cache_read r c a out \<noteq> None \<and> cache_write r c a d \<noteq> None"
proof -
  have inv: "cache_inv c" using assms by (rule cache_reachable_inv)
  then have "cache_ok c" by (simp add: cache_inv_def)
  from cache_read_total [OF this, of r a out] cache_write_total [OF this, of r a d] inv show ?thesis by auto
qed

theorem cache_reachable_wf_witness:
  "cache_inv small_cache \<and> cache_read 0 small_cache 5 (\<lambda>_. 0) \<noteq> None"
proof -
  have "cache_reachable small_cache"
    by (rule cache_reachable.init [of 1024 64 2 LRU WRITE_BACK])
      (simp_all add: small_cache_def cache_init_def CACHE_MAX_ASSOCIATIVITY_def CACHE_LINE_DATA_SIZE_def)
  from cache_reachable_wf [OF this] show ?thesis by blast
qed

text \<open>
  The victim of a miss is an unused way while there is one; a full set gives up the least
  recently used line under LRU and the least often used one under LFU.  A miss
  uses one more way of the set until all are in use.
\<close>

theorem cache_victim_policy:
  assumes "0 < unat assoc"
  shows "find_replacement_candidate s assoc rp gc r < unat assoc \<and>
    ((\<exists>i < unat assoc. \<not> ln_valid (s i)) \<longrightarrow> \<not> ln_valid (s (find_replacement_candidate s assoc rp gc r))) \<and>
    ((\<forall>i < unat assoc. ln_valid (s i)) \<longrightarrow> rp = LRU \<longrightarrow>
       (\<forall>j < unat assoc. ln_lru_counter (s (find_replacement_candidate s assoc rp gc r)) \<le> ln_lru_counter (s j))) \<and>
    ((\<forall>i < unat assoc. ln_valid (s i)) \<longrightarrow> rp = LFU \<longrightarrow>
       (\<forall>j < unat assoc. ln_access_count (s (find_replacement_candidate s assoc rp gc r)) \<le> ln_access_count (s j))) \<and>
    used_ways (unat assoc) (\<lambda>i. ln_valid ((s(find_replacement_candidate s assoc rp gc r := l\<lparr>ln_valid := True\<rparr>)) i)) =
      min (unat assoc) (used_ways (unat assoc) (\<lambda>i. ln_valid (s i)) + 1)"
proof -
  let ?v = "find_replacement_candidate s assoc rp gc r"
  have full: "find_index (\<lambda>i. \<not> ln_valid (s i)) 0 (unat assoc) = None" if "\<forall>i < unat assoc. ln_valid (s i)"
    using that by (simp add: find_index_None)
  have "used_ways (unat assoc) (\<lambda>i. ln_valid ((s(?v := l\<lparr>ln_valid := True\<rparr>)) i)) =
      min (unat assoc) (used_ways (unat assoc) (\<lambda>i. ln_valid (s i)) + 1)"
    using way.used_ways_fill [of "(s, assoc, rp, gc, r)" "\<lambda>i. ln_valid ((s(?v := l\<lparr>ln_valid := True\<rparr>)) i)"] assms by simp
  moreover have "?v < unat assoc" using candidate_in_range assms by blast
  moreover have "\<not> ln_valid (s ?v)" if "\<exists>i < unat assoc. \<not> ln_valid (s i)"
    using way.victim_unused [of "(s, assoc, rp, gc, r)"] that by simp
  moreover have "ln_lru_counter (s ?v) \<le> ln_lru_counter (s j)"
    if "\<forall>i < unat assoc. ln_valid (s i)" "rp = LRU" "j < unat assoc" for j
    using argmin_from_zero [OF assms, of "\<lambda>i. ln_lru_counter (s i)"] that
    by (simp add: find_replacement_candidate_def full)
  moreover have "ln_access_count (s ?v) \<le> ln_access_count (s j)"
    if "\<forall>i < unat assoc. ln_valid (s i)" "rp = LFU" "j < unat assoc" for j
    using argmin_from_zero [OF assms, of "\<lambda>i. ln_access_count (s i)"] that
    by (simp add: find_replacement_candidate_def full)
  ultimately show ?thesis by blast
qed

theorem cache_victim_policy_witness:
  "find_replacement_candidate (\<lambda>_. zero_cache_line) 4 RANDOM 9 7 < 4"
  using cache_victim_policy [of 4 "\<lambda>_. zero_cache_line" RANDOM 9 7 zero_cache_line] by simp

end
