(* ===== verification/Coherence.thy ===== *)
theory Coherence
  imports Prelude
begin

text \<open>
  The snooping coherence controller of \<^verbatim>\<open>mini-computer-arch/src/coherence.c\<close>: private caches of
  256 lines, MSI/MESI/MOESI states, reads and writes that snoop the other caches in the order of
  their indices, the external snoop and the directory.  A copy of a 64-byte line copies the array.
\<close>

unbundle bit_operations_syntax

section \<open>Data\<close>

definition COHERENCE_MAX_CACHES :: u32 where "COHERENCE_MAX_CACHES = 16"
definition COHERENCE_DIR_ENTRIES :: u32 where "COHERENCE_DIR_ENTRIES = 4096"
definition COHERENCE_CACHE_LINES :: u32 where "COHERENCE_CACHE_LINES = 256"

datatype CoherenceState = MESI_M | MESI_E | MESI_S | MESI_I
datatype CoherenceProtocol = PROTO_MSI | PROTO_MESI | PROTO_MOESI

record CoherenceCacheLine =
  cl_tag :: u32
  cl_state :: CoherenceState
  cl_valid :: bool
  cl_data :: "u8 arr"

record DirectoryEntry =
  de_tag :: u32
  de_state :: CoherenceState
  sharer_bits :: "u8 arr"
  owner_id :: u32

record CoherenceCache =
  cc_lines :: "CoherenceCacheLine arr"
  cc_num_lines :: u32
  cc_id :: u32
  cc_access_count :: u64
  cc_pending_messages :: u64

record CoherenceController =
  co_protocol :: CoherenceProtocol
  co_caches :: "CoherenceCache arr"
  co_num_caches :: u32
  co_directory :: "DirectoryEntry arr"
  bus_transactions :: u64
  coherence_misses :: u64
  invalidations :: u64
  co_writebacks :: u64

definition zero_line :: CoherenceCacheLine where
  "zero_line = \<lparr>cl_tag = 0, cl_state = MESI_M, cl_valid = False, cl_data = \<lambda>_. 0\<rparr>"

definition zero_dir_entry :: DirectoryEntry where
  "zero_dir_entry = \<lparr>de_tag = 0, de_state = MESI_M, sharer_bits = \<lambda>_. 0, owner_id = 0\<rparr>"

definition coherence_init :: "CoherenceProtocol \<Rightarrow> u32 \<Rightarrow> CoherenceController" where
  "coherence_init protocol num =
     (let n = (if num > COHERENCE_MAX_CACHES then COHERENCE_MAX_CACHES else num)
      in \<lparr>co_protocol = protocol,
          co_caches = (\<lambda>i. \<lparr>cc_lines = \<lambda>_. zero_line,
             cc_num_lines = if i < unat n then COHERENCE_CACHE_LINES else 0,
             cc_id = if i < unat n then of_nat i else 0, cc_access_count = 0, cc_pending_messages = 0\<rparr>),
          co_num_caches = n, co_directory = \<lambda>_. zero_dir_entry, bus_transactions = 0,
          coherence_misses = 0, invalidations = 0, co_writebacks = 0\<rparr>)"

definition cache_line_index :: "u32 \<Rightarrow> u32 \<Rightarrow> u32" where
  "cache_line_index address n = (address div 64) mod n"

definition has_exclusive_mode :: "CoherenceProtocol \<Rightarrow> bool" where
  "has_exclusive_mode p \<longleftrightarrow> p = PROTO_MESI \<or> p = PROTO_MOESI"

text \<open>The line of cache \<open>i\<close> for an address, and the update of that line.\<close>

definition line_at :: "CoherenceController \<Rightarrow> nat \<Rightarrow> u32 \<Rightarrow> CoherenceCacheLine" where
  "line_at c i a = cc_lines (co_caches c i) (unat (cache_line_index a (cc_num_lines (co_caches c i))))"

definition set_line :: "CoherenceController \<Rightarrow> nat \<Rightarrow> u32 \<Rightarrow> CoherenceCacheLine \<Rightarrow> CoherenceController" where
  "set_line c i a l =
     (let k = co_caches c i; idx = unat (cache_line_index a (cc_num_lines k))
      in c\<lparr>co_caches := (co_caches c)(i := k\<lparr>cc_lines := (cc_lines k)(idx := l)\<rparr>)\<rparr>)"

definition holds :: "CoherenceController \<Rightarrow> nat \<Rightarrow> u32 \<Rightarrow> bool" where
  "holds c i a \<longleftrightarrow> cl_valid (line_at c i a) \<and> cl_tag (line_at c i a) = a div 64"

definition count_access :: "CoherenceController \<Rightarrow> nat \<Rightarrow> CoherenceController" where
  "count_access c i = c\<lparr>co_caches := (co_caches c)(i :=
     (co_caches c i)\<lparr>cc_access_count := cc_access_count (co_caches c i) + 1\<rparr>)\<rparr>"

definition count_miss :: "CoherenceController \<Rightarrow> CoherenceController" where
  "count_miss c = c\<lparr>coherence_misses := coherence_misses c + 1, bus_transactions := bus_transactions c + 1\<rparr>"

section \<open>Directory\<close>

definition dir_lookup :: "CoherenceController \<Rightarrow> u32 \<Rightarrow> int" where
  "dir_lookup c address =
     (let dir_idx = (address div 64) mod COHERENCE_DIR_ENTRIES
      in if de_tag (co_directory c (unat dir_idx)) = address div 64 then sint dir_idx else -1)"

definition dir_update :: "CoherenceController \<Rightarrow> u32 \<Rightarrow> CoherenceState \<Rightarrow> u32 \<Rightarrow> CoherenceController" where
  "dir_update c address state cache_id =
     (let dir_idx = unat ((address div 64) mod COHERENCE_DIR_ENTRIES);
          d = (co_directory c dir_idx)\<lparr>de_tag := address div 64, de_state := state\<rparr>;
          byte_idx = unat (cache_id div 8);
          d' = (if cache_id < COHERENCE_MAX_CACHES then
                  d\<lparr>owner_id := cache_id, sharer_bits :=
                     (if state = MESI_S
                      then (sharer_bits d)(byte_idx := sharer_bits d byte_idx OR push_bit (unat (cache_id mod 8)) 1)
                      else (\<lambda>_. 0))\<rparr>
                else d)
      in c\<lparr>co_directory := (co_directory c)(dir_idx := d')\<rparr>)"

text \<open>The directory entry of a block whose modified copy is read becomes shared.\<close>

definition dir_set_shared :: "CoherenceController \<Rightarrow> int \<Rightarrow> CoherenceController" where
  "dir_set_shared c dir_idx =
     (if dir_idx \<ge> 0 \<and> dir_idx < int (unat COHERENCE_DIR_ENTRIES)
      then c\<lparr>co_directory := (co_directory c)(nat dir_idx :=
             (co_directory c (nat dir_idx))\<lparr>de_state := MESI_S\<rparr>)\<rparr>
      else c)"

section \<open>Reads\<close>

text \<open>
  The snoop loop of a read over the caches from \<open>i\<close> on: it stops at the first modified copy,
  downgrading it; on its way it downgrades exclusive copies and notes shared ones.
\<close>

function snoop_read :: "CoherenceController \<Rightarrow> nat \<Rightarrow> u32 \<Rightarrow> nat \<Rightarrow> bool \<Rightarrow> CoherenceController \<times> bool \<times> nat option" where
  "snoop_read c r a i shared =
     (if i \<ge> unat (co_num_caches c) then (c, shared, None)
      else if i = r \<or> \<not> holds c i a then snoop_read c r a (i + 1) shared
      else
        let l = line_at c i a
        in case cl_state l of
             MESI_M \<Rightarrow> (set_line c i a (l\<lparr>cl_state := MESI_S\<rparr>), shared, Some i)
           | MESI_E \<Rightarrow> snoop_read (set_line c i a (l\<lparr>cl_state := MESI_S\<rparr>)) r a (i + 1) True
           | MESI_S \<Rightarrow> snoop_read c r a (i + 1) True
           | MESI_I \<Rightarrow> snoop_read c r a (i + 1) shared)"
  by pat_completeness auto

lemma set_line_num [simp]: "co_num_caches (set_line c i a l) = co_num_caches c"
  by (simp add: set_line_def Let_def)

termination snoop_read
  by (relation "measure (\<lambda>(c, r, a, i, s). unat (co_num_caches c) - i)") auto

declare snoop_read.simps [simp del]

definition coherence_read ::
  "CoherenceController \<Rightarrow> u32 \<Rightarrow> u32 \<Rightarrow> u8 arr \<Rightarrow> bool \<times> u8 arr \<times> CoherenceController" where
  "coherence_read c cache_id address data_out =
     (if cache_id \<ge> co_num_caches c then (False, data_out, c)
      else
        let r = unat cache_id; tag = address div 64; c1 = count_access c r
        in if holds c1 r address then (True, cl_data (line_at c1 r address), c1)
           else
             let c2 = count_miss c1; dir_idx = dir_lookup c2 address
             in case snoop_read c2 r address 0 False of
                  (c3, shared, Some m) \<Rightarrow>
                    let d = cl_data (line_at c3 m address);
                        c4 = dir_set_shared (c3\<lparr>co_writebacks := co_writebacks c3 + 1\<rparr>) dir_idx;
                        c5 = set_line c4 r address
                               \<lparr>cl_tag = tag, cl_state = MESI_S, cl_valid = True, cl_data = d\<rparr>
                    in (True, d, c5)
                | (c3, shared, None) \<Rightarrow>
                    let st = (if shared \<and> has_exclusive_mode (co_protocol c3) then MESI_S
                              else if has_exclusive_mode (co_protocol c3) then MESI_E
                              else MESI_S);
                        c4 = set_line c3 r address
                               \<lparr>cl_tag = tag, cl_state = st, cl_valid = True, cl_data = (\<lambda>_. 0)\<rparr>
                    in (False, \<lambda>_. 0, dir_update c4 address st cache_id))"

section \<open>Writes\<close>

text \<open>One step of the snoop loop of a write: a copy in another cache is invalidated.\<close>

definition snoop_invalidate :: "nat \<Rightarrow> u32 \<Rightarrow> nat \<Rightarrow> CoherenceController \<Rightarrow> CoherenceController" where
  "snoop_invalidate r a i c =
     (if i = r \<or> \<not> holds c i a then c
      else
        let l = line_at c i a;
            c1 = (if cl_state l = MESI_M
                  then (set_line c r a ((line_at c r a)\<lparr>cl_data := cl_data l\<rparr>))\<lparr>co_writebacks := co_writebacks c + 1\<rparr>
                  else c);
            c2 = set_line c1 i a (l\<lparr>cl_state := MESI_I, cl_valid := False\<rparr>)
        in c2\<lparr>invalidations := invalidations c2 + 1\<rparr>)"

definition coherence_write ::
  "CoherenceController \<Rightarrow> u32 \<Rightarrow> u32 \<Rightarrow> u8 arr \<Rightarrow> bool \<times> CoherenceController" where
  "coherence_write c cache_id address data_in =
     (if cache_id \<ge> co_num_caches c then (False, c)
      else
        let r = unat cache_id; tag = address div 64; c1 = count_access c r; l = line_at c1 r address
        in if holds c1 r address \<and> (cl_state l = MESI_M \<or> cl_state l = MESI_E)
           then (True, set_line c1 r address (l\<lparr>cl_state := MESI_M, cl_data := data_in\<rparr>))
           else
             let c2 = for_range 0 (unat (co_num_caches c)) (snoop_invalidate r address) (count_miss c1);
                 c3 = set_line c2 r address
                        \<lparr>cl_tag = tag, cl_state = MESI_M, cl_valid = True, cl_data = data_in\<rparr>
             in (False, dir_update c3 address MESI_M cache_id))"

section \<open>External snoop\<close>

definition coherence_snoop :: "CoherenceController \<Rightarrow> u32 \<Rightarrow> u32 \<Rightarrow> bool \<Rightarrow> CoherenceController" where
  "coherence_snoop c cache_id address is_write =
     (if cache_id \<ge> co_num_caches c then c
      else
        let i = unat cache_id; l = line_at c i address; l' = l\<lparr>cl_state := MESI_I, cl_valid := False\<rparr>
        in if \<not> holds c i address \<or> \<not> is_write then c
           else
             let c1 = (if cl_state l = MESI_M \<or> cl_state l = MESI_E
                       then (set_line c i address l')\<lparr>invalidations := invalidations c + 1\<rparr> else c)
             in if cl_state (line_at c1 i address) = MESI_S then set_line c1 i address l' else c1)"

section \<open>States per block\<close>

definition block_state :: "CoherenceController \<Rightarrow> u32 \<Rightarrow> nat \<Rightarrow> CoherenceState option" where
  "block_state c a i = (if holds c i a then Some (cl_state (line_at c i a)) else None)"

text \<open>Every cache that exists has its 256 lines.\<close>

definition sized :: "CoherenceController \<Rightarrow> bool" where
  "sized c \<longleftrightarrow> (\<forall>i < unat (co_num_caches c). cc_num_lines (co_caches c i) = COHERENCE_CACHE_LINES)"

text \<open>Single writer, multiple readers: a block held twice is shared everywhere.\<close>

definition swmr :: "nat \<Rightarrow> (nat \<Rightarrow> CoherenceState option) \<Rightarrow> bool" where
  "swmr n f \<longleftrightarrow> (\<forall>i < n. f i \<noteq> Some MESI_I) \<and>
     (\<forall>i < n. \<forall>j < n. i \<noteq> j \<longrightarrow> f i \<noteq> None \<longrightarrow> f j \<noteq> None \<longrightarrow> f i = Some MESI_S)"

definition coh_inv :: "CoherenceController \<Rightarrow> bool" where
  "coh_inv c \<longleftrightarrow> sized c \<and> (\<forall>a. swmr (unat (co_num_caches c)) (block_state c a))"

lemma swmr_sub:
  assumes f: "swmr n f" and g: "\<And>i. i < n \<Longrightarrow> g i = f i \<or> g i = None"
  shows "swmr n g"
proof -
  have "g i \<noteq> Some MESI_I" if "i < n" for i using g [OF that] f that by (auto simp: swmr_def)
  moreover have "g i = Some MESI_S" if "i < n" "j < n" "i \<noteq> j" "g i \<noteq> None" "g j \<noteq> None" for i j
    using g [OF that(1)] g [OF that(2)] f that unfolding swmr_def by metis
  ultimately show ?thesis unfolding swmr_def by blast
qed

lemma line_at_cong: "b div 64 = a div 64 \<Longrightarrow> line_at c i b = line_at c i a"
  by (simp add: line_at_def cache_line_index_def)

lemma block_state_cong: "b div 64 = a div 64 \<Longrightarrow> block_state c b = block_state c a"
  by (rule ext) (simp add: block_state_def holds_def line_at_cong [of b a])

lemma set_line_frame [simp]:
  "co_protocol (set_line c i a l) = co_protocol c" "co_directory (set_line c i a l) = co_directory c"
  "cc_num_lines (co_caches (set_line c i a l) j) = cc_num_lines (co_caches c j)"
  by (simp_all add: set_line_def Let_def)

lemma sized_set_line [simp]: "sized (set_line c i a l) = sized c"
  by (simp add: sized_def)

lemma line_at_set_line:
  "line_at (set_line c i a l) j b =
     (if j = i \<and> unat (cache_line_index b (cc_num_lines (co_caches c i))) =
                 unat (cache_line_index a (cc_num_lines (co_caches c i))) then l else line_at c j b)"
  by (auto simp: line_at_def set_line_def Let_def)

lemma line_at_set_line_same [simp]:
  "line_at (set_line c i a l) i a = l" "j \<noteq> i \<Longrightarrow> line_at (set_line c i a l) j b = line_at c j b"
  by (simp_all add: line_at_set_line)

text \<open>What replacing a line by one for block \<open>a\<close> does to the states of all blocks.\<close>

lemma block_state_set_line_same:
  "cl_tag l = a div 64 \<Longrightarrow> block_state (set_line c i a l) a =
     (block_state c a)(i := if cl_valid l then Some (cl_state l) else None)"
  by (rule ext) (simp add: block_state_def holds_def)

lemma block_state_set_line_other:
  assumes "cl_tag l = a div 64" "b div 64 \<noteq> a div 64"
  shows "block_state (set_line c i a l) b j = block_state c b j \<or> block_state (set_line c i a l) b j = None"
  using assms by (auto simp: block_state_def holds_def line_at_set_line)

text \<open>Nothing else of the state matters.\<close>

lemma line_at_frame [simp]:
  "line_at (dir_set_shared c k) = line_at c" "line_at (c\<lparr>co_directory := d\<rparr>) = line_at c" "line_at (c\<lparr>co_writebacks := w\<rparr>) = line_at c"
  "line_at (c\<lparr>invalidations := w\<rparr>) = line_at c" "line_at (count_miss c) = line_at c"
  "line_at (dir_update c a s i) = line_at c" "line_at (count_access c j) = line_at c"
  by (auto simp: line_at_def fun_eq_iff count_miss_def dir_update_def count_access_def dir_set_shared_def Let_def)

lemma sized_frame [simp]:
  "sized (dir_set_shared c k) = sized c" "sized (c\<lparr>co_directory := d\<rparr>) = sized c" "sized (c\<lparr>co_writebacks := w\<rparr>) = sized c"
  "sized (c\<lparr>invalidations := w\<rparr>) = sized c" "sized (count_miss c) = sized c"
  "sized (dir_update c a s i) = sized c" "sized (count_access c j) = sized c"
  by (auto simp: sized_def count_miss_def dir_update_def count_access_def dir_set_shared_def Let_def)

lemma num_frame [simp]:
  "co_num_caches (dir_set_shared c k) = co_num_caches c" "co_num_caches (count_miss c) = co_num_caches c" "co_num_caches (dir_update c a s i) = co_num_caches c"
  "co_num_caches (count_access c j) = co_num_caches c"
  "co_protocol (count_miss c) = co_protocol c" "co_protocol (count_access c j) = co_protocol c"
  by (simp_all add: count_miss_def dir_update_def count_access_def dir_set_shared_def Let_def)

lemma holds_frame [simp]:
  "holds (dir_set_shared c k) = holds c" "holds (c\<lparr>co_directory := d\<rparr>) = holds c" "holds (c\<lparr>co_writebacks := w\<rparr>) = holds c"
  "holds (c\<lparr>invalidations := w\<rparr>) = holds c" "holds (count_miss c) = holds c"
  "holds (dir_update c a s i) = holds c" "holds (count_access c j) = holds c"
  by (simp_all add: holds_def fun_eq_iff)

lemma block_state_frame [simp]:
  "block_state (dir_set_shared c k) = block_state c" "block_state (c\<lparr>co_directory := d\<rparr>) = block_state c" "block_state (c\<lparr>co_writebacks := w\<rparr>) = block_state c"
  "block_state (c\<lparr>invalidations := w\<rparr>) = block_state c" "block_state (count_miss c) = block_state c"
  "block_state (dir_update c a s i) = block_state c" "block_state (count_access c j) = block_state c"
  by (simp_all add: block_state_def fun_eq_iff)

section \<open>The snoop of a read\<close>

text \<open>The loop only downgrades copies of the block in other caches to shared.\<close>

definition downgrades :: "nat \<Rightarrow> u32 \<Rightarrow> CoherenceController \<Rightarrow> CoherenceController \<Rightarrow> bool" where
  "downgrades r a c c' \<longleftrightarrow>
    co_num_caches c' = co_num_caches c \<and> co_protocol c' = co_protocol c \<and> sized c' = sized c \<and>
    (\<forall>b j. b div 64 \<noteq> a div 64 \<longrightarrow> block_state c' b j = block_state c b j \<or> block_state c' b j = None) \<and>
    block_state c' a r = block_state c a r \<and>
    (\<forall>j. cl_data (line_at c' j a) = cl_data (line_at c j a)) \<and>
    (\<forall>j. block_state c' a j = block_state c a j \<or>
       block_state c a j \<in> {Some MESI_M, Some MESI_E} \<and> block_state c' a j = Some MESI_S)"

lemma downgrades_refl [simp]: "downgrades r a c c"
  by (simp add: downgrades_def)

lemma downgrades_trans: "downgrades r a c c1 \<Longrightarrow> downgrades r a c1 c2 \<Longrightarrow> downgrades r a c c2"
  unfolding downgrades_def by (intro conjI allI impI) (simp | metis)+

lemma downgrades_step:
  assumes "holds c i a" "i \<noteq> r" "cl_state (line_at c i a) \<in> {MESI_M, MESI_E}"
  shows "downgrades r a c (set_line c i a ((line_at c i a)\<lparr>cl_state := MESI_S\<rparr>))"
proof -
  have h: "cl_tag ((line_at c i a)\<lparr>cl_state := MESI_S\<rparr>) = a div 64" "cl_valid (line_at c i a)"
    using assms(1) by (simp_all add: holds_def)
  have bs: "block_state c a i = Some (cl_state (line_at c i a))" using assms(1) by (simp add: block_state_def)
  have dat: "cl_data (line_at (set_line c i a ((line_at c i a)\<lparr>cl_state := MESI_S\<rparr>)) j a) = cl_data (line_at c j a)" for j
    by (cases "j = i") simp_all
  show ?thesis
    unfolding downgrades_def
  proof (intro conjI allI impI)
    fix b j assume "b div 64 \<noteq> a div 64"
    then show "block_state (set_line c i a ((line_at c i a)\<lparr>cl_state := MESI_S\<rparr>)) b j = block_state c b j \<or>
        block_state (set_line c i a ((line_at c i a)\<lparr>cl_state := MESI_S\<rparr>)) b j = None"
      by (rule block_state_set_line_other [OF h(1)])
  qed (use assms h bs in \<open>auto simp: dat block_state_set_line_same [OF h(1)]\<close>)
qed

lemma snoop_read_downgrades: "snoop_read c r a i shared = (c', sh, res) \<Longrightarrow> downgrades r a c c'"
proof (induction c r a i shared rule: snoop_read.induct)
  case (1 c r a i shared)
  note simps = snoop_read.simps [of c r a i shared]
  show ?case
  proof (cases "unat (co_num_caches c) \<le> i \<or> i = r \<or> \<not> holds c i a")
    case True
    then show ?thesis using 1(1,5) by (auto simp: simps split: if_splits)
  next
    case False
    show ?thesis
    proof (cases "cl_state (line_at c i a)")
      case MESI_M
      then show ?thesis using False 1(5) downgrades_step [of c i a r] by (auto simp: simps Let_def)
    next
      case MESI_E
      with 1(5) False have s: "snoop_read (set_line c i a ((line_at c i a)\<lparr>cl_state := MESI_S\<rparr>)) r a (i + 1) True = (c', sh, res)"
        by (simp add: simps Let_def)
      have "downgrades r a c (set_line c i a ((line_at c i a)\<lparr>cl_state := MESI_S\<rparr>))"
        using False MESI_E by (intro downgrades_step) auto
      moreover have "downgrades r a (set_line c i a ((line_at c i a)\<lparr>cl_state := MESI_S\<rparr>)) c'"
        by (rule 1(2) [OF _ _ refl MESI_E s]) (use False in auto)
      ultimately show ?thesis by (rule downgrades_trans)
    next
      case MESI_S
      with 1(5) False show ?thesis by (intro 1(3) [OF _ _ refl]) (simp_all add: simps Let_def)
    next
      case MESI_I
      with 1(5) False show ?thesis by (intro 1(4) [OF _ _ refl]) (simp_all add: simps Let_def)
    qed
  qed
qed

text \<open>Where the loop stops, and what it has seen when it runs to the end.\<close>

lemma snoop_read_stops:
  "snoop_read c r a i shared = (c', sh, Some m) \<Longrightarrow>
     m < unat (co_num_caches c) \<and> m \<noteq> r \<and> block_state c' a m = Some MESI_S \<and> 
     (\<exists>c0. downgrades r a c c0 \<and> block_state c0 a m = Some MESI_M)"
proof (induction c r a i shared rule: snoop_read.induct)
  case (1 c r a i shared)
  note simps = snoop_read.simps [of c r a i shared]
  show ?case
  proof (cases "unat (co_num_caches c) \<le> i \<or> i = r \<or> \<not> holds c i a")
    case True
    then show ?thesis using 1(1,5) by (auto simp: simps split: if_splits)
  next
    case False
    show ?thesis
    proof (cases "cl_state (line_at c i a)")
      case MESI_M
      then show ?thesis using False 1(5)
        by (auto simp: simps Let_def block_state_def holds_def intro: exI [of _ c])
    next
      case MESI_E
      with 1(5) False have s: "snoop_read (set_line c i a ((line_at c i a)\<lparr>cl_state := MESI_S\<rparr>)) r a (i + 1) True = (c', sh, Some m)"
        by (simp add: simps Let_def)
      have "downgrades r a c (set_line c i a ((line_at c i a)\<lparr>cl_state := MESI_S\<rparr>))"
        using False MESI_E by (intro downgrades_step) auto
      with 1(2) [OF _ _ refl MESI_E s] False show ?thesis by (auto intro: downgrades_trans)
    next
      case MESI_S
      with 1(5) False show ?thesis by (intro 1(3) [OF _ _ refl]) (simp_all add: simps Let_def)
    next
      case MESI_I
      with 1(5) False show ?thesis by (intro 1(4) [OF _ _ refl]) (simp_all add: simps Let_def)
    qed
  qed
qed

lemma snoop_read_end:
  "snoop_read c r a i shared = (c', sh, None) \<Longrightarrow>
     (\<forall>j. i \<le> j \<and> j < unat (co_num_caches c) \<and> j \<noteq> r \<longrightarrow>
        block_state c a j \<noteq> Some MESI_M \<and>
        block_state c' a j \<noteq> Some MESI_M \<and> block_state c' a j \<noteq> Some MESI_E \<and>
        (block_state c' a j = Some MESI_S \<longrightarrow> sh)) \<and> (shared \<longrightarrow> sh) \<and>
     (\<forall>j < i. block_state c' a j = block_state c a j)"
proof (induction c r a i shared rule: snoop_read.induct)
  case (1 c r a i shared)
  note simps = snoop_read.simps [of c r a i shared]
  have le: "i \<le> j \<longleftrightarrow> j = i \<or> i + 1 \<le> j" for j by auto
  show ?case
  proof (cases "unat (co_num_caches c) \<le> i")
    case True
    then show ?thesis using 1(5) by (auto simp: simps)
  next
    case lt: False
    show ?thesis
    proof (cases "i = r \<or> \<not> holds c i a")
      case True
      with 1(5) lt have s: "snoop_read c r a (i + 1) shared = (c', sh, None)" by (simp add: simps)
      from 1(1) [OF lt True s] True show ?thesis by (auto simp: le block_state_def)
    next
      case False
      then have bs: "block_state c a i = Some (cl_state (line_at c i a))" by (simp add: block_state_def)
      show ?thesis
      proof (cases "cl_state (line_at c i a)")
        case MESI_M
        with 1(5) lt False show ?thesis by (simp add: simps Let_def)
      next
        case MESI_E
        let ?c1 = "set_line c i a ((line_at c i a)\<lparr>cl_state := MESI_S\<rparr>)"
        from MESI_E 1(5) lt False have s: "snoop_read ?c1 r a (i + 1) True = (c', sh, None)"
          by (simp add: simps Let_def)
        have b1: "block_state ?c1 a = (block_state c a)(i := Some MESI_S)"
          using False by (subst block_state_set_line_same) (auto simp: holds_def)
        from 1(2) [OF lt _ refl MESI_E s] False bs MESI_E show ?thesis by (auto simp: le b1)
      next
        case MESI_S
        with 1(5) lt False have s: "snoop_read c r a (i + 1) True = (c', sh, None)" by (simp add: simps Let_def)
        from 1(3) [OF lt _ refl MESI_S s] False bs MESI_S show ?thesis by (auto simp: le)
      next
        case MESI_I
        with 1(5) lt False have s: "snoop_read c r a (i + 1) shared = (c', sh, None)" by (simp add: simps Let_def)
        from 1(4) [OF lt _ refl MESI_I s] False bs MESI_I show ?thesis by (auto simp: le)
      qed
    qed
  qed
qed
section \<open>The invariant\<close>

lemma coh_inv_update:
  assumes "coh_inv c" "sized c'" "co_num_caches c' = co_num_caches c"
    and other: "\<And>b j. b div 64 \<noteq> a div 64 \<Longrightarrow> block_state c' b j = block_state c b j \<or> block_state c' b j = None"
    and block: "swmr (unat (co_num_caches c)) (block_state c' a)"
  shows "coh_inv c'"
  unfolding coh_inv_def
proof (intro conjI allI)
  fix b
  show "swmr (unat (co_num_caches c')) (block_state c' b)"
  proof (cases "b div 64 = a div 64")
    case True
    then show ?thesis using block block_state_cong [of b a c'] assms(3) by simp
  next
    case False
    then show ?thesis
      using swmr_sub [of _ "block_state c b" "block_state c' b"] assms(1,3) other [OF False]
      by (simp add: coh_inv_def)
  qed
qed (rule assms(2))

lemma coh_invD:
  assumes "coh_inv c"
  shows "sized c" "swmr (unat (co_num_caches c)) (block_state c a)"
  using assms by (simp_all add: coh_inv_def)

lemma coh_init_inv: "coh_inv (coherence_init p n)"
  by (auto simp: coh_inv_def coherence_init_def sized_def swmr_def block_state_def holds_def line_at_def
      zero_line_def Let_def)

text \<open>A modified copy is the only one.\<close>

lemma swmr_modified:
  assumes "swmr n f" "f m = Some MESI_M" "m < n" "j < n" "j \<noteq> m"
  shows "f j = None"
  using assms unfolding swmr_def by (metis CoherenceState.distinct(3) option.distinct(1) option.inject)

lemma block_state_data [simp]:
  "block_state (set_line c r a ((line_at c r a)\<lparr>cl_data := d\<rparr>)) b = block_state c b"
proof (rule ext)
  fix j
  have "line_at c r b = line_at c r a"
    if "unat (cache_line_index b (cc_num_lines (co_caches c r))) = unat (cache_line_index a (cc_num_lines (co_caches c r)))"
    using that by (simp add: line_at_def)
  then show "block_state (set_line c r a ((line_at c r a)\<lparr>cl_data := d\<rparr>)) b j = block_state c b j"
    by (auto simp: block_state_def holds_def line_at_set_line)
qed

lemma read_miss_dirty:
  assumes inv: "coh_inv c" and r: "r < unat (co_num_caches c)"
    and s: "snoop_read c r a 0 False = (c', sh, Some m)"
  shows "m < unat (co_num_caches c)" "m \<noteq> r" "block_state c a m = Some MESI_M"
    "cl_data (line_at c' m a) = cl_data (line_at c m a)"
    "block_state c' a m = Some MESI_S" "\<And>j. j < unat (co_num_caches c) \<Longrightarrow> j \<noteq> m \<Longrightarrow> block_state c' a j = None"
proof -
  from snoop_read_stops [OF s] obtain c0 where
    m: "m < unat (co_num_caches c)" "m \<noteq> r" "block_state c' a m = Some MESI_S"
      "downgrades r a c c0" "block_state c0 a m = Some MESI_M" by blast
  then show "m < unat (co_num_caches c)" "m \<noteq> r" "block_state c' a m = Some MESI_S" by simp_all
  from m(4) have "block_state c0 a m = block_state c a m \<or> block_state c0 a m = Some MESI_S"
    unfolding downgrades_def by blast
  with m(5) show M: "block_state c a m = Some MESI_M" by auto
  note d = snoop_read_downgrades [OF s, unfolded downgrades_def]
  then show "cl_data (line_at c' m a) = cl_data (line_at c m a)" by blast
  fix j assume j: "j < unat (co_num_caches c)" "j \<noteq> m"
  have "block_state c a j = None" by (rule swmr_modified [OF coh_invD(2) [OF inv] M m(1) j])
  with d show "block_state c' a j = None" by (metis insert_iff option.distinct(1) singleton_iff)
qed

lemma read_miss_clean:
  assumes inv: "coh_inv c" and r: "r < unat (co_num_caches c)"
    and s: "snoop_read c r a 0 False = (c', sh, None)"
    and j: "j < unat (co_num_caches c)" "j \<noteq> r"
  shows "block_state c a j \<noteq> Some MESI_M" "block_state c' a j = None \<or> block_state c' a j = Some MESI_S \<and> sh"
proof -
  note e = snoop_read_end [OF s]
  show "block_state c a j \<noteq> Some MESI_M" using e j by blast
  have "block_state c' a j \<noteq> Some MESI_I"
    using snoop_read_downgrades [OF s, unfolded downgrades_def] coh_invD(2) [OF inv, of a] j(1)
    unfolding swmr_def by (metis CoherenceState.distinct(11) option.inject)
  moreover have "block_state c' a j \<noteq> Some MESI_M" "block_state c' a j \<noteq> Some MESI_E"
    "block_state c' a j = Some MESI_S \<longrightarrow> sh" using e j by blast+
  ultimately show "block_state c' a j = None \<or> block_state c' a j = Some MESI_S \<and> sh"
    by (cases "block_state c' a j"; cases "the (block_state c' a j)") auto
qed

lemma count_coh_inv [simp]: "coh_inv (count_access c i) = coh_inv c" "coh_inv (count_miss c) = coh_inv c"
  by (simp_all add: coh_inv_def)

text \<open>A read: hit, dirty copy elsewhere, or fill with zeros.\<close>

lemma coherence_read_cases [consumes 3]:
  assumes inv: "coh_inv c" and id: "cache_id < co_num_caches c"
    and rd: "coherence_read c cache_id a out = (hit, d, c')"
  obtains (hit) "holds c (unat cache_id) a" "hit" "d = cl_data (line_at c (unat cache_id) a)"
      "block_state c' = block_state c" "coh_inv c'" "\<And>j. line_at c' j = line_at c j"
  | (dirty) m where "\<not> holds c (unat cache_id) a" "hit" "m < unat (co_num_caches c)" "m \<noteq> unat cache_id"
      "block_state c a m = Some MESI_M" "d = cl_data (line_at c m a)" "coh_inv c'"
      "\<And>j. j < unat (co_num_caches c) \<Longrightarrow>
         block_state c' a j = (if j = m \<or> j = unat cache_id then Some MESI_S else None)"
  | (zero) "\<not> holds c (unat cache_id) a" "\<not> hit" "d = (\<lambda>_. 0)" "coh_inv c'"
      "\<And>j. j < unat (co_num_caches c) \<Longrightarrow> block_state c a j \<noteq> Some MESI_M"
proof -
  let ?r = "unat cache_id" and ?c1 = "count_access c (unat cache_id)"
  have r: "?r < unat (co_num_caches c)" using id by (simp add: word_less_nat_alt)
  have ng: "\<not> co_num_caches c \<le> cache_id" using id by simp
  show ?thesis
  proof (cases "holds c ?r a")
    case True
    with rd ng have "hit" "d = cl_data (line_at c ?r a)" "c' = ?c1"
      by (auto simp: coherence_read_def Let_def)
    with True inv show ?thesis by (intro hit) simp_all
  next
    case False
    obtain c3 sh res where s: "snoop_read (count_miss ?c1) ?r a 0 False = (c3, sh, res)" by (metis prod_cases3)
    have inv2: "coh_inv (count_miss ?c1)" using inv by simp
    have r2: "?r < unat (co_num_caches (count_miss ?c1))" using r by simp
    note dg = snoop_read_downgrades [OF s, unfolded downgrades_def]
    have frame: "sized c3" "co_num_caches c3 = co_num_caches c" using dg coh_invD(1) [OF inv] by simp_all
    have keep: "block_state c3 b j = block_state c b j \<or> block_state c3 b j = None"
      if "b div 64 \<noteq> a div 64" for b j using dg that by simp
    have fill: "coh_inv (set_line c4 ?r a \<lparr>cl_tag = a div 64, cl_state = st, cl_valid = True, cl_data = x\<rparr>)"
      if c4: "block_state c4 = block_state c3" "sized c4" "co_num_caches c4 = co_num_caches c"
        and sw: "swmr (unat (co_num_caches c)) ((block_state c3 a)(?r := Some st))" for c4 st x
    proof (rule coh_inv_update [OF inv, of _ a])
      show "block_state (set_line c4 ?r a \<lparr>cl_tag = a div 64, cl_state = st, cl_valid = True, cl_data = x\<rparr>) b j = block_state c b j
        \<or> block_state (set_line c4 ?r a \<lparr>cl_tag = a div 64, cl_state = st, cl_valid = True, cl_data = x\<rparr>) b j = None"
        if "b div 64 \<noteq> a div 64" for b j
        using keep [OF that, of j] block_state_set_line_other [OF _ that, of "\<lparr>cl_tag = a div 64, cl_state = st, cl_valid = True, cl_data = x\<rparr>" c4 ?r j]
        by (auto simp: c4(1))
    qed (use that sw in \<open>simp_all add: block_state_set_line_same\<close>)
    show ?thesis
    proof (cases res)
      case (Some m)
      note rm = read_miss_dirty [OF inv2 r2 s [unfolded Some]]
      let ?l = "\<lparr>cl_tag = a div 64, cl_state = MESI_S, cl_valid = True, cl_data = cl_data (line_at c3 m a)\<rparr>"
      let ?c5 = "dir_set_shared (c3\<lparr>co_writebacks := co_writebacks c3 + 1\<rparr>) (dir_lookup (count_miss ?c1) a)"
      have c5: "block_state ?c5 = block_state c3" "sized ?c5" "co_num_caches ?c5 = co_num_caches c"
        using frame by simp_all
      have c': "c' = set_line ?c5 ?r a ?l" and o: "hit" "d = cl_data (line_at c3 m a)"
        using rd ng False s Some by (auto simp: coherence_read_def Let_def)
      have sw: "swmr (unat (co_num_caches c)) ((block_state c3 a)(?r := Some MESI_S))"
      proof -
        have "block_state c3 a j = (if j = m then Some MESI_S else None)" if "j < unat (co_num_caches c)" for j
          using rm(5,6) that by simp
        then show ?thesis by (simp add: swmr_def)
      qed
      show ?thesis
      proof (rule dirty [of m])
        show "coh_inv c'" unfolding c' by (rule fill [OF c5 sw])
        show "block_state c' a j = (if j = m \<or> j = ?r then Some MESI_S else None)" if "j < unat (co_num_caches c)" for j
          using rm(5,6) that by (auto simp: c' block_state_set_line_same c5(1))
      qed (use False rm(1-4) o in simp_all)
    next
      case None
      note rm = read_miss_clean [OF inv2 r2 s [unfolded None]]
      let ?st = "if sh \<and> has_exclusive_mode (co_protocol c3) then MESI_S
                 else if has_exclusive_mode (co_protocol c3) then MESI_E else MESI_S"
      have c': "c' = dir_update (set_line c3 ?r a \<lparr>cl_tag = a div 64, cl_state = ?st, cl_valid = True, cl_data = \<lambda>_. 0\<rparr>) a ?st cache_id"
        and o: "\<not> hit" "d = (\<lambda>_. 0)"
        using rd ng False s None by (auto simp: coherence_read_def Let_def)
      have others: "block_state c3 a j = None \<or> block_state c3 a j = Some MESI_S \<and> sh" if "j < unat (co_num_caches c)" "j \<noteq> ?r" for j
        using rm(2) that by simp
      have "swmr (unat (co_num_caches c)) ((block_state c3 a)(?r := Some ?st))"
        unfolding swmr_def
      proof (intro conjI allI impI)
        fix i assume "i < unat (co_num_caches c)"
        then show "((block_state c3 a)(?r := Some ?st)) i \<noteq> Some MESI_I" using others [of i] by auto
      next
        fix i j assume "i < unat (co_num_caches c)" "j < unat (co_num_caches c)" "i \<noteq> j"
          "((block_state c3 a)(?r := Some ?st)) i \<noteq> None" "((block_state c3 a)(?r := Some ?st)) j \<noteq> None"
        then show "((block_state c3 a)(?r := Some ?st)) i = Some MESI_S"
          using others [of i] others [of j] by (auto split: if_splits)
      qed
      from fill [OF refl frame this] have "coh_inv c'" by (simp add: c' coh_inv_def)
      moreover have "block_state c a j \<noteq> Some MESI_M" if "j < unat (co_num_caches c)" for j
        using rm(1) [of j] that False by (cases "j = ?r") (simp_all add: block_state_def)
      ultimately show ?thesis using False o by (intro zero) simp_all
    qed
  qed
qed

text \<open>A write: the writer ends up with the only copy of the block.\<close>

lemma snoop_invalidate_frame:
  "co_num_caches (snoop_invalidate r a i c) = co_num_caches c" "sized (snoop_invalidate r a i c) = sized c"
  by (simp_all add: snoop_invalidate_def Let_def)

lemma snoop_invalidate_states:
  assumes "i \<noteq> r"
  shows "block_state (snoop_invalidate r a i c) a = (block_state c a)(i := None)"
    "b div 64 \<noteq> a div 64 \<Longrightarrow> block_state (snoop_invalidate r a i c) b j = block_state c b j \<or>
       block_state (snoop_invalidate r a i c) b j = None"
proof -
  let ?l = "(line_at c i a)\<lparr>cl_state := MESI_I, cl_valid := False\<rparr>"
  let ?c1 = "if cl_state (line_at c i a) = MESI_M
     then (set_line c r a ((line_at c r a)\<lparr>cl_data := cl_data (line_at c i a)\<rparr>))\<lparr>co_writebacks := co_writebacks c + 1\<rparr>
     else c"
  have same: "block_state ?c1 = block_state c" by (auto simp: fun_eq_iff)
  have eq: "snoop_invalidate r a i c = (if \<not> holds c i a then c
     else (set_line ?c1 i a ?l)\<lparr>invalidations := invalidations (set_line ?c1 i a ?l) + 1\<rparr>)"
    using assms by (simp add: snoop_invalidate_def Let_def)
  have none: "\<not> holds c i a \<Longrightarrow> (block_state c a)(i := None) = block_state c a"
    by (simp add: block_state_def fun_eq_iff)
  have tag: "holds c i a \<Longrightarrow> cl_tag ?l = a div 64" by (simp add: holds_def)
  show "block_state (snoop_invalidate r a i c) a = (block_state c a)(i := None)"
  proof (cases "holds c i a")
    case True
    have "block_state (set_line ?c1 i a ?l) a = (block_state ?c1 a)(i := None)"
      by (simp add: block_state_set_line_same [OF tag [OF True]])
    with True show ?thesis unfolding eq same by simp
  qed (simp add: eq none)
  show "block_state (snoop_invalidate r a i c) b j = block_state c b j \<or>
       block_state (snoop_invalidate r a i c) b j = None" if "b div 64 \<noteq> a div 64"
  proof (cases "holds c i a")
    case True
    from block_state_set_line_other [OF tag [OF True] that, of ?c1 i j] True
    show ?thesis unfolding eq same by simp
  qed (simp add: eq)
qed

lemma snoop_invalidate_all:
  fixes a :: u32
  assumes "r < unat (co_num_caches c)" "sized c"
  defines "c' \<equiv> for_range 0 (unat (co_num_caches c)) (snoop_invalidate r a) c"
  shows "co_num_caches c' = co_num_caches c" "sized c'"
    "\<And>j. j < unat (co_num_caches c) \<Longrightarrow> j \<noteq> r \<Longrightarrow> block_state c' a j = None"
    "\<And>b j. b div 64 \<noteq> a div 64 \<Longrightarrow> block_state c' b j = block_state c b j \<or> block_state c' b j = None"
proof -
  let ?I = "\<lambda>k d. co_num_caches d = co_num_caches c \<and> sized d \<and> (\<forall>j < k. j \<noteq> r \<longrightarrow> block_state d a j = None) \<and>
    (\<forall>b j. b div 64 \<noteq> a div 64 \<longrightarrow> block_state d b j = block_state c b j \<or> block_state d b j = None)"
  have all: "?I (unat (co_num_caches c)) c'"
    unfolding c'_def
  proof (rule for_range_invariant [where I = ?I])
    fix i d assume d: "?I i d"
    show "?I (Suc i) (snoop_invalidate r a i d)"
    proof (cases "i = r")
      case True
      then have "snoop_invalidate r a i d = d" by (simp add: snoop_invalidate_def)
      with d True show ?thesis by (auto simp: less_Suc_eq)
    next
      case False
      show ?thesis
      proof (intro conjI allI impI)
        fix b j assume ne: "b div 64 \<noteq> a div 64"
        have "block_state d b j = block_state c b j \<or> block_state d b j = None"
          by (rule d [THEN conjunct2, THEN conjunct2, THEN conjunct2, rule_format, OF ne])
        then show "block_state (snoop_invalidate r a i d) b j = block_state c b j \<or>
            block_state (snoop_invalidate r a i d) b j = None"
          using snoop_invalidate_states(2) [OF False ne, of d j] by auto
      qed (use d in \<open>auto simp: snoop_invalidate_frame snoop_invalidate_states(1) [OF False] less_Suc_eq\<close>)
    qed
  qed (use assms in auto)
  show "co_num_caches c' = co_num_caches c" "sized c'" using all by simp_all
  show "block_state c' a j = None" if "j < unat (co_num_caches c)" "j \<noteq> r" for j
    by (rule all [THEN conjunct2, THEN conjunct2, THEN conjunct1, rule_format, OF that])
  show "block_state c' b j = block_state c b j \<or> block_state c' b j = None" if "b div 64 \<noteq> a div 64" for b j
    by (rule all [THEN conjunct2, THEN conjunct2, THEN conjunct2, rule_format, OF that])
qed

lemma swmr_only:
  assumes "\<And>j. j < n \<Longrightarrow> j \<noteq> r \<Longrightarrow> f j = None" and "f r \<noteq> Some MESI_I"
  shows "swmr n f"
  unfolding swmr_def
proof (intro conjI allI impI)
  show "f i \<noteq> Some MESI_I" if "i < n" for i using assms(1) [OF that] assms(2) by (cases "i = r") auto
  show "f i = Some MESI_S" if "i < n" "j < n" "i \<noteq> j" "f i \<noteq> None" "f j \<noteq> None" for i j
    using assms(1) [OF that(1)] assms(1) [OF that(2)] that by (cases "i = r") auto
qed

lemma coherence_write_result:
  assumes inv: "coh_inv c" and id: "cache_id < co_num_caches c"
    and wr: "coherence_write c cache_id a d = (hit, c')"
  shows "coh_inv c' \<and> co_num_caches c' = co_num_caches c \<and> cl_data (line_at c' (unat cache_id) a) = d \<and>
    block_state c' a (unat cache_id) = Some MESI_M \<and>
    (\<forall>j < unat (co_num_caches c). j \<noteq> unat cache_id \<longrightarrow> block_state c' a j = None)"
proof -
  let ?r = "unat cache_id"
  let ?c1 = "count_access c ?r"
  let ?l = "line_at c ?r a"
  have r: "?r < unat (co_num_caches c)" using id by (simp add: word_less_nat_alt)
  have ng: "\<not> co_num_caches c \<le> cache_id" using id by simp
  have step: ?thesis if c': "block_state c' = block_state (set_line c2 ?r a l)" "line_at c' = line_at (set_line c2 ?r a l)"
      "sized c' = sized c2" "co_num_caches c' = co_num_caches c"
    and l: "cl_tag l = a div 64" "cl_valid l" "cl_state l = MESI_M" "cl_data l = d"
    and c2: "sized c2" "\<And>j. j < unat (co_num_caches c) \<Longrightarrow> j \<noteq> ?r \<Longrightarrow> block_state c2 a j = None"
      "\<And>b j. b div 64 \<noteq> a div 64 \<Longrightarrow> block_state c2 b j = block_state c b j \<or> block_state c2 b j = None" for c2 l
  proof -
    have new: "block_state c' a = (block_state c2 a)(?r := Some MESI_M)"
      by (simp add: c'(1) block_state_set_line_same [OF l(1)] l)
    have "coh_inv c'"
    proof (rule coh_inv_update [OF inv, of _ a])
      show "block_state c' b j = block_state c b j \<or> block_state c' b j = None" if "b div 64 \<noteq> a div 64" for b j
        using block_state_set_line_other [OF l(1) that, of c2 ?r j] c2(3) [OF that, of j] by (auto simp: c'(1))
      show "swmr (unat (co_num_caches c)) (block_state c' a)"
        using c2(2) by (intro swmr_only [where r = ?r]) (simp_all add: new)
    qed (use c' c2(1) in simp_all)
    then show ?thesis using c'(2,4) c2(2) by (simp add: new l)
  qed
  show ?thesis
  proof (cases "holds c ?r a \<and> (cl_state ?l = MESI_M \<or> cl_state ?l = MESI_E)")
    case True
    then have c': "c' = set_line ?c1 ?r a (?l\<lparr>cl_state := MESI_M, cl_data := d\<rparr>)"
      using wr ng by (simp add: coherence_write_def Let_def)
    have bs: "block_state c a ?r = Some (cl_state ?l)" using True by (simp add: block_state_def)
    have "block_state c a j = None" if "j < unat (co_num_caches c)" "j \<noteq> ?r" for j
      using coh_invD(2) [OF inv, of a] that r bs True unfolding swmr_def
      by (metis CoherenceState.distinct(3,7) option.distinct(1) option.inject)
    then show ?thesis
      using True coh_invD(1) [OF inv] by (intro step [of ?c1 "?l\<lparr>cl_state := MESI_M, cl_data := d\<rparr>"])
        (auto simp: c' holds_def)
  next
    case False
    let ?c2 = "for_range 0 (unat (co_num_caches c)) (snoop_invalidate ?r a) (count_miss ?c1)"
    let ?l2 = "\<lparr>cl_tag = a div 64, cl_state = MESI_M, cl_valid = True, cl_data = d\<rparr>"
    have c': "c' = dir_update (set_line ?c2 ?r a ?l2) a MESI_M cache_id"
      using wr ng False by (auto simp: coherence_write_def Let_def)
    note all = snoop_invalidate_all [where r = ?r and c = "count_miss ?c1" and a = a, simplified, OF r coh_invD(1) [OF inv]]
    show ?thesis using all by (intro step [of ?c2 ?l2]) (simp_all add: c')
  qed
qed

lemma coherence_snoop_inv:
  assumes inv: "coh_inv c"
  shows "coh_inv (coherence_snoop c cache_id a w)"
proof (cases "cache_id < co_num_caches c \<and> holds c (unat cache_id) a \<and> w")
  case False
  then show ?thesis using inv by (auto simp: coherence_snoop_def Let_def not_less)
next
  case True
  let ?i = "unat cache_id"
  let ?l = "line_at c ?i a"
  let ?l' = "?l\<lparr>cl_state := MESI_I, cl_valid := False\<rparr>"
  have tag: "cl_tag ?l' = a div 64" using True by (simp add: holds_def)
  have "coh_inv c'" if "block_state c' = block_state (set_line c ?i a ?l')" "sized c' = sized c" "co_num_caches c' = co_num_caches c" for c'
  proof (rule coh_inv_update [OF inv, of _ a])
    show "block_state c' b j = block_state c b j \<or> block_state c' b j = None" if "b div 64 \<noteq> a div 64" for b j
      using block_state_set_line_other [OF tag that, of c ?i j] by (simp add: \<open>block_state c' = _\<close>)
    show "swmr (unat (co_num_caches c)) (block_state c' a)"
      by (rule swmr_sub [OF coh_invD(2) [OF inv, of a]]) (simp add: that(1) block_state_set_line_same [OF tag])
  qed (use that coh_invD(1) [OF inv] in simp_all)
  moreover have "\<not> co_num_caches c \<le> cache_id" using True by (simp add: not_le)
  moreover have "cl_state ?l = MESI_I \<Longrightarrow> block_state c a ?i = Some MESI_I" using True by (simp add: block_state_def)
  ultimately show ?thesis using True inv by (auto simp: coherence_snoop_def Let_def)
qed

lemma coherence_read_num:
  "coherence_read c i a out = (hit, d, c') \<Longrightarrow> co_num_caches c' = co_num_caches c"
  by (auto simp: coherence_read_def Let_def dest!: snoop_read_downgrades
      simp: downgrades_def split: if_splits prod.splits option.splits)
section \<open>Properties\<close>

text \<open>The states after a write and a read by another cache: both share the block.\<close>

lemma write_then_read:
  assumes inv: "coh_inv c" and id: "w < co_num_caches c" "r < co_num_caches c" and diff: "r \<noteq> w"
    and run: "coherence_write c w a d = (hit1, c1)" "coherence_read c1 r a out = (hit2, x, c2)"
  shows "coh_inv c2 \<and> x = d \<and> co_num_caches c2 = co_num_caches c \<and> (\<forall>j < unat (co_num_caches c).
      block_state c2 a j = (if j = unat w \<or> j = unat r then Some MESI_S else None))"
proof -
  note res = coherence_write_result [OF inv id(1) run(1)]
  have u: "unat w < unat (co_num_caches c)" "unat r < unat (co_num_caches c)"
    using id by (simp_all add: word_less_nat_alt)
  have ne: "unat r \<noteq> unat w" using diff by (simp add: word_unat_eq_iff)
  have inv1: "coh_inv c1" and r1: "r < co_num_caches c1" using res id by simp_all
  have "block_state c1 a (unat r) = None" using res u ne by blast
  then have nr: "\<not> holds c1 (unat r) a" by (auto simp: block_state_def split: if_splits)
  have num: "co_num_caches c2 = co_num_caches c" using coherence_read_num [OF run(2)] res by simp
  show ?thesis
    using inv1 r1 run(2)
  proof (cases rule: coherence_read_cases)
    case (dirty m)
    have "m = unat w" using dirty(3,5) res by (metis option.distinct(1))
    with dirty res num show ?thesis by simp
  qed (use nr res u in auto)
qed

inductive coh_reachable :: "CoherenceController \<Rightarrow> bool" where
  init: "coh_reachable (coherence_init p n)"
| rd: "coh_reachable c \<Longrightarrow> coherence_read c i a out = (hit, d, c') \<Longrightarrow> coh_reachable c'"
| wr: "coh_reachable c \<Longrightarrow> coherence_write c i a d = (hit, c') \<Longrightarrow> coh_reachable c'"
| snoop: "coh_reachable c \<Longrightarrow> coh_reachable (coherence_snoop c i a w)"

lemma coh_reachable_inv: "coh_reachable c \<Longrightarrow> coh_inv c"
proof (induction rule: coh_reachable.induct)
  case (rd c i a out hit d c')
  then show ?case
    by (cases "i < co_num_caches c") (auto elim: coherence_read_cases simp: coherence_read_def not_less)
next
  case (wr c i a d hit c')
  then show ?case
    using coherence_write_result [of c i a d hit c']
    by (cases "i < co_num_caches c") (auto simp: coherence_write_def not_less)
qed (auto intro: coh_init_inv coherence_snoop_inv)

text \<open>
  C2: Single writer or multiple readers, for every protocol and number of caches: in every state
  that reads, writes and snoops can reach, two caches that hold the same block both hold it in the
  shared state, so a modified or exclusive copy is the only one.
\<close>

theorem coherence_swmr:
  assumes "coh_reachable c" and "i < unat (co_num_caches c)" and "j < unat (co_num_caches c)" and "i \<noteq> j"
    and "holds c i a" and "holds c j a"
  shows "cl_state (line_at c i a) = MESI_S \<and> cl_state (line_at c j a) = MESI_S"
  using coh_invD(2) [OF coh_reachable_inv [OF assms(1)], of a] assms(2-)
  unfolding swmr_def block_state_def by (metis option.distinct(1) option.inject)

theorem coherence_swmr_witness:
  "\<exists>hit1 c1 hit2 x c2. coherence_write (coherence_init PROTO_MESI 4) 0 0x80 (\<lambda>_. 7) = (hit1, c1)
     \<and> coherence_read c1 1 0x80 (\<lambda>_. 0) = (hit2, x, c2)
     \<and> cl_state (line_at c2 0 0x80) = MESI_S \<and> cl_state (line_at c2 1 0x80) = MESI_S"
proof -
  obtain hit1 c1 where w: "coherence_write (coherence_init PROTO_MESI 4) 0 0x80 (\<lambda>_. 7) = (hit1, c1)" by fastforce
  obtain hit2 x c2 where r: "coherence_read c1 1 0x80 (\<lambda>_. 0) = (hit2, x, c2)" by (metis prod_cases3)
  have n: "0 < co_num_caches (coherence_init PROTO_MESI 4)" "1 < co_num_caches (coherence_init PROTO_MESI 4)"
    "unat (co_num_caches (coherence_init PROTO_MESI 4)) = 4"
    by (simp_all add: coherence_init_def COHERENCE_MAX_CACHES_def)
  note st = write_then_read [OF coh_init_inv n(1,2) _ w r, simplified n(3)]
  then have "block_state c2 0x80 0 = Some MESI_S" "block_state c2 0x80 1 = Some MESI_S" by simp_all
  then have h: "holds c2 0 0x80" "holds c2 1 0x80" by (auto simp: block_state_def split: if_splits)
  have "coh_reachable c2" using coh_reachable.init w r by (blast intro: coh_reachable.intros)
  from coherence_swmr [OF this _ _ _ h] st n w r show ?thesis by auto
qed

text \<open>
  C7: After a write, every cache that reads the block next gets the written data, whichever cache
  wrote it and whatever was cached before.
\<close>

theorem coherence_read_after_write:
  assumes "coh_reachable c" and id: "w < co_num_caches c" "r < co_num_caches c"
    and wr: "coherence_write c w a d = (hit, c1)" and rd: "coherence_read c1 r a out = (hit', x, c2)"
  shows "hit' \<and> x = d"
proof -
  note res = coherence_write_result [OF coh_reachable_inv [OF assms(1)] id(1) wr]
  have w: "unat w < unat (co_num_caches c)" using id by (simp add: word_less_nat_alt)
  have inv: "coh_inv c1" and r1: "r < co_num_caches c1" using res id by simp_all
  have hw: "holds c1 (unat w) a" using res by (auto simp: block_state_def split: if_splits)
  show ?thesis
    using inv r1 rd
  proof (cases rule: coherence_read_cases)
    case hit
    have "unat r = unat w"
      using res hit(1) id(2) by (auto simp: block_state_def word_less_nat_alt split: if_splits)
    then show ?thesis using hit res by simp
  next
    case (dirty m)
    have "m = unat w" using dirty(3,5) res by (metis option.distinct(1))
    then show ?thesis using dirty res by simp
  next
    case zero
    then show ?thesis using res w by auto
  qed
qed

theorem coherence_read_after_write_witness:
  "\<exists>c1 c2 hit. coherence_write (coherence_init PROTO_MESI 4) 1 0x80 (\<lambda>_. 7) = (hit, c1)
     \<and> coherence_read c1 3 0x80 (\<lambda>_. 0) = (True, \<lambda>_. 7, c2)"
proof -
  obtain hit c1 where w: "coherence_write (coherence_init PROTO_MESI 4) 1 0x80 (\<lambda>_. 7) = (hit, c1)" by fastforce
  obtain hit' x c2 where r: "coherence_read c1 3 0x80 (\<lambda>_. 0) = (hit', x, c2)" by (metis prod_cases3)
  have "1 < co_num_caches (coherence_init PROTO_MESI 4)" "3 < co_num_caches (coherence_init PROTO_MESI 4)"
    by (simp_all add: coherence_init_def COHERENCE_MAX_CACHES_def)
  from coherence_read_after_write [OF coh_reachable.init this w r] w r show ?thesis by auto
qed

text \<open>
  A read that misses and finds no modified copy returns a block of zeros, whatever the shared
  copies of the other caches contain; so the third cache to read a written block gets zeros, not
  the data.
\<close>

theorem coherence_third_reader_zero:
  assumes "coh_reachable c" and id: "w < co_num_caches c" "r < co_num_caches c" "s < co_num_caches c"
    and diff: "r \<noteq> w" "s \<noteq> w" "s \<noteq> r"
    and run: "coherence_write c w a d = (hit1, c1)" "coherence_read c1 r a out = (hit2, x, c2)"
      "coherence_read c2 s a out' = (hit3, y, c3)"
  shows "x = d \<and> \<not> hit3 \<and> y = (\<lambda>_. 0) \<and> holds c2 (unat w) a \<and> holds c2 (unat r) a"
proof -
  have u: "unat w < unat (co_num_caches c)" "unat r < unat (co_num_caches c)" "unat s < unat (co_num_caches c)"
    using id by (simp_all add: word_less_nat_alt)
  have ne: "unat r \<noteq> unat w" "unat s \<noteq> unat w" "unat s \<noteq> unat r" using diff by (simp_all add: word_unat_eq_iff)
  note mid = write_then_read [OF coh_reachable_inv [OF assms(1)] id(1,2) diff(1) run(1,2)]
  have "block_state c2 a (unat w) = Some MESI_S" "block_state c2 a (unat r) = Some MESI_S"
    "block_state c2 a (unat s) = None" using mid u ne by auto
  then have h: "holds c2 (unat w) a" "holds c2 (unat r) a" "\<not> holds c2 (unat s) a"
    by (auto simp: block_state_def split: if_splits)
  have "coh_inv c2" "s < co_num_caches c2" using mid id(3) by simp_all
  then have "\<not> hit3 \<and> y = (\<lambda>_. 0)"
    using run(3)
  proof (cases rule: coherence_read_cases)
    case (dirty m)
    then show ?thesis using mid by (auto split: if_splits)
  qed (use h in auto)
  with mid h show ?thesis by simp
qed

theorem coherence_third_reader_zero_witness:
  "\<exists>hit1 c1 hit2 c2 c3. coherence_write (coherence_init PROTO_MESI 4) 0 0x80 (\<lambda>_. 7) = (hit1, c1)
     \<and> coherence_read c1 1 0x80 (\<lambda>_. 0) = (hit2, \<lambda>_. 7, c2)
     \<and> coherence_read c2 2 0x80 (\<lambda>_. 1) = (False, \<lambda>_. 0, c3)"
proof -
  obtain hit1 c1 where w: "coherence_write (coherence_init PROTO_MESI 4) 0 0x80 (\<lambda>_. 7) = (hit1, c1)" by fastforce
  obtain hit2 x c2 where r: "coherence_read c1 1 0x80 (\<lambda>_. 0) = (hit2, x, c2)" by (metis prod_cases3)
  obtain hit3 y c3 where s: "coherence_read c2 2 0x80 (\<lambda>_. 1) = (hit3, y, c3)" by (metis prod_cases3)
  have n: "0 < co_num_caches (coherence_init PROTO_MESI 4)" "1 < co_num_caches (coherence_init PROTO_MESI 4)"
    "2 < co_num_caches (coherence_init PROTO_MESI 4)"
    by (simp_all add: coherence_init_def COHERENCE_MAX_CACHES_def)
  from coherence_third_reader_zero [OF coh_reachable.init n _ _ _ w r s] w r s show ?thesis by auto
qed

end
