(* ===== verification/VirtMem.thy ===== *)
theory VirtMem
  imports Replacement
begin

text \<open>
  Paging and the translation buffer of \<^verbatim>\<open>mini-computer-arch/src/virtual_memory.c\<close>: the page table
  with its frame bitmap and its first-in first-out queue of frames, demand allocation and eviction,
  translation, and the TLB with its three replacement policies.  The value of \<open>rand\<close> (that
  of its last call in the insertion loop) is a parameter.  \<open>None\<close> is a division by a page size of 0.
\<close>

unbundle bit_operations_syntax

section \<open>Page tables\<close>

definition VM_MAX_PAGES :: u32 where "VM_MAX_PAGES = 65536"
definition TLB_MAX_ENTRIES :: u32 where "TLB_MAX_ENTRIES = 64"
definition PHYSICAL_MEMORY_PAGES :: u32 where "PHYSICAL_MEMORY_PAGES = 16384"

record PageTableEntry =
  pe_valid :: bool
  pe_frame_number :: u32
  pe_present :: bool
  pe_dirty :: bool
  pe_accessed :: bool

record PageTable =
  pt_entries :: "PageTableEntry arr"
  pt_num_pages :: u32
  pt_page_size :: u32
  pt_frame_bitmap :: "u32 arr"
  pt_free_frames :: u32
  pt_fifo_queue :: "u32 arr"
  pt_fifo_head :: u32
  pt_fifo_count :: u32

definition zero_entry :: PageTableEntry where
  "zero_entry = \<lparr>pe_valid = False, pe_frame_number = 0, pe_present = False, pe_dirty = False, pe_accessed = False\<rparr>"

definition vm_init :: "u32 \<Rightarrow> u32 \<Rightarrow> PageTable" where
  "vm_init num page_size = \<lparr>pt_entries = \<lambda>_. zero_entry,
     pt_num_pages = (if num > VM_MAX_PAGES then VM_MAX_PAGES else num), pt_page_size = page_size,
     pt_frame_bitmap = \<lambda>_. 0, pt_free_frames = PHYSICAL_MEMORY_PAGES, pt_fifo_queue = \<lambda>_. 0,
     pt_fifo_head = 0, pt_fifo_count = 0\<rparr>"

definition vm_get_vpn :: "u32 \<Rightarrow> u32 \<Rightarrow> u32" where
  "vm_get_vpn va page_size = va div page_size"

definition vm_get_offset :: "u32 \<Rightarrow> u32 \<Rightarrow> u32" where
  "vm_get_offset va page_size = va mod page_size"

section \<open>Frames\<close>

text \<open>The test, the setting and the clearing of a bit of the bitmap.\<close>

definition frame_used :: "PageTable \<Rightarrow> nat \<Rightarrow> bool" where
  "frame_used pt f \<longleftrightarrow> pt_frame_bitmap pt (f div 32) AND push_bit (f mod 32) 1 \<noteq> 0"

definition mark_frame :: "PageTable \<Rightarrow> nat \<Rightarrow> PageTable" where
  "mark_frame pt f = pt\<lparr>pt_frame_bitmap := (pt_frame_bitmap pt)(f div 32 :=
     pt_frame_bitmap pt (f div 32) OR push_bit (f mod 32) 1)\<rparr>"

definition clear_frame :: "PageTable \<Rightarrow> nat \<Rightarrow> PageTable" where
  "clear_frame pt f = pt\<lparr>pt_frame_bitmap := (pt_frame_bitmap pt)(f div 32 :=
     pt_frame_bitmap pt (f div 32) AND NOT (push_bit (f mod 32) 1))\<rparr>"

definition take_frame :: "PageTable \<Rightarrow> u32 \<times> PageTable" where
  "take_frame pt =
     (case find_index (\<lambda>i. \<not> frame_used pt i) 0 (unat PHYSICAL_MEMORY_PAGES) of
        Some i \<Rightarrow> (of_nat i, (mark_frame pt i)\<lparr>pt_free_frames := pt_free_frames pt - 1\<rparr>)
      | None \<Rightarrow> (0, pt))"

text \<open>The frame at the head of the queue loses its page and goes to the tail.\<close>

definition unmap_frame :: "PageTable \<Rightarrow> u32 \<Rightarrow> PageTable" where
  "unmap_frame pt victim =
     (case find_index (\<lambda>i. pe_present (pt_entries pt i) \<and> pe_frame_number (pt_entries pt i) = victim)
             0 (unat (pt_num_pages pt)) of
        Some i \<Rightarrow> pt\<lparr>pt_entries := (pt_entries pt)(i :=
                      (pt_entries pt i)\<lparr>pe_present := False, pe_valid := False\<rparr>)\<rparr>
      | None \<Rightarrow> pt)"

definition fifo_push :: "PageTable \<Rightarrow> u32 \<Rightarrow> PageTable" where
  "fifo_push pt frame =
     (if pt_fifo_count pt < PHYSICAL_MEMORY_PAGES
      then pt\<lparr>pt_fifo_queue := (pt_fifo_queue pt)
                (unat ((pt_fifo_head pt + pt_fifo_count pt) mod PHYSICAL_MEMORY_PAGES) := frame),
              pt_fifo_count := pt_fifo_count pt + 1\<rparr>
      else pt)"

definition evict_frame :: "PageTable \<Rightarrow> u32 \<times> PageTable" where
  "evict_frame pt =
     (let victim = pt_fifo_queue pt (unat (pt_fifo_head pt));
          p1 = pt\<lparr>pt_fifo_head := (pt_fifo_head pt + 1) mod PHYSICAL_MEMORY_PAGES,
                  pt_fifo_count := pt_fifo_count pt - 1\<rparr>
      in (victim, fifo_push (unmap_frame p1 victim) victim))"

definition vm_allocate_frame :: "PageTable \<Rightarrow> u32 \<times> PageTable" where
  "vm_allocate_frame pt = (if pt_free_frames pt = 0 then evict_frame pt else take_frame pt)"

definition vm_handle_page_fault :: "PageTable \<Rightarrow> u32 \<times> PageTable" where
  "vm_handle_page_fault pt = (if pt_free_frames pt > 0 then vm_allocate_frame pt else evict_frame pt)"

definition vm_free_frame :: "PageTable \<Rightarrow> u32 \<Rightarrow> PageTable" where
  "vm_free_frame pt frame =
     (if frame \<ge> PHYSICAL_MEMORY_PAGES then pt
      else if frame_used pt (unat frame)
           then (clear_frame pt (unat frame))\<lparr>pt_free_frames := pt_free_frames pt + 1\<rparr>
           else pt)"

section \<open>Translation\<close>

definition install_frame :: "PageTable \<Rightarrow> nat \<Rightarrow> u32 \<Rightarrow> PageTable" where
  "install_frame pt vpn frame =
     fifo_push (pt\<lparr>pt_entries := (pt_entries pt)(vpn := \<lparr>pe_valid = True, pe_frame_number = frame,
       pe_present = True, pe_dirty = False, pe_accessed = True\<rparr>)\<rparr>) frame"

definition vm_translate :: "PageTable \<Rightarrow> u32 \<Rightarrow> (u32 \<times> PageTable) option" where
  "vm_translate pt va =
     (if pt_page_size pt = 0 then None
      else
        let vpn = vm_get_vpn va (pt_page_size pt); offset = vm_get_offset va (pt_page_size pt); v = unat vpn
        in if vpn \<ge> pt_num_pages pt then Some (0xFFFFFFFF, pt)
           else
             let p1 = (if pe_present (pt_entries pt v) then pt
                       else case vm_allocate_frame pt of
                              (frame, q) \<Rightarrow>
                                (case (if frame \<ge> PHYSICAL_MEMORY_PAGES then vm_handle_page_fault q else (frame, q)) of
                                   (frame', q') \<Rightarrow> install_frame q' v frame'));
                 p2 = p1\<lparr>pt_entries := (pt_entries p1)(v := (pt_entries p1 v)\<lparr>pe_accessed := True\<rparr>)\<rparr>
             in Some (pe_frame_number (pt_entries p2 v) * pt_page_size p2 + offset, p2))"

section \<open>The translation buffer\<close>

datatype TLBReplacementPolicy = TLB_LRU | TLB_FIFO | TLB_RANDOM

record TLBEntry =
  te_valid :: bool
  te_vpn :: u32
  te_pfn :: u32
  te_lru_counter :: u64

record TLB =
  tlb_entries :: "TLBEntry arr"
  tlb_size :: u32
  tlb_policy :: TLBReplacementPolicy
  tlb_global_counter :: u64
  tlb_hits :: u64
  tlb_misses :: u64

definition tlb_init :: "u32 \<Rightarrow> TLBReplacementPolicy \<Rightarrow> TLB" where
  "tlb_init n policy = \<lparr>tlb_entries = \<lambda>_. \<lparr>te_valid = False, te_vpn = 0, te_pfn = 0, te_lru_counter = 0\<rparr>,
     tlb_size = (if n > TLB_MAX_ENTRIES then TLB_MAX_ENTRIES else n), tlb_policy = policy,
     tlb_global_counter = 0, tlb_hits = 0, tlb_misses = 0\<rparr>"

definition tlb_find :: "TLB \<Rightarrow> u32 \<Rightarrow> nat option" where
  "tlb_find t vpn = find_index (\<lambda>i. te_valid (tlb_entries t i) \<and> te_vpn (tlb_entries t i) = vpn) 0 (unat (tlb_size t))"

definition tlb_lookup :: "TLB \<Rightarrow> u32 \<Rightarrow> u32 \<Rightarrow> bool \<times> u32 \<times> TLB" where
  "tlb_lookup t0 vpn pfn =
     (let t = t0\<lparr>tlb_global_counter := tlb_global_counter t0 + 1\<rparr>
      in case tlb_find t vpn of
           Some i \<Rightarrow> (True, te_pfn (tlb_entries t i),
             t\<lparr>tlb_entries := (tlb_entries t)(i := (tlb_entries t i)\<lparr>te_lru_counter := tlb_global_counter t\<rparr>),
               tlb_hits := tlb_hits t + 1\<rparr>)
         | None \<Rightarrow> (False, pfn, t\<lparr>tlb_misses := tlb_misses t + 1\<rparr>))"

text \<open>The loop of the insertion: the first free entry, else the choice of the policy.\<close>

definition tlb_victim :: "TLB \<Rightarrow> u32 \<Rightarrow> nat" where
  "tlb_victim t r =
     (case find_index (\<lambda>i. \<not> te_valid (tlb_entries t i)) 0 (unat (tlb_size t)) of
        Some i \<Rightarrow> i
      | None \<Rightarrow>
          if tlb_size t = 0 then 0
          else (case tlb_policy t of
                  TLB_LRU \<Rightarrow> argmin_from (\<lambda>i. te_lru_counter (tlb_entries t i)) 0 1 (unat (tlb_size t))
                | TLB_FIFO \<Rightarrow> unat (ucast (tlb_global_counter t mod ucast (tlb_size t)) :: u32)
                | TLB_RANDOM \<Rightarrow> unat (r mod tlb_size t)))"

definition tlb_insert :: "TLB \<Rightarrow> u32 \<Rightarrow> u32 \<Rightarrow> u32 \<Rightarrow> TLB" where
  "tlb_insert t r vpn pfn = t\<lparr>tlb_entries := (tlb_entries t)(tlb_victim t r :=
     \<lparr>te_valid = True, te_vpn = vpn, te_pfn = pfn, te_lru_counter = tlb_global_counter t\<rparr>)\<rparr>"

definition tlb_flush :: "TLB \<Rightarrow> TLB" where
  "tlb_flush t = for_range 0 (unat (tlb_size t)) (\<lambda>i s. s\<lparr>tlb_entries := (tlb_entries s)(i :=
     \<lparr>te_valid = False, te_vpn = 0, te_pfn = 0, te_lru_counter = 0\<rparr>)\<rparr>) (t\<lparr>tlb_hits := 0, tlb_misses := 0\<rparr>)"

section \<open>The translation buffer as a victim choice\<close>

lemma fifo_index_less: "0 < unat (m :: u32) \<Longrightarrow> unat (ucast ((g :: u64) mod ucast m) :: u32) < unat m"
proof -
  assume m: "0 < unat m"
  have l: "unat (g mod ucast m) < unat m" by (rule u64_mod_ucast [OF m])
  then have "unat (ucast (g mod ucast m) :: u32) = unat (g mod ucast m)"
    using unat_less_u32 [of m] by (simp add: unsigned_ucast_eq take_bit_nat_eq_self_iff)
  with l show ?thesis by simp
qed

interpretation tlb: victim_choice "\<lambda>_. True" "\<lambda>(t, r). unat (tlb_size t)"
  "\<lambda>(t, r) i. te_valid (tlb_entries t i)" "\<lambda>(t, r). tlb_victim t r"
proof unfold_locales
  fix x :: "TLB \<times> u32"
  obtain t r where x: "x = (t, r)" by (cases x)
  show "(case x of (t, r) \<Rightarrow> tlb_victim t r) < (case x of (t, r) \<Rightarrow> unat (tlb_size t))"
    if "0 < (case x of (t, r) \<Rightarrow> unat (tlb_size t))"
    using that argmin_from_zero [of "unat (tlb_size t)"] fifo_index_less [of "tlb_size t"]
    by (auto simp: x tlb_victim_def find_index_Some unat_mod split: option.splits TLBReplacementPolicy.splits)
  show "\<not> (case x of (t, r) \<Rightarrow> \<lambda>i. te_valid (tlb_entries t i)) (case x of (t, r) \<Rightarrow> tlb_victim t r)"
    if "\<exists>i < (case x of (t, r) \<Rightarrow> unat (tlb_size t)). \<not> (case x of (t, r) \<Rightarrow> \<lambda>i. te_valid (tlb_entries t i)) i"
    using that by (auto simp: x tlb_victim_def find_index_Some find_index_None split: option.splits)
qed

lemmas tlb_victim_in_range = tlb.victim_in_range [of "(t, r)" for t r, simplified]

text \<open>The entry a lookup reads after an insertion, when the page was not in the buffer.\<close>

lemma tlb_find_insert:
  assumes "tlb_find t vpn = None" "0 < unat (tlb_size t)"
  shows "tlb_find (tlb_insert t r vpn pfn) vpn = Some (tlb_victim t r)"
  using assms tlb_victim_in_range [of t r] by (auto simp: tlb_find_def tlb_insert_def find_index_Some find_index_None)

section \<open>Frames and pages\<close>

definition bm_used :: "PageTable \<Rightarrow> nat set" where
  "bm_used pt = {f. f < 16384 \<and> frame_used pt f}"

text \<open>
  The invariant of demand paging: a present page has a frame of its own that is marked used, the
  queue holds frame numbers, and the free counter counts the unmarked frames.
\<close>

definition vm_inv :: "PageTable \<Rightarrow> bool" where
  "vm_inv pt \<longleftrightarrow>
     (\<forall>v < unat (pt_num_pages pt). pe_present (pt_entries pt v) \<longrightarrow>
        unat (pe_frame_number (pt_entries pt v)) \<in> bm_used pt) \<and>
     (\<forall>u < unat (pt_num_pages pt). \<forall>v < unat (pt_num_pages pt). pe_present (pt_entries pt u) \<longrightarrow>
        pe_present (pt_entries pt v) \<longrightarrow>
        pe_frame_number (pt_entries pt u) = pe_frame_number (pt_entries pt v) \<longrightarrow> u = v) \<and>
     (\<forall>i < 16384. unat (pt_fifo_queue pt i) < 16384) \<and> unat (pt_fifo_head pt) < 16384 \<and>
     unat (pt_free_frames pt) + card (bm_used pt) = 16384"

lemma frame_used_bit: "frame_used pt f \<longleftrightarrow> bit (pt_frame_bitmap pt (f div 32)) (f mod 32)"
  unfolding frame_used_def and_pow2_eq_0 by simp

lemma frame_used_mark: "frame_used (mark_frame pt f) g \<longleftrightarrow> g = f \<or> frame_used pt g"
proof -
  have "g = f \<longleftrightarrow> g div 32 = f div 32 \<and> g mod 32 = f mod 32" by (metis div_mult_mod_eq)
  then show ?thesis by (auto simp: frame_used_bit mark_frame_def bit_simps)
qed

lemma frame_used_clear: "frame_used (clear_frame pt f) g \<longleftrightarrow> g \<noteq> f \<and> frame_used pt g"
proof -
  have "g = f \<longleftrightarrow> g div 32 = f div 32 \<and> g mod 32 = f mod 32" by (metis div_mult_mod_eq)
  then show ?thesis by (auto simp: frame_used_bit clear_frame_def bit_simps)
qed

lemma frame_used_frame [simp]:
  "frame_used (pt\<lparr>pt_free_frames := n\<rparr>) = frame_used pt" "frame_used (pt\<lparr>pt_entries := e\<rparr>) = frame_used pt"
  "frame_used (pt\<lparr>pt_fifo_head := h\<rparr>) = frame_used pt" "frame_used (pt\<lparr>pt_fifo_count := k\<rparr>) = frame_used pt"
  "frame_used (pt\<lparr>pt_fifo_queue := q\<rparr>) = frame_used pt"
  by (simp_all add: frame_used_def fun_eq_iff)

lemma bm_used_frame [simp]:
  "bm_used (pt\<lparr>pt_free_frames := n\<rparr>) = bm_used pt" "bm_used (pt\<lparr>pt_entries := e\<rparr>) = bm_used pt"
  "bm_used (pt\<lparr>pt_fifo_head := h\<rparr>) = bm_used pt" "bm_used (pt\<lparr>pt_fifo_count := k\<rparr>) = bm_used pt"
  "bm_used (pt\<lparr>pt_fifo_queue := q\<rparr>) = bm_used pt"
  by (simp_all add: bm_used_def)

lemma mark_frame_fields [simp]:
  "pt_entries (mark_frame pt f) = pt_entries pt" "pt_num_pages (mark_frame pt f) = pt_num_pages pt"
  "pt_page_size (mark_frame pt f) = pt_page_size pt" "pt_fifo_queue (mark_frame pt f) = pt_fifo_queue pt"
  "pt_fifo_head (mark_frame pt f) = pt_fifo_head pt" "pt_free_frames (mark_frame pt f) = pt_free_frames pt"
  by (simp_all add: mark_frame_def)

lemma fifo_push_fields [simp]:
  "pt_entries (fifo_push pt f) = pt_entries pt" "pt_num_pages (fifo_push pt f) = pt_num_pages pt"
  "pt_page_size (fifo_push pt f) = pt_page_size pt" "bm_used (fifo_push pt f) = bm_used pt"
  "pt_fifo_head (fifo_push pt f) = pt_fifo_head pt" "pt_free_frames (fifo_push pt f) = pt_free_frames pt"
  by (simp_all add: fifo_push_def)

lemma fifo_push_queue:
  "\<forall>i < 16384. unat (pt_fifo_queue pt i) < 16384 \<Longrightarrow> unat f < 16384 \<Longrightarrow>
     \<forall>i < 16384. unat (pt_fifo_queue (fifo_push pt f) i) < 16384"
  by (simp add: fifo_push_def)

lemma unmap_frame_fields [simp]:
  "pt_num_pages (unmap_frame pt f) = pt_num_pages pt" "pt_page_size (unmap_frame pt f) = pt_page_size pt"
  "pt_fifo_queue (unmap_frame pt f) = pt_fifo_queue pt" "pt_fifo_head (unmap_frame pt f) = pt_fifo_head pt"
  "pt_free_frames (unmap_frame pt f) = pt_free_frames pt" "bm_used (unmap_frame pt f) = bm_used pt"
  by (simp_all add: unmap_frame_def split: option.splits)

lemma unmap_frame_entries:
  "pe_frame_number (pt_entries (unmap_frame pt f) v) = pe_frame_number (pt_entries pt v)"
  "pe_present (pt_entries (unmap_frame pt f) v) \<Longrightarrow> pe_present (pt_entries pt v)"
  by (auto simp: unmap_frame_def split: option.splits if_splits)

lemma unmap_frame_gone:
  assumes "vm_inv pt" "v < unat (pt_num_pages pt)" "pe_present (pt_entries (unmap_frame pt f) v)"
  shows "pe_frame_number (pt_entries pt v) \<noteq> f"
proof
  assume f: "pe_frame_number (pt_entries pt v) = f"
  have p: "pe_present (pt_entries pt v)" using assms(3) by (rule unmap_frame_entries(2))
  then have "find_index (\<lambda>i. pe_present (pt_entries pt i) \<and> pe_frame_number (pt_entries pt i) = f)
      0 (unat (pt_num_pages pt)) \<noteq> None"
    using f assms(2) by (auto simp: find_index_None)
  then obtain i where i: "find_index (\<lambda>i. pe_present (pt_entries pt i) \<and> pe_frame_number (pt_entries pt i) = f)
      0 (unat (pt_num_pages pt)) = Some i" by blast
  then have "i < unat (pt_num_pages pt)" "pe_present (pt_entries pt i)" "pe_frame_number (pt_entries pt i) = f"
    by (auto simp: find_index_Some)
  then have "i = v" using assms(1,2) p f unfolding vm_inv_def by blast
  then show False using assms(3) i by (simp add: unmap_frame_def)
qed

text \<open>Allocation, with or without eviction, hands out a frame that no page has.\<close>

definition fresh_frame :: "PageTable \<Rightarrow> u32 \<Rightarrow> bool" where
  "fresh_frame pt f \<longleftrightarrow> unat f \<in> bm_used pt \<and>
     (\<forall>v < unat (pt_num_pages pt). pe_present (pt_entries pt v) \<longrightarrow> pe_frame_number (pt_entries pt v) \<noteq> f)"

lemma finite_bm_used: "finite (bm_used pt)"
  by (rule finite_subset [of _ "{..<16384}"]) (auto simp: bm_used_def)

lemma take_frame_fresh:
  assumes inv: "vm_inv pt" and free: "pt_free_frames pt \<noteq> 0" and t: "take_frame pt = (f, pt')"
  shows "vm_inv pt' \<and> fresh_frame pt' f \<and> pt_entries pt' = pt_entries pt \<and>
    pt_num_pages pt' = pt_num_pages pt \<and> pt_page_size pt' = pt_page_size pt"
proof -
  have card: "unat (pt_free_frames pt) + card (bm_used pt) = 16384" using inv by (simp add: vm_inv_def)
  moreover have "0 < unat (pt_free_frames pt)" using free by (simp add: unat_gt_0)
  ultimately have "card (bm_used pt) < card {..<16384 :: nat}" by simp
  then have "bm_used pt \<noteq> {..<16384}" by (metis less_irrefl)
  then obtain g where "g < 16384" "\<not> frame_used pt g" by (auto simp: bm_used_def)
  then have "find_index (\<lambda>i. \<not> frame_used pt i) 0 16384 \<noteq> None" by (auto simp: find_index_None)
  then obtain i where i: "find_index (\<lambda>i. \<not> frame_used pt i) 0 16384 = Some i" by blast
  then have i': "i < 16384" "\<not> frame_used pt i" by (auto simp: find_index_Some)
  have f: "f = of_nat i" and pt': "pt' = (mark_frame pt i)\<lparr>pt_free_frames := pt_free_frames pt - 1\<rparr>"
    using t i by (simp_all add: take_frame_def PHYSICAL_MEMORY_PAGES_def)
  have uf: "unat f = i" using i' by (simp add: f unat_of_nat)
  have bm: "bm_used pt' = insert i (bm_used pt)" using i' by (auto simp: pt' bm_used_def frame_used_mark)
  have "card (bm_used pt') = card (bm_used pt) + 1"
    using i' finite_bm_used [of pt] by (simp add: bm) (simp add: bm_used_def)
  moreover have "unat (pt_free_frames pt') = unat (pt_free_frames pt) - 1" using free by (simp add: pt' unat_minus_one)
  ultimately have count: "unat (pt_free_frames pt') + card (bm_used pt') = 16384"
    using card \<open>0 < unat (pt_free_frames pt)\<close> by simp
  have e: "pt_entries pt' = pt_entries pt" "pt_num_pages pt' = pt_num_pages pt" "pt_page_size pt' = pt_page_size pt"
    "pt_fifo_queue pt' = pt_fifo_queue pt" "pt_fifo_head pt' = pt_fifo_head pt" by (simp_all add: pt')
  have "vm_inv pt'" using inv count by (auto simp: vm_inv_def e bm)
  moreover have "pe_frame_number (pt_entries pt v) \<noteq> f" if "v < unat (pt_num_pages pt)" "pe_present (pt_entries pt v)" for v
    using inv that i' uf by (auto simp: vm_inv_def bm_used_def)
  ultimately show ?thesis by (auto simp: fresh_frame_def e bm uf)
qed

lemma evict_frame_fresh:
  assumes inv: "vm_inv pt" and free: "pt_free_frames pt = 0" and t: "evict_frame pt = (f, pt')"
  shows "vm_inv pt' \<and> fresh_frame pt' f \<and>
    (\<forall>v. pe_frame_number (pt_entries pt' v) = pe_frame_number (pt_entries pt v)) \<and>
    (\<forall>v. pe_present (pt_entries pt' v) \<longrightarrow> pe_present (pt_entries pt v)) \<and>
    pt_num_pages pt' = pt_num_pages pt \<and> pt_page_size pt' = pt_page_size pt"
proof -
  let ?p1 = "pt\<lparr>pt_fifo_head := (pt_fifo_head pt + 1) mod PHYSICAL_MEMORY_PAGES, pt_fifo_count := pt_fifo_count pt - 1\<rparr>"
  have f: "f = pt_fifo_queue pt (unat (pt_fifo_head pt))" and pt': "pt' = fifo_push (unmap_frame ?p1 f) f"
    using t by (auto simp: evict_frame_def Let_def)
  have head: "unat ((pt_fifo_head pt + 1) mod PHYSICAL_MEMORY_PAGES) < 16384"
    by (simp add: PHYSICAL_MEMORY_PAGES_def unat_mod)
  have f_lt: "unat f < 16384" using inv by (simp add: f vm_inv_def)
  have inv1: "vm_inv ?p1" using inv head by (simp add: vm_inv_def)
  have "card (bm_used pt) = card {..<16384 :: nat}" using inv free by (simp add: vm_inv_def)
  then have all: "bm_used pt = {..<16384}" by (intro card_subset_eq) (auto simp: bm_used_def)
  have q: "\<forall>i < 16384. unat (pt_fifo_queue pt' i) < 16384"
    unfolding pt' by (rule fifo_push_queue) (use inv f_lt in \<open>simp_all add: vm_inv_def\<close>)
  have e: "pt_entries pt' = pt_entries (unmap_frame ?p1 f)" "pt_num_pages pt' = pt_num_pages pt"
    "pt_page_size pt' = pt_page_size pt" "bm_used pt' = bm_used pt" "pt_free_frames pt' = pt_free_frames pt"
    "pt_fifo_head pt' = (pt_fifo_head pt + 1) mod PHYSICAL_MEMORY_PAGES"
    by (simp_all add: pt')
  have fr: "pe_frame_number (pt_entries pt' v) = pe_frame_number (pt_entries pt v)"
    "pe_present (pt_entries pt' v) \<Longrightarrow> pe_present (pt_entries pt v)" for v
    using unmap_frame_entries [of ?p1 f v] by (simp_all add: e)
  have gone: "pe_frame_number (pt_entries pt v) \<noteq> f" if "v < unat (pt_num_pages pt)" "pe_present (pt_entries pt' v)" for v
    using unmap_frame_gone [OF inv1, of v f] that by (simp add: e)
  have "vm_inv pt'" using inv q head fr by (simp add: vm_inv_def e(2-))
  then show ?thesis using fr gone f_lt by (auto simp: fresh_frame_def e(2-) all)
qed

lemma vm_allocate_fresh:
  assumes inv: "vm_inv pt" and t: "vm_allocate_frame pt = (f, pt')"
  shows "vm_inv pt' \<and> fresh_frame pt' f \<and>
    (\<forall>v. pe_frame_number (pt_entries pt' v) = pe_frame_number (pt_entries pt v)) \<and>
    (\<forall>v. pe_present (pt_entries pt' v) \<longrightarrow> pe_present (pt_entries pt v)) \<and>
    pt_num_pages pt' = pt_num_pages pt \<and> pt_page_size pt' = pt_page_size pt"
proof (cases "pt_free_frames pt = 0")
  case True
  then show ?thesis using evict_frame_fresh [OF inv True] t by (simp add: vm_allocate_frame_def)
next
  case False
  then show ?thesis using take_frame_fresh [OF inv False] t by (simp add: vm_allocate_frame_def)
qed

lemma install_frame_inv:
  assumes inv: "vm_inv pt" and fresh: "fresh_frame pt f" and v: "v < unat (pt_num_pages pt)"
  shows "vm_inv (install_frame pt v f)"
proof -
  have q: "\<forall>i < 16384. unat (pt_fifo_queue (install_frame pt v f) i) < 16384"
    unfolding install_frame_def
    by (rule fifo_push_queue) (use inv fresh in \<open>auto simp: vm_inv_def fresh_frame_def bm_used_def\<close>)
  have e: "pt_entries (install_frame pt v f) = (pt_entries pt)(v := \<lparr>pe_valid = True, pe_frame_number = f,
       pe_present = True, pe_dirty = False, pe_accessed = True\<rparr>)"
    "pt_num_pages (install_frame pt v f) = pt_num_pages pt" "bm_used (install_frame pt v f) = bm_used pt"
    "pt_free_frames (install_frame pt v f) = pt_free_frames pt" "pt_fifo_head (install_frame pt v f) = pt_fifo_head pt"
    by (simp_all add: install_frame_def)
  have inj: "u = w" if "u < unat (pt_num_pages pt)" "w < unat (pt_num_pages pt)"
    "pe_present (pt_entries (install_frame pt v f) u)" "pe_present (pt_entries (install_frame pt v f) w)"
    "pe_frame_number (pt_entries (install_frame pt v f) u) = pe_frame_number (pt_entries (install_frame pt v f) w)" for u w
    using that inv fresh by (auto simp: e vm_inv_def fresh_frame_def split: if_splits)
  have used: "unat (pe_frame_number (pt_entries (install_frame pt v f) u)) \<in> bm_used pt"
    if "u < unat (pt_num_pages pt)" "pe_present (pt_entries (install_frame pt v f) u)" for u
    using that inv fresh by (auto simp: e vm_inv_def fresh_frame_def split: if_splits)
  show ?thesis
    using inv q inj used unfolding vm_inv_def e(2-5) by blast
qed

text \<open>What a translation of a page of the table does.\<close>

lemma vm_translate_result:
  assumes inv: "vm_inv pt" and ps: "pt_page_size pt \<noteq> 0" and v: "unat (vm_get_vpn va (pt_page_size pt)) < unat (pt_num_pages pt)"
    and tr: "vm_translate pt va = Some (pa, pt')"
  defines "n \<equiv> unat (vm_get_vpn va (pt_page_size pt))"
  shows "vm_inv pt'" "pe_present (pt_entries pt' n)" "pt_num_pages pt' = pt_num_pages pt" "pt_page_size pt' = pt_page_size pt"
    "pa = pe_frame_number (pt_entries pt' n) * pt_page_size pt + vm_get_offset va (pt_page_size pt)"
    "pe_present (pt_entries pt n) \<Longrightarrow> pe_frame_number (pt_entries pt' n) = pe_frame_number (pt_entries pt n)"
proof -
  have acc: "vm_inv (p\<lparr>pt_entries := (pt_entries p)(k := (pt_entries p k)\<lparr>pe_accessed := True\<rparr>)\<rparr>)" if "vm_inv p" for p k
    using that by (auto simp: vm_inv_def split: if_splits)
  have g: "\<not> pt_num_pages pt \<le> vm_get_vpn va (pt_page_size pt)" using v by (simp add: word_le_nat_alt)
  obtain p1 where p1: "vm_inv p1" "pe_present (pt_entries p1 n)" "pt_num_pages p1 = pt_num_pages pt" "pt_page_size p1 = pt_page_size pt"
      "pe_present (pt_entries pt n) \<Longrightarrow> p1 = pt"
    and eq: "vm_translate pt va = Some (pe_frame_number (pt_entries p1 n) * pt_page_size p1 + vm_get_offset va (pt_page_size pt),
      p1\<lparr>pt_entries := (pt_entries p1)(n := (pt_entries p1 n)\<lparr>pe_accessed := True\<rparr>)\<rparr>)"
  proof (cases "pe_present (pt_entries pt n)")
    case True
    then show ?thesis using that [of pt] inv ps g by (simp add: vm_translate_def Let_def n_def)
  next
    case False
    obtain f q where a: "vm_allocate_frame pt = (f, q)" by fastforce
    note fresh = vm_allocate_fresh [OF inv a]
    then have "unat f < 16384" by (simp add: fresh_frame_def bm_used_def)
    then have f: "\<not> PHYSICAL_MEMORY_PAGES \<le> f" by (simp add: word_le_nat_alt PHYSICAL_MEMORY_PAGES_def)
    show ?thesis
    proof (rule that [of "install_frame q n f"])
      show "vm_inv (install_frame q n f)" using fresh v by (intro install_frame_inv) (simp_all add: n_def)
    qed (use fresh False ps g a f in \<open>simp_all add: install_frame_def vm_translate_def Let_def n_def\<close>)
  qed
  show "vm_inv pt'" "pe_present (pt_entries pt' n)" "pt_num_pages pt' = pt_num_pages pt" "pt_page_size pt' = pt_page_size pt"
    "pa = pe_frame_number (pt_entries pt' n) * pt_page_size pt + vm_get_offset va (pt_page_size pt)"
    "pe_present (pt_entries pt n) \<Longrightarrow> pe_frame_number (pt_entries pt' n) = pe_frame_number (pt_entries pt n)"
    using tr eq p1 acc [OF p1(1), of n] by auto
qed

section \<open>Properties\<close>

inductive vm_reachable :: "PageTable \<Rightarrow> bool" where
  init: "vm_reachable (vm_init num page_size)"
| alloc: "vm_reachable pt \<Longrightarrow> vm_allocate_frame pt = (f, pt') \<Longrightarrow> vm_reachable pt'"
| fault: "vm_reachable pt \<Longrightarrow> vm_handle_page_fault pt = (f, pt') \<Longrightarrow> vm_reachable pt'"
| translate: "vm_reachable pt \<Longrightarrow> vm_translate pt va = Some (pa, pt') \<Longrightarrow> vm_reachable pt'"

lemma vm_init_inv: "vm_inv (vm_init num page_size)"
proof -
  have "bm_used (vm_init num page_size) = {}" by (simp add: bm_used_def frame_used_def vm_init_def)
  then show ?thesis by (simp add: vm_inv_def vm_init_def zero_entry_def PHYSICAL_MEMORY_PAGES_def)
qed

lemma vm_reachable_inv: "vm_reachable pt \<Longrightarrow> vm_inv pt"
proof (induction rule: vm_reachable.induct)
  case (fault pt f pt')
  then have "vm_allocate_frame pt = (f, pt')"
    by (simp add: vm_handle_page_fault_def vm_allocate_frame_def word_gt_0 split: if_splits)
  then show ?case using vm_allocate_fresh [OF fault.IH] by simp
next
  case (translate pt va pa pt')
  show ?case
  proof (cases "unat (vm_get_vpn va (pt_page_size pt)) < unat (pt_num_pages pt) \<and> pt_page_size pt \<noteq> 0")
    case True
    then show ?thesis using vm_translate_result(1) [OF translate.IH _ _ translate.hyps(2)] by simp
  next
    case False
    then have "pt' = pt" using translate.hyps(2)
      by (auto simp: vm_translate_def Let_def word_le_nat_alt not_less split: if_splits)
    then show ?thesis using translate.IH by simp
  qed
qed (auto intro: vm_init_inv dest: vm_allocate_fresh)

text \<open>
  C9: Demand paging keeps pages apart: after any allocations, faults and translations, a
  translation makes its page present in a frame below 16384 that no other present page has, keeps
  the frame of a page that was present, and returns frame times page size plus offset.
\<close>

theorem vm_translate_separates:
  assumes "vm_reachable pt" and ps: "pt_page_size pt \<noteq> 0"
    and v: "unat (vm_get_vpn va (pt_page_size pt)) < unat (pt_num_pages pt)"
    and tr: "vm_translate pt va = Some (pa, pt')"
  shows "let n = unat (vm_get_vpn va (pt_page_size pt)); f = pe_frame_number (pt_entries pt' n)
    in pe_present (pt_entries pt' n) \<and> unat f < 16384 \<and> pa = f * pt_page_size pt + vm_get_offset va (pt_page_size pt) \<and>
      (\<forall>u < unat (pt_num_pages pt). u \<noteq> n \<longrightarrow> pe_present (pt_entries pt' u) \<longrightarrow> pe_frame_number (pt_entries pt' u) \<noteq> f) \<and>
      (pe_present (pt_entries pt n) \<longrightarrow> f = pe_frame_number (pt_entries pt n))"
proof -
  note r = vm_translate_result [OF vm_reachable_inv [OF assms(1)] ps v tr]
  show ?thesis
    using r v unfolding Let_def vm_inv_def bm_used_def by (metis (no_types, lifting) mem_Collect_eq)
qed

lemma vm_translate_runs: "pt_page_size pt \<noteq> 0 \<Longrightarrow> \<exists>pa pt'. vm_translate pt va = Some (pa, pt')"
  by (simp add: vm_translate_def Let_def)

theorem vm_translate_separates_witness:
  "\<exists>pa pt'. vm_translate (vm_init 8 4096) 0x2010 = Some (pa, pt') \<and> pe_present (pt_entries pt' 2)"
proof -
  have h: "pt_page_size (vm_init 8 4096) \<noteq> 0" "unat (vm_get_vpn 0x2010 (pt_page_size (vm_init 8 4096))) = 2"
    "unat (pt_num_pages (vm_init 8 4096)) = 8"
    by (simp_all add: vm_init_def vm_get_vpn_def VM_MAX_PAGES_def)
  obtain pa pt' where t: "vm_translate (vm_init 8 4096) 0x2010 = Some (pa, pt')"
    using vm_translate_runs [OF h(1)] by blast
  from vm_translate_separates [OF vm_reachable.init h(1) _ t] t h show ?thesis by (auto simp: Let_def)
qed

text \<open>
  Freeing a frame does not unmap its page: after a page is translated and its frame freed, the
  next page to be translated gets the same frame, so two pages share memory.
\<close>

theorem vm_free_frame_aliases:
  "\<exists>pa1 pt1 pa2 pt2. vm_translate (vm_init 8 4096) 0x0000 = Some (pa1, pt1)
     \<and> vm_translate (vm_free_frame pt1 0) 0x1000 = Some (pa2, pt2) \<and> pa2 = pa1
     \<and> pe_present (pt_entries pt2 0) \<and> pe_present (pt_entries pt2 1)"
proof -
  have f0: "find_index (\<lambda>i. \<not> frame_used pt i) 0 16384 = Some 0" if "\<not> frame_used pt 0" for pt
    using that by (simp add: find_index_Some)
  have u0: "\<not> frame_used (vm_init 8 4096) 0" by (simp add: frame_used_def vm_init_def)
  have push: "frame_used (fifo_push pt f) = frame_used pt" for pt f
    by (simp add: fifo_push_def fun_eq_iff)
  have "\<exists>pt1. vm_translate (vm_init 8 4096) 0x0000 = Some (0, pt1) \<and> frame_used pt1 0 \<and>
      pe_present (pt_entries pt1 0) \<and> \<not> pe_present (pt_entries pt1 1) \<and>
      pt_free_frames pt1 = 16383 \<and> pt_num_pages pt1 = 8 \<and> pt_page_size pt1 = 4096"
    by (simp add: vm_translate_def vm_get_vpn_def vm_get_offset_def vm_allocate_frame_def take_frame_def f0 u0
        install_frame_def push frame_used_mark PHYSICAL_MEMORY_PAGES_def)
      (simp add: vm_init_def VM_MAX_PAGES_def PHYSICAL_MEMORY_PAGES_def zero_entry_def)
  then obtain pt1 where t1: "vm_translate (vm_init 8 4096) 0x0000 = Some (0, pt1)" "frame_used pt1 0"
      "pe_present (pt_entries pt1 0)" "\<not> pe_present (pt_entries pt1 1)"
      "pt_free_frames pt1 = 16383" "pt_num_pages pt1 = 8" "pt_page_size pt1 = 4096" by blast
  have "\<exists>pt2. vm_free_frame pt1 0 = pt2 \<and> \<not> frame_used pt2 0 \<and> pe_present (pt_entries pt2 0) \<and>
      \<not> pe_present (pt_entries pt2 1) \<and> pt_free_frames pt2 = 16384 \<and> pt_num_pages pt2 = 8 \<and> pt_page_size pt2 = 4096"
    using t1 by (simp add: vm_free_frame_def frame_used_clear PHYSICAL_MEMORY_PAGES_def) (simp add: clear_frame_def)
  then obtain pt2 where p2: "vm_free_frame pt1 0 = pt2" "\<not> frame_used pt2 0" "pe_present (pt_entries pt2 0)"
      "\<not> pe_present (pt_entries pt2 1)" "pt_free_frames pt2 = 16384" "pt_num_pages pt2 = 8" "pt_page_size pt2 = 4096"
    by blast
  have le: "\<not> (8 :: u32) \<le> 1" by (simp add: word_le_nat_alt)
  have "\<exists>pt3. vm_translate pt2 0x1000 = Some (0, pt3) \<and> pe_present (pt_entries pt3 0) \<and> pe_present (pt_entries pt3 1)"
    using p2 by (simp add: vm_translate_def vm_get_vpn_def vm_get_offset_def vm_allocate_frame_def take_frame_def f0
        install_frame_def PHYSICAL_MEMORY_PAGES_def le)
  with t1(1) p2(1) show ?thesis by blast
qed

text \<open>
  A page inserted into the translation buffer is found with the inserted frame when it was not
  in the buffer before; the insertion takes a free entry while there is one, so it drops nothing
  until the buffer is full.
\<close>

theorem tlb_insert_lookup:
  assumes "tlb_find t vpn = None" and "0 < unat (tlb_size t)"
  shows "fst (tlb_lookup (tlb_insert t r vpn pfn) vpn d) \<and> fst (snd (tlb_lookup (tlb_insert t r vpn pfn) vpn d)) = pfn \<and>
    used_ways (unat (tlb_size t)) (\<lambda>i. te_valid (tlb_entries (tlb_insert t r vpn pfn) i)) =
      min (unat (tlb_size t)) (used_ways (unat (tlb_size t)) (\<lambda>i. te_valid (tlb_entries t i)) + 1)"
proof -
  have find: "tlb_find ((tlb_insert t r vpn pfn)\<lparr>tlb_global_counter := g\<rparr>) vpn = Some (tlb_victim t r)" for g
    using tlb_find_insert [OF assms, of r pfn] by (simp add: tlb_find_def tlb_insert_def)
  have "used_ways (unat (tlb_size t)) (\<lambda>i. te_valid (tlb_entries (tlb_insert t r vpn pfn) i)) =
      min (unat (tlb_size t)) (used_ways (unat (tlb_size t)) (\<lambda>i. te_valid (tlb_entries t i)) + 1)"
    using tlb.used_ways_fill [of "(t, r)" "\<lambda>i. te_valid (tlb_entries (tlb_insert t r vpn pfn) i)"] assms(2)
    by (simp add: tlb_insert_def)
  then show ?thesis by (simp add: tlb_lookup_def find) (simp add: tlb_insert_def)
qed

theorem tlb_insert_lookup_witness:
  "fst (snd (tlb_lookup (tlb_insert (tlb_init 4 TLB_LRU) 0 7 42) 7 0)) = 42"
proof -
  have "tlb_find (tlb_init 4 TLB_LRU) 7 = None" "0 < unat (tlb_size (tlb_init 4 TLB_LRU))"
    by (simp_all add: tlb_find_def tlb_init_def find_index_None TLB_MAX_ENTRIES_def)
  from tlb_insert_lookup [OF this] show ?thesis by blast
qed

text \<open>
  Inserting a page that is already in the buffer does not replace its entry: when the new entry
  lands behind the old one, as it does while the buffer has free entries, lookups go on returning
  the old frame.
\<close>

theorem tlb_insert_stale:
  assumes "tlb_find t vpn = Some i" and "i < tlb_victim t r"
  shows "fst (snd (tlb_lookup (tlb_insert t r vpn pfn) vpn d)) = te_pfn (tlb_entries t i)"
proof -
  have "tlb_find ((tlb_insert t r vpn pfn)\<lparr>tlb_global_counter := g\<rparr>) vpn = Some i" for g
    using assms by (auto simp: tlb_find_def tlb_insert_def find_index_Some)
  then show ?thesis using assms(2) by (simp add: tlb_lookup_def) (simp add: tlb_insert_def)
qed

theorem tlb_insert_stale_witness:
  "fst (snd (tlb_lookup (tlb_insert (tlb_insert (tlb_init 4 TLB_LRU) 0 7 1) 0 7 2) 7 0)) = 1"
proof -
  let ?t = "tlb_insert (tlb_init 4 TLB_LRU) 0 7 1"
  have "find_index (\<lambda>i. \<not> te_valid (tlb_entries (tlb_init 4 TLB_LRU) i)) 0 4 = Some 0"
    by (simp add: find_index_Some tlb_init_def)
  then have v0: "tlb_victim (tlb_init 4 TLB_LRU) 0 = 0" by (simp add: tlb_victim_def tlb_init_def TLB_MAX_ENTRIES_def)
  then have e: "tlb_entries ?t = (\<lambda>i. if i = 0 then \<lparr>te_valid = True, te_vpn = 7, te_pfn = 1, te_lru_counter = 0\<rparr>
      else \<lparr>te_valid = False, te_vpn = 0, te_pfn = 0, te_lru_counter = 0\<rparr>)" and s: "tlb_size ?t = 4"
    by (auto simp: tlb_insert_def tlb_init_def TLB_MAX_ENTRIES_def)
  have "find_index (\<lambda>i. \<not> te_valid (tlb_entries ?t i)) 0 4 = Some 1" by (auto simp: find_index_Some e)
  then have "tlb_victim ?t 0 = 1" by (simp add: tlb_victim_def s)
  moreover have "tlb_find ?t 7 = Some 0" by (simp add: tlb_find_def find_index_Some e s)
  ultimately show ?thesis using tlb_insert_stale [of ?t 7 0 0 2 0] by (simp add: e)
qed

end
