(* ===== verification/Ftl.thy ===== *)
theory Ftl
  imports Prelude
begin

text \<open>
  The flash translation layer of \<^verbatim>\<open>mini-storage-hardware/src/ftl.c\<close>: planes, blocks and pages as
  the header lays them out, the logical-to-physical and the reverse map, read, write, trim, the
  block allocator, the SLC write buffer with its flush, and the hot/cold tracker.  An
  operation returns the C return code with the new state; an access outside the two
  maps (which the source does not guard) gives \<open>None\<close>.  The two scans are recursive functions
  whose termination is proved: the scan leaves the array of pages at its end.
\<close>

unbundle bit_operations_syntax

section \<open>Data\<close>

definition FTL_MAX_LBAS :: nat where "FTL_MAX_LBAS = 16384"
definition FTL_MAX_PHYSICAL_PAGES :: u32 where "FTL_MAX_PHYSICAL_PAGES = 65536"
definition FTL_PAGES_PER_BLOCK :: u32 where "FTL_PAGES_PER_BLOCK = 128"
definition FTL_BLOCKS_PER_PLANE :: u32 where "FTL_BLOCKS_PER_PLANE = 16"
definition FTL_PLANES :: u32 where "FTL_PLANES = 4"
definition FTL_SLC_BUFFER_PAGES :: u32 where "FTL_SLC_BUFFER_PAGES = 1024"
definition HOT_THRESHOLD :: u32 where "HOT_THRESHOLD = 5"

lemmas ftl_consts = FTL_MAX_LBAS_def FTL_MAX_PHYSICAL_PAGES_def FTL_PAGES_PER_BLOCK_def
  FTL_BLOCKS_PER_PLANE_def FTL_PLANES_def FTL_SLC_BUFFER_PAGES_def

datatype PageType = PAGE_TYPE_LOWER | PAGE_TYPE_MIDDLE | PAGE_TYPE_UPPER
datatype PageState = PAGE_STATE_FREE | PAGE_STATE_VALID | PAGE_STATE_INVALID | PAGE_STATE_BAD
datatype BlockState = BLOCK_STATE_FREE | BLOCK_STATE_ACTIVE | BLOCK_STATE_FULL | BLOCK_STATE_BAD
datatype FTLMappingMode = FTL_MAPPING_PAGE_LEVEL | FTL_MAPPING_BLOCK_LEVEL | FTL_MAPPING_HYBRID

record FlashPage =
  pg_id :: u32
  pg_type :: PageType
  pg_state :: PageState
  pg_data :: "u8 arr"

record FlashBlock =
  bl_pages :: "FlashPage arr"
  bl_erase_count :: u32
  bl_state :: BlockState

type_synonym FlashPlane = "FlashBlock arr"

record FTLStats =
  st_reads :: u64
  st_writes :: u64
  st_erases :: u64
  st_gc_moves :: u64
  st_host_writes :: u64

record FTL =
  planes :: "FlashPlane arr"
  mapping_table :: "int arr"
  reverse_map :: "int arr"
  write_pointer :: u32
  free_pages :: u32
  mapping_mode :: FTLMappingMode
  ftl_stats :: FTLStats

definition zero_page :: FlashPage where
  "zero_page = \<lparr>pg_id = 0, pg_type = PAGE_TYPE_LOWER, pg_state = PAGE_STATE_FREE, pg_data = \<lambda>_. 0\<rparr>"

definition zero_block :: FlashBlock where
  "zero_block = \<lparr>bl_pages = \<lambda>_. zero_page, bl_erase_count = 0, bl_state = BLOCK_STATE_FREE\<rparr>"

definition ftl_init :: "FTLMappingMode \<Rightarrow> FTL" where
  "ftl_init mode = \<lparr>planes = \<lambda>_ _. zero_block, mapping_table = \<lambda>_. -1, reverse_map = \<lambda>_. -1,
     write_pointer = 0, free_pages = FTL_MAX_PHYSICAL_PAGES, mapping_mode = mode,
     ftl_stats = \<lparr>st_reads = 0, st_writes = 0, st_erases = 0, st_gc_moves = 0, st_host_writes = 0\<rparr>\<rparr>"

section \<open>Addressing\<close>

definition block_index_from_page :: "u32 \<Rightarrow> u32" where
  "block_index_from_page p = p div FTL_PAGES_PER_BLOCK"

definition plane_index_from_page :: "u32 \<Rightarrow> u32" where
  "plane_index_from_page p = block_index_from_page p div FTL_BLOCKS_PER_PLANE"

definition block_in_plane :: "u32 \<Rightarrow> u32" where
  "block_in_plane p = block_index_from_page p mod FTL_BLOCKS_PER_PLANE"

definition page_in_block :: "u32 \<Rightarrow> u32" where
  "page_in_block p = p mod FTL_PAGES_PER_BLOCK"

text \<open>The pointer to a page or a block is read and written through its three indices.\<close>

definition get_physical_page :: "FTL \<Rightarrow> u32 \<Rightarrow> FlashPage option" where
  "get_physical_page ftl p =
     (let plane = plane_index_from_page p; blk = block_in_plane p; pg = page_in_block p
      in if plane \<ge> FTL_PLANES \<or> blk \<ge> FTL_BLOCKS_PER_PLANE \<or> pg \<ge> FTL_PAGES_PER_BLOCK then None
         else Some (bl_pages (planes ftl (unat plane) (unat blk)) (unat pg)))"

definition put_physical_page :: "FTL \<Rightarrow> u32 \<Rightarrow> FlashPage \<Rightarrow> FTL" where
  "put_physical_page ftl p page =
     (let plane = unat (plane_index_from_page p); blk = unat (block_in_plane p);
          pg = unat (page_in_block p); b = planes ftl plane blk
      in ftl\<lparr>planes := (planes ftl)(plane := (planes ftl plane)(blk :=
           b\<lparr>bl_pages := (bl_pages b)(pg := page)\<rparr>))\<rparr>)"

definition get_physical_block :: "FTL \<Rightarrow> u32 \<Rightarrow> FlashBlock option" where
  "get_physical_block ftl p =
     (let plane = plane_index_from_page p; blk = block_in_plane p
      in if plane \<ge> FTL_PLANES \<or> blk \<ge> FTL_BLOCKS_PER_PLANE then None
         else Some (planes ftl (unat plane) (unat blk)))"

text \<open>The block of a written page becomes active.\<close>

definition activate_block :: "FTL \<Rightarrow> u32 \<Rightarrow> FTL" where
  "activate_block ftl p =
     (case get_physical_block ftl p of
        None \<Rightarrow> ftl
      | Some b \<Rightarrow>
          if bl_state b = BLOCK_STATE_FREE
          then let plane = unat (plane_index_from_page p); blk = unat (block_in_plane p)
               in ftl\<lparr>planes := (planes ftl)(plane := (planes ftl plane)(blk :=
                    b\<lparr>bl_state := BLOCK_STATE_ACTIVE\<rparr>))\<rparr>
          else ftl)"

definition physical_page_count :: nat where "physical_page_count = 8192"

lemma page_indices:
  "unat (plane_index_from_page p) = unat p div 2048" "unat (block_in_plane p) = unat p div 128 mod 16"
  "unat (page_in_block p) = unat p mod 128"
  by (simp_all add: plane_index_from_page_def block_in_plane_def page_in_block_def
      block_index_from_page_def ftl_consts unat_div unat_mod div_mult2_eq [symmetric])

lemma page_bounds:
  "plane_index_from_page p \<ge> FTL_PLANES \<longleftrightarrow> physical_page_count \<le> unat p"
  "\<not> block_in_plane p \<ge> FTL_BLOCKS_PER_PLANE" "\<not> page_in_block p \<ge> FTL_PAGES_PER_BLOCK"
  using page_indices [of p]
  by (auto simp: word_le_nat_alt ftl_consts physical_page_count_def not_le)

lemma get_page_iff: "(\<exists>pg. get_physical_page ftl p = Some pg) \<longleftrightarrow> unat p < physical_page_count"
  "get_physical_page ftl p = None \<longleftrightarrow> physical_page_count \<le> unat p"
  by (auto simp: get_physical_page_def page_bounds)

lemma page_indices_inj:
  "unat p div 2048 = unat q div 2048 \<Longrightarrow> unat p div 128 mod 16 = unat q div 128 mod 16
    \<Longrightarrow> unat p mod 128 = unat q mod 128 \<Longrightarrow> p = q" for p q :: u32
proof -
  assume a: "unat p div 2048 = unat q div 2048" "unat p div 128 mod 16 = unat q div 128 mod 16"
    "unat p mod 128 = unat q mod 128"
  have "unat p div 128 = unat p div 2048 * 16 + unat p div 128 mod 16" for p :: u32
    using div_mult_mod_eq [of "unat p div 128" 16] by (simp add: div_mult2_eq [symmetric])
  with a have "unat p div 128 = unat q div 128" by metis
  with a(3) have "unat p = unat q" by (metis div_mult_mod_eq)
  then show ?thesis by (simp add: word_unat_eq_iff)
qed

lemma page_slot_inj:
  "plane_index_from_page p = plane_index_from_page q \<and> block_in_plane p = block_in_plane q \<and>
     page_in_block p = page_in_block q \<longleftrightarrow> p = q"
  using page_indices_inj [of p q] by (auto simp flip: page_indices)

section \<open>Reads and writes of pages as an array\<close>

text \<open>The contract of an array reached through lookups that may fail.\<close>

locale checked_array =
  fixes valid :: "'i \<Rightarrow> bool" and get :: "'s \<Rightarrow> 'i \<Rightarrow> 'v option" and put :: "'s \<Rightarrow> 'i \<Rightarrow> 'v \<Rightarrow> 's"
  assumes get_total: "(\<exists>v. get s i = Some v) \<longleftrightarrow> valid i"
    and get_put: "valid i \<Longrightarrow> get (put s i v) j = (if i = j then Some v else get s j)"
begin

lemma get_put_put: "valid i \<Longrightarrow> get (put (put s i v) i w) j = get (put s i w) j"
  by (simp add: get_put)

lemma put_comm: "valid i \<Longrightarrow> valid k \<Longrightarrow> i \<noteq> k \<Longrightarrow> get (put (put s i v) k w) j = get (put (put s k w) i v) j"
  by (auto simp: get_put)

lemma get_None: "get s i = None \<longleftrightarrow> \<not> valid i"
  using get_total [of s i] by auto

end

interpretation page: checked_array "\<lambda>p. unat p < physical_page_count" get_physical_page put_physical_page
proof unfold_locales
  fix ftl and p q :: u32 and v
  show "(\<exists>v. get_physical_page ftl p = Some v) \<longleftrightarrow> unat p < physical_page_count"
    by (rule get_page_iff)
  assume "unat p < physical_page_count"
  then show "get_physical_page (put_physical_page ftl p v) q =
      (if p = q then Some v else get_physical_page ftl q)"
    using page_slot_inj [of p q]
    by (auto simp: get_physical_page_def put_physical_page_def page_bounds Let_def simp flip: word_unat_eq_iff)
qed

section \<open>Operations\<close>

definition ftl_read :: "FTL \<Rightarrow> u32 \<Rightarrow> u8 arr \<Rightarrow> int \<times> u8 arr \<times> FTL" where
  "ftl_read ftl lba out =
     (if unat lba \<ge> FTL_MAX_LBAS then (-1, out, ftl)
      else
        let phys = mapping_table ftl (unat lba)
        in if phys < 0 then (0, \<lambda>_. 0, ftl)
           else case get_physical_page ftl (of_int phys) of
                  None \<Rightarrow> (-1, out, ftl)
                | Some page \<Rightarrow>
                    if pg_state page \<noteq> PAGE_STATE_VALID then (-1, out, ftl)
                    else (0, pg_data page,
                          ftl\<lparr>ftl_stats := (ftl_stats ftl)\<lparr>st_reads := st_reads (ftl_stats ftl) + 1\<rparr>\<rparr>))"

text \<open>
  The mapped page of an LBA becomes invalid and loses its reverse entry.  The reverse map has
  \<open>FTL_MAX_PHYSICAL_PAGES\<close> entries.
\<close>

definition ftl_invalidate :: "FTL \<Rightarrow> int \<Rightarrow> FTL option" where
  "ftl_invalidate ftl phys =
     (if phys \<ge> int (unat FTL_MAX_PHYSICAL_PAGES) then None
      else
        let f1 = (case get_physical_page ftl (of_int phys) of
                    None \<Rightarrow> ftl
                  | Some page \<Rightarrow> put_physical_page ftl (of_int phys) (page\<lparr>pg_state := PAGE_STATE_INVALID\<rparr>))
        in Some (f1\<lparr>reverse_map := (reverse_map f1)(nat phys := -1)\<rparr>))"

text \<open>\<open>while (page && page->state != PAGE_STATE_FREE)\<close>\<close>

function write_scan :: "FTL \<Rightarrow> u32 \<Rightarrow> u32" where
  "write_scan ftl wp =
     (case get_physical_page ftl wp of
        None \<Rightarrow> wp
      | Some page \<Rightarrow>
          if pg_state page \<noteq> PAGE_STATE_FREE then write_scan ftl ((wp + 1) mod FTL_MAX_PHYSICAL_PAGES)
          else wp)"
  by pat_completeness auto

lemma next_page: "unat p < physical_page_count \<Longrightarrow> unat ((p + 1) mod FTL_MAX_PHYSICAL_PAGES) = unat p + 1"
  using unat_add_lem [of p 1] by (simp add: unat_mod ftl_consts physical_page_count_def)

termination write_scan
  by (relation "measure (\<lambda>(ftl, wp). physical_page_count - unat wp)")
    (auto simp: next_page dest: page.get_total [THEN iffD1, OF exI])

declare write_scan.simps [simp del]

definition ftl_write :: "FTL \<Rightarrow> u32 \<Rightarrow> u8 arr \<Rightarrow> (int \<times> FTL) option" where
  "ftl_write ftl lba data =
     (if unat lba \<ge> FTL_MAX_LBAS then Some (-1, ftl)
      else
        let old_phys = mapping_table ftl (unat lba)
        in case (if old_phys \<ge> 0 then ftl_invalidate ftl old_phys else Some ftl) of
             None \<Rightarrow> None
           | Some f1 \<Rightarrow>
               if free_pages f1 = 0 then Some (-2, f1)
               else
                 let wp = write_scan f1 (write_pointer f1); f2 = f1\<lparr>write_pointer := wp\<rparr>
                 in case get_physical_page f2 wp of
                      None \<Rightarrow> Some (-1, f2)
                    | Some page \<Rightarrow>
                        let f3 = put_physical_page f2 wp
                              (page\<lparr>pg_id := wp, pg_type := PAGE_TYPE_LOWER, pg_state := PAGE_STATE_VALID,
                                    pg_data := data\<rparr>);
                            f4 = f3\<lparr>mapping_table := (mapping_table f3)(unat lba := sint wp),
                                    reverse_map := (reverse_map f3)(unat wp := sint lba)\<rparr>;
                            f5 = activate_block f4 wp
                        in Some (0, f5\<lparr>free_pages := free_pages f5 - 1,
                                       write_pointer := (wp + 1) mod FTL_MAX_PHYSICAL_PAGES,
                                       ftl_stats := (ftl_stats f5)\<lparr>st_writes := st_writes (ftl_stats f5) + 1,
                                         st_host_writes := st_host_writes (ftl_stats f5) + 1\<rparr>\<rparr>))"

definition ftl_trim :: "FTL \<Rightarrow> u32 \<Rightarrow> (int \<times> FTL) option" where
  "ftl_trim ftl lba =
     (if unat lba \<ge> FTL_MAX_LBAS then Some (-1, ftl)
      else
        let phys = mapping_table ftl (unat lba)
        in if phys \<ge> 0
           then map_option (\<lambda>f1. (0, f1\<lparr>mapping_table := (mapping_table f1)(unat lba := -1)\<rparr>))
                  (ftl_invalidate ftl phys)
           else Some (0, ftl))"

section \<open>Frame facts\<close>

lemma sint_small: "unat (x :: u32) < 2147483648 \<Longrightarrow> sint x = int (unat x)"
proof -
  assume "unat x < 2147483648"
  then have "int (unat x) < 2147483648" by linarith
  then have u: "0 \<le> uint x" "uint x < 2147483648" by simp_all
  have "- 2147483648 \<le> uint x" using u(1) by linarith
  with u(2) have "signed_take_bit 31 (uint x) = uint x"
    by (intro signed_take_bit_int_eq_self) simp_all
  then show ?thesis by (simp add: sint_uint)
qed

lemma get_page_frame [simp]:
  "get_physical_page (f\<lparr>mapping_table := m\<rparr>) p = get_physical_page f p"
  "get_physical_page (f\<lparr>reverse_map := r\<rparr>) p = get_physical_page f p"
  "get_physical_page (f\<lparr>write_pointer := w\<rparr>) p = get_physical_page f p"
  "get_physical_page (f\<lparr>free_pages := n\<rparr>) p = get_physical_page f p"
  "get_physical_page (f\<lparr>ftl_stats := t\<rparr>) p = get_physical_page f p"
  by (simp_all add: get_physical_page_def Let_def)

lemma put_page_frame [simp]:
  "mapping_table (put_physical_page f p v) = mapping_table f"
  "reverse_map (put_physical_page f p v) = reverse_map f"
  "write_pointer (put_physical_page f p v) = write_pointer f"
  "free_pages (put_physical_page f p v) = free_pages f"
  "ftl_stats (put_physical_page f p v) = ftl_stats f"
  by (simp_all add: put_physical_page_def Let_def)

lemma activate_block_frame [simp]:
  "mapping_table (activate_block f p) = mapping_table f"
  "reverse_map (activate_block f p) = reverse_map f"
  "write_pointer (activate_block f p) = write_pointer f"
  "free_pages (activate_block f p) = free_pages f"
  "ftl_stats (activate_block f p) = ftl_stats f"
  "get_physical_page (activate_block f p) q = get_physical_page f q"
  by (auto simp: activate_block_def get_physical_block_def get_physical_page_def Let_def split: option.splits)

lemma ftl_invalidate_Some:
  assumes "0 \<le> phys" "phys < int physical_page_count" "get_physical_page f (of_int phys) = Some page"
  obtains f1 where "ftl_invalidate f phys = Some f1"
    "\<And>q. get_physical_page f1 q = (if q = of_int phys then Some (page\<lparr>pg_state := PAGE_STATE_INVALID\<rparr>)
                                    else get_physical_page f q)"
    "mapping_table f1 = mapping_table f" "reverse_map f1 = (reverse_map f)(nat phys := -1)"
    "write_pointer f1 = write_pointer f" "free_pages f1 = free_pages f" "ftl_stats f1 = ftl_stats f"
proof -
  have v: "unat (of_int phys :: u32) < physical_page_count"
    using assms by (metis page.get_total)
  show ?thesis
    by (rule that [of "(put_physical_page f (of_int phys) (page\<lparr>pg_state := PAGE_STATE_INVALID\<rparr>))
          \<lparr>reverse_map := (reverse_map f)(nat phys := -1)\<rparr>"])
      (use assms v in \<open>auto simp: ftl_invalidate_def page.get_put ftl_consts physical_page_count_def\<close>)
qed

lemma write_scan_free:
  assumes "get_physical_page f wp = Some page" "pg_state page = PAGE_STATE_FREE"
  shows "write_scan f wp = wp"
  using assms by (simp add: write_scan.simps)

lemma write_scan_end: "get_physical_page f wp = None \<Longrightarrow> write_scan f wp = wp"
  by (simp add: write_scan.simps)

section \<open>The invariant of reads, writes and trims\<close>

definition page_of_lba_ok :: "FTL \<Rightarrow> nat \<Rightarrow> bool" where
  "page_of_lba_ok f l \<longleftrightarrow> mapping_table f l < uint (write_pointer f) \<and>
     (\<exists>page. get_physical_page f (of_int (mapping_table f l)) = Some page \<and>
       (pg_state page = PAGE_STATE_VALID \<and> reverse_map f (nat (mapping_table f l)) = int l \<or>
        pg_state page = PAGE_STATE_INVALID \<and> reverse_map f (nat (mapping_table f l)) = -1))"

definition ftl_inv :: "FTL \<Rightarrow> bool" where
  "ftl_inv f \<longleftrightarrow>
     unat (write_pointer f) \<le> physical_page_count \<and>
     unat (free_pages f) + unat (write_pointer f) = 65536 \<and>
     (\<forall>p. unat (write_pointer f) \<le> unat p \<and> unat p < physical_page_count \<longrightarrow>
        map_option pg_state (get_physical_page f p) = Some PAGE_STATE_FREE) \<and>
     (\<forall>l < FTL_MAX_LBAS. 0 \<le> mapping_table f l \<longrightarrow> page_of_lba_ok f l) \<and>
     (\<forall>l < FTL_MAX_LBAS. \<forall>k < FTL_MAX_LBAS. 0 \<le> mapping_table f l \<longrightarrow>
        mapping_table f l = mapping_table f k \<longrightarrow> l = k)"

lemma ftl_invD:
  assumes "ftl_inv f"
  shows "unat (write_pointer f) \<le> 8192"
    "unat (free_pages f) = 65536 - unat (write_pointer f)" "free_pages f \<noteq> 0"
    "\<And>p. unat (write_pointer f) \<le> unat p \<Longrightarrow> unat p < physical_page_count \<Longrightarrow>
       \<exists>page. get_physical_page f p = Some page \<and> pg_state page = PAGE_STATE_FREE"
    "\<And>l. l < FTL_MAX_LBAS \<Longrightarrow> 0 \<le> mapping_table f l \<Longrightarrow> page_of_lba_ok f l"
    "\<And>l k. l < FTL_MAX_LBAS \<Longrightarrow> k < FTL_MAX_LBAS \<Longrightarrow> 0 \<le> mapping_table f l \<Longrightarrow>
       mapping_table f l = mapping_table f k \<Longrightarrow> l = k"
    "uint (write_pointer f) \<le> 8192"
proof -
  show "unat (write_pointer f) \<le> 8192" "unat (free_pages f) = 65536 - unat (write_pointer f)" "free_pages f \<noteq> 0"
    using assms by (auto simp: ftl_inv_def physical_page_count_def)
  then have "int (unat (write_pointer f)) \<le> 8192" by linarith
  then show "uint (write_pointer f) \<le> 8192" by simp
qed (use assms in \<open>auto simp: ftl_inv_def\<close>)

lemma ftl_init_inv: "ftl_inv (ftl_init mode)"
proof -
  have "get_physical_page (ftl_init mode) p = Some zero_page" if "unat p < physical_page_count" for p
    using page.get_total [of "ftl_init mode" p] that
    by (auto simp: get_physical_page_def ftl_init_def zero_block_def Let_def split: if_splits)
  then show ?thesis
    by (auto simp: ftl_inv_def ftl_init_def zero_page_def ftl_consts physical_page_count_def)
qed

lemma of_int_lt: "0 \<le> x \<Longrightarrow> x < 8192 \<Longrightarrow> unat (of_int x :: u32) = nat x"
  by (simp add: nat_eq_iff  unat_eq_nat_uint uint_word_of_int take_bit_int_eq_self)

lemma of_int_lt_eq: "0 \<le> x \<Longrightarrow> x < 8192 \<Longrightarrow> (of_int x = (p :: u32)) \<longleftrightarrow> x = int (unat p)"
  using of_int_lt [of x] by (metis int_nat_eq word_unat_eq_iff nat_int)

section \<open>Writes\<close>

text \<open>The old page of an LBA, when it has one, is the one a write or a trim invalidates.\<close>

definition old_page :: "FTL \<Rightarrow> nat \<Rightarrow> u32 \<Rightarrow> bool" where
  "old_page f l p \<longleftrightarrow> 0 \<le> mapping_table f l \<and> p = of_int (mapping_table f l)"

definition page_invalid :: "FlashPage \<Rightarrow> FlashPage" where
  "page_invalid page = page\<lparr>pg_state := PAGE_STATE_INVALID\<rparr>"

lemma invalidate_mapped:
  assumes "ftl_inv f" "l < FTL_MAX_LBAS" 
  obtains f1 where "(if 0 \<le> mapping_table f l then ftl_invalidate f (mapping_table f l) else Some f) = Some f1"
    "\<And>q. get_physical_page f1 q =
       (if old_page f l q then map_option page_invalid (get_physical_page f q) else get_physical_page f q)"
    "mapping_table f1 = mapping_table f"
    "reverse_map f1 = (if 0 \<le> mapping_table f l then (reverse_map f)(nat (mapping_table f l) := -1) else reverse_map f)"
    "write_pointer f1 = write_pointer f" "free_pages f1 = free_pages f" "ftl_stats f1 = ftl_stats f"
proof (cases "0 \<le> mapping_table f l")
  case False
  then show ?thesis using that [of f] by (simp add: old_page_def)
next
  case True
  from ftl_invD(5) [OF assms(1,2) True] obtain page where
    *: "get_physical_page f (of_int (mapping_table f l)) = Some page"
    by (auto simp: page_of_lba_ok_def)
  have **: "mapping_table f l < int physical_page_count"
    using ftl_invD(5) [OF assms(1,2) True] ftl_invD(1,7) [OF assms(1)]
    by (auto simp: page_of_lba_ok_def physical_page_count_def)
  from ftl_invalidate_Some [OF True ** *] obtain f1 where
    "ftl_invalidate f (mapping_table f l) = Some f1"
    "\<And>q. get_physical_page f1 q = (if q = of_int (mapping_table f l) then Some (page\<lparr>pg_state := PAGE_STATE_INVALID\<rparr>)
                                    else get_physical_page f q)"
    "mapping_table f1 = mapping_table f" "reverse_map f1 = (reverse_map f)(nat (mapping_table f l) := -1)"
    "write_pointer f1 = write_pointer f" "free_pages f1 = free_pages f" "ftl_stats f1 = ftl_stats f"
    by blast
  then show ?thesis using that [of f1] True * by (simp add: old_page_def page_invalid_def)
qed

lemma old_page_below:
  assumes "ftl_inv f" "l < FTL_MAX_LBAS" "old_page f l p"
  shows "unat p < unat (write_pointer f)" "mapping_table f l = uint p"
proof -
  have *: "0 \<le> mapping_table f l" "mapping_table f l < uint (write_pointer f)"
    using ftl_invD(5) [OF assms(1,2)] assms(3) by (auto simp: old_page_def page_of_lba_ok_def)
  then have "mapping_table f l < 8192" using ftl_invD(7) [OF assms(1)] by linarith
  with * have u: "unat p = nat (mapping_table f l)"
    using assms(3) of_int_lt [of "mapping_table f l"] by (simp add: old_page_def)
  then show "unat p < unat (write_pointer f)" using * by (simp add: nat_less_iff)
  from u * have "int (unat p) = mapping_table f l" by simp
  then show "mapping_table f l = uint p" by simp
qed

definition written_page :: "u32 \<Rightarrow> u8 arr \<Rightarrow> FlashPage" where
  "written_page wp data = \<lparr>pg_id = wp, pg_type = PAGE_TYPE_LOWER, pg_state = PAGE_STATE_VALID, pg_data = data\<rparr>"

text \<open>A write with room: the next page in order takes the data.\<close>

lemma ftl_write_room:
  assumes inv: "ftl_inv f" and l: "unat lba < FTL_MAX_LBAS" and room: "unat (write_pointer f) < physical_page_count"
  obtains f' where "ftl_write f lba data = Some (0, f')"
    "\<And>p. get_physical_page f' p =
       (if p = write_pointer f then Some (written_page p data)
        else if old_page f (unat lba) p then map_option page_invalid (get_physical_page f p)
        else get_physical_page f p)"
    "mapping_table f' = (mapping_table f)(unat lba := uint (write_pointer f))"
    "reverse_map f' = (if 0 \<le> mapping_table f (unat lba)
       then (reverse_map f)(nat (mapping_table f (unat lba)) := -1, unat (write_pointer f) := int (unat lba))
       else (reverse_map f)(unat (write_pointer f) := int (unat lba)))"
    "unat (write_pointer f') = unat (write_pointer f) + 1" "free_pages f' = free_pages f - 1"
    "st_host_writes (ftl_stats f') = st_host_writes (ftl_stats f) + 1"
proof -
  let ?wp = "write_pointer f"
  from invalidate_mapped [OF inv l] obtain f1 where f1:
    "(if 0 \<le> mapping_table f (unat lba) then ftl_invalidate f (mapping_table f (unat lba)) else Some f) = Some f1"
    "\<And>q. get_physical_page f1 q =
       (if old_page f (unat lba) q then map_option page_invalid (get_physical_page f q) else get_physical_page f q)"
    "mapping_table f1 = mapping_table f"
    "reverse_map f1 = (if 0 \<le> mapping_table f (unat lba)
       then (reverse_map f)(nat (mapping_table f (unat lba)) := -1) else reverse_map f)"
    "write_pointer f1 = write_pointer f" "free_pages f1 = free_pages f" "ftl_stats f1 = ftl_stats f"
    by blast
  have "\<not> old_page f (unat lba) ?wp" using old_page_below(1) [OF inv l, of ?wp] by auto
  moreover obtain pg where pg: "get_physical_page f ?wp = Some pg" "pg_state pg = PAGE_STATE_FREE"
    using ftl_invD(4) [OF inv _ room] by auto
  ultimately have g: "get_physical_page f1 ?wp = Some pg" by (simp add: f1(2))
  have h: "p \<noteq> ?wp \<Longrightarrow> get_physical_page f1 p =
    (if old_page f (unat lba) p then map_option page_invalid (get_physical_page f p) else get_physical_page f p)" for p
    by (rule f1(2))
  note scan = write_scan_free [OF g pg(2)]
  have small: "sint ?wp = uint ?wp" "sint lba = int (unat lba)"
    using room l by (auto simp: sint_small physical_page_count_def ftl_consts)
  show ?thesis
    by (rule that, use l ftl_invD(3) [OF inv] in \<open>simp add: ftl_write_def Let_def f1(1,3-) g scan small not_le\<close>)
      (simp_all add: f1(3-) h page.get_put [OF room] written_page_def next_page [OF room] fun_upd_twist)
qed

lemma ftl_write_full:
  assumes inv: "ftl_inv f" and l: "unat lba < FTL_MAX_LBAS" and full: "physical_page_count \<le> unat (write_pointer f)"
  obtains f' where "ftl_write f lba data = Some (-1, f')"
    "\<And>p. get_physical_page f' p =
       (if old_page f (unat lba) p then map_option page_invalid (get_physical_page f p) else get_physical_page f p)"
    "mapping_table f' = mapping_table f"
    "reverse_map f' = (if 0 \<le> mapping_table f (unat lba)
       then (reverse_map f)(nat (mapping_table f (unat lba)) := -1) else reverse_map f)"
    "write_pointer f' = write_pointer f" "free_pages f' = free_pages f" "ftl_stats f' = ftl_stats f"
proof -
  from invalidate_mapped [OF inv l] obtain f1 where f1:
    "(if 0 \<le> mapping_table f (unat lba) then ftl_invalidate f (mapping_table f (unat lba)) else Some f) = Some f1"
    "\<And>q. get_physical_page f1 q =
       (if old_page f (unat lba) q then map_option page_invalid (get_physical_page f q) else get_physical_page f q)"
    "mapping_table f1 = mapping_table f"
    "reverse_map f1 = (if 0 \<le> mapping_table f (unat lba)
       then (reverse_map f)(nat (mapping_table f (unat lba)) := -1) else reverse_map f)"
    "write_pointer f1 = write_pointer f" "free_pages f1 = free_pages f" "ftl_stats f1 = ftl_stats f"
    by blast
  have g: "get_physical_page f1 (write_pointer f) = None" using full by (simp add: page.get_None)
  note scan = write_scan_end [OF g]
  show ?thesis
    by (rule that, use l ftl_invD(3) [OF inv] in \<open>simp add: ftl_write_def Let_def f1(1,3-) g scan not_le\<close>)
      (simp_all add: f1(2-))
qed

lemma ftl_trim_result:
  assumes inv: "ftl_inv f" and l: "unat lba < FTL_MAX_LBAS"
  obtains f' where "ftl_trim f lba = Some (0, f')"
    "\<And>p. get_physical_page f' p =
       (if old_page f (unat lba) p then map_option page_invalid (get_physical_page f p) else get_physical_page f p)"
    "mapping_table f' = (if 0 \<le> mapping_table f (unat lba) then (mapping_table f)(unat lba := -1) else mapping_table f)"
    "reverse_map f' = (if 0 \<le> mapping_table f (unat lba)
       then (reverse_map f)(nat (mapping_table f (unat lba)) := -1) else reverse_map f)"
    "write_pointer f' = write_pointer f" "free_pages f' = free_pages f" "ftl_stats f' = ftl_stats f"
proof -
  from invalidate_mapped [OF inv l] obtain f1 where f1:
    "(if 0 \<le> mapping_table f (unat lba) then ftl_invalidate f (mapping_table f (unat lba)) else Some f) = Some f1"
    "\<And>q. get_physical_page f1 q =
       (if old_page f (unat lba) q then map_option page_invalid (get_physical_page f q) else get_physical_page f q)"
    "mapping_table f1 = mapping_table f"
    "reverse_map f1 = (if 0 \<le> mapping_table f (unat lba)
       then (reverse_map f)(nat (mapping_table f (unat lba)) := -1) else reverse_map f)"
    "write_pointer f1 = write_pointer f" "free_pages f1 = free_pages f" "ftl_stats f1 = ftl_stats f"
    by blast
  show ?thesis
  proof (cases "0 \<le> mapping_table f (unat lba)")
    case True
    show ?thesis
      by (rule that, use l True f1(1) in \<open>simp add: ftl_trim_def not_le\<close>) (simp_all add: f1(2-) True)
  next
    case False
    show ?thesis
      by (rule that, use l False in \<open>simp add: ftl_trim_def not_le\<close>) (simp_all add: False old_page_def)
  qed
qed

lemma ftl_lba_out_of_range:
  assumes "FTL_MAX_LBAS \<le> unat lba"
  shows "ftl_write f lba data = Some (-1, f)" "ftl_trim f lba = Some (-1, f)" "ftl_read f lba out = (-1, out, f)"
  using assms by (simp_all add: ftl_write_def ftl_trim_def ftl_read_def)

section \<open>Preservation\<close>

lemma page_of_lba_ok_other:
  assumes inv: "ftl_inv f" and l: "l < FTL_MAX_LBAS" "k < FTL_MAX_LBAS" "k \<noteq> l" "0 \<le> mapping_table f k"
    and pages: "\<And>p. unat p < unat (write_pointer f) \<Longrightarrow> \<not> old_page f l p \<Longrightarrow> get_physical_page f' p = get_physical_page f p"
    and map: "mapping_table f' k = mapping_table f k"
    and rev: "\<And>n. n < unat (write_pointer f) \<Longrightarrow> (0 \<le> mapping_table f l \<Longrightarrow> n \<noteq> nat (mapping_table f l)) \<Longrightarrow>
        reverse_map f' n = reverse_map f n"
    and wp: "unat (write_pointer f) \<le> unat (write_pointer f')"
  shows "page_of_lba_ok f' k"
proof -
  let ?p = "of_int (mapping_table f k) :: u32"
  have p: "old_page f k ?p" using l by (simp add: old_page_def)
  note below = old_page_below [OF inv l(2) p]
  have "\<not> old_page f l ?p"
    using l old_page_below(2) [OF inv l(1), of ?p] below(2) ftl_invD(6) [OF inv l(1,2)] by (auto simp: old_page_def)
  then have "get_physical_page f' ?p = get_physical_page f ?p" using pages below(1) by blast
  moreover have "reverse_map f' (nat (mapping_table f k)) = reverse_map f (nat (mapping_table f k))"
  proof (rule rev)
    show "nat (mapping_table f k) < unat (write_pointer f)"
      using below by (metis nat_uint_eq)
    show "nat (mapping_table f k) \<noteq> nat (mapping_table f l)" if "0 \<le> mapping_table f l"
      using that l(3,4) ftl_invD(6) [OF inv l(1,2) that] by (auto simp: eq_nat_nat_iff)
  qed
  moreover have "uint (write_pointer f) \<le> uint (write_pointer f')"
    using wp by (simp add: word_le_nat_alt [symmetric] word_le_def)
  moreover note ftl_invD(5) [OF inv l(2,4)]
  ultimately show ?thesis by (auto simp: page_of_lba_ok_def map)
qed

lemma page_of_lba_ok_invalidated:
  assumes inv: "ftl_inv f" and l: "l < FTL_MAX_LBAS" "0 \<le> mapping_table f l"
    and "\<And>p. get_physical_page f' p =
       (if old_page f l p then map_option page_invalid (get_physical_page f p) else get_physical_page f p)"
      "mapping_table f' l = mapping_table f l" "reverse_map f' (nat (mapping_table f l)) = -1"
      "write_pointer f' = write_pointer f"
  shows "page_of_lba_ok f' l"
proof -
  have "old_page f l (of_int (mapping_table f l))" using l by (simp add: old_page_def)
  with assms ftl_invD(5) [OF inv l] show ?thesis by (auto simp: page_of_lba_ok_def page_invalid_def)
qed

text \<open>Both operations that only invalidate keep the invariant.\<close>

lemma ftl_inv_invalidated:
  assumes inv: "ftl_inv f" and l: "l < FTL_MAX_LBAS"
    and f': "\<And>p. get_physical_page f' p =
       (if old_page f l p then map_option page_invalid (get_physical_page f p) else get_physical_page f p)"
      "mapping_table f' = mapping_table f \<or> mapping_table f' = (mapping_table f)(l := -1)"
      "reverse_map f' = (if 0 \<le> mapping_table f l then (reverse_map f)(nat (mapping_table f l) := -1) else reverse_map f)"
      "write_pointer f' = write_pointer f" "free_pages f' = free_pages f"
  shows "ftl_inv f'"
proof -
  have free: "map_option pg_state (get_physical_page f' p) = Some PAGE_STATE_FREE"
    if "unat (write_pointer f) \<le> unat p" "unat p < physical_page_count" for p
    using that ftl_invD(4) [OF inv that] old_page_below(1) [OF inv l, of p] by (auto simp: f')
  have ok: "page_of_lba_ok f' k" if "k < FTL_MAX_LBAS" "0 \<le> mapping_table f' k" for k
  proof (cases "k = l")
    case True
    with f'(2) that have "mapping_table f' = mapping_table f" by auto
    then show ?thesis using that l by (simp add: True) (rule page_of_lba_ok_invalidated [OF inv l], simp_all add: f')
  next
    case False
    with f'(2) have m: "mapping_table f' k = mapping_table f k" by auto
    then show ?thesis
      by (intro page_of_lba_ok_other [OF inv l that(1) False]) (use that in \<open>auto simp: f'\<close>)
  qed
  have inj: "j = k" if "j < FTL_MAX_LBAS" "k < FTL_MAX_LBAS" "0 \<le> mapping_table f' j"
    "mapping_table f' j = mapping_table f' k" for j k
    using that f'(2) ftl_invD(6) [OF inv that(1,2)] by (auto split: if_splits)
  show ?thesis
    using inv free ok inj unfolding ftl_inv_def f'(4,5) by blast
qed

lemma ftl_inv_write_room:
  assumes inv: "ftl_inv f" and l: "l < FTL_MAX_LBAS" and room: "unat (write_pointer f) < physical_page_count"
    and f': "\<And>p. get_physical_page f' p =
       (if p = write_pointer f then Some (written_page p data)
        else if old_page f l p then map_option page_invalid (get_physical_page f p)
        else get_physical_page f p)"
      "mapping_table f' = (mapping_table f)(l := uint (write_pointer f))"
      "reverse_map f' = (if 0 \<le> mapping_table f l
       then (reverse_map f)(nat (mapping_table f l) := -1, unat (write_pointer f) := int l)
       else (reverse_map f)(unat (write_pointer f) := int l))"
      "unat (write_pointer f') = unat (write_pointer f) + 1" "free_pages f' = free_pages f - 1"
  shows "ftl_inv f'"
proof -
  have "unat (free_pages f') = unat (free_pages f) - 1"
    using ftl_invD(3) [OF inv] by (simp add: f'(5) unat_minus_one)
  then have count: "unat (free_pages f') + unat (write_pointer f') = 65536"
    using ftl_invD(1,2) [OF inv] f'(4) by simp
  have up: "uint (write_pointer f') = uint (write_pointer f) + 1"
    using f'(4) by (metis of_nat_1 of_nat_add unsigned_of_nat uint_nat)
  have free: "map_option pg_state (get_physical_page f' p) = Some PAGE_STATE_FREE"
    if "unat (write_pointer f') \<le> unat p" "unat p < physical_page_count" for p
    using that ftl_invD(4) [OF inv _ that(2)] old_page_below(1) [OF inv l, of p] f'(4)
    by (auto simp: f'(1))
  have ok: "page_of_lba_ok f' k" if "k < FTL_MAX_LBAS" "0 \<le> mapping_table f' k" for k
  proof (cases "k = l")
    case True
    then show ?thesis by (simp add: page_of_lba_ok_def f'(1,2,3) up written_page_def)
  next
    case False
    show ?thesis
      by (intro page_of_lba_ok_other [OF inv l that(1) False])
        (use that False in \<open>auto simp: f'(1,2,3,4)\<close>)
  qed
  have below: "mapping_table f k \<noteq> uint (write_pointer f)" if "k < FTL_MAX_LBAS" "0 \<le> mapping_table f k" for k
    using ftl_invD(5) [OF inv that] by (auto simp: page_of_lba_ok_def)
  have inj: "j = k" if "j < FTL_MAX_LBAS" "k < FTL_MAX_LBAS" "0 \<le> mapping_table f' j"
    "mapping_table f' j = mapping_table f' k" for j k
    using that ftl_invD(6) [OF inv that(1,2)] below [OF that(1)] below [OF that(2)] 
    by (auto simp: f'(2) split: if_splits)
  show ?thesis
    using room count free ok inj unfolding ftl_inv_def f'(4) by simp
qed

lemma ftl_write_cases:
  assumes inv: "ftl_inv f" 
  shows "\<exists>rc f'. ftl_write f lba data = Some (rc, f') \<and> ftl_inv f' \<and> 
    (rc = 0 \<longleftrightarrow> unat lba < FTL_MAX_LBAS \<and> unat (write_pointer f) < physical_page_count)"
proof -
  consider "FTL_MAX_LBAS \<le> unat lba" | "unat lba < FTL_MAX_LBAS" "unat (write_pointer f) < physical_page_count"
    | "unat lba < FTL_MAX_LBAS" "physical_page_count \<le> unat (write_pointer f)" by linarith
  then show ?thesis
  proof cases
    case 1
    then show ?thesis using inv by (simp add: ftl_lba_out_of_range)
  next
    case 2
    from ftl_write_room [OF inv 2, of data] obtain f' where "ftl_write f lba data = Some (0, f')" "ftl_inv f'"
      by (metis (no_types, lifting) ftl_inv_write_room [OF inv 2])
    then show ?thesis using 2 by simp
  next
    case 3
    from ftl_write_full [OF inv 3, of data] obtain f' where "ftl_write f lba data = Some (-1, f')" "ftl_inv f'"
      by (metis (no_types, lifting) ftl_inv_invalidated [OF inv 3(1)])
    then show ?thesis using 3 by simp
  qed
qed

lemma ftl_trim_inv:
  assumes inv: "ftl_inv f" 
  shows "\<exists>rc f'. ftl_trim f lba = Some (rc, f') \<and> ftl_inv f'"
proof (cases "unat lba < FTL_MAX_LBAS")
  case True
  from ftl_trim_result [OF inv True] obtain f' where "ftl_trim f lba = Some (0, f')" "ftl_inv f'"
    by (metis (no_types, lifting) ftl_inv_invalidated [OF inv True])
  then show ?thesis by simp
qed (use inv in \<open>simp add: ftl_lba_out_of_range not_less\<close>)

lemma ftl_read_inv: "ftl_inv f \<Longrightarrow> ftl_read f lba out = (rc, d, f') \<Longrightarrow> ftl_inv f'"
  by (auto simp: ftl_read_def ftl_inv_def page_of_lba_ok_def Let_def split: if_splits option.splits)

section \<open>What a client sees\<close>

text \<open>The content of an LBA: zeros when unmapped, nothing when its page is not valid.\<close>

definition ftl_content :: "FTL \<Rightarrow> nat \<Rightarrow> u8 arr option" where
  "ftl_content f l =
     (if mapping_table f l < 0 then Some (\<lambda>_. 0)
      else case get_physical_page f (of_int (mapping_table f l)) of
             None \<Rightarrow> None
           | Some page \<Rightarrow> (if pg_state page = PAGE_STATE_VALID then Some (pg_data page) else None))"

lemma ftl_read_content:
  "unat lba < FTL_MAX_LBAS \<Longrightarrow> fst (ftl_read f lba out) = (if ftl_content f (unat lba) = None then -1 else 0)"
  "unat lba < FTL_MAX_LBAS \<Longrightarrow> fst (snd (ftl_read f lba out)) = (case ftl_content f (unat lba) of None \<Rightarrow> out | Some d \<Rightarrow> d)"
  by (auto simp: ftl_read_def ftl_content_def Let_def split: option.splits)

lemma ftl_content_other:
  assumes inv: "ftl_inv f" and l: "l < FTL_MAX_LBAS" "k < FTL_MAX_LBAS" "k \<noteq> l"
    and pages: "\<And>p. unat p < unat (write_pointer f) \<Longrightarrow> \<not> old_page f l p \<Longrightarrow> get_physical_page f' p = get_physical_page f p"
    and map: "mapping_table f' k = mapping_table f k"
  shows "ftl_content f' k = ftl_content f k"
proof (cases "mapping_table f k < 0")
  case False
  let ?p = "of_int (mapping_table f k) :: u32"
  have p: "old_page f k ?p" using False by (simp add: old_page_def)
  note below = old_page_below [OF inv l(2) p]
  have "\<not> old_page f l ?p"
    using l False old_page_below(2) [OF inv l(1), of ?p] below(2) ftl_invD(6) [OF inv l(1,2)] by (auto simp: old_page_def)
  with pages below(1) show ?thesis by (simp add: ftl_content_def map)
qed (simp add: ftl_content_def map)

section \<open>Block allocation\<close>

text \<open>The scan for \<open>num_pages\<close> free pages; \<open>None\<close> is the return of -3.\<close>

function alloc_scan :: "FTL \<Rightarrow> u32 \<Rightarrow> u32 \<Rightarrow> u32 \<Rightarrow> u32 option" where
  "alloc_scan ftl num_pages block_start contiguous =
     (if contiguous < num_pages then
        (case get_physical_page ftl block_start of
           None \<Rightarrow> None
         | Some page \<Rightarrow>
             if pg_state page \<noteq> PAGE_STATE_FREE
             then alloc_scan ftl num_pages ((block_start + FTL_PAGES_PER_BLOCK) mod FTL_MAX_PHYSICAL_PAGES) 0
             else alloc_scan ftl num_pages ((block_start + 1) mod FTL_MAX_PHYSICAL_PAGES) (contiguous + 1))
      else Some block_start)"
  by pat_completeness auto

lemma next_block: "unat p < physical_page_count \<Longrightarrow>
    unat ((p + FTL_PAGES_PER_BLOCK) mod FTL_MAX_PHYSICAL_PAGES) = unat p + 128"
  using unat_add_lem [of p 128] by (simp add: unat_mod ftl_consts physical_page_count_def)

termination alloc_scan
  by (relation "measure (\<lambda>(ftl, n, p, c). physical_page_count - unat p)")
    (auto simp: next_page next_block dest: page.get_total [THEN iffD1, OF exI])

declare alloc_scan.simps [simp del]

text \<open>The mapping loop; the index into the mapping table is a 32-bit sum.\<close>

definition alloc_map_page :: "u32 \<Rightarrow> u32 \<Rightarrow> nat \<Rightarrow> FTL option \<Rightarrow> FTL option" where
  "alloc_map_page start_lba phys i s =
     (case s of
        None \<Rightarrow> None
      | Some ftl \<Rightarrow>
          let pp = (phys + of_nat i) mod FTL_MAX_PHYSICAL_PAGES
          in case get_physical_page ftl pp of
               None \<Rightarrow> Some ftl
             | Some page \<Rightarrow>
                 let f1 = put_physical_page ftl pp (page\<lparr>pg_state := PAGE_STATE_VALID, pg_type := PAGE_TYPE_LOWER\<rparr>);
                     lba = start_lba + of_nat i
                 in if unat lba \<ge> FTL_MAX_LBAS then None
                    else Some (f1\<lparr>mapping_table := (mapping_table f1)(unat lba := sint pp),
                                  reverse_map := (reverse_map f1)(unat pp := sint lba),
                                  free_pages := free_pages f1 - 1\<rparr>))"

definition ftl_allocate_block :: "FTL \<Rightarrow> u32 \<Rightarrow> u32 \<Rightarrow> (int \<times> FTL) option" where
  "ftl_allocate_block ftl start_lba num_pages =
     (if unat (start_lba + num_pages) > FTL_MAX_LBAS then Some (-1, ftl)
      else if free_pages ftl < num_pages then Some (-2, ftl)
      else case alloc_scan ftl num_pages (write_pointer ftl) 0 of
             None \<Rightarrow> Some (-3, ftl)
           | Some block_start \<Rightarrow>
               let phys = (block_start - num_pages + FTL_MAX_PHYSICAL_PAGES) mod FTL_MAX_PHYSICAL_PAGES
               in map_option (Pair 0)
                    (for_range 0 (unat num_pages) (alloc_map_page start_lba phys) (Some ftl)))"

section \<open>The SLC write buffer\<close>

record FTLExtended =
  slc_pages :: "u32 arr"
  slc_count :: u32
  slc_enabled :: bool

definition ftl_slc_buffer_init :: FTLExtended where
  "ftl_slc_buffer_init = \<lparr>slc_pages = \<lambda>_. 0, slc_count = 0, slc_enabled = True\<rparr>"

definition ftl_slc_buffer_write ::
  "FTLExtended \<Rightarrow> FTL \<Rightarrow> u32 \<Rightarrow> u8 arr \<Rightarrow> (int \<times> FTLExtended \<times> FTL) option" where
  "ftl_slc_buffer_write ext ftl lba data =
     (if \<not> slc_enabled ext \<or> slc_count ext \<ge> FTL_SLC_BUFFER_PAGES
      then map_option (\<lambda>(rc, f). (rc, ext, f)) (ftl_write ftl lba data)
      else case get_physical_page ftl (slc_count ext) of
             None \<Rightarrow> Some (-1, ext, ftl)
           | Some page \<Rightarrow>
               if unat lba \<ge> FTL_MAX_LBAS then None
               else
                 let f1 = put_physical_page ftl (slc_count ext)
                       (page\<lparr>pg_data := data, pg_state := PAGE_STATE_VALID, pg_type := PAGE_TYPE_LOWER\<rparr>)
                 in Some (0,
                      ext\<lparr>slc_pages := (slc_pages ext)(unat (slc_count ext) := lba), slc_count := slc_count ext + 1\<rparr>,
                      f1\<lparr>mapping_table := (mapping_table f1)(unat lba := sint (slc_count ext)),
                         free_pages := free_pages f1 - 1,
                         ftl_stats := (ftl_stats f1)\<lparr>st_writes := st_writes (ftl_stats f1) + 1,
                           st_host_writes := st_host_writes (ftl_stats f1) + 1\<rparr>\<rparr>))"

definition slc_flush_page :: "FTLExtended \<Rightarrow> nat \<Rightarrow> (u32 \<times> FTL) option \<Rightarrow> (u32 \<times> FTL) option" where
  "slc_flush_page ext i s =
     (case s of
        None \<Rightarrow> None
      | Some (flushed, ftl) \<Rightarrow>
          (case get_physical_page ftl (of_nat i) of
             None \<Rightarrow> Some (flushed, ftl)
           | Some slc_page \<Rightarrow>
               if pg_state slc_page \<noteq> PAGE_STATE_VALID then Some (flushed, ftl)
               else case ftl_write ftl (slc_pages ext i) (pg_data slc_page) of
                      None \<Rightarrow> None
                    | Some (rc, f1) \<Rightarrow>
                        Some (flushed + 1,
                          case get_physical_page f1 (of_nat i) of
                            None \<Rightarrow> f1
                          | Some page \<Rightarrow> put_physical_page f1 (of_nat i) (page\<lparr>pg_state := PAGE_STATE_INVALID\<rparr>))))"

definition ftl_slc_buffer_flush :: "FTLExtended \<Rightarrow> FTL \<Rightarrow> (int \<times> FTLExtended \<times> FTL) option" where
  "ftl_slc_buffer_flush ext ftl =
     map_option (\<lambda>(flushed, f). (sint flushed, ext\<lparr>slc_count := 0\<rparr>, f))
       (for_range 0 (unat (slc_count ext)) (slc_flush_page ext) (Some (0, ftl)))"

section \<open>The hot/cold tracker\<close>

record HotColdTracker =
  update_count :: "u32 arr"
  total_updates :: u32

definition ftl_hotcold_init :: HotColdTracker where
  "ftl_hotcold_init = \<lparr>update_count = \<lambda>_. 0, total_updates = 0\<rparr>"

definition ftl_is_hot_lba :: "HotColdTracker \<Rightarrow> u32 \<Rightarrow> bool" where
  "ftl_is_hot_lba t lba \<longleftrightarrow> unat lba < FTL_MAX_LBAS \<and> update_count t (unat lba) \<ge> HOT_THRESHOLD"

definition ftl_track_update :: "HotColdTracker \<Rightarrow> u32 \<Rightarrow> HotColdTracker" where
  "ftl_track_update t lba =
     (if unat lba \<ge> FTL_MAX_LBAS then t
      else t\<lparr>update_count := (update_count t)(unat lba := update_count t (unat lba) + 1),
             total_updates := total_updates t + 1\<rparr>)"

section \<open>The contract of a block device\<close>

text \<open>A run of writes that all succeed.\<close>

fun run_writes :: "('s \<Rightarrow> 'l \<Rightarrow> 'd \<Rightarrow> (int \<times> 's) option) \<Rightarrow> 's \<Rightarrow> ('l \<times> 'd) list \<Rightarrow> 's option" where
  "run_writes wr s [] = Some s"
| "run_writes wr s ((l, d) # ws) =
     (case wr s l d of
        Some (rc, s') \<Rightarrow> (if rc = 0 then run_writes wr s' ws else None)
      | None \<Rightarrow> None)"

locale block_device =
  fixes inv :: "'s \<Rightarrow> bool" and valid :: "'l \<Rightarrow> bool" and view :: "'s \<Rightarrow> 'l \<Rightarrow> 'd option"
    and wr :: "'s \<Rightarrow> 'l \<Rightarrow> 'd \<Rightarrow> (int \<times> 's) option"
  assumes wr_inv: "inv s \<Longrightarrow> wr s l d = Some (rc, s') \<Longrightarrow> inv s'"
    and wr_total: "inv s \<Longrightarrow> \<exists>r. wr s l d = Some r"
    and wr_view: "inv s \<Longrightarrow> wr s l d = Some (0, s') \<Longrightarrow> valid k \<Longrightarrow>
      view s' k = (if k = l then Some d else view s k)"
begin

text \<open>The device is a map in which the last write wins.\<close>

lemma run_writes_view:
  "inv s \<Longrightarrow> run_writes wr s ws = Some s' \<Longrightarrow> valid k \<Longrightarrow>
     inv s' \<and> view s' k = (case map_of (rev ws) k of None \<Rightarrow> view s k | Some d \<Rightarrow> Some d)"
proof (induction ws arbitrary: s)
  case (Cons w ws)
  obtain l d where w: "w = (l, d)" by (cases w)
  from Cons.prems(2) obtain t where t: "wr s l d = Some (0, t)" "run_writes wr t ws = Some s'"
    by (auto simp: w split: option.splits if_splits)
  have "inv t" using wr_inv [OF Cons.prems(1) t(1)] .
  from Cons.IH [OF this t(2) Cons.prems(3)] wr_view [OF Cons.prems(1) t(1) Cons.prems(3)]
  show ?case by (auto simp: w map_add_def split: option.splits)
qed simp

end

interpretation ftl: block_device ftl_inv "\<lambda>lba. unat lba < FTL_MAX_LBAS" "\<lambda>f lba. ftl_content f (unat lba)" ftl_write
proof unfold_locales
  fix f f' and lba k :: u32 and d rc
  assume inv: "ftl_inv f"
  show "\<exists>r. ftl_write f lba d = Some r" using ftl_write_cases [OF inv, of lba d] by blast
  show "ftl_inv f'" if "ftl_write f lba d = Some (rc, f')"
    using ftl_write_cases [OF inv, of lba d] that by auto
  assume w: "ftl_write f lba d = Some (0, f')" and k: "unat k < FTL_MAX_LBAS"
  have room: "unat lba < FTL_MAX_LBAS" "unat (write_pointer f) < physical_page_count"
    using ftl_write_cases [OF inv, of lba d] w by auto
  from ftl_write_room [OF inv room, of d] w obtain
    pages: "\<And>p. get_physical_page f' p =
       (if p = write_pointer f then Some (written_page p d)
        else if old_page f (unat lba) p then map_option page_invalid (get_physical_page f p)
        else get_physical_page f p)"
    and map: "mapping_table f' = (mapping_table f)(unat lba := uint (write_pointer f))"
    by (metis (no_types, lifting) option.inject prod.inject)
  show "ftl_content f' (unat k) = (if k = lba then Some d else ftl_content f (unat k))"
  proof (cases "k = lba")
    case True
    then show ?thesis by (simp add: ftl_content_def map pages written_page_def)
  next
    case False
    then have ne: "unat k \<noteq> unat lba" by (simp add: word_unat_eq_iff)
    have "ftl_content f' (unat k) = ftl_content f (unat k)"
      by (rule ftl_content_other [OF inv room(1) k ne]) (use ne in \<open>auto simp: pages map\<close>)
    with False show ?thesis by simp
  qed
qed
section \<open>Properties\<close>

inductive ftl_reachable :: "FTL \<Rightarrow> bool" where
  init: "ftl_reachable (ftl_init mode)"
| get: "ftl_reachable f \<Longrightarrow> ftl_read f lba out = (rc, d, f') \<Longrightarrow> ftl_reachable f'"
| put: "ftl_reachable f \<Longrightarrow> ftl_write f lba d = Some (rc, f') \<Longrightarrow> ftl_reachable f'"
| trim: "ftl_reachable f \<Longrightarrow> ftl_trim f lba = Some (rc, f') \<Longrightarrow> ftl_reachable f'"

lemma ftl_reachable_inv: "ftl_reachable f \<Longrightarrow> ftl_inv f"
proof (induction rule: ftl_reachable.induct)
  case (put f lba d rc f')
  then show ?case using ftl_write_cases [of f lba d] by auto
next
  case (trim f lba rc f')
  then show ?case using ftl_trim_inv [of f lba] by auto
qed (auto intro: ftl_init_inv ftl_read_inv)

lemma ftl_fills: "n \<le> physical_page_count \<Longrightarrow>
    \<exists>f. ftl_reachable f \<and> unat (write_pointer f) = n \<and> (0 < n \<longrightarrow> 0 \<le> mapping_table f 0)"
proof (induction n)
  case 0
  have "ftl_reachable (ftl_init FTL_MAPPING_PAGE_LEVEL)" by (rule ftl_reachable.init)
  then show ?case by (intro exI [of _ "ftl_init FTL_MAPPING_PAGE_LEVEL"]) (simp add: ftl_init_def)
next
  case (Suc n)
  then obtain f where f: "ftl_reachable f" "unat (write_pointer f) = n" by auto
  have room: "unat (write_pointer f) < physical_page_count" using f(2) Suc.prems by simp
  have l: "unat (0 :: u32) < FTL_MAX_LBAS" by (simp add: ftl_consts)
  from ftl_write_room [OF ftl_reachable_inv [OF f(1)] l room, of "\<lambda>_. 0"] obtain f' where
    "ftl_write f 0 (\<lambda>_. 0) = Some (0, f')" "unat (write_pointer f') = unat (write_pointer f) + 1"
    "mapping_table f' = (mapping_table f)(unat (0 :: u32) := uint (write_pointer f))"
    by (metis (no_types, lifting))
  then show ?case using f ftl_reachable.put [OF f(1)] by (intro exI [of _ f']) auto
qed

text \<open>
  C13: Every state that reads, writes and trims can reach keeps the mapping invariant: the
  mapped LBAs point to distinct pages below the write pointer, each valid with the reverse entry
  of its LBA or invalid with none; all pages from the write pointer on are free, and the free
  counter and the write pointer add up to 65536.  No operation leaves the maps.
\<close>

theorem ftl_reachable_wf:
  assumes "ftl_reachable f"
  shows "ftl_inv f \<and> ftl_write f lba d \<noteq> None \<and> ftl_trim f lba \<noteq> None"
  using ftl_reachable_inv [OF assms] ftl_write_cases [OF ftl_reachable_inv [OF assms], of lba d]
    ftl_trim_inv [OF ftl_reachable_inv [OF assms], of lba] by auto

theorem ftl_reachable_wf_witness:
  "ftl_inv (ftl_init FTL_MAPPING_PAGE_LEVEL) \<and> ftl_write (ftl_init FTL_MAPPING_PAGE_LEVEL) 7 (\<lambda>_. 3) \<noteq> None"
  using ftl_reachable_wf [OF ftl_reachable.init] by blast

text \<open>
  C1: The translation layer refines a map from LBAs to contents: after any sequence of
  successful writes every LBA reads what was written to it last, and an LBA not written keeps its
  content.
\<close>

theorem ftl_refines_map:
  assumes "ftl_reachable f" and "run_writes ftl_write f ws = Some f'" and "unat lba < FTL_MAX_LBAS"
  shows "(fst (ftl_read f' lba out), fst (snd (ftl_read f' lba out))) =
    (case map_of (rev ws) lba of
       Some d \<Rightarrow> (0, d)
     | None \<Rightarrow> (fst (ftl_read f lba out), fst (snd (ftl_read f lba out))))"
  using ftl.run_writes_view [OF ftl_reachable_inv [OF assms(1)] assms(2,3)] assms(3)
  by (simp add: ftl_read_content split: option.splits)

lemma three_writes_run:
  "\<exists>f'. run_writes ftl_write (ftl_init FTL_MAPPING_PAGE_LEVEL) [(5, \<lambda>_. 1), (9, \<lambda>_. 2), (5, \<lambda>_. 3)] = Some f'"
proof -
  have step: "\<exists>f'. ftl_write f lba d = Some (0, f') \<and> ftl_inv f' \<and> unat (write_pointer f') = unat (write_pointer f) + 1"
    if "ftl_inv f" "unat lba < FTL_MAX_LBAS" "unat (write_pointer f) < physical_page_count" for f lba d
    using ftl_write_cases [OF that(1), of lba d] ftl_write_room [OF that, of d] that by (metis (no_types, lifting) option.inject prod.inject)
  let ?f0 = "ftl_init FTL_MAPPING_PAGE_LEVEL"
  have w0: "unat (write_pointer ?f0) = 0" by (simp add: ftl_init_def)
  obtain f1 where f1: "ftl_write ?f0 5 (\<lambda>_. 1) = Some (0, f1)" "ftl_inv f1" "unat (write_pointer f1) = 1"
    using step [of ?f0 5 "\<lambda>_. 1", OF ftl_init_inv] w0 by (auto simp: ftl_consts physical_page_count_def)
  obtain f2 where f2: "ftl_write f1 9 (\<lambda>_. 2) = Some (0, f2)" "ftl_inv f2" "unat (write_pointer f2) = 2"
    using step [OF f1(2), of 9 "\<lambda>_. 2"] f1(3) by (auto simp: ftl_consts physical_page_count_def)
  obtain f3 where "ftl_write f2 5 (\<lambda>_. 3) = Some (0, f3)"
    using step [OF f2(2), of 5 "\<lambda>_. 3"] f2(3) by (auto simp: ftl_consts physical_page_count_def)
  with f1 f2 show ?thesis by simp
qed

theorem ftl_refines_map_witness:
  "\<exists>f'. run_writes ftl_write (ftl_init FTL_MAPPING_PAGE_LEVEL) [(5, \<lambda>_. 1), (9, \<lambda>_. 2), (5, \<lambda>_. 3)] = Some f'
     \<and> fst (ftl_read f' 5 (\<lambda>_. 0)) = 0 \<and> fst (snd (ftl_read f' 5 (\<lambda>_. 0))) = (\<lambda>_. 3)
     \<and> fst (ftl_read f' 7 (\<lambda>_. 0)) = fst (ftl_read (ftl_init FTL_MAPPING_PAGE_LEVEL) 7 (\<lambda>_. 0))"
proof -
  obtain f' where f': "run_writes ftl_write (ftl_init FTL_MAPPING_PAGE_LEVEL) [(5, \<lambda>_. 1), (9, \<lambda>_. 2), (5, \<lambda>_. 3)] = Some f'"
    using three_writes_run by blast
  from ftl_refines_map [OF ftl_reachable.init f', of 5] ftl_refines_map [OF ftl_reachable.init f', of 7] f' show ?thesis
    by (auto simp: ftl_consts)
qed

text \<open>
  Trimming an LBA returns 0, makes it read as zeros and leaves the content of every other LBA
  alone.
\<close>

theorem ftl_trim_reads_zero:
  assumes "ftl_reachable f" and l: "unat lba < FTL_MAX_LBAS" and k: "unat k < FTL_MAX_LBAS"
    and trim: "ftl_trim f lba = Some (rc, f')"
  shows "rc = 0 \<and> ftl_content f' (unat k) = (if k = lba then Some (\<lambda>_. 0) else ftl_content f (unat k))"
proof -
  have inv: "ftl_inv f" using assms(1) by (rule ftl_reachable_inv)
  from ftl_trim_result [OF inv l] trim have rc: "rc = 0" and
    pages: "\<And>p. get_physical_page f' p =
       (if old_page f (unat lba) p then map_option page_invalid (get_physical_page f p) else get_physical_page f p)" and
    map: "mapping_table f' = (if 0 \<le> mapping_table f (unat lba) then (mapping_table f)(unat lba := -1) else mapping_table f)"
    by (metis (no_types, lifting) option.inject prod.inject)+
  have "ftl_content f' (unat k) = ftl_content f (unat k)" if "k \<noteq> lba"
  proof -
    have ne: "unat k \<noteq> unat lba" using that by (simp add: word_unat_eq_iff)
    then show ?thesis by (intro ftl_content_other [OF inv l k ne]) (auto simp: pages map)
  qed
  then show ?thesis by (auto simp: rc ftl_content_def map)
qed

theorem ftl_trim_reads_zero_witness:
  "\<exists>f'. ftl_trim (ftl_init FTL_MAPPING_PAGE_LEVEL) 3 = Some (0, f') \<and> ftl_content f' 3 = Some (\<lambda>_. 0)"
proof -
  obtain rc f' where f': "ftl_trim (ftl_init FTL_MAPPING_PAGE_LEVEL) 3 = Some (rc, f')"
    using ftl_trim_inv [OF ftl_init_inv] by blast
  from ftl_trim_reads_zero [OF ftl_reachable.init _ _ f', of 3] f' show ?thesis by (auto simp: ftl_consts)
qed

text \<open>
  The device holds 8192 pages although its counters start at 65536, and pages are never
  reclaimed: once 8192 writes have succeeded every further write fails with -1, with the free
  counter at 57344; and a failed overwrite has already invalidated the old page, so the content
  that the LBA had before is lost.  Such a state is reachable.
\<close>

theorem ftl_full_write_destroys:
  assumes "ftl_reachable f" and full: "unat (write_pointer f) = physical_page_count"
    and l: "unat lba < FTL_MAX_LBAS" and mapped: "0 \<le> mapping_table f (unat lba)"
  shows "free_pages f = 57344 \<and>
    (\<exists>f'. ftl_write f lba d = Some (-1, f') \<and> write_pointer f' = write_pointer f \<and>
       ftl_content f' (unat lba) = None)"
proof -
  have inv: "ftl_inv f" using assms(1) by (rule ftl_reachable_inv)
  have "unat (free_pages f) = unat (57344 :: u32)"
    using ftl_invD(2) [OF inv] full by (simp add: physical_page_count_def)
  then have "free_pages f = 57344" by (simp only: word_unat_eq_iff)
  moreover obtain f' where f': "ftl_write f lba d = Some (-1, f')"
    "\<And>p. get_physical_page f' p =
       (if old_page f (unat lba) p then map_option page_invalid (get_physical_page f p) else get_physical_page f p)"
    "mapping_table f' = mapping_table f" "write_pointer f' = write_pointer f"
    using ftl_write_full [OF inv l, of d] full by (metis (no_types, lifting) order_refl)
  have "old_page f (unat lba) (of_int (mapping_table f (unat lba)))" using mapped by (simp add: old_page_def)
  then have "ftl_content f' (unat lba) = None"
    using mapped by (auto simp: ftl_content_def f'(2,3) page_invalid_def split: option.splits)
  ultimately show ?thesis using f' by blast
qed

theorem ftl_full_write_destroys_witness:
  "\<exists>f f'. ftl_reachable f \<and> free_pages f = 57344 \<and> ftl_write f 0 (\<lambda>_. 1) = Some (-1, f') \<and> ftl_content f' 0 = None"
proof -
  obtain f where f: "ftl_reachable f" "unat (write_pointer f) = physical_page_count" "0 \<le> mapping_table f (unat (0 :: u32))"
    using ftl_fills [of physical_page_count] by (auto simp: physical_page_count_def)
  from ftl_full_write_destroys [OF f(1,2) _ f(3), of "\<lambda>_. 1"] f(1) show ?thesis by (auto simp: ftl_consts)
qed

text \<open>
  The SLC buffer does not own its pages.  It writes into physical page \<open>slc_count\<close>, which the
  normal write path hands out too: when another LBA is mapped there, that LBA afterwards reads the
  data written to the buffered one.
\<close>

theorem ftl_slc_write_aliases:
  assumes ext: "slc_enabled ext" "slc_count ext < FTL_SLC_BUFFER_PAGES"
    and l: "unat lba < FTL_MAX_LBAS" and other: "k \<noteq> unat lba" "mapping_table f k = uint (slc_count ext)"
    and slc: "ftl_slc_buffer_write ext f lba data = Some (rc, ext', f')"
  shows "rc = 0 \<and> ftl_content f' (unat lba) = Some data \<and> ftl_content f' k = Some data"
proof -
  have c: "unat (slc_count ext) < physical_page_count"
    using ext(2) by (simp add: word_less_nat_alt ftl_consts physical_page_count_def)
  then obtain pg where pg: "get_physical_page f (slc_count ext) = Some pg"
    using page.get_total [of f "slc_count ext"] by blast
  have s: "sint (slc_count ext) = uint (slc_count ext)" using c sint_small [of "slc_count ext"]
    by (simp add: physical_page_count_def)
  have g: "\<not> FTL_SLC_BUFFER_PAGES \<le> slc_count ext" "\<not> FTL_MAX_LBAS \<le> unat lba" using ext(2) l by simp_all
  show ?thesis
    using slc ext(1) g other(1) pg
    by (auto simp: ftl_slc_buffer_write_def ftl_content_def page.get_put [OF c] other(2) s Let_def)
qed

theorem ftl_slc_write_aliases_witness:
  "\<exists>f ext f'. ftl_write (ftl_init FTL_MAPPING_PAGE_LEVEL) 5 (\<lambda>_. 1) = Some (0, f)
     \<and> ftl_slc_buffer_write ftl_slc_buffer_init f 6 (\<lambda>_. 2) = Some (0, ext, f')
     \<and> ftl_content f' 5 = Some (\<lambda>_. 2)"
proof -
  let ?f0 = "ftl_init FTL_MAPPING_PAGE_LEVEL"
  have h: "unat (5 :: u32) < FTL_MAX_LBAS" "unat (write_pointer ?f0) < physical_page_count"
    by (simp_all add: ftl_consts physical_page_count_def ftl_init_def)
  obtain f where f: "ftl_write ?f0 5 (\<lambda>_. 1) = Some (0, f)" "mapping_table f = (mapping_table ?f0)(5 := 0)"
    using ftl_write_room [OF ftl_init_inv h, of "\<lambda>_. 1"] by (auto simp: ftl_init_def)
  obtain pg where pg: "get_physical_page f 0 = Some pg"
    using page.get_total [of f 0] by (auto simp: physical_page_count_def)
  obtain rc ext f' where f': "ftl_slc_buffer_write ftl_slc_buffer_init f 6 (\<lambda>_. 2) = Some (rc, ext, f')"
    using pg by (auto simp: ftl_slc_buffer_write_def ftl_slc_buffer_init_def ftl_consts Let_def)
  from ftl_slc_write_aliases [OF _ _ _ _ _ f', of 5] f f' show ?thesis
    by (auto simp: ftl_slc_buffer_init_def ftl_consts)
qed

end
