(* ===== verification/Nvme.thy ===== *)
theory Nvme
  imports Ring
begin

text \<open>
  The NVMe controller of \<^verbatim>\<open>mini-storage-hardware/src/nvme.c\<close>: submission and completion queues with
  their doorbells, command submission, completion processing, physical region page lists, the
  identify data and the submission queue arbiter.
\<close>

unbundle bit_operations_syntax

section \<open>Data\<close>

definition NVME_MAX_IO_QUEUES :: nat where "NVME_MAX_IO_QUEUES = 8"
definition NVME_QUEUE_DEPTH :: u32 where "NVME_QUEUE_DEPTH = 64"
definition NVME_MAX_NAMESPACES :: nat where "NVME_MAX_NAMESPACES = 1"
definition NVME_SECTOR_SIZE :: nat where "NVME_SECTOR_SIZE = 512"
definition NVME_PRP_ENTRIES_PER_PAGE :: nat where "NVME_PRP_ENTRIES_PER_PAGE = NVME_SECTOR_SIZE div 8"

record NVMeCommand =
  nc_opcode :: u8
  nc_flags :: u8
  nc_command_id :: u16
  nc_namespace_id :: u32
  nc_reserved :: u64
  nc_metadata_ptr :: u64
  nc_data_ptr :: u64
  nc_slba :: u64
  nc_nlb :: u16
  nc_dsm_attr :: u16
  nc_cdw10 :: u32
  nc_cdw11 :: u32
  nc_cdw12 :: u32
  nc_cdw13 :: u32
  nc_cdw14 :: u32
  nc_cdw15 :: u32

record NVMeCompletion =
  cp_cmd_specific :: u32
  cp_reserved :: u32
  cp_sq_head_ptr :: u16
  cp_sq_id :: u16
  cp_command_id :: u16
  cp_status :: u16

record NVMeQueue =
  q_id :: u32
  q_depth :: u32
  q_entries :: "NVMeCommand arr"
  q_head :: u32
  q_tail :: u32
  q_doorbell_head :: u32
  q_doorbell_tail :: u32

record NVMeController =
  admin_sq :: NVMeQueue
  admin_cq :: NVMeQueue
  io_sqs :: "NVMeQueue arr"
  io_cqs :: "NVMeQueue arr"
  sq_tail_doorbell :: "u32 arr"
  cq_head_doorbell :: "u32 arr"
  cq_phase :: "bool arr"
  ns_size :: "u64 arr"

definition zero_command :: NVMeCommand where
  "zero_command = \<lparr>nc_opcode = 0, nc_flags = 0, nc_command_id = 0, nc_namespace_id = 0, nc_reserved = 0,
     nc_metadata_ptr = 0, nc_data_ptr = 0, nc_slba = 0, nc_nlb = 0, nc_dsm_attr = 0, nc_cdw10 = 0,
     nc_cdw11 = 0, nc_cdw12 = 0, nc_cdw13 = 0, nc_cdw14 = 0, nc_cdw15 = 0\<rparr>"

definition init_queue :: "u32 \<Rightarrow> NVMeQueue" where
  "init_queue i = \<lparr>q_id = i, q_depth = NVME_QUEUE_DEPTH, q_entries = \<lambda>_. zero_command, q_head = 0, q_tail = 0,
     q_doorbell_head = 0, q_doorbell_tail = 0\<rparr>"

definition nvme_init :: NVMeController where
  "nvme_init = \<lparr>admin_sq = init_queue 0, admin_cq = init_queue 0,
     io_sqs = \<lambda>i. init_queue (of_nat i + 1), io_cqs = \<lambda>i. init_queue (of_nat i + 1),
     sq_tail_doorbell = \<lambda>_. 0, cq_head_doorbell = \<lambda>_. 0, cq_phase = \<lambda>_. False,
     ns_size = \<lambda>_. 1024 * 1024 * 1024\<rparr>"

section \<open>Queues\<close>

definition sq_is_full :: "NVMeQueue \<Rightarrow> bool" where
  "sq_is_full sq =
     (let count = (if q_tail sq \<ge> q_head sq then q_tail sq - q_head sq
                   else q_depth sq - q_head sq + q_tail sq)
      in count \<ge> q_depth sq - 1)"

definition sq_is_empty :: "NVMeQueue \<Rightarrow> bool" where
  "sq_is_empty sq \<longleftrightarrow> q_head sq = q_tail sq"

text \<open>The return of -1 is \<open>None\<close>.\<close>

definition sq_enqueue :: "NVMeQueue \<Rightarrow> NVMeCommand \<Rightarrow> NVMeQueue option" where
  "sq_enqueue sq cmd =
     (if sq_is_full sq then None
      else Some (sq\<lparr>q_entries := (q_entries sq)(unat (q_tail sq) := cmd),
                    q_tail := (q_tail sq + 1) mod q_depth sq\<rparr>))"

definition nvme_submit_admin_cmd :: "NVMeController \<Rightarrow> NVMeCommand \<Rightarrow> int \<times> NVMeController" where
  "nvme_submit_admin_cmd ctrl cmd =
     (case sq_enqueue (admin_sq ctrl) cmd of
        None \<Rightarrow> (-1, ctrl)
      | Some sq \<Rightarrow> (0, ctrl\<lparr>admin_sq := sq, sq_tail_doorbell := (sq_tail_doorbell ctrl)(0 := q_tail sq)\<rparr>))"

definition nvme_submit_io_cmd :: "NVMeController \<Rightarrow> u32 \<Rightarrow> NVMeCommand \<Rightarrow> int \<times> NVMeController" where
  "nvme_submit_io_cmd ctrl qid cmd =
     (if unat qid \<ge> NVME_MAX_IO_QUEUES then (-1, ctrl)
      else case sq_enqueue (io_sqs ctrl (unat qid)) cmd of
             None \<Rightarrow> (-1, ctrl)
           | Some sq \<Rightarrow> (0, ctrl\<lparr>io_sqs := (io_sqs ctrl)(unat qid := sq),
                 sq_tail_doorbell := (sq_tail_doorbell ctrl)(unat qid + 1 := q_tail sq)\<rparr>))"

text \<open>The completion record and the head of the chosen completion queue.\<close>

definition completion :: "NVMeQueue \<Rightarrow> u32 \<Rightarrow> NVMeCompletion" where
  "completion cq qid = \<lparr>cp_cmd_specific = 0, cp_reserved = 0, cp_sq_head_ptr = ucast (q_head cq),
     cp_sq_id = ucast qid, cp_command_id = 0, cp_status = 0\<rparr>"

definition nvme_process_cq ::
  "NVMeController \<Rightarrow> u32 \<Rightarrow> NVMeCompletion \<Rightarrow> int \<times> NVMeCompletion \<times> NVMeController" where
  "nvme_process_cq ctrl qid out_comp =
     (if unat qid > NVME_MAX_IO_QUEUES then (-1, out_comp, ctrl)
      else
        let cq = (if qid = 0 then admin_cq ctrl else io_cqs ctrl (unat (qid - 1)))
        in if sq_is_empty cq then (-1, out_comp, ctrl)
           else
             let cq' = cq\<lparr>q_head := (q_head cq + 1) mod q_depth cq\<rparr>;
                 c1 = (if qid = 0 then ctrl\<lparr>admin_cq := cq'\<rparr>
                       else ctrl\<lparr>io_cqs := (io_cqs ctrl)(unat (qid - 1) := cq')\<rparr>)
             in (0, completion cq qid,
                 c1\<lparr>cq_head_doorbell := (cq_head_doorbell c1)(unat qid := q_head cq')\<rparr>))"

section \<open>Physical region pages\<close>

record PRPList =
  prp_entries :: "u64 arr"
  prp_count :: u32

definition nvme_prp_list_init :: PRPList where
  "nvme_prp_list_init = \<lparr>prp_entries = \<lambda>_. 0, prp_count = 0\<rparr>"

definition nvme_prp_add_entry :: "PRPList \<Rightarrow> u64 \<Rightarrow> int \<times> PRPList" where
  "nvme_prp_add_entry prp phys_addr =
     (if unat (prp_count prp) \<ge> NVME_PRP_ENTRIES_PER_PAGE then (-1, prp)
      else (0, prp\<lparr>prp_entries := (prp_entries prp)(unat (prp_count prp) := phys_addr),
                   prp_count := prp_count prp + 1\<rparr>))"

text \<open>The loop of \<open>nvme_build_prp\<close>; the entry cap bounds it.\<close>

function build_prp_loop :: "u64 \<Rightarrow> u32 \<Rightarrow> u32 \<Rightarrow> PRPList \<Rightarrow> PRPList" where
  "build_prp_loop buffer len offset prp =
     (if offset < len \<and> unat (prp_count prp) < NVME_PRP_ENTRIES_PER_PAGE
      then build_prp_loop buffer len (offset + of_nat NVME_SECTOR_SIZE)
             (prp\<lparr>prp_entries := (prp_entries prp)(unat (prp_count prp) := buffer + ucast offset),
                  prp_count := prp_count prp + 1\<rparr>)
      else prp)"
  by pat_completeness auto

lemma prp_count_step:
  "unat (prp_count prp) < NVME_PRP_ENTRIES_PER_PAGE \<Longrightarrow> unat (prp_count prp + 1) = unat (prp_count prp) + 1"
  using unat_add_lem [of "prp_count prp" 1] by (simp add: NVME_PRP_ENTRIES_PER_PAGE_def NVME_SECTOR_SIZE_def)

termination build_prp_loop
  by (relation "measure (\<lambda>(b, l, off, prp). NVME_PRP_ENTRIES_PER_PAGE - unat (prp_count prp))")
    (auto simp: prp_count_step)

declare build_prp_loop.simps [simp del]

definition nvme_build_prp :: "u64 \<Rightarrow> u32 \<Rightarrow> int \<times> PRPList" where
  "nvme_build_prp buffer len = (0, build_prp_loop buffer len 0 nvme_prp_list_init)"

section \<open>Identify data\<close>

text \<open>The text fields are strings padded with zero bytes by \<open>strncpy\<close>.\<close>

record IdentifyController =
  id_pci_vid :: u16
  id_pci_svid :: u16
  id_sn :: string
  id_mn :: string
  id_fr :: string
  id_nn :: u32
  id_ver :: u32
  id_maxcmd :: u16
  id_mdts :: u8
  id_sqes :: u8
  id_cqes :: u8
  id_oncs :: u16

definition nvme_identify_controller :: IdentifyController where
  "nvme_identify_controller = \<lparr>id_pci_vid = 0x144D, id_pci_svid = 0x144D, id_sn = ''S4EUNG0M123456'',
     id_mn = ''NVMe-mini SSD Controller'', id_fr = ''1.0.0'', id_nn = of_nat NVME_MAX_NAMESPACES,
     id_ver = 0x00010400, id_maxcmd = 0, id_mdts = 5, id_sqes = 0x66, id_cqes = 0x44, id_oncs = 0x001F\<rparr>"

record IdentifyNamespace =
  ns_nsze :: u64
  ns_ncap :: u64
  ns_nuse :: u64
  ns_flbas :: u8
  ns_nlbaf :: u8

definition nvme_identify_namespace :: "u64 \<Rightarrow> IdentifyNamespace" where
  "nvme_identify_namespace nbytes = \<lparr>ns_nsze = nbytes div of_nat NVME_SECTOR_SIZE,
     ns_ncap = nbytes div of_nat NVME_SECTOR_SIZE, ns_nuse = nbytes div of_nat NVME_SECTOR_SIZE,
     ns_flbas = 0, ns_nlbaf = 1\<rparr>"

section \<open>Arbitration\<close>

record NVMeArbiter =
  arb_weights :: "u8 arr"
  remaining_burst :: "u32 arr"
  current_sq :: u32
  arb_burst :: u32

definition nvme_arbiter_init :: "u32 \<Rightarrow> NVMeArbiter" where
  "nvme_arbiter_init burst =
     \<lparr>arb_weights = \<lambda>_. 0, remaining_burst = \<lambda>_. burst, current_sq = 0, arb_burst = burst\<rparr>"

definition nvme_arbiter_set_weight :: "NVMeArbiter \<Rightarrow> u32 \<Rightarrow> u8 \<Rightarrow> NVMeArbiter" where
  "nvme_arbiter_set_weight arb qid weight =
     (if unat qid \<ge> NVME_MAX_IO_QUEUES then arb
      else arb\<lparr>arb_weights := (arb_weights arb)(unat qid := weight)\<rparr>)"

text \<open>The bursts that a served queue consumes: one turn, or its weight.\<close>

definition arb_take :: "NVMeArbiter \<Rightarrow> nat \<Rightarrow> u32" where
  "arb_take arb qid =
     (if arb_weights arb qid = 0 then 1
      else let credits = ucast (arb_weights arb qid)
           in if credits < remaining_burst arb qid then credits else remaining_burst arb qid)"

text \<open>The loop over the queues, \<open>fuel\<close> being the number of queues left to look at.\<close>

fun arbiter_loop :: "nat \<Rightarrow> u32 \<Rightarrow> u32 \<Rightarrow> NVMeArbiter \<Rightarrow> int \<times> NVMeArbiter" where
  "arbiter_loop 0 start i arb = (-1, arb)"
| "arbiter_loop (Suc fuel) start i arb =
     (let qid = (start + i) mod of_nat NVME_MAX_IO_QUEUES; q = unat qid
      in if remaining_burst arb q > 0 then
           let left = remaining_burst arb q - arb_take arb q
           in (int q, arb\<lparr>remaining_burst := (remaining_burst arb)(q := if left = 0 then arb_burst arb else left),
                          current_sq := (qid + 1) mod of_nat NVME_MAX_IO_QUEUES\<rparr>)
         else arbiter_loop fuel start (i + 1)
                (arb\<lparr>remaining_burst := (remaining_burst arb)(q := arb_burst arb)\<rparr>))"

definition nvme_arbiter_next_sq :: "NVMeArbiter \<Rightarrow> int \<times> NVMeArbiter" where
  "nvme_arbiter_next_sq arb = arbiter_loop NVME_MAX_IO_QUEUES (current_sq arb) 0 arb"

section \<open>Submission queues as bounded queues\<close>

definition queue_inv :: "NVMeQueue \<Rightarrow> bool" where
  "queue_inv q \<longleftrightarrow> q_depth q = 64 \<and> unat (q_head q) < 64 \<and> unat (q_tail q) < 64"

definition queue_count :: "NVMeQueue \<Rightarrow> nat" where
  "queue_count q = (if unat (q_head q) \<le> unat (q_tail q) then unat (q_tail q) - unat (q_head q)
     else 64 - unat (q_head q) + unat (q_tail q))"

definition queue_list :: "NVMeQueue \<Rightarrow> NVMeCommand list" where
  "queue_list q = ring_list (q_entries q) 64 (unat (q_head q)) (queue_count q)"

lemma next_index: "unat i < 64 \<Longrightarrow> unat ((i + 1) mod 64 :: u32) = (unat i + 1) mod 64"
  using unat_add_lem [of i 1] by (simp add: unat_mod)

lemma queue_count_less: "queue_inv q \<Longrightarrow> queue_count q < 64"
  by (auto simp: queue_inv_def queue_count_def)

lemma queue_tail: "queue_inv q \<Longrightarrow> (unat (q_head q) + queue_count q) mod 64 = unat (q_tail q)"
  by (auto simp: queue_inv_def queue_count_def)

lemma sq_is_full_iff: "queue_inv q \<Longrightarrow> sq_is_full q \<longleftrightarrow> 63 \<le> queue_count q"
proof -
  assume inv: "queue_inv q"
  then have d: "q_depth q = 64" "unat (q_head q) < 64" "unat (q_tail q) < 64" by (simp_all add: queue_inv_def)
  have "unat (if q_head q \<le> q_tail q then q_tail q - q_head q else 64 - q_head q + q_tail q) = queue_count q"
  proof (cases "q_head q \<le> q_tail q")
    case True
    then show ?thesis by (simp add: queue_count_def word_le_nat_alt unat_sub)
  next
    case False
    have "q_head q \<le> 64" using d by (simp add: word_le_nat_alt)
    then have s: "unat (64 - q_head q) = 64 - unat (q_head q)" by (simp add: unat_sub)
    have "unat (64 - q_head q + q_tail q) = 64 - unat (q_head q) + unat (q_tail q)"
      using s d False by (subst unat_add_lem [THEN iffD1]) (simp_all add: word_le_nat_alt)
    then show ?thesis using False by (simp add: queue_count_def word_le_nat_alt)
  qed
  then show ?thesis
    by (cases "q_head q \<le> q_tail q") (simp_all add: sq_is_full_def d(1) Let_def word_le_nat_alt [of 63])
qed

lemma queue_count_enqueue:
  assumes "queue_inv q" "queue_count q < 63"
  shows "queue_count (q\<lparr>q_entries := e, q_tail := (q_tail q + 1) mod 64\<rparr>) = Suc (queue_count q)"
  using assms next_index [of "q_tail q"]
  by (cases "unat (q_tail q) = 63") (auto simp: queue_inv_def queue_count_def)

interpretation sq: bounded_queue queue_inv queue_list "\<lambda>_. 63" sq_enqueue
proof unfold_locales
  fix q q' x
  assume inv: "queue_inv q"
  show "(sq_enqueue q x = None) \<longleftrightarrow> 63 \<le> length (queue_list q)"
    by (simp add: sq_enqueue_def sq_is_full_iff [OF inv] queue_list_def)
  assume e: "sq_enqueue q x = Some q'"
  then have n: "queue_count q < 63" by (simp add: sq_enqueue_def sq_is_full_iff [OF inv] split: if_splits)
  have d: "q_depth q = 64" using inv by (simp add: queue_inv_def)
  have q': "q' = q\<lparr>q_entries := (q_entries q)(unat (q_tail q) := x), q_tail := (q_tail q + 1) mod 64\<rparr>"
    using e d by (simp add: sq_enqueue_def split: if_splits)
  have "queue_list q' = queue_list q @ [x]"
    using ring_list_push [of "queue_count q" 64 "q_entries q" "unat (q_head q)" x] n
    unfolding queue_list_def q' queue_count_enqueue [OF inv n] by (simp add: queue_tail [OF inv])
  moreover have "queue_inv q'"
    using inv next_index [of "q_tail q"] by (simp add: queue_inv_def q')
  ultimately show "queue_list q' = queue_list q @ [x] \<and> queue_inv q' \<and> (63 :: nat) = 63" by simp
qed

section \<open>The controller\<close>

text \<open>What no operation of the controller changes: every head is 0, and nothing completes.\<close>

definition ctrl_inv :: "NVMeController \<Rightarrow> bool" where
  "ctrl_inv c \<longleftrightarrow>
     queue_inv (admin_sq c) \<and> q_head (admin_sq c) = 0 \<and> sq_tail_doorbell c 0 = q_tail (admin_sq c) \<and>
     sq_is_empty (admin_cq c) \<and>
     (\<forall>i < NVME_MAX_IO_QUEUES. queue_inv (io_sqs c i) \<and> q_head (io_sqs c i) = 0 \<and>
        sq_tail_doorbell c (i + 1) = q_tail (io_sqs c i) \<and> sq_is_empty (io_cqs c i))"

inductive nvme_step :: "NVMeController \<Rightarrow> NVMeController \<Rightarrow> bool" where
  admin: "nvme_submit_admin_cmd c cmd = (rc, c') \<Longrightarrow> nvme_step c c'"
| io: "nvme_submit_io_cmd c qid cmd = (rc, c') \<Longrightarrow> nvme_step c c'"
| completion: "nvme_process_cq c qid out = (rc, out2, c') \<Longrightarrow> nvme_step c c'"

lemma sq_enqueue_frame: "sq_enqueue q x = Some q' \<Longrightarrow> q_head q' = q_head q"
  by (auto simp: sq_enqueue_def split: if_splits)

lemma nvme_init_inv: "ctrl_inv nvme_init"
  by (simp add: ctrl_inv_def nvme_init_def init_queue_def queue_inv_def NVME_QUEUE_DEPTH_def sq_is_empty_def)

lemma nvme_process_cq_idle:
  assumes "ctrl_inv c"
  shows "nvme_process_cq c qid out = (-1, out, c)"
proof (cases "qid = 0 \<or> NVME_MAX_IO_QUEUES < unat qid")
  case True
  then show ?thesis using assms by (auto simp: nvme_process_cq_def ctrl_inv_def)
next
  case False
  then have "unat (qid - 1) = unat qid - 1" by (simp add: unat_minus_one)
  moreover have "0 < unat qid" using False by (simp add: unat_gt_0)
  ultimately show ?thesis using False assms
    by (auto simp: nvme_process_cq_def ctrl_inv_def not_less)
qed

lemma nvme_step_inv:
  assumes "nvme_step c c'" and inv: "ctrl_inv c"
  shows "ctrl_inv c'"
  using assms(1)
proof (cases rule: nvme_step.cases)
  case (admin cmd rc)
  then show ?thesis using inv sq.enq_content [of "admin_sq c" cmd]
    by (auto simp: nvme_submit_admin_cmd_def ctrl_inv_def sq_enqueue_frame split: option.splits)
next
  case (io qid cmd rc)
  then show ?thesis using inv sq.enq_content [of "io_sqs c (unat qid)" cmd]
    by (auto simp: nvme_submit_io_cmd_def ctrl_inv_def sq_enqueue_frame not_le split: option.splits if_splits)
next
  case (completion qid out rc out2)
  then show ?thesis using nvme_process_cq_idle [OF inv] inv by simp
qed
lemma nvme_steps_inv: "nvme_step\<^sup>*\<^sup>* c c' \<Longrightarrow> ctrl_inv c \<Longrightarrow> ctrl_inv c'"
  by (induction rule: rtranclp_induct) (auto intro: nvme_step_inv)

lemma nvme_reachable_inv: "nvme_step\<^sup>*\<^sup>* nvme_init c \<Longrightarrow> ctrl_inv c"
  using nvme_steps_inv nvme_init_inv by blast

text \<open>Queues only grow.\<close>

lemma nvme_step_grows:
  assumes "nvme_step c c'" and inv: "ctrl_inv c" and q: "q < NVME_MAX_IO_QUEUES"
  shows "length (queue_list (io_sqs c q)) \<le> length (queue_list (io_sqs c' q))"
  using assms(1)
proof (cases rule: nvme_step.cases)
  case (admin cmd rc)
  then show ?thesis by (auto simp: nvme_submit_admin_cmd_def split: option.splits)
next
  case (io qid cmd rc)
  then show ?thesis using inv q sq.enq_content [of "io_sqs c (unat qid)" cmd]
    by (auto simp: nvme_submit_io_cmd_def ctrl_inv_def split: option.splits if_splits)
next
  case (completion qid out rc out2)
  then show ?thesis using nvme_process_cq_idle [OF inv] by simp
qed

lemma nvme_steps_grow:
  assumes "nvme_step\<^sup>*\<^sup>* c c'" and "ctrl_inv c" and "q < NVME_MAX_IO_QUEUES"
  shows "length (queue_list (io_sqs c q)) \<le> length (queue_list (io_sqs c' q))"
  using assms
proof (induction rule: rtranclp_induct)
  case (step d e)
  then show ?case using nvme_step_grows [of d e q] nvme_steps_inv [of c d] by force
qed simp

lemma queue_list_empty: "queue_inv q \<Longrightarrow> queue_list q = [] \<longleftrightarrow> sq_is_empty q"
  by (auto simp: queue_list_def ring_list_def queue_count_def queue_inv_def sq_is_empty_def word_unat_eq_iff split: if_splits)

text \<open>Advancing the head drops the oldest entry.\<close>

lemma queue_pop:
  assumes inv: "queue_inv q" and ne: "\<not> sq_is_empty q"
  shows "queue_inv (q\<lparr>q_head := (q_head q + 1) mod q_depth q\<rparr>) \<and>
    queue_list (q\<lparr>q_head := (q_head q + 1) mod q_depth q\<rparr>) = tl (queue_list q)"
proof -
  let ?q = "q\<lparr>q_head := (q_head q + 1) mod 64\<rparr>"
  have d: "q_depth q = 64" "unat (q_head q) < 64" "unat (q_tail q) < 64" "unat (q_head q) \<noteq> unat (q_tail q)"
    using inv ne by (simp_all add: queue_inv_def sq_is_empty_def word_unat_eq_iff)
  have h: "unat ((q_head q + 1) mod 64) = Suc (unat (q_head q)) mod 64" using next_index [OF d(2)] by simp
  have c: "queue_count ?q = queue_count q - 1" "0 < queue_count q"
    using d by (auto simp: queue_count_def h Suc_mod_if)
  have "queue_list ?q = tl (queue_list q)"
    using ring_list_pop [OF c(2), of "q_entries q" 64 "unat (q_head q)"]
    by (simp add: queue_list_def c(1)) (simp add: h)
  moreover have "queue_inv ?q" using inv h by (simp add: queue_inv_def)
  ultimately show ?thesis by (simp add: d(1))
qed

text \<open>The completion queue that \<open>nvme_process_cq\<close> looks at.\<close>

definition cq_at :: "NVMeController \<Rightarrow> u32 \<Rightarrow> NVMeQueue" where
  "cq_at c qid = (if qid = 0 then admin_cq c else io_cqs c (unat (qid - 1)))"

lemma nvme_process_cq_pop:
  assumes inv: "queue_inv (cq_at c qid)" and qid: "unat qid \<le> NVME_MAX_IO_QUEUES"
  shows "case nvme_process_cq c qid out of (rc, out2, c') \<Rightarrow>
    queue_inv (cq_at c' qid) \<and> queue_list (cq_at c' qid) = tl (queue_list (cq_at c qid)) \<and>
    (rc = 0 \<longleftrightarrow> queue_list (cq_at c qid) \<noteq> []) \<and> (rc = -1 \<longleftrightarrow> queue_list (cq_at c qid) = [])"
  using queue_pop [OF inv] queue_list_empty [OF inv] inv qid
  by (cases "sq_is_empty (cq_at c qid)") (auto simp: nvme_process_cq_def cq_at_def Let_def not_less)

section \<open>Properties\<close>

text \<open>
  C11: A queue of depth 64 is a first-in first-out queue of capacity 63, wherever its head and
  tail stand in the ring: it is full exactly when it holds 63 commands and empty exactly when it
  holds none; a batch is accepted exactly when it fits beside what is queued, and then follows it
  in order, the tail wrapping round; and processing a completion queue, admin or I/O, returns 0
  and drops the oldest entry alone, or returns -1 when there is none. A fresh queue is such a
  queue and holds nothing.
\<close>

theorem nvme_queue_fifo:
  assumes "queue_inv q" and "cq_at c qid = q" and "unat qid \<le> NVME_MAX_IO_QUEUES"
  shows "(sq_is_full q \<longleftrightarrow> length (queue_list q) = 63) \<and> (sq_is_empty q \<longleftrightarrow> queue_list q = []) \<and>
    (case enq_all sq_enqueue q cmds of
       None \<Rightarrow> 63 < length (queue_list q) + length cmds
     | Some r \<Rightarrow> length (queue_list q) + length cmds \<le> 63 \<and> queue_inv r \<and> queue_list r = queue_list q @ cmds) \<and>
    (case nvme_process_cq c qid out of (rc, out2, c') \<Rightarrow>
       queue_inv (cq_at c' qid) \<and> queue_list (cq_at c' qid) = tl (queue_list q) \<and>
       (rc = 0 \<longleftrightarrow> queue_list q \<noteq> []) \<and> (rc = -1 \<longleftrightarrow> queue_list q = [])) \<and>
    queue_inv (init_queue i) \<and> queue_list (init_queue i) = []"
proof -
  have q0: "queue_inv (init_queue i)" "queue_list (init_queue i) = []"
    by (simp_all add: init_queue_def queue_inv_def NVME_QUEUE_DEPTH_def queue_list_def queue_count_def)
  have n: "length (queue_list q) = queue_count q" by (simp add: queue_list_def)
  have le: "length (queue_list q) \<le> 63" using queue_count_less [OF assms(1)] by (simp add: n)
  then have "sq_is_full q \<longleftrightarrow> length (queue_list q) = 63" using sq_is_full_iff [OF assms(1)] by (auto simp: n)
  then show ?thesis
    using q0 queue_list_empty [OF assms(1)] nvme_process_cq_pop [of c qid out] assms
      sq.enq_all_fits [OF assms(1) le, of cmds] sq.enq_all_content [OF assms(1), of cmds]
    by (auto split: option.splits)
qed

text \<open>A queue of three commands that lies across the end of the ring.\<close>

definition wrapped_queue :: NVMeQueue where
  "wrapped_queue = (init_queue 1)\<lparr>q_head := 62, q_tail := 1\<rparr>"

theorem nvme_queue_fifo_witness:
  "length (queue_list wrapped_queue) = 3 \<and> \<not> sq_is_full wrapped_queue \<and> \<not> sq_is_empty wrapped_queue \<and>
    (\<exists>r. enq_all sq_enqueue wrapped_queue [zero_command] = Some r \<and> length (queue_list r) = 4) \<and>
    fst (nvme_process_cq (nvme_init\<lparr>admin_cq := wrapped_queue\<rparr>) 0 (completion wrapped_queue 0)) = 0"
proof -
  have "queue_inv wrapped_queue" by (simp add: wrapped_queue_def init_queue_def queue_inv_def NVME_QUEUE_DEPTH_def)
  moreover have "cq_at (nvme_init\<lparr>admin_cq := wrapped_queue\<rparr>) 0 = wrapped_queue" by (simp add: cq_at_def)
  moreover have n: "length (queue_list wrapped_queue) = 3"
    by (simp add: queue_list_def wrapped_queue_def queue_count_def)
  moreover have "queue_list wrapped_queue \<noteq> []" using n by auto
  ultimately show ?thesis
    using nvme_queue_fifo [of wrapped_queue "nvme_init\<lparr>admin_cq := wrapped_queue\<rparr>" 0 "[zero_command]" "completion wrapped_queue 0" 0]
    by (cases "enq_all sq_enqueue wrapped_queue [zero_command]";
        cases "nvme_process_cq (nvme_init\<lparr>admin_cq := wrapped_queue\<rparr>) 0 (completion wrapped_queue 0)") simp_all
qed

text \<open>
  Submitting an I/O command to a controller that any sequence of operations has produced
  succeeds exactly when the queue exists and holds fewer than 63 commands; the command is then the
  last of its queue, the doorbell of that queue shows the new tail and no other queue changes.
\<close>

theorem nvme_submit_io_appends:
  assumes "nvme_step\<^sup>*\<^sup>* nvme_init c" and sub: "nvme_submit_io_cmd c qid cmd = (rc, c')"
  shows "if unat qid < NVME_MAX_IO_QUEUES \<and> length (queue_list (io_sqs c (unat qid))) < 63
     then rc = 0 \<and> queue_list (io_sqs c' (unat qid)) = queue_list (io_sqs c (unat qid)) @ [cmd] \<and>
       sq_tail_doorbell c' (unat qid + 1) = q_tail (io_sqs c' (unat qid)) \<and>
       (\<forall>k. k \<noteq> unat qid \<longrightarrow> io_sqs c' k = io_sqs c k)
     else rc = -1 \<and> c' = c"
proof (cases "unat qid < NVME_MAX_IO_QUEUES")
  case True
  with nvme_reachable_inv [OF assms(1)] have inv: "queue_inv (io_sqs c (unat qid))"
    by (simp add: ctrl_inv_def)
  show ?thesis
    using sub True sq.enq_accepts [OF inv, of cmd] sq.enq_content [OF inv, of cmd]
    by (auto simp: nvme_submit_io_cmd_def split: option.splits)
next
  case False
  then show ?thesis using sub by (auto simp: nvme_submit_io_cmd_def)
qed

theorem nvme_submit_io_appends_witness:
  "\<exists>c'. nvme_submit_io_cmd nvme_init 2 zero_command = (0, c') \<and> queue_list (io_sqs c' 2) = [zero_command]"
proof -
  obtain rc c' where c': "nvme_submit_io_cmd nvme_init 2 zero_command = (rc, c')" by fastforce
  have "queue_list (io_sqs nvme_init 2) = []"
    by (simp add: nvme_init_def init_queue_def queue_list_def queue_count_def)
  with nvme_submit_io_appends [OF rtranclp.rtrancl_refl c'] c' show ?thesis
    by (simp add: NVME_MAX_IO_QUEUES_def)
qed

text \<open>
  The controller never completes anything.  No operation adds to a completion queue or takes
  a command off a submission queue: processing a completion queue always returns -1 and changes
  nothing, and a submission queue that is full once rejects every later command.
\<close>

theorem nvme_never_completes:
  assumes "nvme_step\<^sup>*\<^sup>* nvme_init c" and "unat qid < NVME_MAX_IO_QUEUES"
    and "63 \<le> length (queue_list (io_sqs c (unat qid)))" and "nvme_step\<^sup>*\<^sup>* c c'"
  shows "nvme_process_cq c' any out = (-1, out, c') \<and> nvme_submit_io_cmd c' qid cmd = (-1, c')"
proof -
  have inv: "ctrl_inv c'" using assms(1,4) by (meson nvme_reachable_inv nvme_steps_inv)
  have "63 \<le> length (queue_list (io_sqs c' (unat qid)))"
    using nvme_steps_grow [OF assms(4) nvme_reachable_inv [OF assms(1)] assms(2)] assms(3) by simp
  moreover have "queue_inv (io_sqs c' (unat qid))" using inv assms(2) by (simp add: ctrl_inv_def)
  ultimately have "sq_enqueue (io_sqs c' (unat qid)) cmd = None" by (simp add: sq.enq_accepts)
  then show ?thesis using nvme_process_cq_idle [OF inv] assms(2) by (simp add: nvme_submit_io_cmd_def)
qed

lemma nvme_fills: "n \<le> 63 \<Longrightarrow> \<exists>c. nvme_step\<^sup>*\<^sup>* nvme_init c \<and> length (queue_list (io_sqs c 0)) = n"
proof (induction n)
  case 0
  then show ?case by (intro exI [of _ nvme_init])
      (simp add: nvme_init_def init_queue_def queue_list_def queue_count_def)
next
  case (Suc n)
  then obtain c where c: "nvme_step\<^sup>*\<^sup>* nvme_init c" "length (queue_list (io_sqs c 0)) = n" by auto
  have inv: "queue_inv (io_sqs c 0)"
    using nvme_reachable_inv [OF c(1)] by (simp add: ctrl_inv_def NVME_MAX_IO_QUEUES_def)
  obtain q where q: "sq_enqueue (io_sqs c 0) zero_command = Some q"
    using sq.enq_accepts [OF inv, of zero_command] c(2) Suc.prems by auto
  then obtain c' where c': "nvme_submit_io_cmd c 0 zero_command = (0, c')" "io_sqs c' 0 = q"
    by (simp add: nvme_submit_io_cmd_def NVME_MAX_IO_QUEUES_def)
  then show ?case using c sq.enq_content [OF inv q] nvme_step.io [OF c'(1)]
    by (intro exI [of _ c']) auto
qed

theorem nvme_never_completes_witness:
  "\<exists>c. nvme_step\<^sup>*\<^sup>* nvme_init c \<and> length (queue_list (io_sqs c 0)) = 63 \<and>
     nvme_submit_io_cmd c 0 zero_command = (-1, c)"
proof -
  obtain c where c: "nvme_step\<^sup>*\<^sup>* nvme_init c" "length (queue_list (io_sqs c (unat (0 :: u32)))) = 63"
    using nvme_fills [of 63] by auto
  from nvme_never_completes [OF c(1) _ _ rtranclp.rtrancl_refl, of 0] c show ?thesis
    by (auto simp: NVME_MAX_IO_QUEUES_def)
qed

lemma build_prp_loop_result:
  assumes "offset = of_nat (512 * unat (prp_count prp))" "unat (prp_count prp) \<le> 64"
    "unat (prp_count prp) \<le> (unat len + 511) div 512"
    "\<And>i. i < unat (prp_count prp) \<Longrightarrow> prp_entries prp i = b + of_nat (512 * i)"
  shows "unat (prp_count (build_prp_loop b len offset prp)) = min 64 ((unat len + 511) div 512) \<and>
    (\<forall>i < unat (prp_count (build_prp_loop b len offset prp)).
       prp_entries (build_prp_loop b len offset prp) i = b + of_nat (512 * i))"
  using assms
proof (induction b len offset prp rule: build_prp_loop.induct)
  case (1 b len offset prp)
  let ?n = "unat (prp_count prp)"
  have c: "NVME_PRP_ENTRIES_PER_PAGE = 64" "NVME_SECTOR_SIZE = 512"
    by (simp_all add: NVME_PRP_ENTRIES_PER_PAGE_def NVME_SECTOR_SIZE_def)
  have off: "unat offset = 512 * ?n"
    unfolding 1(2) using 1(3) by (simp only: unat_of_nat) (simp add: mod_less)
  have u: "ucast offset = (of_nat (512 * ?n) :: u64)"
    using off by (metis of_nat_unat)
  show ?case
  proof (cases "offset < len \<and> ?n < 64")
    case True
    then have n1: "unat (prp_count prp + 1) = ?n + 1" using prp_count_step [of prp] c by simp
    have lt: "512 * ?n < unat len" using True off by (simp add: word_less_nat_alt)
    let ?p = "prp\<lparr>prp_entries := (prp_entries prp)(?n := b + ucast offset), prp_count := prp_count prp + 1\<rparr>"
    have eq: "build_prp_loop b len offset prp = build_prp_loop b len (offset + of_nat 512) ?p"
      using True by (subst build_prp_loop.simps) (simp add: c)
    show ?thesis
      unfolding eq
    proof (rule 1(1) [unfolded c])
      show "offset + of_nat 512 = of_nat (512 * unat (prp_count ?p))"
        unfolding 1(2) by (simp add: n1 algebra_simps)
      show "prp_entries ?p i = b + of_nat (512 * i)" if "i < unat (prp_count ?p)" for i
        using that 1(5) [of i] u by (auto simp: n1 less_Suc_eq)
    qed (use True n1 lt in auto)
  next
    case False
    then have "64 \<le> ?n \<or> unat len \<le> 512 * ?n" using off by (auto simp: word_less_nat_alt)
    then have "?n = min 64 ((unat len + 511) div 512)" using 1(3,4) by auto
    moreover have "build_prp_loop b len offset prp = prp"
      using False by (subst build_prp_loop.simps) (simp only: c if_False)
    ultimately show ?thesis using 1(5) by auto
  qed
qed

text \<open>
  A PRP list has one entry per started sector of the buffer but never more than 64, and the
  entries are the sector addresses in order; a buffer above 32768 bytes is cut off although the
  call still returns 0.
\<close>

theorem nvme_build_prp_entries:
  "fst (nvme_build_prp b len) = 0 \<and>
   unat (prp_count (snd (nvme_build_prp b len))) = min 64 ((unat len + 511) div 512) \<and>
   (\<forall>i < unat (prp_count (snd (nvme_build_prp b len))).
      prp_entries (snd (nvme_build_prp b len)) i = b + of_nat (512 * i))"
  using build_prp_loop_result [of 0 nvme_prp_list_init len b]
  by (simp add: nvme_build_prp_def nvme_prp_list_init_def)

theorem nvme_build_prp_entries_witness:
  "unat (prp_count (snd (nvme_build_prp 0 1000))) = 2 \<and> prp_entries (snd (nvme_build_prp 0 1000)) 1 = 512"
  using nvme_build_prp_entries [of 0 1000] by simp

section \<open>The arbiter\<close>

definition arb_inv :: "NVMeArbiter \<Rightarrow> bool" where
  "arb_inv a \<longleftrightarrow> arb_burst a \<noteq> 0 \<and> unat (current_sq a) < 8 \<and> (\<forall>q < 8. remaining_burst a q \<noteq> 0)"

text \<open>The queues that \<open>n\<close> calls select.\<close>

fun arb_serve :: "nat \<Rightarrow> NVMeArbiter \<Rightarrow> int list" where
  "arb_serve 0 a = []"
| "arb_serve (Suc n) a = (case nvme_arbiter_next_sq a of (q, a') \<Rightarrow> q # arb_serve n a')"

inductive arb_reachable :: "NVMeArbiter \<Rightarrow> bool" where
  init: "burst \<noteq> 0 \<Longrightarrow> arb_reachable (nvme_arbiter_init burst)"
| weight: "arb_reachable a \<Longrightarrow> arb_reachable (nvme_arbiter_set_weight a qid w)"
| next_sq: "arb_reachable a \<Longrightarrow> nvme_arbiter_next_sq a = (q, a') \<Longrightarrow> arb_reachable a'"

lemma nvme_arbiter_next_result:
  assumes "arb_inv a"
  obtains a' where "nvme_arbiter_next_sq a = (int (unat (current_sq a)), a')" "arb_inv a'"
    "unat (current_sq a') = (unat (current_sq a) + 1) mod 8"
proof -
  let ?q = "unat (current_sq a)"
  let ?left = "remaining_burst a ?q - arb_take a ?q"
  let ?a' = "a\<lparr>remaining_burst := (remaining_burst a)(?q := if ?left = 0 then arb_burst a else ?left),
    current_sq := (current_sq a + 1) mod 8\<rparr>"
  have cur: "current_sq a mod 8 = current_sq a" "remaining_burst a ?q > 0"
    using assms by (auto simp: arb_inv_def word_unat_eq_iff unat_mod word_gt_0)
  have "nvme_arbiter_next_sq a = (int ?q, ?a')"
    using cur by (simp add: nvme_arbiter_next_sq_def NVME_MAX_IO_QUEUES_def eval_nat_numeral(3) numeral_eq_Suc Let_def)
  moreover have "unat ((current_sq a + 1) mod 8) = (?q + 1) mod 8"
    using assms unat_add_lem [of "current_sq a" 1] by (simp add: arb_inv_def unat_mod)
  ultimately show ?thesis using assms that [of ?a'] by (auto simp: arb_inv_def)
qed

lemma arb_reachable_inv: "arb_reachable a \<Longrightarrow> arb_inv a"
proof (induction rule: arb_reachable.induct)
  case (next_sq a q a')
  then show ?case using nvme_arbiter_next_result [of a] by (metis prod.inject)
qed (auto simp: arb_inv_def nvme_arbiter_init_def nvme_arbiter_set_weight_def)

text \<open>
  The arbiter is a plain round robin whatever the weights are: with a nonzero burst, after
  any weight settings and calls, the next \<open>n\<close> calls select \<open>n\<close> consecutive queues modulo 8, one
  each, and no call returns -1.
\<close>

theorem nvme_arbiter_round_robin:
  assumes "arb_reachable a"
  shows "arb_serve n a = map (\<lambda>i. int ((unat (current_sq a) + i) mod 8)) [0..<n]"
proof -
  have "arb_inv a \<Longrightarrow> arb_serve n a = map (\<lambda>i. int ((unat (current_sq a) + i) mod 8)) [0..<n]"
  proof (induction n arbitrary: a)
    case (Suc n)
    from nvme_arbiter_next_result [OF Suc.prems] obtain a' where
      a': "nvme_arbiter_next_sq a = (int (unat (current_sq a)), a')" "arb_inv a'"
      "unat (current_sq a') = (unat (current_sq a) + 1) mod 8" .
    have "unat (current_sq a) < 8" using Suc.prems by (simp add: arb_inv_def)
    then show ?case
      using Suc.IH [OF a'(2)] by (simp add: a'(1,3) mod_simps upt_conv_Cons map_Suc_upt [symmetric] del: upt_Suc)
  qed simp
  then show ?thesis using arb_reachable_inv [OF assms] by blast
qed

theorem nvme_arbiter_round_robin_witness:
  "arb_serve 10 (nvme_arbiter_set_weight (nvme_arbiter_init 4) 1 200) = [0, 1, 2, 3, 4, 5, 6, 7, 0, 1]"
proof -
  have r: "arb_reachable (nvme_arbiter_set_weight (nvme_arbiter_init 4) 1 200)"
    by (intro arb_reachable.weight arb_reachable.init) simp
  show ?thesis
    unfolding nvme_arbiter_round_robin [OF r] by (simp add: nvme_arbiter_init_def nvme_arbiter_set_weight_def NVME_MAX_IO_QUEUES_def upt_rec)
qed

end
