(* ===== verification/Ecc.thy ===== *)
theory Ecc
  imports Prelude "HOL-Library.Signed_Division"
begin

text \<open>
  The error correcting codes of \<^verbatim>\<open>mini-storage-hardware/src/ecc.c\<close>: the Hamming code, the BCH code
  over 16 elements and the Reed-Solomon code over 256 elements, each an encoder with what the source
  has of a decoder.  A pointer result is a second component of the result; the channel capacity and
  the coding gain are in doubles and not modelled.
\<close>

unbundle bit_operations_syntax

section \<open>Hamming code\<close>

definition bit_at :: "u8 \<Rightarrow> nat \<Rightarrow> u8" where "bit_at x k = drop_bit k x AND 1"

definition ecc_hamming_encode :: "u8 \<Rightarrow> u8" where
  "ecc_hamming_encode dat0 =
     (let dat = dat0 AND 0x0F;
          d1 = bit_at dat 0; d2 = bit_at dat 1; d3 = bit_at dat 2; d4 = bit_at dat 3;
          p1 = d1 XOR d2 XOR d4; p2 = d1 XOR d3 XOR d4; p3 = d2 XOR d3 XOR d4;
          codeword = p1 OR push_bit 1 p2 OR push_bit 2 d1 OR push_bit 3 p3 OR push_bit 4 d2 OR push_bit 5 d3 OR push_bit 6 d4
      in codeword AND 0x7F)"

text \<open>The return code and the corrected data.\<close>

definition ecc_hamming_decode :: "u8 \<Rightarrow> u8 \<times> u8" where
  "ecc_hamming_decode codeword0 =
     (let codeword = codeword0 AND 0x7F;
          p1 = bit_at codeword 0; p2 = bit_at codeword 1; d1 = bit_at codeword 2; p3 = bit_at codeword 3;
          d2 = bit_at codeword 4; d3 = bit_at codeword 5; d4 = bit_at codeword 6;
          s1 = p1 XOR (d1 XOR d2 XOR d4); s2 = p2 XOR (d1 XOR d3 XOR d4); s3 = p3 XOR (d2 XOR d3 XOR d4);
          error_pos = unat (push_bit 2 s3 OR push_bit 1 s2 OR s1);
          corrected = (if error_pos > 0 \<and> error_pos \<le> 7 then codeword XOR push_bit (error_pos - 1) 1 else codeword)
      in (if error_pos > 7 then 3 else 0, (drop_bit 2 corrected AND 0x01) OR (drop_bit 3 corrected AND 0x0E)))"

definition ecc_hamming_introduce_error :: "u8 \<Rightarrow> int \<Rightarrow> u8" where
  "ecc_hamming_introduce_error codeword pos = (if pos < 0 \<or> pos > 6 then codeword else codeword XOR push_bit (nat pos) 1)"

section \<open>BCH code\<close>

definition gf_mult_step :: "u8 \<times> u8 \<times> u8 \<Rightarrow> u8 \<times> u8 \<times> u8" where
  "gf_mult_step = (\<lambda>(result, a, b).
     (if b AND 1 \<noteq> 0 then result XOR a else result,
      if a AND 0x08 \<noteq> 0 then push_bit 1 a XOR 0x03 else push_bit 1 a, drop_bit 1 b))"

definition gf_mult :: "u8 \<Rightarrow> u8 \<Rightarrow> u8" where
  "gf_mult a b = fst (for_range 0 4 (\<lambda>_. gf_mult_step) (0, a, b)) AND 0x0F"

definition gf_add :: "u8 \<Rightarrow> u8 \<Rightarrow> u8" where "gf_add a b = a XOR b"

definition gf_pow :: "u8 \<Rightarrow> int \<Rightarrow> u8" where
  "gf_pow base expo = for_range 0 (nat expo) (\<lambda>_ r. gf_mult r base) 1"

definition ECC_BCH_N :: nat where "ECC_BCH_N = 15"
definition ECC_BCH_K :: nat where "ECC_BCH_K = 7"

definition bch_shift :: "u8 \<Rightarrow> nat \<Rightarrow> u8 list \<Rightarrow> u8 list" where
  "bch_shift dat i reg =
     (let input = drop_bit (6 - i) dat AND 1; feedback = (reg ! 7 XOR input) AND 1
      in [feedback, reg ! 0, reg ! 1, reg ! 2, reg ! 3 XOR feedback, reg ! 4, reg ! 5 XOR feedback, reg ! 6 XOR feedback])"

definition ecc_bch_encode :: "u8 \<Rightarrow> u8 list" where
  "ecc_bch_encode dat = for_range 0 ECC_BCH_K (bch_shift dat) (replicate 8 0)"

definition bch_compute_syndromes :: "u8 list \<Rightarrow> u8 \<times> u8" where
  "bch_compute_syndromes received = for_range 0 ECC_BCH_N (\<lambda>i (syn1, syn3).
     if drop_bit (i mod 8) (received ! (i div 8)) AND 1 \<noteq> 0
     then (gf_add syn1 (gf_pow 2 (int i * 1 mod 15)), gf_add syn3 (gf_pow 2 (int i * 3 mod 15)))
     else (syn1, syn3)) (0, 0)"

definition bch_locator :: "u8 \<Rightarrow> u8 \<Rightarrow> nat \<Rightarrow> u8" where
  "bch_locator sigma1 sigma2 i =
     (let inv_i = gf_pow 2 ((15 - int i) smod 15); inv_2i = gf_pow 2 ((15 - 2 * int i) smod 15)
      in gf_add 1 (gf_add (gf_mult sigma1 inv_i) (gf_mult sigma2 inv_2i)))"

text \<open>The number of errors and the corrected byte; the decoder reads the first byte of its input only.\<close>

definition ecc_bch_decode :: "u8 \<Rightarrow> int \<times> u8" where
  "ecc_bch_decode codeword =
     (case bch_compute_syndromes [codeword, 0] of (s1, s3) \<Rightarrow>
        if s1 = 0 \<and> s3 = 0 then (0, codeword)
        else if s1 \<noteq> 0 \<and> s3 = 0 then (1, codeword)
        else let sigma2 = (if s1 \<noteq> 0 then gf_mult (gf_add s3 (gf_pow s1 3)) (gf_pow s1 14) else 0)
             in case for_range 0 ECC_BCH_N (\<lambda>i (found, corrected).
                  if found < 2 \<and> bch_locator s1 sigma2 i = 0
                  then (found + 1, corrected[i div 8 := corrected ! (i div 8) XOR push_bit (i mod 8) 1])
                  else (found, corrected)) (0, [codeword, 0]) of
                (found, corrected) \<Rightarrow> (found, corrected ! 0))"

section \<open>Reed-Solomon code\<close>

definition RS_N :: nat where "RS_N = 255"
definition RS_K :: nat where "RS_K = 239"
definition RS_T :: nat where "RS_T = 8"

definition rs_xtime :: "u8 \<Rightarrow> u8" where
  "rs_xtime a = (if a AND 0x80 \<noteq> 0 then push_bit 1 a XOR 0x1D else push_bit 1 a)"

definition rs_gf_mul :: "u8 \<Rightarrow> u8 \<Rightarrow> u8" where
  "rs_gf_mul a b = fst (for_range 0 8 (\<lambda>_ (p, a, b). (if b AND 1 \<noteq> 0 then p XOR a else p, rs_xtime a, drop_bit 1 b)) (0, a, b))"

definition rs_root :: "nat \<Rightarrow> u8" where
  "rs_root i = for_range 0 (i + 1) (\<lambda>_ root. rs_gf_mul root 2) 1"

definition rs_mul_root :: "nat \<Rightarrow> u8 arr \<Rightarrow> u8 arr" where
  "rs_mul_root i gen =
     (let gen' = fold (\<lambda>j gen. gen(j := gen (j - 1) XOR rs_gf_mul (gen j) (rs_root i))) (rev [1..<i + 2]) gen
      in gen'(0 := rs_gf_mul (gen' 0) (rs_root i)))"

definition ecc_rs_generator_poly :: "u8 arr" where
  "ecc_rs_generator_poly = for_range 0 (2 * RS_T) rs_mul_root ((\<lambda>_. 0)(0 := 1))"

definition rs_feed :: "u8 arr \<Rightarrow> u8 \<Rightarrow> u8 arr \<Rightarrow> u8 arr" where
  "rs_feed gen d remainder =
     (let feedback = d XOR remainder 0
      in if feedback \<noteq> 0
         then (for_range 0 (2 * RS_T - 1) (\<lambda>j r. r(j := r (j + 1) XOR rs_gf_mul feedback (gen (2 * RS_T - 1 - j)))) remainder)
                (2 * RS_T - 1 := rs_gf_mul feedback (gen 0))
         else (for_range 0 (2 * RS_T - 1) (\<lambda>j r. r(j := r (j + 1))) remainder)(2 * RS_T - 1 := 0))"

definition ecc_rs_encode :: "bytes \<Rightarrow> bytes" where
  "ecc_rs_encode dat =
     (let remainder = for_range 0 RS_K (\<lambda>i. rs_feed ecc_rs_generator_poly (dat ! i)) (\<lambda>_. 0)
      in map remainder [0..<2 * RS_T])"

definition rs_eval_step :: "u8 \<Rightarrow> u8 \<Rightarrow> u8 \<times> u8 \<Rightarrow> u8 \<times> u8" where
  "rs_eval_step alpha_pow x = (\<lambda>(syn, eval_pow). (syn XOR rs_gf_mul x eval_pow, rs_gf_mul eval_pow alpha_pow))"

definition ecc_rs_syndromes :: "bytes \<Rightarrow> bytes \<Rightarrow> bytes" where
  "ecc_rs_syndromes dat parity = map (\<lambda>i. let alpha_pow = rs_root i in
     fst (for_range 0 (2 * RS_T) (\<lambda>j. rs_eval_step alpha_pow (parity ! j))
       (for_range 0 RS_K (\<lambda>j. rs_eval_step alpha_pow (dat ! j)) (0, 1)))) [0..<2 * RS_T]"

section \<open>Sums\<close>

definition xsum :: "nat \<Rightarrow> (nat \<Rightarrow> u8) \<Rightarrow> u8" where "xsum n f = fold (\<lambda>i s. s XOR f i) [0..<n] 0"

lemma xsum_0 [simp]: "xsum 0 f = 0"
  by (simp add: xsum_def)

lemma xsum_Suc [simp]: "xsum (Suc n) f = xsum n f XOR f n"
  by (simp add: xsum_def)

lemma xsum_shift: "xsum (Suc n) f = f 0 XOR xsum n (\<lambda>i. f (Suc i))"
  by (induction n) (simp_all add: xor.assoc)

lemma xsum_cong: "(\<And>i. i < n \<Longrightarrow> f i = g i) \<Longrightarrow> xsum n f = xsum n g"
  by (induction n) simp_all

lemma xsum_xor: "xsum n (\<lambda>i. f i XOR g i) = xsum n f XOR xsum n g"
  by (induction n) (simp_all add: xor.assoc xor.left_commute)

definition additive8 :: "(u8 \<Rightarrow> u8) \<Rightarrow> bool" where
  "additive8 h \<longleftrightarrow> (\<forall>x y. h (x XOR y) = h x XOR h y)"

lemma additive8_0: "additive8 h \<Longrightarrow> h 0 = 0"
  by (metis additive8_def xor_self_eq)

lemma additive8_xsum: "additive8 h \<Longrightarrow> h (xsum n f) = xsum n (\<lambda>i. h (f i))"
  by (induction n) (simp_all add: additive8_0, simp add: additive8_def)

lemma bit_xsum_bits: "k \<le> 8 \<Longrightarrow> bit (xsum k (\<lambda>i. if bit x i then push_bit i 1 else 0)) n \<longleftrightarrow> n < k \<and> bit x n" for x :: u8
  by (induction k) (auto simp: bit_simps less_Suc_eq)

lemma bits_xsum: "x = xsum 8 (\<lambda>i. if bit x i then push_bit i 1 else 0)" for x :: u8
  by (rule bit_eqI) (simp add: bit_xsum_bits)

lemma additive8_eqI:
  assumes "additive8 h" and "additive8 k" and "\<And>i. i < 8 \<Longrightarrow> h (push_bit i 1) = k (push_bit i 1)"
  shows "h x = k x"
proof -
  have "h x = xsum 8 (\<lambda>i. h (if bit x i then push_bit i 1 else 0))"
    by (subst bits_xsum [of x]) (rule additive8_xsum [OF assms(1)])
  also have "\<dots> = xsum 8 (\<lambda>i. k (if bit x i then push_bit i 1 else 0))"
    using assms by (intro xsum_cong) (simp add: additive8_0)
  also have "\<dots> = k x"
    by (subst (2) bits_xsum [of x]) (rule additive8_xsum [OF assms(2), symmetric])
  finally show ?thesis .
qed


section \<open>The field of the Reed-Solomon code\<close>

lemma xtime_additive: "additive8 rs_xtime"
proof -
  have "(x XOR y) AND 0x80 \<noteq> 0 \<longleftrightarrow> (x AND 0x80 \<noteq> 0) \<noteq> (y AND 0x80 \<noteq> 0)" for x y :: u8
    using and_pow2_eq_0 [of "x XOR y" 7] and_pow2_eq_0 [of x 7] and_pow2_eq_0 [of y 7] by (simp add: bit_simps push_bit_eq_mult)
  moreover have "push_bit 1 (x XOR y) = push_bit 1 x XOR push_bit 1 y" for x y :: u8 by (simp add: push_bit_xor)
  ultimately show ?thesis by (auto simp: additive8_def rs_xtime_def xor.assoc xor.left_commute xor.commute)
qed

lemma xtime_pow_additive: "additive8 (rs_xtime ^^ n)"
  using xtime_additive by (induction n) (simp_all add: additive8_def)

lemma gf_mul_loop: "for_range 0 n (\<lambda>_ (p, a, b). (if b AND 1 \<noteq> 0 then p XOR a else p, rs_xtime a, drop_bit 1 b)) (0, a, b) =
    (xsum n (\<lambda>i. if bit b i then (rs_xtime ^^ i) a else 0), (rs_xtime ^^ n) a, drop_bit n b)" for b :: u8
  by (induction n) (simp_all add: for_range_Suc drop_and_1)

lemma gf_mul_sum: "rs_gf_mul a b = xsum 8 (\<lambda>i. if bit b i then (rs_xtime ^^ i) a else 0)"
  unfolding rs_gf_mul_def gf_mul_loop by simp

lemma gf_mul_additive: "additive8 (rs_gf_mul a)" "additive8 (\<lambda>a. rs_gf_mul a b)"
proof -
  have "(if bit (x XOR y) i then c else 0) = (if bit x i then c else 0) XOR (if bit y i then c else 0)" for x y c :: u8 and i
    by (simp add: bit_simps)
  then show "additive8 (rs_gf_mul a)" unfolding additive8_def gf_mul_sum by (simp only: xsum_xor [symmetric]) simp
  have "(if c then (rs_xtime ^^ i) (x XOR y) else 0) = (if c then (rs_xtime ^^ i) x else 0) XOR (if c then (rs_xtime ^^ i) y else 0)" for x y c i
    using xtime_pow_additive [of i] by (simp add: additive8_def)
  then show "additive8 (\<lambda>a. rs_gf_mul a b)" unfolding additive8_def gf_mul_sum by (simp only: xsum_xor [symmetric]) simp
qed

lemmas gf_distrib = gf_mul_additive [unfolded additive8_def, rule_format]

lemma gf_mul_0 [simp]: "rs_gf_mul a 0 = 0" "rs_gf_mul 0 b = 0"
  using additive8_0 [OF gf_mul_additive(1), of a] additive8_0 [OF gf_mul_additive(2), of b] by simp_all

lemma additive8_comp: "additive8 f \<Longrightarrow> additive8 g \<Longrightarrow> additive8 (\<lambda>x. f (g x))"
  by (simp add: additive8_def)

lemma gf_mul_xtime_left: "rs_gf_mul (rs_xtime a) b = rs_xtime (rs_gf_mul a b)"
  unfolding gf_mul_sum additive8_xsum [OF xtime_additive]
  by (rule xsum_cong) (simp add: additive8_0 [OF xtime_additive] funpow_swap1)

lemma xsum_single: "k < n \<Longrightarrow> xsum n (\<lambda>i. if i = k then c else 0) = c"
proof -
  have z: "m \<le> k \<Longrightarrow> xsum m (\<lambda>i. if i = k then c else 0) = 0" for m by (induction m) simp_all
  show "k < n \<Longrightarrow> xsum n (\<lambda>i. if i = k then c else 0) = c" by (induction n) (auto simp: less_Suc_eq z)
qed

lemma gf_mul_bit: "k < 8 \<Longrightarrow> rs_gf_mul a (push_bit k 1) = (rs_xtime ^^ k) a"
proof -
  assume k: "k < 8"
  then have "bit (push_bit k 1 :: u8) i \<longleftrightarrow> i = k" for i by (auto simp: bit_simps)
  then have "rs_gf_mul a (push_bit k 1) = xsum 8 (\<lambda>i. if i = k then (rs_xtime ^^ k) a else 0)"
    unfolding gf_mul_sum by (intro xsum_cong) simp
  with k show ?thesis by (simp only: xsum_single)
qed

lemma xtime_fold: "(rs_xtime ^^ n) x = fold (\<lambda>_. rs_xtime) [0..<n] x"
  by (induction n) simp_all

lemma xtime_basis:
  "list_all (\<lambda>k. (rs_xtime ^^ k) 1 = push_bit k 1) [0..<8]"
  "list_all (\<lambda>k. (rs_xtime ^^ 8) (push_bit k 1) =
     (rs_xtime ^^ 4) (push_bit k 1) XOR (rs_xtime ^^ 3) (push_bit k 1) XOR (rs_xtime ^^ 2) (push_bit k 1) XOR push_bit k 1) [0..<8]"
  unfolding xtime_fold by code_simp+

lemma xtime_pow_one: "k < 8 \<Longrightarrow> (rs_xtime ^^ k) 1 = push_bit k 1"
  using xtime_basis(1) by (simp add: list_all_iff)

lemma xtime_8: "(rs_xtime ^^ 8) a = (rs_xtime ^^ 4) a XOR (rs_xtime ^^ 3) a XOR (rs_xtime ^^ 2) a XOR a"
proof (rule additive8_eqI [of "rs_xtime ^^ 8" "\<lambda>a. (rs_xtime ^^ 4) a XOR (rs_xtime ^^ 3) a XOR (rs_xtime ^^ 2) a XOR a"])
  show "additive8 (\<lambda>a. (rs_xtime ^^ 4) a XOR (rs_xtime ^^ 3) a XOR (rs_xtime ^^ 2) a XOR a)"
    using xtime_pow_additive [of 4] xtime_pow_additive [of 3] xtime_pow_additive [of 2]
    by (simp add: additive8_def xor.assoc xor.left_commute del: funpow.simps)
  show "(rs_xtime ^^ 8) (push_bit i 1) = (rs_xtime ^^ 4) (push_bit i 1) XOR (rs_xtime ^^ 3) (push_bit i 1) XOR (rs_xtime ^^ 2) (push_bit i 1) XOR push_bit i 1"
    if "i < 8" for i using xtime_basis(2) that by (simp add: list_all_iff)
qed (rule xtime_pow_additive)

lemma gf_mul_xtime_right: "rs_gf_mul a (rs_xtime b) = rs_xtime (rs_gf_mul a b)"
proof (rule additive8_eqI [of "\<lambda>b. rs_gf_mul a (rs_xtime b)" "\<lambda>b. rs_xtime (rs_gf_mul a b)"])
  fix j :: nat assume j: "j < 8"
  have s: "rs_xtime (push_bit j 1) = (rs_xtime ^^ Suc j) 1" using xtime_pow_one [OF j] by simp
  show "rs_gf_mul a (rs_xtime (push_bit j 1)) = rs_xtime (rs_gf_mul a (push_bit j 1))"
  proof (cases "Suc j < 8")
    case True
    then have "rs_gf_mul a (rs_xtime (push_bit j 1)) = (rs_xtime ^^ Suc j) a" unfolding s by (simp only: xtime_pow_one gf_mul_bit)
    then show ?thesis using j by (simp only: gf_mul_bit funpow.simps comp_apply)
  next
    case False
    then have j7: "j = 7" using j by simp
    have d: "rs_xtime (push_bit 7 1) = push_bit 4 1 XOR push_bit 3 1 XOR push_bit 2 1 XOR push_bit 0 1" by code_simp
    have "rs_gf_mul a (rs_xtime (push_bit 7 1)) = (rs_xtime ^^ 8) a"
      unfolding d gf_distrib xtime_8 by (simp only: gf_mul_bit) simp
    moreover have "rs_gf_mul a (push_bit 7 1) = (rs_xtime ^^ 7) a" by (rule gf_mul_bit) simp
    ultimately show ?thesis by (simp only: j7) (simp add: numeral_eq_Suc)
  qed
qed (rule additive8_comp [OF gf_mul_additive(1) xtime_additive] additive8_comp [OF xtime_additive gf_mul_additive(1)])+

lemma xtime_pow_right: "rs_gf_mul a ((rs_xtime ^^ n) b) = (rs_xtime ^^ n) (rs_gf_mul a b)"
  by (induction n) (simp_all add: gf_mul_xtime_right)

lemma gf_mul_assoc: "rs_gf_mul (rs_gf_mul a b) c = rs_gf_mul a (rs_gf_mul b c)"
proof -
  have "rs_gf_mul a (rs_gf_mul b c) = xsum 8 (\<lambda>i. rs_gf_mul a (if bit c i then (rs_xtime ^^ i) b else 0))"
    by (subst gf_mul_sum [of b c]) (rule additive8_xsum [OF gf_mul_additive(1)])
  also have "\<dots> = rs_gf_mul (rs_gf_mul a b) c"
    by (subst gf_mul_sum [of "rs_gf_mul a b"]) (rule xsum_cong, simp add: xtime_pow_right)
  finally show ?thesis by simp
qed

lemma gf_mul_1 [simp]: "rs_gf_mul a 1 = a" "rs_gf_mul 1 a = a"
proof -
  show "rs_gf_mul a 1 = a" using gf_mul_bit [of 0 a] by simp
  have "rs_gf_mul 1 a = xsum 8 (\<lambda>i. if bit a i then push_bit i 1 else 0)"
    unfolding gf_mul_sum by (rule xsum_cong) (simp add: xtime_pow_one)
  then show "rs_gf_mul 1 a = a" by (simp only: bits_xsum [symmetric])
qed

lemma gf_mul_comm: "rs_gf_mul a b = rs_gf_mul b a"
proof (rule additive8_eqI [of "rs_gf_mul a" "\<lambda>b. rs_gf_mul b a"])
  fix j :: nat assume j: "j < 8"
  have "rs_gf_mul ((rs_xtime ^^ n) 1) a = (rs_xtime ^^ n) a" for n by (induction n) (simp_all add: gf_mul_xtime_left)
  with j show "rs_gf_mul a (push_bit j 1) = rs_gf_mul (push_bit j 1) a" by (metis gf_mul_bit xtime_pow_one)
qed (rule gf_mul_additive)+

lemma gf_mul_left_comm: "rs_gf_mul a (rs_gf_mul b c) = rs_gf_mul b (rs_gf_mul a c)"
  by (metis gf_mul_assoc gf_mul_comm)

lemmas gf_ac = gf_mul_assoc gf_mul_comm gf_mul_left_comm

definition gf_power :: "u8 \<Rightarrow> nat \<Rightarrow> u8" where "gf_power b n = ((\<lambda>x. rs_gf_mul x b) ^^ n) 1"

lemma gf_power_0 [simp]: "gf_power b 0 = 1"
  by (simp add: gf_power_def)

lemma gf_power_Suc [simp]: "gf_power b (Suc n) = rs_gf_mul (gf_power b n) b"
  by (simp add: gf_power_def)

lemma rs_root_power: "rs_root i = gf_power 2 (Suc i)"
  unfolding rs_root_def gf_power_def for_range_funpow by simp


section \<open>Roots of the generator and of the code words\<close>

lemma gf_mul_xsum: "rs_gf_mul (xsum n f) c = xsum n (\<lambda>i. rs_gf_mul (f i) c)"
  by (rule additive8_xsum [OF gf_mul_additive(2)])

definition gen_eval :: "u8 arr \<Rightarrow> nat \<Rightarrow> u8 \<Rightarrow> u8" where
  "gen_eval gen n b = xsum n (\<lambda>k. rs_gf_mul (gen k) (gf_power b k))"

lemma mul_root_loop: "fold (\<lambda>j gen. gen(j := gen (j - 1) XOR rs_gf_mul (gen j) r)) (rev [1..<Suc m]) gen k =
    (if 1 \<le> k \<and> k \<le> m then gen (k - 1) XOR rs_gf_mul (gen k) r else gen k)"
proof (induction m arbitrary: gen)
  case (Suc m)
  have "rev [1..<Suc (Suc m)] = Suc m # rev [1..<Suc m]" by simp
  then show ?case by (simp only: fold_simps Suc.IH) auto
qed auto

lemma mul_root_val: "rs_mul_root i gen k = (if k = 0 then rs_gf_mul (gen 0) (rs_root i)
    else if k \<le> Suc i then gen (k - 1) XOR rs_gf_mul (gen k) (rs_root i) else gen k)"
  using mul_root_loop [of "rs_root i" "Suc i" gen] by (simp add: rs_mul_root_def Let_def)

lemma mul_root_eval:
  assumes "\<And>k. Suc i < k + 1 \<Longrightarrow> gen k = 0"
  shows "gen_eval (rs_mul_root i gen) (Suc (Suc i)) b = rs_gf_mul (gen_eval gen (Suc i) b) (b XOR rs_root i)"
proof -
  let ?r = "rs_root i" and ?g = "rs_mul_root i gen"
  have "gen_eval ?g (Suc (Suc i)) b = rs_gf_mul (gen 0) ?r XOR xsum (Suc i) (\<lambda>k. rs_gf_mul (?g (Suc k)) (gf_power b (Suc k)))"
    unfolding gen_eval_def by (subst xsum_shift) (simp add: mul_root_val)
  also have "xsum (Suc i) (\<lambda>k. rs_gf_mul (?g (Suc k)) (gf_power b (Suc k))) =
      xsum (Suc i) (\<lambda>k. rs_gf_mul (rs_gf_mul (gen k) (gf_power b k)) b XOR rs_gf_mul (rs_gf_mul (gen (Suc k)) (gf_power b (Suc k))) ?r)"
    by (rule xsum_cong) (simp add: mul_root_val gf_distrib gf_mul_assoc gf_mul_comm [of ?r])
  also have "\<dots> = rs_gf_mul (gen_eval gen (Suc i) b) b XOR xsum (Suc i) (\<lambda>k. rs_gf_mul (rs_gf_mul (gen (Suc k)) (gf_power b (Suc k))) ?r)"
    unfolding gen_eval_def gf_mul_xsum xsum_xor ..
  also have "rs_gf_mul (gen 0) ?r XOR (rs_gf_mul (gen_eval gen (Suc i) b) b XOR xsum (Suc i) (\<lambda>k. rs_gf_mul (rs_gf_mul (gen (Suc k)) (gf_power b (Suc k))) ?r)) =
      rs_gf_mul (gen_eval gen (Suc i) b) b XOR xsum (Suc (Suc i)) (\<lambda>k. rs_gf_mul (rs_gf_mul (gen k) (gf_power b k)) ?r)"
    by (simp only: xsum_shift [of "Suc i"] gf_power_0 gf_mul_1) (simp only: xor.assoc xor.left_commute xor.commute)
  also have "xsum (Suc (Suc i)) (\<lambda>k. rs_gf_mul (rs_gf_mul (gen k) (gf_power b k)) ?r) = rs_gf_mul (gen_eval gen (Suc i) b) ?r"
    unfolding gen_eval_def gf_mul_xsum using assms [of "Suc i"] by simp
  finally show ?thesis by (simp add: gf_distrib)
qed

lemma generator_upto:
  "n \<le> 16 \<Longrightarrow> (\<forall>k > n. for_range 0 n rs_mul_root ((\<lambda>_. 0)(0 := 1)) k = 0) \<and> for_range 0 n rs_mul_root ((\<lambda>_. 0)(0 := 1)) n = 1 \<and>
     (\<forall>i < n. gen_eval (for_range 0 n rs_mul_root ((\<lambda>_. 0)(0 := 1))) (Suc n) (rs_root i) = 0)"
proof (induction n)
  case (Suc n)
  define G where "G = for_range 0 n rs_mul_root ((\<lambda>_. 0)(0 := 1))"
  have IH: "\<And>k. n < k \<Longrightarrow> G k = 0" "G n = 1" "\<And>i. i < n \<Longrightarrow> gen_eval G (Suc n) (rs_root i) = 0"
    using Suc.IH [folded G_def] Suc.prems by auto
  have S: "for_range 0 (Suc n) rs_mul_root ((\<lambda>_. 0)(0 := 1)) = rs_mul_root n G" by (simp only: for_range_Suc [OF le0] G_def)
  have e: "gen_eval (rs_mul_root n G) (Suc (Suc n)) b = rs_gf_mul (gen_eval G (Suc n) b) (b XOR rs_root n)" for b
    using IH(1) by (intro mul_root_eval) simp
  show ?case unfolding S e using IH by (auto simp: mul_root_val less_Suc_eq)
qed simp

lemma generator_roots: "ecc_rs_generator_poly 16 = 1" "i < 16 \<Longrightarrow> gen_eval ecc_rs_generator_poly 17 (rs_root i) = 0"
  using generator_upto [of 16] by (simp_all add: ecc_rs_generator_poly_def RS_T_def)

lemma shift_loop: "for_range 0 n (\<lambda>j r. r(j := f j (r (j + 1)))) rem k = (if k < n then f k (rem (k + 1)) else rem k)"
  by (induction n arbitrary: k) (auto simp: for_range_Suc less_Suc_eq)

lemma rs_feed_val: "rs_feed gen d rem k = (if k < 15 then rem (k + 1) XOR rs_gf_mul (d XOR rem 0) (gen (15 - k))
    else if k = 15 then rs_gf_mul (d XOR rem 0) (gen 0) else rem k)"
  using shift_loop [of 15 "\<lambda>j x. x XOR rs_gf_mul (d XOR rem 0) (gen (15 - j))" rem k] shift_loop [of 15 "\<lambda>j x. x" rem k]
  by (simp add: rs_feed_def Let_def RS_T_def)


lemma xsum_rev: "xsum n f = xsum n (\<lambda>i. f (n - 1 - i))"
proof (induction n arbitrary: f)
  case (Suc n)
  have "xsum (Suc n) (\<lambda>i. f (Suc n - 1 - i)) = f n XOR xsum n (\<lambda>i. f (n - 1 - i))"
    by (simp add: xsum_shift del: xsum_Suc)
  then show ?case using Suc.IH [of f] by (simp add: xor.commute)
qed simp

definition rem_eval :: "u8 arr \<Rightarrow> u8 \<Rightarrow> u8" where
  "rem_eval rem b = xsum 16 (\<lambda>j. rs_gf_mul (rem j) (gf_power b (15 - j)))"

lemma rs_feed_eval:
  assumes "gen 16 = 1" and "gen_eval gen 17 b = 0"
  shows "rem_eval (rs_feed gen d rem) b = rs_gf_mul (rem_eval rem b) b XOR rs_gf_mul d (gf_power b 16)"
proof -
  let ?f = "d XOR rem 0" and ?p = "gf_power b"
  have s16: "16 = Suc 15" by simp
  have p16: "?p (16 - i) = rs_gf_mul (?p (15 - i)) b" if i: "i < 16" for i
  proof -
    have "16 - i = Suc (15 - i)" using i by simp
    then show ?thesis by (simp only: gf_power_Suc)
  qed
  have g: "xsum 16 (\<lambda>k. rs_gf_mul (gen k) (?p k)) = ?p 16"
    using assms xsum_Suc [of 16 "\<lambda>k. rs_gf_mul (gen k) (?p k)"] by (simp add: gen_eval_def) (metis xor_right_eq xor_self_eq)
  have "xsum 16 (\<lambda>j. rs_gf_mul (rs_gf_mul ?f (gen (15 - j))) (?p (15 - j))) = xsum 16 (\<lambda>k. rs_gf_mul (rs_gf_mul (gen k) (?p k)) ?f)"
    by (subst xsum_rev) (intro xsum_cong, simp add: gf_mul_comm [of _ ?f] gf_mul_assoc)
  also have "\<dots> = rs_gf_mul (?p 16) ?f" unfolding gf_mul_xsum [symmetric] g ..
  finally have A: "xsum 16 (\<lambda>j. rs_gf_mul (rs_gf_mul ?f (gen (15 - j))) (?p (15 - j))) = rs_gf_mul ?f (?p 16)" by (simp add: gf_mul_comm)
  have "rs_gf_mul (rem_eval rem b) b = xsum (Suc 15) (\<lambda>j. rs_gf_mul (rem j) (?p (16 - j)))"
    unfolding rem_eval_def gf_mul_xsum s16 by (intro xsum_cong) (simp add: gf_mul_assoc p16)
  also have "\<dots> = rs_gf_mul (rem 0) (?p 16) XOR xsum 15 (\<lambda>j. rs_gf_mul (rem (Suc j)) (?p (15 - j)))"
    unfolding xsum_shift by simp
  finally have B: "xsum 15 (\<lambda>j. rs_gf_mul (rem (Suc j)) (?p (15 - j))) = rs_gf_mul (rem_eval rem b) b XOR rs_gf_mul (rem 0) (?p 16)"
    by (simp add: xor.assoc xor.left_commute xor.commute)
  have "rem_eval (rs_feed gen d rem) b = xsum (Suc 15) (\<lambda>j. (if j < 15 then rs_gf_mul (rem (Suc j)) (?p (15 - j)) else 0) XOR
      rs_gf_mul (rs_gf_mul ?f (gen (15 - j))) (?p (15 - j)))"
    unfolding rem_eval_def s16 by (intro xsum_cong) (auto simp: rs_feed_val gf_distrib)
  also have "\<dots> = xsum (Suc 15) (\<lambda>j. if j < 15 then rs_gf_mul (rem (Suc j)) (?p (15 - j)) else 0) XOR rs_gf_mul ?f (?p 16)"
    by (simp only: xsum_xor s16 [symmetric] A)
  also have "xsum (Suc 15) (\<lambda>j. if j < 15 then rs_gf_mul (rem (Suc j)) (?p (15 - j)) else 0) = xsum 15 (\<lambda>j. rs_gf_mul (rem (Suc j)) (?p (15 - j)))"
    by (simp only: xsum_Suc) (simp cong: xsum_cong)
  finally show ?thesis unfolding B gf_distrib by (simp add: xor.assoc xor.left_commute xor.commute)
qed


section \<open>Code words\<close>

text \<open>The value of a word whose first byte has the highest power.\<close>

definition word_value :: "bytes \<Rightarrow> u8 \<Rightarrow> u8" where
  "word_value w b = fold (\<lambda>d v. rs_gf_mul v b XOR d) w 0"

lemma word_value_Nil [simp]: "word_value [] b = 0"
  by (simp add: word_value_def)

lemma word_value_snoc [simp]: "word_value (w @ [d]) b = rs_gf_mul (word_value w b) b XOR d"
  by (simp add: word_value_def)

lemma word_value_append: "word_value (u @ v) b = rs_gf_mul (word_value u b) (gf_power b (length v)) XOR word_value v b"
  by (induction v rule: rev_induct) (simp_all add: gf_distrib gf_mul_assoc append_assoc [symmetric] xor.assoc del: append_assoc)

lemma word_value_Cons: "word_value (d # w) b = rs_gf_mul d (gf_power b (length w)) XOR word_value w b"
  using word_value_append [of "[d]" w b] word_value_snoc [of "[]" d b] by simp

lemma remainder_value: "n \<le> length dat \<Longrightarrow> i < 16 \<Longrightarrow>
    rem_eval (for_range 0 n (\<lambda>i. rs_feed ecc_rs_generator_poly (dat ! i)) (\<lambda>_. 0)) (rs_root i) =
      rs_gf_mul (word_value (take n dat) (rs_root i)) (gf_power (rs_root i) 16)"
proof (induction n)
  case 0
  have "xsum n (\<lambda>_. 0) = 0" for n by (induction n) simp_all
  then show ?case by (simp add: rem_eval_def)
next
  case (Suc n)
  then show ?case
    by (simp only: for_range_Suc [OF le0] rs_feed_eval [OF generator_roots(1) generator_roots(2) [OF Suc.prems(2)]])
      (simp add: take_Suc_conv_app_nth gf_distrib gf_ac)
qed

lemma word_value_rem: "word_value (map rem [0..<n]) b = xsum n (\<lambda>j. rs_gf_mul (rem j) (gf_power b (n - 1 - j)))"
proof (induction n)
  case (Suc n)
  have "rs_gf_mul (rs_gf_mul (rem j) (gf_power b (n - 1 - j))) b = rs_gf_mul (rem j) (gf_power b (n - j))" if "j < n" for j
  proof -
    have "n - j = Suc (n - 1 - j)" using that by simp
    then show ?thesis by (simp only: gf_power_Suc gf_mul_assoc)
  qed
  then have "rs_gf_mul (word_value (map rem [0..<n]) b) b = xsum n (\<lambda>j. rs_gf_mul (rem j) (gf_power b (n - j)))"
    unfolding Suc gf_mul_xsum by (intro xsum_cong)
  then show ?case by simp
qed simp

lemma encode_word_value: "length dat = RS_K \<Longrightarrow> i < 16 \<Longrightarrow> word_value (dat @ ecc_rs_encode dat) (rs_root i) = 0"
  using remainder_value [of RS_K dat i]
  by (simp add: word_value_append word_value_rem ecc_rs_encode_def Let_def RS_T_def rem_eval_def)


lemma gf_mul_2: "rs_gf_mul x 2 = rs_xtime x"
  using gf_mul_bit [of 1 x] by simp

lemma xtime_nonzero: "x \<noteq> 0 \<Longrightarrow> rs_xtime x \<noteq> 0"
proof
  assume x: "x \<noteq> 0" and z: "rs_xtime x = 0"
  have b: "bit (push_bit 1 x) n \<longleftrightarrow> 0 < n \<and> n < 8 \<and> bit x (n - 1)" for n by (simp only: bit_push_bit_iff) (auto simp: Suc_le_eq)
  show False
  proof (cases "x AND 0x80 \<noteq> 0")
    case True
    then have "push_bit 1 x XOR 0x1D = 0" using z by (simp add: rs_xtime_def)
    then have "push_bit 1 x = (0x1D :: u8)" by (metis xor_right_eq xor_self_eq)
    then show False using b [of 0] by simp
  next
    case False
    then have p: "push_bit 1 x = 0" using z by (simp add: rs_xtime_def)
    have "\<not> bit x 7" using False and_pow2_eq_0 [of x 7] by (simp add: push_bit_eq_mult)
    moreover have "\<not> bit x n" if "n < 7" for n
      using b [of "Suc n"] that unfolding p by simp
    ultimately have "\<not> bit x n" for n
      using bit_imp_le_length [of x n] by (cases "n < 7"; cases "n = 7") auto
    then show False using x by (auto simp: bit_eq_iff)
  qed
qed

lemma mul_root_nonzero: "x \<noteq> 0 \<Longrightarrow> rs_gf_mul x (rs_root i) \<noteq> 0"
proof -
  assume "x \<noteq> 0"
  then have "rs_gf_mul x (gf_power 2 n) \<noteq> 0" for n by (induction n) (auto simp: gf_mul_2 gf_mul_xtime_right dest: xtime_nonzero)
  then show ?thesis by (simp only: rs_root_power not_False_eq_True)
qed

lemma mul_root_pow_nonzero: "x \<noteq> 0 \<Longrightarrow> rs_gf_mul x (gf_power (rs_root i) n) \<noteq> 0"
  by (induction n) (auto simp: gf_mul_assoc [symmetric] dest: mul_root_nonzero)

lemma word_value_change:
  assumes "p < length w"
  shows "word_value (w[p := x]) b = word_value w b XOR rs_gf_mul (w ! p XOR x) (gf_power b (length w - 1 - p))"
proof -
  have w: "w = take p w @ [w ! p] @ drop (Suc p) w" using assms by (simp add: id_take_nth_drop [symmetric])
  have u: "w[p := x] = take p w @ [x] @ drop (Suc p) w" using assms by (simp add: upd_conv_take_nth_drop)
  have v: "word_value (take p w @ [y] @ drop (Suc p) w) b = rs_gf_mul (word_value (take p w) b) (gf_power b (length w - p)) XOR
      rs_gf_mul y (gf_power b (length w - 1 - p)) XOR word_value (drop (Suc p) w) b" for y
    using assms word_value_Cons [of y "drop (Suc p) w"] word_value_append [of "take p w" "[y] @ drop (Suc p) w"]
    by (simp add: xor.assoc Suc_diff_Suc)
  have "word_value w b = word_value (take p w @ [w ! p] @ drop (Suc p) w) b" using w by simp
  then show ?thesis unfolding u v by (simp add: gf_distrib xor.assoc xor.left_commute xor.commute)
qed

lemma syndrome_loop: "for_range 0 n (\<lambda>j. rs_eval_step b (w ! j)) (s, gf_power b m) =
    (s XOR xsum n (\<lambda>j. rs_gf_mul (w ! j) (gf_power b (m + j))), gf_power b (m + n))"
  by (induction n) (simp_all add: for_range_Suc rs_eval_step_def xor.assoc)

lemma word_value_sum: "word_value (rev w) b = xsum (length w) (\<lambda>j. rs_gf_mul (w ! j) (gf_power b j))"
proof (induction w rule: rev_induct)
  case (snoc d w)
  have "word_value (rev (w @ [d])) b = rs_gf_mul d (gf_power b (length w)) XOR word_value (rev w) b"
    by (simp add: word_value_Cons)
  also have "\<dots> = xsum (length (w @ [d])) (\<lambda>j. rs_gf_mul ((w @ [d]) ! j) (gf_power b j))"
  proof -
    have "xsum (length w) (\<lambda>j. rs_gf_mul ((w @ [d]) ! j) (gf_power b j)) = xsum (length w) (\<lambda>j. rs_gf_mul (w ! j) (gf_power b j))"
      by (rule xsum_cong) (simp add: nth_append)
    then show ?thesis by (simp add: snoc xor.commute)
  qed
  finally show ?case .
qed simp

lemma gf_power_add: "gf_power b (m + n) = rs_gf_mul (gf_power b n) (gf_power b m)"
  by (induction n) (simp_all add: gf_ac)

lemma syndromes_value: "length dat = RS_K \<Longrightarrow> length parity = 16 \<Longrightarrow> i < 16 \<Longrightarrow>
    ecc_rs_syndromes dat parity ! i = word_value (rev (dat @ parity)) (rs_root i)"
  using syndrome_loop [of RS_K "rs_root i" dat 0 0] syndrome_loop [of 16 "rs_root i" parity _ RS_K]
    word_value_sum [of dat "rs_root i"] word_value_sum [of parity "rs_root i"]
  by (simp add: ecc_rs_syndromes_def Let_def RS_T_def word_value_append gf_mul_xsum RS_K_def gf_power_add gf_mul_assoc xor.commute)


section \<open>Hamming code words\<close>

lemma of_bool_xor: "of_bool p XOR of_bool q = (of_bool (p \<noteq> q) :: u8)"
  by (cases p; cases q) simp_all

lemma and_masks: "x AND 0x0F = x AND mask 4" "x AND 0x7F = x AND mask 7" for x :: u8
  by (simp_all add: mask_eq_exp_minus_1)

lemma bit_of_bool_u8: "bit (of_bool p :: u8) n \<longleftrightarrow> p \<and> n = 0"
  by (cases p) (auto simp: bit_1_iff)

lemma encode_bits: "bit (ecc_hamming_encode d) k \<longleftrightarrow>
    k < 7 \<and> [bit d 0 = (bit d 1 = bit d 3), bit d 0 = (bit d 2 = bit d 3), bit d 0, bit d 1 = (bit d 2 = bit d 3),
      bit d 1, bit d 2, bit d 3] ! k"
proof -
  have o: "bit (of_bool p OR (push_bit 1 (of_bool q) OR (push_bit 2 (of_bool r) OR (push_bit 3 (of_bool t) OR (push_bit 4 (of_bool u) OR
      (push_bit 5 (of_bool v) OR push_bit 6 (of_bool w :: u8))))))) k \<longleftrightarrow> k < 7 \<and> [p, q, r, t, u, v, w] ! k" for p q r t u v w
  proof -
    have "k = 0 \<or> k = 1 \<or> k = 2 \<or> k = 3 \<or> k = 4 \<or> k = 5 \<or> k = 6 \<or> 7 \<le> k" by linarith
    then show ?thesis unfolding bit_or_iff bit_push_bit_iff bit_of_bool_u8 by (elim disjE) simp_all
  qed
  show ?thesis
    unfolding ecc_hamming_encode_def Let_def bit_at_def drop_and_1 of_bool_xor or.assoc and_masks bit_and_iff bit_mask_iff o
    by auto
qed

definition syndrome :: "u8 \<Rightarrow> nat" where
  "syndrome w = of_bool (bit w 0 \<noteq> (bit w 2 \<noteq> (bit w 4 \<noteq> bit w 6))) + 2 * of_bool (bit w 1 \<noteq> (bit w 2 \<noteq> (bit w 5 \<noteq> bit w 6)))
     + 4 * of_bool (bit w 3 \<noteq> (bit w 4 \<noteq> (bit w 5 \<noteq> bit w 6)))"

lemma syndrome_word: "unat (push_bit 2 (of_bool r) OR push_bit 1 (of_bool q) OR (of_bool p :: u8)) = of_bool p + 2 * of_bool q + 4 * of_bool r"
  by (cases p; cases q; cases r) simp_all

lemma decode_val: "ecc_hamming_decode c = (let w = c AND 0x7F; corrected = (if syndrome w > 0 then w XOR push_bit (syndrome w - 1) 1 else w)
    in (0, (drop_bit 2 corrected AND 0x01) OR (drop_bit 3 corrected AND 0x0E)))"
proof -
  let ?w = "c AND 0x7F"
  have "ecc_hamming_decode c = (let w = c AND 0x7F; e = syndrome w; corrected = (if e > 0 \<and> e \<le> 7 then w XOR push_bit (e - 1) 1 else w)
    in (if e > 7 then 3 else 0, (drop_bit 2 corrected AND 0x01) OR (drop_bit 3 corrected AND 0x0E)))"
    unfolding ecc_hamming_decode_def Let_def bit_at_def drop_and_1 of_bool_xor syndrome_word syndrome_def ..
  moreover have "syndrome ?w \<le> 7" by (simp add: syndrome_def)
  ultimately show ?thesis by (simp add: Let_def)
qed

lemma encode_masked: "ecc_hamming_encode d AND 0x7F = ecc_hamming_encode d"
  by (rule bit_eqI) (auto simp: and_masks bit_and_iff bit_mask_iff encode_bits)

lemma extract_encode: "(drop_bit 2 (ecc_hamming_encode d) AND 0x01) OR (drop_bit 3 (ecc_hamming_encode d) AND 0x0E) = d AND 0x0F"
proof (rule bit_eqI)
  fix n
  have e: "(0x0E :: u8) = mask 4 AND NOT (mask 1)" "(0x0F :: u8) = mask 4" by (simp_all add: mask_eq_exp_minus_1)
  have m: "bit (0x0E :: u8) n \<longleftrightarrow> 1 \<le> n \<and> n < 4" "bit (0x0F :: u8) n \<longleftrightarrow> n < 4" "bit (1 :: u8) n \<longleftrightarrow> n = 0"
    unfolding e by (auto simp: bit_simps)
  have "n = 0 \<or> n = 1 \<or> n = 2 \<or> n = 3 \<or> 4 \<le> n" by linarith
  then show "bit ((drop_bit 2 (ecc_hamming_encode d) AND 0x01) OR (drop_bit 3 (ecc_hamming_encode d) AND 0x0E)) n = bit (d AND 0x0F) n"
    unfolding bit_or_iff bit_and_iff bit_drop_bit_eq comp_def m encode_bits by (elim disjE) simp_all
qed

lemma syndrome_encode: "syndrome (ecc_hamming_encode d) = 0"
  by (simp add: syndrome_def encode_bits)

lemma syndrome_error: "p < 7 \<Longrightarrow> syndrome (ecc_hamming_encode d XOR push_bit p 1) = p + 1"
proof -
  assume p: "p < 7"
  have b: "bit (ecc_hamming_encode d XOR push_bit p 1) k \<longleftrightarrow> bit (ecc_hamming_encode d) k \<noteq> (k = p)" for k
    unfolding bit_xor_iff bit_push_bit_iff bit_1_iff using p by auto
  have "p = 0 \<or> p = 1 \<or> p = 2 \<or> p = 3 \<or> p = 4 \<or> p = 5 \<or> p = 6" using p by linarith
  then show ?thesis unfolding syndrome_def b encode_bits by (elim disjE) (simp_all, auto)
qed

section \<open>Properties\<close>

text \<open>
  The Hamming decoder corrects every single error: whatever the data and whichever of the seven bits is flipped, it
  returns the data and no failure, and so it does when no bit is flipped.
\<close>

theorem hamming_corrects_single_error:
  "ecc_hamming_decode (ecc_hamming_introduce_error (ecc_hamming_encode dat) pos) = (0, dat AND 0x0F)"
proof (cases "0 \<le> pos \<and> pos \<le> 6")
  case True
  then have p: "nat pos < 7" by linarith
  have "(ecc_hamming_encode dat XOR push_bit (nat pos) 1) AND 0x7F = ecc_hamming_encode dat XOR push_bit (nat pos) 1"
    unfolding and_masks by (rule bit_eqI) (unfold bit_and_iff bit_mask_iff encode_bits bit_xor_iff bit_push_bit_iff bit_1_iff, use p in auto)
  with True show ?thesis
    by (simp add: ecc_hamming_introduce_error_def decode_val syndrome_error [OF p] Let_def xor.assoc extract_encode del: push_bit_of_1)
next
  case False
  then have "ecc_hamming_introduce_error (ecc_hamming_encode dat) pos = ecc_hamming_encode dat" by (auto simp: ecc_hamming_introduce_error_def)
  then show ?thesis by (simp only: decode_val Let_def encode_masked syndrome_encode) (simp add: extract_encode)
qed

text \<open>
  The BCH decoder loses the data: it reads one byte of a code word, the encoder's first byte is a single parity bit, and
  whatever was encoded it returns zero.
\<close>

theorem bch_decode_loses_data: "snd (ecc_bch_decode (ecc_bch_encode dat ! 0)) = 0"
proof -
  have s: "bch_shift dat i reg ! 0 = 0 \<or> bch_shift dat i reg ! 0 = 1" for i reg
    using drop_and_1 [of 0 "reg ! 7 XOR (drop_bit (6 - i) dat AND 1)"] by (simp add: bch_shift_def Let_def)
  have k: "ECC_BCH_K = Suc 6" by (simp add: ECC_BCH_K_def)
  have "ecc_bch_encode dat = bch_shift dat 6 (for_range 0 6 (bch_shift dat) (replicate 8 0))"
    unfolding ecc_bch_encode_def k for_range_Suc [OF le0] ..
  then have "ecc_bch_encode dat ! 0 = 0 \<or> ecc_bch_encode dat ! 0 = 1" using s by simp
  moreover have "ecc_bch_decode 0 = (0, 0)" "ecc_bch_decode 1 = (1, 0)" by code_simp+
  ultimately show ?thesis by auto
qed

text \<open>
  C40: The Reed-Solomon encoder is correct: a word of 239 data bytes followed by its parity has all 16 roots of the
  generator as roots, when its first byte is the coefficient of the highest power; and a word with one byte
  changed has none of them, so that every single error is seen.
\<close>

theorem rs_codeword_roots:
  assumes "length dat = RS_K" and "i < 2 * RS_T"
  shows "word_value (dat @ ecc_rs_encode dat) (rs_root i) = 0 \<and>
    (p < RS_N \<and> x \<noteq> (dat @ ecc_rs_encode dat) ! p \<longrightarrow> word_value ((dat @ ecc_rs_encode dat)[p := x]) (rs_root i) \<noteq> 0)"
proof -
  have i: "i < 16" and l: "length (dat @ ecc_rs_encode dat) = RS_N" using assms by (simp_all add: RS_T_def RS_K_def RS_N_def ecc_rs_encode_def Let_def)
  show ?thesis
    using encode_word_value [OF assms(1) i] word_value_change [of p "dat @ ecc_rs_encode dat" x "rs_root i"] l
    by (auto intro!: mul_root_pow_nonzero simp del: length_append) (metis xor_right_eq xor_self_eq)
qed

theorem rs_codeword_roots_witness:
  "word_value (replicate 239 1 @ ecc_rs_encode (replicate 239 1)) (rs_root 3) = 0"
  using rs_codeword_roots [of "replicate 239 1" 3] by (simp add: RS_K_def RS_T_def)

text \<open>
  The syndromes are computed in the opposite order: syndrome \<open>i\<close> is the value of the word read backwards.
\<close>

theorem rs_syndromes_reversed:
  "length dat = RS_K \<Longrightarrow> length parity = 2 * RS_T \<Longrightarrow> i < 2 * RS_T \<Longrightarrow>
    ecc_rs_syndromes dat parity ! i = word_value (rev (dat @ parity)) (rs_root i)"
  by (simp add: syndromes_value RS_T_def)

theorem rs_syndromes_reversed_witness:
  "ecc_rs_syndromes (replicate 239 0) (replicate 16 0) ! 5 = word_value (rev (replicate 239 0 @ replicate 16 0)) (rs_root 5)"
  by (rule rs_syndromes_reversed) (simp_all add: RS_K_def RS_T_def)

definition rev_eval :: "u8 arr \<Rightarrow> nat \<Rightarrow> u8 \<Rightarrow> u8" where
  "rev_eval gen n b = xsum (Suc n) (\<lambda>m. rs_gf_mul (gen (n - m)) (gf_power b m))"

lemma rev_eval_mul_root:
  assumes "gen (Suc n) = 0"
  shows "rev_eval (rs_mul_root n gen) (Suc n) b = rs_gf_mul (rev_eval gen n b) (1 XOR rs_gf_mul (rs_root n) b)"
proof -
  let ?r = "rs_root n"
  have "rev_eval (rs_mul_root n gen) (Suc n) b = xsum (Suc (Suc n)) (\<lambda>m. (if m \<le> n then rs_gf_mul (gen (n - m)) (gf_power b m) else 0) XOR
      rs_gf_mul (rs_gf_mul (gen (Suc n - m)) (gf_power b m)) ?r)"
    unfolding rev_eval_def by (rule xsum_cong) (auto simp: mul_root_val gf_distrib gf_ac Suc_diff_le not_le Suc_le_eq less_Suc_eq)
  also have "\<dots> = rev_eval gen n b XOR rs_gf_mul (xsum (Suc (Suc n)) (\<lambda>m. rs_gf_mul (gen (Suc n - m)) (gf_power b m))) ?r"
  proof -
    have "xsum (Suc (Suc n)) (\<lambda>m. if m \<le> n then rs_gf_mul (gen (n - m)) (gf_power b m) else 0) = rev_eval gen n b"
      unfolding rev_eval_def xsum_Suc [of "Suc n"] by (simp cong: xsum_cong)
    then show ?thesis unfolding xsum_xor gf_mul_xsum by simp
  qed
  also have "xsum (Suc (Suc n)) (\<lambda>m. rs_gf_mul (gen (Suc n - m)) (gf_power b m)) = rs_gf_mul (rev_eval gen n b) b"
    unfolding rev_eval_def gf_mul_xsum xsum_shift [of "Suc n"] using assms by (simp add: gf_mul_assoc)
  finally show ?thesis by (simp add: gf_distrib gf_ac)
qed

lemma rev_eval_generator:
  "n \<le> 16 \<Longrightarrow> rev_eval (for_range 0 n rs_mul_root ((\<lambda>_. 0)(0 := 1))) n b = fold (\<lambda>n v. rs_gf_mul v (1 XOR rs_gf_mul (rs_root n) b)) [0..<n] 1"
proof (induction n)
  case (Suc n)
  define G where "G = for_range 0 n rs_mul_root ((\<lambda>_. 0)(0 := 1))"
  have z: "G (Suc n) = 0" using generator_upto [of n, folded G_def] Suc.prems by simp
  have S: "for_range 0 (Suc n) rs_mul_root ((\<lambda>_. 0)(0 := 1)) = rs_mul_root n G" by (simp only: for_range_Suc [OF le0] G_def)
  show ?case unfolding S rev_eval_mul_root [of G n, OF z] using Suc.IH [folded G_def] Suc.prems by simp
qed (simp add: rev_eval_def)

lemma root_factors:
  "1 XOR fold (\<lambda>_. rs_xtime) [0..<0 + 2] 1 = 5"
    "5 XOR fold (\<lambda>_. rs_xtime) [0..<1 + 2] 5 = 45"
    "45 XOR fold (\<lambda>_. rs_xtime) [0..<2 + 2] 45 = 199"
    "199 XOR fold (\<lambda>_. rs_xtime) [0..<3 + 2] 199 = 2"
    "2 XOR fold (\<lambda>_. rs_xtime) [0..<4 + 2] 2 = 130"
    "130 XOR fold (\<lambda>_. rs_xtime) [0..<5 + 2] 130 = 140"
    "140 XOR fold (\<lambda>_. rs_xtime) [0..<6 + 2] 140 = 54"
    "54 XOR fold (\<lambda>_. rs_xtime) [0..<7 + 2] 54 = 62"
    "62 XOR fold (\<lambda>_. rs_xtime) [0..<8 + 2] 62 = 169"
    "169 XOR fold (\<lambda>_. rs_xtime) [0..<9 + 2] 169 = 51"
    "51 XOR fold (\<lambda>_. rs_xtime) [0..<10 + 2] 51 = 173"
    "173 XOR fold (\<lambda>_. rs_xtime) [0..<11 + 2] 173 = 217"
    "217 XOR fold (\<lambda>_. rs_xtime) [0..<12 + 2] 217 = 190"
    "190 XOR fold (\<lambda>_. rs_xtime) [0..<13 + 2] 190 = 67"
    "67 XOR fold (\<lambda>_. rs_xtime) [0..<14 + 2] 67 = 125"
    "125 XOR fold (\<lambda>_. rs_xtime) [0..<15 + 2] 125 = 93"
  by code_simp+

lemma rev_generator_nonzero: "rev_eval ecc_rs_generator_poly 16 2 \<noteq> 0"
proof -
  have "gf_power 2 k = (rs_xtime ^^ k) 1" for k by (induction k) (simp_all add: gf_mul_2)
  then have "rs_gf_mul (rs_root n) 2 = (rs_xtime ^^ (n + 2)) 1" for n by (simp add: rs_root_power gf_mul_2)
  then have r: "rs_gf_mul v (1 XOR rs_gf_mul (rs_root n) 2) = v XOR (rs_xtime ^^ (n + 2)) v" for n v
    by (simp only: gf_distrib xtime_pow_right gf_mul_1)
  define F where "F = (\<lambda>n v. v XOR (rs_xtime ^^ (n + 2)) v)"
  have "fold F [0, 1, 2, 3, 4, 5, 6, 7, 8, 9, 10, 11, 12, 13, 14, 15] 1 = 93"
    unfolding F_def xtime_fold by (simp only: root_factors fold_simps)
  moreover have "[0..<16] = [0, 1, 2, 3, 4, 5, 6, 7, 8, 9, 10, 11, 12, 13, 14, 15 :: nat]" by (simp add: upt_rec)
  ultimately have "fold F [0..<16] 1 \<noteq> 0" by simp
  then show ?thesis using rev_eval_generator [of 16 2] by (simp only: ecc_rs_generator_poly_def RS_T_def r F_def) simp
qed

lemma feed_zeros: "for_range 0 n (\<lambda>i. rs_feed gen (w ! i)) (\<lambda>_. 0) = (\<lambda>_. 0)" if "\<And>i. i < n \<Longrightarrow> w ! i = 0"
proof -
  have "rs_feed gen 0 (\<lambda>_. 0) = (\<lambda>_. 0)" by (rule ext) (simp add: rs_feed_val)
  then show ?thesis using that by (induction n) (simp_all add: for_range_Suc)
qed

lemma encode_last: "ecc_rs_encode (replicate 238 0 @ [1]) = map (\<lambda>k. ecc_rs_generator_poly (15 - k)) [0..<16]"
proof -
  have K: "RS_K = Suc 238" by (simp add: RS_K_def)
  have "for_range 0 RS_K (\<lambda>i. rs_feed ecc_rs_generator_poly ((replicate 238 0 @ [1]) ! i)) (\<lambda>_. 0) = rs_feed ecc_rs_generator_poly 1 (\<lambda>_. 0)"
    unfolding K for_range_Suc [OF le0] by (subst feed_zeros) (simp_all add: nth_append)
  then show ?thesis by (simp add: ecc_rs_encode_def Let_def RS_T_def rs_feed_val)
qed

text \<open>
  So the code word of a single last byte 1 has a first syndrome that is not zero, as if it had errors.
\<close>

theorem rs_syndromes_reject_codeword:
  "ecc_rs_syndromes (replicate 238 0 @ [1]) (ecc_rs_encode (replicate 238 0 @ [1])) ! 0 \<noteq> 0"
proof -
  let ?p = "map (\<lambda>k. ecc_rs_generator_poly (15 - k)) [0..<16]" and ?b = "rs_root 0"
  have b: "?b = 2" by (simp add: rs_root_power)
  have "rs_gf_mul (word_value (rev ?p) ?b) ?b XOR 1 = rev_eval ecc_rs_generator_poly 16 ?b"
  proof -
    have s: "(16 :: nat) = Suc 15" by simp
    have "rev_eval ecc_rs_generator_poly 16 ?b = ecc_rs_generator_poly 16 XOR
        xsum 16 (\<lambda>m. rs_gf_mul (rs_gf_mul (ecc_rs_generator_poly (15 - m)) (gf_power ?b m)) ?b)"
      unfolding rev_eval_def xsum_shift [of 16] by (simp add: gf_mul_assoc)
    moreover have "word_value (rev ?p) ?b = xsum 16 (\<lambda>m. rs_gf_mul (ecc_rs_generator_poly (15 - m)) (gf_power ?b m))"
      unfolding word_value_sum length_map length_upt diff_zero by (rule xsum_cong) simp
    ultimately show ?thesis by (simp add: generator_roots(1) gf_mul_xsum xor.commute)
  qed
  then have n: "word_value (rev ?p @ [1]) ?b \<noteq> 0" using rev_generator_nonzero b by simp
  have z: "word_value (replicate n 0) ?b = 0" for n by (induction n) (simp_all add: word_value_Cons)
  have "rev ((replicate 238 0 @ [1]) @ ?p) = (rev ?p @ [1]) @ replicate 238 (0 :: u8)" by simp
  then have "word_value (rev ((replicate 238 0 @ [1]) @ ?p)) ?b = rs_gf_mul (word_value (rev ?p @ [1]) ?b) (gf_power ?b 238)"
    by (simp only: word_value_append [of "rev ?p @ [1]"] z length_replicate xor.right_neutral)
  with mul_root_pow_nonzero [OF n] show ?thesis
    by (subst syndromes_value) (simp_all add: RS_K_def encode_last del: rev_append)
qed

end
