(* ===== verification/CryptoBytes.thy ===== *)
theory CryptoBytes
  imports Prelude
begin

text \<open>
  Byte buffers of \<^verbatim>\<open>mini-hardware-security/src/hw_crypto.c\<close>: a buffer is a list of bytes; words are
  stored most significant byte first.
\<close>

unbundle bit_operations_syntax

definition be32 :: "u32 \<Rightarrow> bytes" where
  "be32 w = [ucast (drop_bit 24 w), ucast (drop_bit 16 w), ucast (drop_bit 8 w), ucast w]"

definition word_be :: "bytes \<Rightarrow> nat \<Rightarrow> u32" where
  "word_be b i = push_bit 24 (ucast (b ! i)) OR push_bit 16 (ucast (b ! (i + 1))) OR
     push_bit 8 (ucast (b ! (i + 2))) OR ucast (b ! (i + 3))"

definition be64 :: "u64 \<Rightarrow> bytes" where
  "be64 w = [ucast (drop_bit 56 w), ucast (drop_bit 48 w), ucast (drop_bit 40 w), ucast (drop_bit 32 w),
     ucast (drop_bit 24 w), ucast (drop_bit 16 w), ucast (drop_bit 8 w), ucast w]"

definition xor_bytes :: "bytes \<Rightarrow> bytes \<Rightarrow> bytes" where
  "xor_bytes a b = map2 (XOR) a b"

lemma length_xor_bytes [simp]: "length (xor_bytes a b) = min (length a) (length b)"
  by (simp add: xor_bytes_def)

lemma xor_bytes_cancel: "length a \<le> length b \<Longrightarrow> xor_bytes (xor_bytes a b) b = a"
  by (rule nth_equalityI) (simp_all add: xor_bytes_def xor.assoc)

lemma length_be [simp]: "length (be32 w) = 4" "length (be64 v) = 8"
  by (simp_all add: be32_def be64_def)

text \<open>The comparison accumulates the differences of all bytes.\<close>

definition byte_diff :: "bytes \<Rightarrow> bytes \<Rightarrow> u8" where
  "byte_diff a b = for_range 0 (length a) (\<lambda>i d. d OR (a ! i XOR b ! i)) 0"

definition constant_time_eq :: "bytes \<Rightarrow> bytes \<Rightarrow> bool" where
  "constant_time_eq a b \<longleftrightarrow> byte_diff a b = 0"

lemma byte_diff_zero: "length a = length b \<Longrightarrow> byte_diff a b = 0 \<longleftrightarrow> a = b"
proof -
  assume l: "length a = length b"
  have or0: "p OR q = 0 \<longleftrightarrow> p = 0 \<and> q = 0" for p q :: u8
    by (auto simp: bit_eq_iff bit_simps)
  have x0: "p XOR q = 0 \<longleftrightarrow> p = q" for p q :: u8
    by (auto simp: bit_eq_iff bit_simps)
  have "for_range 0 (length a) (\<lambda>i d. d OR (a ! i XOR b ! i)) 0 = 0 \<longleftrightarrow> (\<forall>j < length a. a ! j = b ! j)"
    by (rule for_range_invariant [where I = "\<lambda>n d. d = 0 \<longleftrightarrow> (\<forall>j < n. a ! j = b ! j)"])
      (auto simp: or0 x0 less_Suc_eq)
  then show ?thesis using l by (auto simp: byte_diff_def intro: nth_equalityI)
qed

end
