(* ===== verification/Aes.thy ===== *)
theory Aes
  imports CryptoBytes
begin

text \<open>
  AES-256 of \<^verbatim>\<open>mini-hardware-security/src/hw_crypto.c\<close>: the substitution tables, the field
  arithmetic, the key schedule, the block cipher in both directions and its CBC and CTR modes.
  A block is a list of 16 bytes, a buffer a list as long as the buffer; input and output buffers
  of a mode are distinct.
\<close>

unbundle bit_operations_syntax

section \<open>Tables\<close>

definition aes_sbox :: bytes where
  "aes_sbox = [
     0x63, 0x7C, 0x77, 0x7B, 0xF2, 0x6B, 0x6F, 0xC5, 0x30, 0x01, 0x67, 0x2B, 0xFE, 0xD7, 0xAB, 0x76,
     0xCA, 0x82, 0xC9, 0x7D, 0xFA, 0x59, 0x47, 0xF0, 0xAD, 0xD4, 0xA2, 0xAF, 0x9C, 0xA4, 0x72, 0xC0,
     0xB7, 0xFD, 0x93, 0x26, 0x36, 0x3F, 0xF7, 0xCC, 0x34, 0xA5, 0xE5, 0xF1, 0x71, 0xD8, 0x31, 0x15,
     0x04, 0xC7, 0x23, 0xC3, 0x18, 0x96, 0x05, 0x9A, 0x07, 0x12, 0x80, 0xE2, 0xEB, 0x27, 0xB2, 0x75,
     0x09, 0x83, 0x2C, 0x1A, 0x1B, 0x6E, 0x5A, 0xA0, 0x52, 0x3B, 0xD6, 0xB3, 0x29, 0xE3, 0x2F, 0x84,
     0x53, 0xD1, 0x00, 0xED, 0x20, 0xFC, 0xB1, 0x5B, 0x6A, 0xCB, 0xBE, 0x39, 0x4A, 0x4C, 0x58, 0xCF,
     0xD0, 0xEF, 0xAA, 0xFB, 0x43, 0x4D, 0x33, 0x85, 0x45, 0xF9, 0x02, 0x7F, 0x50, 0x3C, 0x9F, 0xA8,
     0x51, 0xA3, 0x40, 0x8F, 0x92, 0x9D, 0x38, 0xF5, 0xBC, 0xB6, 0xDA, 0x21, 0x10, 0xFF, 0xF3, 0xD2,
     0xCD, 0x0C, 0x13, 0xEC, 0x5F, 0x97, 0x44, 0x17, 0xC4, 0xA7, 0x7E, 0x3D, 0x64, 0x5D, 0x19, 0x73,
     0x60, 0x81, 0x4F, 0xDC, 0x22, 0x2A, 0x90, 0x88, 0x46, 0xEE, 0xB8, 0x14, 0xDE, 0x5E, 0x0B, 0xDB,
     0xE0, 0x32, 0x3A, 0x0A, 0x49, 0x06, 0x24, 0x5C, 0xC2, 0xD3, 0xAC, 0x62, 0x91, 0x95, 0xE4, 0x79,
     0xE7, 0xC8, 0x37, 0x6D, 0x8D, 0xD5, 0x4E, 0xA9, 0x6C, 0x56, 0xF4, 0xEA, 0x65, 0x7A, 0xAE, 0x08,
     0xBA, 0x78, 0x25, 0x2E, 0x1C, 0xA6, 0xB4, 0xC6, 0xE8, 0xDD, 0x74, 0x1F, 0x4B, 0xBD, 0x8B, 0x8A,
     0x70, 0x3E, 0xB5, 0x66, 0x48, 0x03, 0xF6, 0x0E, 0x61, 0x35, 0x57, 0xB9, 0x86, 0xC1, 0x1D, 0x9E,
     0xE1, 0xF8, 0x98, 0x11, 0x69, 0xD9, 0x8E, 0x94, 0x9B, 0x1E, 0x87, 0xE9, 0xCE, 0x55, 0x28, 0xDF,
     0x8C, 0xA1, 0x89, 0x0D, 0xBF, 0xE6, 0x42, 0x68, 0x41, 0x99, 0x2D, 0x0F, 0xB0, 0x54, 0xBB, 0x16]"

definition aes_inv_sbox :: bytes where
  "aes_inv_sbox = [
     0x52, 0x09, 0x6A, 0xD5, 0x30, 0x36, 0xA5, 0x38, 0xBF, 0x40, 0xA3, 0x9E, 0x81, 0xF3, 0xD7, 0xFB,
     0x7C, 0xE3, 0x39, 0x82, 0x9B, 0x2F, 0xFF, 0x87, 0x34, 0x8E, 0x43, 0x44, 0xC4, 0xDE, 0xE9, 0xCB,
     0x54, 0x7B, 0x94, 0x32, 0xA6, 0xC2, 0x23, 0x3D, 0xEE, 0x4C, 0x95, 0x0B, 0x42, 0xFA, 0xC3, 0x4E,
     0x08, 0x2E, 0xA1, 0x66, 0x28, 0xD9, 0x24, 0xB2, 0x76, 0x5B, 0xA2, 0x49, 0x6D, 0x8B, 0xD1, 0x25,
     0x72, 0xF8, 0xF6, 0x64, 0x86, 0x68, 0x98, 0x16, 0xD4, 0xA4, 0x5C, 0xCC, 0x5D, 0x65, 0xB6, 0x92,
     0x6C, 0x70, 0x48, 0x50, 0xFD, 0xED, 0xB9, 0xDA, 0x5E, 0x15, 0x46, 0x57, 0xA7, 0x8D, 0x9D, 0x84,
     0x90, 0xD8, 0xAB, 0x00, 0x8C, 0xBC, 0xD3, 0x0A, 0xF7, 0xE4, 0x58, 0x05, 0xB8, 0xB3, 0x45, 0x06,
     0xD0, 0x2C, 0x1E, 0x8F, 0xCA, 0x3F, 0x0F, 0x02, 0xC1, 0xAF, 0xBD, 0x03, 0x01, 0x13, 0x8A, 0x6B,
     0x3A, 0x91, 0x11, 0x41, 0x4F, 0x67, 0xDC, 0xEA, 0x97, 0xF2, 0xCF, 0xCE, 0xF0, 0xB4, 0xE6, 0x73,
     0x96, 0xAC, 0x74, 0x22, 0xE7, 0xAD, 0x35, 0x85, 0xE2, 0xF9, 0x37, 0xE8, 0x1C, 0x75, 0xDF, 0x6E,
     0x47, 0xF1, 0x1A, 0x71, 0x1D, 0x29, 0xC5, 0x89, 0x6F, 0xB7, 0x62, 0x0E, 0xAA, 0x18, 0xBE, 0x1B,
     0xFC, 0x56, 0x3E, 0x4B, 0xC6, 0xD2, 0x79, 0x20, 0x9A, 0xDB, 0xC0, 0xFE, 0x78, 0xCD, 0x5A, 0xF4,
     0x1F, 0xDD, 0xA8, 0x33, 0x88, 0x07, 0xC7, 0x31, 0xB1, 0x12, 0x10, 0x59, 0x27, 0x80, 0xEC, 0x5F,
     0x60, 0x51, 0x7F, 0xA9, 0x19, 0xB5, 0x4A, 0x0D, 0x2D, 0xE5, 0x7A, 0x9F, 0x93, 0xC9, 0x9C, 0xEF,
     0xA0, 0xE0, 0x3B, 0x4D, 0xAE, 0x2A, 0xF5, 0xB0, 0xC8, 0xEB, 0xBB, 0x3C, 0x83, 0x53, 0x99, 0x61,
     0x17, 0x2B, 0x04, 0x7E, 0xBA, 0x77, 0xD6, 0x26, 0xE1, 0x69, 0x14, 0x63, 0x55, 0x21, 0x0C, 0x7D]"

definition aes_rcon :: bytes where
  "aes_rcon = [0x00, 0x01, 0x02, 0x04, 0x08, 0x10, 0x20, 0x40, 0x80, 0x1B, 0x36]"

section \<open>Field arithmetic\<close>

definition gf_mul2 :: "u8 \<Rightarrow> u8" where
  "gf_mul2 x = (let r = push_bit 1 x in if x AND 0x80 \<noteq> 0 then r XOR 0x1B else r)"

definition gf_mul3 :: "u8 \<Rightarrow> u8" where
  "gf_mul3 x = gf_mul2 x XOR x"

definition gf_mul9 :: "u8 \<Rightarrow> u8" where
  "gf_mul9 x = gf_mul2 (gf_mul2 (gf_mul2 x)) XOR x"

definition gf_mul11 :: "u8 \<Rightarrow> u8" where
  "gf_mul11 x = gf_mul2 (gf_mul2 (gf_mul2 x)) XOR gf_mul2 x XOR x"

definition gf_mul13 :: "u8 \<Rightarrow> u8" where
  "gf_mul13 x = gf_mul2 (gf_mul2 (gf_mul2 x)) XOR gf_mul2 (gf_mul2 x) XOR x"

definition gf_mul14 :: "u8 \<Rightarrow> u8" where
  "gf_mul14 x = gf_mul2 (gf_mul2 (gf_mul2 x)) XOR gf_mul2 (gf_mul2 x) XOR gf_mul2 x"

section \<open>Key schedule\<close>

definition rot_word :: "u32 \<Rightarrow> u32" where
  "rot_word w = push_bit 8 w OR drop_bit 24 w"

definition sub_word :: "u32 \<Rightarrow> u32" where
  "sub_word w =
     push_bit 24 (ucast (aes_sbox ! unat (drop_bit 24 w AND 0xFF))) OR
     push_bit 16 (ucast (aes_sbox ! unat (drop_bit 16 w AND 0xFF))) OR
     push_bit 8 (ucast (aes_sbox ! unat (drop_bit 8 w AND 0xFF))) OR
     ucast (aes_sbox ! unat (w AND 0xFF))"

record MiniHwSecAesCtx =
  round_keys :: bytes
  aes_rounds :: nat

text \<open>One word of the expanded key; the words before it are the list.\<close>

definition expand_word :: "nat \<Rightarrow> u32 list \<Rightarrow> u32 list" where
  "expand_word i w =
     (let temp = w ! (i - 1);
          t = (if i mod 8 = 0 then sub_word (rot_word temp) XOR push_bit 24 (ucast (aes_rcon ! (i div 8)))
               else if i mod 8 = 4 then sub_word temp
               else temp)
      in w @ [w ! (i - 8) XOR t])"

definition aes_init :: "bytes \<Rightarrow> MiniHwSecAesCtx" where
  "aes_init key =
     (let w = for_range 8 60 expand_word (map (\<lambda>i. word_be key (4 * i)) [0..<8])
      in \<lparr>round_keys = concat (map be32 w), aes_rounds = 14\<rparr>)"

section \<open>Rounds\<close>

definition round_key :: "MiniHwSecAesCtx \<Rightarrow> nat \<Rightarrow> bytes" where
  "round_key ctx r = map (\<lambda>i. round_keys ctx ! (r * 16 + i)) [0..<16]"

definition add_round_key :: "bytes \<Rightarrow> bytes \<Rightarrow> bytes" where
  "add_round_key state rk = xor_bytes state rk"

definition sub_bytes :: "bytes \<Rightarrow> bytes" where
  "sub_bytes state = map (\<lambda>x. aes_sbox ! unat x) state"

definition inv_sub_bytes :: "bytes \<Rightarrow> bytes" where
  "inv_sub_bytes state = map (\<lambda>x. aes_inv_sbox ! unat x) state"

definition shift_rows :: "bytes \<Rightarrow> bytes" where
  "shift_rows s =
     (let s1 = s[1 := s ! 5, 5 := s ! 9, 9 := s ! 13, 13 := s ! 1];
          s2 = s1[2 := s1 ! 10, 10 := s1 ! 2, 6 := s1 ! 14, 14 := s1 ! 6]
      in s2[15 := s2 ! 11, 11 := s2 ! 7, 7 := s2 ! 3, 3 := s2 ! 15])"

definition inv_shift_rows :: "bytes \<Rightarrow> bytes" where
  "inv_shift_rows s =
     (let s1 = s[13 := s ! 9, 9 := s ! 5, 5 := s ! 1, 1 := s ! 13];
          s2 = s1[10 := s1 ! 2, 2 := s1 ! 10, 14 := s1 ! 6, 6 := s1 ! 14]
      in s2[3 := s2 ! 7, 7 := s2 ! 11, 11 := s2 ! 15, 15 := s2 ! 3])"

definition mix_column :: "nat \<Rightarrow> bytes \<Rightarrow> bytes" where
  "mix_column c s =
     (let i = c * 4; s0 = s ! i; s1 = s ! (i + 1); s2 = s ! (i + 2); s3 = s ! (i + 3)
      in s[i := gf_mul2 s0 XOR gf_mul3 s1 XOR s2 XOR s3,
           i + 1 := s0 XOR gf_mul2 s1 XOR gf_mul3 s2 XOR s3,
           i + 2 := s0 XOR s1 XOR gf_mul2 s2 XOR gf_mul3 s3,
           i + 3 := gf_mul3 s0 XOR s1 XOR s2 XOR gf_mul2 s3])"

definition mix_columns :: "bytes \<Rightarrow> bytes" where
  "mix_columns s = for_range 0 4 mix_column s"

definition inv_mix_column :: "nat \<Rightarrow> bytes \<Rightarrow> bytes" where
  "inv_mix_column c s =
     (let i = c * 4; s0 = s ! i; s1 = s ! (i + 1); s2 = s ! (i + 2); s3 = s ! (i + 3)
      in s[i := gf_mul14 s0 XOR gf_mul11 s1 XOR gf_mul13 s2 XOR gf_mul9 s3,
           i + 1 := gf_mul9 s0 XOR gf_mul14 s1 XOR gf_mul11 s2 XOR gf_mul13 s3,
           i + 2 := gf_mul13 s0 XOR gf_mul9 s1 XOR gf_mul14 s2 XOR gf_mul11 s3,
           i + 3 := gf_mul11 s0 XOR gf_mul13 s1 XOR gf_mul9 s2 XOR gf_mul14 s3])"

definition inv_mix_columns :: "bytes \<Rightarrow> bytes" where
  "inv_mix_columns s = for_range 0 4 inv_mix_column s"

section \<open>The block cipher\<close>

definition aes_round :: "MiniHwSecAesCtx \<Rightarrow> nat \<Rightarrow> bytes \<Rightarrow> bytes" where
  "aes_round ctx r s = add_round_key (mix_columns (shift_rows (sub_bytes s))) (round_key ctx r)"

definition aes_encrypt :: "MiniHwSecAesCtx \<Rightarrow> bytes \<Rightarrow> bytes" where
  "aes_encrypt ctx plain =
     (let s0 = add_round_key plain (round_key ctx 0);
          s1 = for_range 1 (aes_rounds ctx) (aes_round ctx) s0
      in add_round_key (shift_rows (sub_bytes s1)) (round_key ctx (aes_rounds ctx)))"

definition aes_inv_round :: "MiniHwSecAesCtx \<Rightarrow> nat \<Rightarrow> bytes \<Rightarrow> bytes" where
  "aes_inv_round ctx r s = inv_mix_columns (add_round_key (inv_sub_bytes (inv_shift_rows s)) (round_key ctx r))"

text \<open>The loop of decryption counts down.\<close>

definition aes_decrypt :: "MiniHwSecAesCtx \<Rightarrow> bytes \<Rightarrow> bytes" where
  "aes_decrypt ctx cipher =
     (let s0 = add_round_key cipher (round_key ctx (aes_rounds ctx));
          s1 = fold (aes_inv_round ctx) (rev [1..<aes_rounds ctx]) s0
      in add_round_key (inv_sub_bytes (inv_shift_rows s1)) (round_key ctx 0))"

section \<open>Modes of operation\<close>

function cbc_encrypt_blocks :: "MiniHwSecAesCtx \<Rightarrow> bytes \<Rightarrow> bytes \<Rightarrow> bytes" where
  "cbc_encrypt_blocks ctx prev input =
     (if input = [] then []
      else let c = aes_encrypt ctx (xor_bytes (take 16 input) prev)
           in c @ cbc_encrypt_blocks ctx c (drop 16 input))"
  by pat_completeness auto
termination by (relation "measure (\<lambda>(ctx, prev, input). length input)") auto

function cbc_decrypt_blocks :: "MiniHwSecAesCtx \<Rightarrow> bytes \<Rightarrow> bytes \<Rightarrow> bytes" where
  "cbc_decrypt_blocks ctx prev input =
     (if input = [] then []
      else xor_bytes (aes_decrypt ctx (take 16 input)) prev @
           cbc_decrypt_blocks ctx (take 16 input) (drop 16 input))"
  by pat_completeness auto
termination by (relation "measure (\<lambda>(ctx, prev, input). length input)") auto

declare cbc_encrypt_blocks.simps [simp del] cbc_decrypt_blocks.simps [simp del]

text \<open>\<open>None\<close> is the return value \<open>false\<close>.\<close>

definition aes_cbc_encrypt :: "MiniHwSecAesCtx \<Rightarrow> bytes \<Rightarrow> bytes \<Rightarrow> bytes option" where
  "aes_cbc_encrypt ctx iv input =
     (if length input mod 16 \<noteq> 0 then None else Some (cbc_encrypt_blocks ctx iv input))"

definition aes_cbc_decrypt :: "MiniHwSecAesCtx \<Rightarrow> bytes \<Rightarrow> bytes \<Rightarrow> bytes option" where
  "aes_cbc_decrypt ctx iv input =
     (if length input mod 16 \<noteq> 0 then None else Some (cbc_decrypt_blocks ctx iv input))"

definition ctr_block :: "bytes \<Rightarrow> u32 \<Rightarrow> bytes" where
  "ctr_block nonce n = nonce @ be32 n"

text \<open>The counter is the 32-bit block number, which wraps.\<close>

function ctr_stream :: "(u32 \<Rightarrow> bytes) \<Rightarrow> u32 \<Rightarrow> bytes \<Rightarrow> bytes" where
  "ctr_stream key n input =
     (if input = [] then []
      else xor_bytes (take 16 input) (key n) @ ctr_stream key (n + 1) (drop 16 input))"
  by pat_completeness auto
termination by (relation "measure (\<lambda>(key, n, input). length input)") auto

declare ctr_stream.simps [simp del]

definition aes_ctr_mode :: "MiniHwSecAesCtx \<Rightarrow> bytes \<Rightarrow> bytes \<Rightarrow> bytes" where
  "aes_ctr_mode ctx nonce input = ctr_stream (\<lambda>n. aes_encrypt ctx (ctr_block nonce n)) 0 input"

section \<open>The substitution tables\<close>

lemma all_bytes: "(\<forall>x :: u8. P x) \<longleftrightarrow> (\<forall>i < 256. P (word_of_nat i))"
proof
  assume all: "\<forall>i < 256. P (word_of_nat i)"
  show "\<forall>x :: u8. P x"
  proof
    fix x :: u8
    show "P x" using all [rule_format, of "unat x"] unat_less_u8 [of x] by simp
  qed
qed simp

lemma length_sbox: "length aes_sbox = 256" "length aes_inv_sbox = 256"
  by (simp_all add: aes_sbox_def aes_inv_sbox_def)

lemma inv_sbox_table: "map (\<lambda>v. aes_inv_sbox ! unat v) aes_sbox = map word_of_nat [0..<256]"
  by code_simp

lemma inv_sbox_sbox [simp]: "aes_inv_sbox ! unat (aes_sbox ! unat x) = x"
proof -
  have "map (\<lambda>v. aes_inv_sbox ! unat v) aes_sbox ! unat x = map word_of_nat [0..<256] ! unat x"
    by (simp only: inv_sbox_table)
  then show ?thesis using unat_less_u8 [of x] by (simp add: length_sbox)
qed

section \<open>Field arithmetic is linear\<close>

lemma gf_mul2_xor: "gf_mul2 (x XOR y) = gf_mul2 x XOR gf_mul2 y"
proof (rule bit_word_eqI)
  fix n assume "n < LENGTH(8)"
  have b: "z AND 0x80 \<noteq> 0 \<longleftrightarrow> bit z 7" for z :: u8 using and_pow2_eq_0 [of z 7] by simp
  show "bit (gf_mul2 (x XOR y)) n = bit (gf_mul2 x XOR gf_mul2 y) n"
    unfolding gf_mul2_def Let_def b by (auto simp: bit_simps)
qed

lemmas gf_muls = gf_mul3_def gf_mul9_def gf_mul11_def gf_mul13_def gf_mul14_def

lemma mix_matrix:
  "gf_mul14 (gf_mul2 a XOR gf_mul3 b XOR c XOR d) XOR gf_mul11 (a XOR gf_mul2 b XOR gf_mul3 c XOR d) XOR
     gf_mul13 (a XOR b XOR gf_mul2 c XOR gf_mul3 d) XOR gf_mul9 (gf_mul3 a XOR b XOR c XOR gf_mul2 d) = a"
  "gf_mul9 (gf_mul2 a XOR gf_mul3 b XOR c XOR d) XOR gf_mul14 (a XOR gf_mul2 b XOR gf_mul3 c XOR d) XOR
     gf_mul11 (a XOR b XOR gf_mul2 c XOR gf_mul3 d) XOR gf_mul13 (gf_mul3 a XOR b XOR c XOR gf_mul2 d) = b"
  "gf_mul13 (gf_mul2 a XOR gf_mul3 b XOR c XOR d) XOR gf_mul9 (a XOR gf_mul2 b XOR gf_mul3 c XOR d) XOR
     gf_mul14 (a XOR b XOR gf_mul2 c XOR gf_mul3 d) XOR gf_mul11 (gf_mul3 a XOR b XOR c XOR gf_mul2 d) = c"
  "gf_mul11 (gf_mul2 a XOR gf_mul3 b XOR c XOR d) XOR gf_mul13 (a XOR gf_mul2 b XOR gf_mul3 c XOR d) XOR
     gf_mul9 (a XOR b XOR gf_mul2 c XOR gf_mul3 d) XOR gf_mul14 (gf_mul3 a XOR b XOR c XOR gf_mul2 d) = d"
  by (simp_all add: gf_muls gf_mul2_xor xor.assoc xor.commute xor.left_commute)
section \<open>Each round step is undone\<close>

lemma block_cases:
  assumes "length (s :: 'a list) = 16"
  obtains a0 a1 a2 a3 a4 a5 a6 a7 a8 a9 a10 a11 a12 a13 a14 a15
    where "s = [a0, a1, a2, a3, a4, a5, a6, a7, a8, a9, a10, a11, a12, a13, a14, a15]"
  using assms by (auto simp: length_Suc_conv eval_nat_numeral)

lemma length_round_key [simp]: "length (round_key ctx r) = 16"
  by (simp add: round_key_def)

lemma length_steps [simp]:
  "length (sub_bytes s) = length s" "length (inv_sub_bytes s) = length s"
  "length (shift_rows s) = length s" "length (inv_shift_rows s) = length s"
  by (simp_all add: sub_bytes_def inv_sub_bytes_def shift_rows_def inv_shift_rows_def Let_def)

lemma length_mix [simp]: "length (mix_columns s) = length s" "length (inv_mix_columns s) = length s"
  unfolding mix_columns_def inv_mix_columns_def
  by (rule for_range_preserves; simp add: mix_column_def inv_mix_column_def Let_def)+

lemma add_round_key_twice: "length s = 16 \<Longrightarrow> add_round_key (add_round_key s (round_key ctx r)) (round_key ctx r) = s"
  by (simp add: add_round_key_def xor_bytes_cancel)

lemma length_add_round_key [simp]: "length s = 16 \<Longrightarrow> length (add_round_key s (round_key ctx r)) = 16"
  by (simp add: add_round_key_def)

lemma inv_sub_sub [simp]: "inv_sub_bytes (sub_bytes s) = s"
  by (simp add: inv_sub_bytes_def sub_bytes_def comp_def)

lemma inv_shift_shift [simp]: "length s = 16 \<Longrightarrow> inv_shift_rows (shift_rows s) = s"
  by (erule block_cases) (simp add: shift_rows_def inv_shift_rows_def Let_def)

lemma for_range_4: "for_range 0 4 f s = f 3 (f 2 (f 1 (f (0 :: nat) s)))"
  by (simp add: for_range_def upt_rec numeral_3_eq_3 numeral_2_eq_2)

lemma mix_columns_list:
  assumes "\<And>c s. m c s = s[c * 4 := f (s ! (c * 4)) (s ! (c * 4 + 1)) (s ! (c * 4 + 2)) (s ! (c * 4 + 3)),
      c * 4 + 1 := g (s ! (c * 4)) (s ! (c * 4 + 1)) (s ! (c * 4 + 2)) (s ! (c * 4 + 3)),
      c * 4 + 2 := h (s ! (c * 4)) (s ! (c * 4 + 1)) (s ! (c * 4 + 2)) (s ! (c * 4 + 3)),
      c * 4 + 3 := k (s ! (c * 4)) (s ! (c * 4 + 1)) (s ! (c * 4 + 2)) (s ! (c * 4 + 3))]"
  shows "for_range 0 4 m [a0, a1, a2, a3, a4, a5, a6, a7, a8, a9, a10, a11, a12, a13, a14, a15] =
    [f a0 a1 a2 a3, g a0 a1 a2 a3, h a0 a1 a2 a3, k a0 a1 a2 a3,
     f a4 a5 a6 a7, g a4 a5 a6 a7, h a4 a5 a6 a7, k a4 a5 a6 a7,
     f a8 a9 a10 a11, g a8 a9 a10 a11, h a8 a9 a10 a11, k a8 a9 a10 a11,
     f a12 a13 a14 a15, g a12 a13 a14 a15, h a12 a13 a14 a15, k a12 a13 a14 a15]"
  by (simp add: for_range_4 assms)

lemmas mix_columns_eval = mix_columns_list [of mix_column
    "\<lambda>s0 s1 s2 s3. gf_mul2 s0 XOR gf_mul3 s1 XOR s2 XOR s3" "\<lambda>s0 s1 s2 s3. s0 XOR gf_mul2 s1 XOR gf_mul3 s2 XOR s3"
    "\<lambda>s0 s1 s2 s3. s0 XOR s1 XOR gf_mul2 s2 XOR gf_mul3 s3" "\<lambda>s0 s1 s2 s3. gf_mul3 s0 XOR s1 XOR s2 XOR gf_mul2 s3"]

lemmas inv_mix_columns_eval = mix_columns_list [of inv_mix_column
    "\<lambda>s0 s1 s2 s3. gf_mul14 s0 XOR gf_mul11 s1 XOR gf_mul13 s2 XOR gf_mul9 s3"
    "\<lambda>s0 s1 s2 s3. gf_mul9 s0 XOR gf_mul14 s1 XOR gf_mul11 s2 XOR gf_mul13 s3"
    "\<lambda>s0 s1 s2 s3. gf_mul13 s0 XOR gf_mul9 s1 XOR gf_mul14 s2 XOR gf_mul11 s3"
    "\<lambda>s0 s1 s2 s3. gf_mul11 s0 XOR gf_mul13 s1 XOR gf_mul9 s2 XOR gf_mul14 s3"]

lemma inv_mix_mix [simp]: "length s = 16 \<Longrightarrow> inv_mix_columns (mix_columns s) = s"
  by (erule block_cases)
    (simp add: mix_columns_def inv_mix_columns_def mix_columns_eval inv_mix_columns_eval mix_column_def
      inv_mix_column_def Let_def mix_matrix)

section \<open>Decryption undoes encryption\<close>

lemma aes_round_inverse:
  "length s = 16 \<Longrightarrow> inv_mix_columns (add_round_key (aes_round ctx r s) (round_key ctx r)) = shift_rows (sub_bytes s)"
  by (simp add: aes_round_def add_round_key_twice)

lemma length_aes_rounds: "length s = 16 \<Longrightarrow> length (fold (aes_round ctx) rs s) = 16"
  by (induction rs arbitrary: s) (simp_all add: aes_round_def)

text \<open>One decryption round peels the last encryption round, with the substitution before the key.\<close>

lemma aes_rounds_inverse:
  "length s = 16 \<Longrightarrow>
     fold (aes_inv_round ctx) (rev rs) (shift_rows (sub_bytes (fold (aes_round ctx) rs s))) = shift_rows (sub_bytes s)"
proof (induction rs rule: rev_induct)
  case (snoc r rs)
  have l: "length (fold (aes_round ctx) rs s) = 16" by (rule length_aes_rounds [OF snoc.prems])
  have "length (aes_round ctx r (fold (aes_round ctx) rs s)) = 16" using l by (simp add: aes_round_def)
  then have "aes_inv_round ctx r (shift_rows (sub_bytes (aes_round ctx r (fold (aes_round ctx) rs s)))) =
      shift_rows (sub_bytes (fold (aes_round ctx) rs s))"
    using aes_round_inverse [OF l] by (simp add: aes_inv_round_def)
  with snoc.IH [OF snoc.prems] show ?case by simp
qed simp

lemma length_aes_encrypt: "length p = 16 \<Longrightarrow> length (aes_encrypt ctx p) = 16"
  by (simp add: aes_encrypt_def Let_def for_range_def length_aes_rounds)

lemma aes_decrypt_encrypt: "length p = 16 \<Longrightarrow> aes_decrypt ctx (aes_encrypt ctx p) = p"
  by (simp add: aes_encrypt_def aes_decrypt_def Let_def for_range_def add_round_key_twice length_aes_rounds aes_rounds_inverse)

section \<open>The modes\<close>

lemma cbc_blocks_roundtrip:
  "length prev = 16 \<Longrightarrow> length input mod 16 = 0 \<Longrightarrow>
     cbc_decrypt_blocks ctx prev (cbc_encrypt_blocks ctx prev input) = input \<and>
     length (cbc_encrypt_blocks ctx prev input) = length input"
proof (induction ctx prev input rule: cbc_encrypt_blocks.induct)
  case (1 ctx prev input)
  show ?case
  proof (cases "input = []")
    case True
    then show ?thesis by (simp add: cbc_encrypt_blocks.simps cbc_decrypt_blocks.simps)
  next
    case False
    then have n: "16 \<le> length input" using 1(3) by (metis length_0_conv mod_less not_le)
    let ?c = "aes_encrypt ctx (xor_bytes (take 16 input) prev)"
    have c: "length ?c = 16" using n 1(2) by (simp add: length_aes_encrypt)
    have rest: "length (drop 16 input) mod 16 = 0" using 1(3) n by (simp add: mod_eq_0_iff_dvd dvd_minus_self)
    note IH = 1(1) [OF False refl c rest]
    have e: "cbc_encrypt_blocks ctx prev input = ?c @ cbc_encrypt_blocks ctx ?c (drop 16 input)"
      using False by (simp add: cbc_encrypt_blocks.simps [of ctx prev input] Let_def)
    have "aes_decrypt ctx ?c = xor_bytes (take 16 input) prev" using n 1(2) by (simp add: aes_decrypt_encrypt)
    then have "xor_bytes (aes_decrypt ctx ?c) prev = take 16 input" using n 1(2) by (simp add: xor_bytes_cancel)
    then have "cbc_decrypt_blocks ctx prev (?c @ cbc_encrypt_blocks ctx ?c (drop 16 input)) = take 16 input @ drop 16 input"
      using IH c by (subst cbc_decrypt_blocks.simps) auto
    then show ?thesis using IH c n e by simp
  qed
qed

lemma ctr_stream_nth:
  "\<forall>n. length (key n) = 16 \<Longrightarrow> length (ctr_stream key n input) = length input \<and>
     (\<forall>i < length input. ctr_stream key n input ! i = input ! i XOR key (n + of_nat (i div 16)) ! (i mod 16))"
proof (induction key n input rule: ctr_stream.induct)
  case (1 key n input)
  show ?case
  proof (cases "input = []")
    case True
    then show ?thesis by (simp add: ctr_stream.simps)
  next
    case False
    note IH = 1(1) [OF False 1(2)]
    have e: "ctr_stream key n input = xor_bytes (take 16 input) (key n) @ ctr_stream key (n + 1) (drop 16 input)"
      using False by (simp add: ctr_stream.simps [of key n input])
    have l: "length (xor_bytes (take 16 input) (key n)) = min 16 (length input)" using 1(2) by simp
    have "ctr_stream key n input ! i = input ! i XOR key (n + of_nat (i div 16)) ! (i mod 16)" if i: "i < length input" for i
    proof (cases "i < 16")
      case True
      then show ?thesis using i 1(2) l by (simp add: e nth_append xor_bytes_def)
    next
      case f: False
      then obtain j where j: "i = 16 + j" using le_Suc_ex [of 16 i] by auto
      then have "ctr_stream key n input ! i = ctr_stream key (n + 1) (drop 16 input) ! j"
        using i l by (simp add: e nth_append)
      also have "\<dots> = input ! i XOR key (n + of_nat (i div 16)) ! (i mod 16)"
        using IH i j by (simp add: add.assoc div_add_self1)
      finally show ?thesis .
    qed
    then show ?thesis using IH l e by auto
  qed
qed

lemma ctr_stream_twice: "\<forall>n. length (key n) = 16 \<Longrightarrow> ctr_stream key n (ctr_stream key n input) = input"
  by (rule nth_equalityI) (simp_all add: ctr_stream_nth xor.assoc)

section \<open>Properties\<close>

definition aes_key_ex :: bytes where
  "aes_key_ex = map word_of_nat [0..<32]"

text \<open>
  C5: Decryption undoes encryption, for every key schedule and number of rounds, in particular for
  the 14 rounds of every key the initialisation expands; the ciphertext is a block.
\<close>

theorem aes_block_roundtrip:
  assumes "length plain = 16"
  shows "aes_decrypt ctx (aes_encrypt ctx plain) = plain \<and> length (aes_encrypt ctx plain) = 16"
  using assms by (simp add: aes_decrypt_encrypt length_aes_encrypt)

theorem aes_block_roundtrip_witness:
  "aes_decrypt (aes_init aes_key_ex) (aes_encrypt (aes_init aes_key_ex) (replicate 16 7)) = replicate 16 7"
  using aes_block_roundtrip [where plain = "replicate 16 7" and ctx = "aes_init aes_key_ex"] by simp

text \<open>
  C20: CBC mode: a buffer whose length is not a multiple of 16 is refused in both directions, any
  other is encrypted to a buffer of the same length that decrypts to it under the same key and
  initialisation vector.
\<close>

theorem aes_cbc_roundtrip:
  assumes "length iv = 16"
  shows "(case aes_cbc_encrypt ctx iv input of
            None \<Rightarrow> length input mod 16 \<noteq> 0 \<and> aes_cbc_decrypt ctx iv input = None
          | Some c \<Rightarrow> length c = length input \<and> length input mod 16 = 0 \<and> aes_cbc_decrypt ctx iv c = Some input)"
  using cbc_blocks_roundtrip [OF assms, of input ctx] by (simp add: aes_cbc_encrypt_def aes_cbc_decrypt_def)

theorem aes_cbc_roundtrip_witness:
  "\<exists>c. aes_cbc_encrypt (aes_init aes_key_ex) (replicate 16 1) (replicate 48 5) = Some c \<and>
     aes_cbc_decrypt (aes_init aes_key_ex) (replicate 16 1) c = Some (replicate 48 5)"
  using aes_cbc_roundtrip [where iv = "replicate 16 1" and ctx = "aes_init aes_key_ex" and input = "replicate 48 5"]
  by (simp split: option.splits add: aes_cbc_encrypt_def)

text \<open>
  Counter mode: byte \<open>i\<close> of the output is byte \<open>i\<close> of the input XOR byte \<open>i mod 16\<close> of the
  encryption of the nonce with block number \<open>i div 16\<close>, taken modulo \<open>2 ^ 32\<close>; applying the mode
  twice gives the input back.
\<close>

theorem aes_ctr_keystream:
  assumes "length nonce = 12"
  shows "length (aes_ctr_mode ctx nonce input) = length input \<and>
    (\<forall>i < length input. aes_ctr_mode ctx nonce input ! i =
       input ! i XOR aes_encrypt ctx (nonce @ be32 (of_nat (i div 16))) ! (i mod 16)) \<and>
    aes_ctr_mode ctx nonce (aes_ctr_mode ctx nonce input) = input"
proof -
  have "\<forall>n. length (aes_encrypt ctx (ctr_block nonce n)) = 16"
    using assms by (simp add: length_aes_encrypt ctr_block_def be32_def)
  from ctr_stream_nth [OF this, of 0 input] ctr_stream_twice [OF this, of 0 input] show ?thesis
    by (simp add: aes_ctr_mode_def ctr_block_def)
qed

theorem aes_ctr_keystream_witness:
  "aes_ctr_mode (aes_init aes_key_ex) (replicate 12 3) (aes_ctr_mode (aes_init aes_key_ex) (replicate 12 3) [1, 2, 3]) = [1, 2, 3]"
  using aes_ctr_keystream [where nonce = "replicate 12 3" and ctx = "aes_init aes_key_ex" and input = "[1, 2, 3]"] by simp

end
