(* ===== verification/Gcm.thy ===== *)
theory Gcm
  imports Aes
begin

text \<open>
  Galois/counter mode of \<^verbatim>\<open>mini-hardware-security/src/hw_crypto.c\<close>: the byte-wise multiplication in
  the field of \<open>2 ^ 128\<close> elements, GHASH, authenticated encryption and decryption.
\<close>

unbundle bit_operations_syntax

section \<open>Multiplication\<close>

text \<open>\<open>v >>= 1\<close> over the 16 bytes, most significant byte first.\<close>

definition shift_right_block :: "bytes \<Rightarrow> bytes" where
  "shift_right_block v = drop_bit 1 (v ! 0) # map (\<lambda>j. drop_bit 1 (v ! j) OR push_bit 7 (v ! (j - 1))) [1..<16]"

definition gcm_mult_step :: "bytes \<Rightarrow> nat \<Rightarrow> bytes \<times> bytes \<Rightarrow> bytes \<times> bytes" where
  "gcm_mult_step x i = (\<lambda>(z, v).
     let z1 = (if x ! (i div 8) AND push_bit (7 - i mod 8) 1 \<noteq> 0 then xor_bytes z v else z);
         lsb = v ! 15 AND 1;
         v1 = shift_right_block v
     in (z1, if lsb \<noteq> 0 then v1[0 := v1 ! 0 XOR 0xE1] else v1))"

definition gcm_mult :: "bytes \<Rightarrow> bytes \<Rightarrow> bytes" where
  "gcm_mult x y = fst (for_range 0 128 (gcm_mult_step x) (replicate 16 0, y))"

section \<open>GHASH\<close>

definition pad_block :: "bytes \<Rightarrow> bytes" where
  "pad_block b = (if length b < 16 then b @ replicate (16 - length b) 0 else b)"

function ghash_absorb :: "bytes \<Rightarrow> bytes \<Rightarrow> bytes \<Rightarrow> bytes" where
  "ghash_absorb h y input =
     (if input = [] then y
      else ghash_absorb h (gcm_mult (xor_bytes y (pad_block (take 16 input))) h) (drop 16 input))"
  by pat_completeness auto
termination by (relation "measure (\<lambda>(h, y, input). length input)") auto

declare ghash_absorb.simps [simp del]

definition ghash :: "bytes \<Rightarrow> bytes \<Rightarrow> bytes \<Rightarrow> bytes" where
  "ghash h aad cipher =
     (let y = ghash_absorb h (ghash_absorb h (replicate 16 0) aad) cipher;
          len_block = be64 (of_nat (length aad) * 8) @ be64 (of_nat (length cipher) * 8)
      in gcm_mult (xor_bytes y len_block) h)"

section \<open>Authenticated encryption\<close>

definition gcm_inc32 :: "bytes \<Rightarrow> bytes" where
  "gcm_inc32 ctr = take 12 ctr @ be32 (word_be ctr 12 + 1)"

function gcm_stream :: "MiniHwSecAesCtx \<Rightarrow> bytes \<Rightarrow> bytes \<Rightarrow> bytes" where
  "gcm_stream ctx ctr input =
     (if input = [] then []
      else xor_bytes (take 16 input) (aes_encrypt ctx ctr) @ gcm_stream ctx (gcm_inc32 ctr) (drop 16 input))"
  by pat_completeness auto
termination by (relation "measure (\<lambda>(ctx, ctr, input). length input)") auto

declare gcm_stream.simps [simp del]

definition gcm_j0 :: "bytes \<Rightarrow> bytes" where
  "gcm_j0 iv = iv @ [0, 0, 0, 1]"

definition gcm_tag :: "MiniHwSecAesCtx \<Rightarrow> bytes \<Rightarrow> bytes \<Rightarrow> bytes \<Rightarrow> bytes" where
  "gcm_tag ctx iv aad cipher =
     (let hash_subkey = aes_encrypt ctx (replicate 16 0)
      in xor_bytes (ghash hash_subkey aad cipher) (aes_encrypt ctx (gcm_j0 iv)))"

definition aes_gcm_encrypt :: "MiniHwSecAesCtx \<Rightarrow> bytes \<Rightarrow> bytes \<Rightarrow> bytes \<Rightarrow> bytes \<times> bytes" where
  "aes_gcm_encrypt ctx iv plain aad =
     (let cipher = gcm_stream ctx (gcm_inc32 (gcm_j0 iv)) plain
      in (cipher, gcm_tag ctx iv aad cipher))"

definition aes_gcm_decrypt :: "MiniHwSecAesCtx \<Rightarrow> bytes \<Rightarrow> bytes \<Rightarrow> bytes \<Rightarrow> bytes \<Rightarrow> bytes option" where
  "aes_gcm_decrypt ctx iv cipher aad tag =
     (let computed_tag = gcm_tag ctx iv aad cipher
      in if byte_diff computed_tag tag \<noteq> 0 then None
         else Some (gcm_stream ctx (gcm_inc32 (gcm_j0 iv)) cipher))"

section \<open>The multiplication is the one of the standard\<close>

text \<open>NIST SP 800-38D, algorithm 1, on 128-bit blocks.\<close>

definition gf128_r :: "128 word" where
  "gf128_r = push_bit 120 0xE1"

definition gf128_step :: "128 word \<Rightarrow> nat \<Rightarrow> 128 word \<times> 128 word \<Rightarrow> 128 word \<times> 128 word" where
  "gf128_step x i = (\<lambda>(z, v).
     (if bit x (127 - i) then z XOR v else z,
      if bit v 0 then drop_bit 1 v XOR gf128_r else drop_bit 1 v))"

definition gf128_mult :: "128 word \<Rightarrow> 128 word \<Rightarrow> 128 word" where
  "gf128_mult x y = fst (for_range 0 128 (gf128_step x) (0, y))"

definition block_word :: "bytes \<Rightarrow> 128 word" where
  "block_word b = word_rcat b"

lemma bit_block_word:
  "length b = 16 \<Longrightarrow> k < 128 \<Longrightarrow> bit (block_word b) k \<longleftrightarrow> bit (b ! (15 - k div 8)) (k mod 8)"
proof -
  assume "length b = 16" "k < 128"
  moreover from this(2) have "k div 8 < 16" by simp
  ultimately show ?thesis
    using bit_horner_sum_uint_exp_iff [of "rev b" k]
    by (simp add: block_word_def word_rcat_def bit_word_of_int_iff rev_nth)
qed

lemma block_word_eqI:
  assumes "length b = 16" and "\<And>k. k < 128 \<Longrightarrow> bit w k \<longleftrightarrow> bit (b ! (15 - k div 8)) (k mod 8)"
  shows "block_word b = w"
  by (rule bit_word_eqI) (simp add: bit_block_word assms)

lemma block_index: "k < (128 :: nat) \<Longrightarrow> 15 - k div 8 < 16"
  by simp

lemma block_word_xor: "length a = 16 \<Longrightarrow> length b = 16 \<Longrightarrow> block_word (xor_bytes a b) = block_word a XOR block_word b"
  by (rule block_word_eqI) (simp_all add: bit_block_word xor_bytes_def bit_simps)

lemma length_shift_right_block [simp]: "length (shift_right_block v) = 16"
  by (simp add: shift_right_block_def)

lemma shift_right_block_nth: "j < 16 \<Longrightarrow>
  shift_right_block v ! j = (if j = 0 then drop_bit 1 (v ! 0) else drop_bit 1 (v ! j) OR push_bit 7 (v ! (j - 1)))"
  by (cases j) (simp_all add: shift_right_block_def nth_Cons')

lemma byte_shift_bit: "m < 8 \<Longrightarrow> bit (drop_bit (Suc 0) a OR push_bit 7 b) m \<longleftrightarrow> (if m = 7 then bit b 0 else bit a (Suc m))"
  for a b :: u8
  by (auto simp: bit_simps dest: bit_imp_le_length)

lemma block_word_shift: 
  assumes "length v = 16"
  shows "block_word (shift_right_block v) = drop_bit 1 (block_word v)"
proof (rule block_word_eqI)
  fix k :: nat assume k: "k < 128"
  let ?j = "15 - k div 8"
  have j: "?j < 16" by simp
  consider (top) "k = 127" | (edge) "k < 127" "k mod 8 = 7" | (inner) "k mod 8 < 7"
  proof (cases "k mod 8 < 7")
    case False
    then have "k mod 8 = 7" using mod_less_divisor [of 8 k] by linarith
    then show ?thesis using that(1,2) k by linarith
  qed (use that in blast)
  then show "bit (drop_bit 1 (block_word v)) k \<longleftrightarrow> bit (shift_right_block v ! ?j) (k mod 8)"
  proof cases
    case top
    then show ?thesis by (auto simp: shift_right_block_nth bit_drop_bit_eq dest: bit_imp_le_length)
  next
    case edge
    then have "Suc k mod 8 = 0" "Suc k div 8 = Suc (k div 8)" by (simp_all add: mod_Suc div_Suc)
    moreover have "k div 8 < 15" using edge by presburger
    ultimately show ?thesis
      using edge assms by (auto simp: shift_right_block_nth bit_drop_bit_eq bit_block_word byte_shift_bit)
  next
    case inner
    then have "Suc k mod 8 = Suc (k mod 8)" "Suc k div 8 = k div 8" by (simp_all add: mod_Suc div_Suc)
    moreover have "Suc k < 128" using inner k by presburger
    ultimately show ?thesis
      using inner assms by (auto simp: shift_right_block_nth bit_drop_bit_eq bit_block_word byte_shift_bit)
  qed
qed simp
lemma block_word_reduce:
  "length v = 16 \<Longrightarrow> block_word (v[0 := v ! 0 XOR 0xE1]) = block_word v XOR gf128_r"
proof (rule block_word_eqI)
  fix k :: nat assume v: "length v = 16" and k: "k < 128"
  have u: "bit gf128_r k \<longleftrightarrow> 120 \<le> k \<and> bit (0xE1 :: 128 word) (k - 120)"
    unfolding gf128_r_def bit_push_bit_iff using k by auto
  have e: "bit (0xE1 :: 128 word) m \<longleftrightarrow> bit (0xE1 :: u8) m" if "m < 8" for m
    using that by (simp add: bit_numeral_word_iff)
  show "bit (block_word v XOR gf128_r) k \<longleftrightarrow> bit (v[0 := v ! 0 XOR 0xE1] ! (15 - k div 8)) (k mod 8)"
  proof (cases "120 \<le> k")
    case True
    then obtain m where m: "k = 120 + m" "m < 8" using k le_Suc_ex [of 120 k] by auto
    then have "k div 8 = 15" by simp
    moreover have "k mod 8 = m" using m mod_mult_self2 [of m 8 15] by (simp add: add.commute)
    ultimately show ?thesis using m v k u by (simp add: bit_xor_iff bit_block_word e)
  next
    case False
    then have "15 - k div 8 \<noteq> 0" by simp
    then show ?thesis using False v k by (simp add: bit_xor_iff bit_block_word u)
  qed
qed simp

lemma gcm_step_refines:
  assumes "length x = 16" "length z = 16" "length v = 16" "i < 128" and st: "gcm_mult_step x i (z, v) = (z', v')"
  shows "length z' = 16 \<and> length v' = 16 \<and>
    gf128_step (block_word x) i (block_word z, block_word v) = (block_word z', block_word v')"
proof -
  have xb: "bit (block_word x) (127 - i) \<longleftrightarrow> bit (x ! (i div 8)) (7 - i mod 8)"
  proof -
    obtain q r where i: "i = 8 * q + r" "r < 8" by (rule that [of "i div 8" "i mod 8"]) simp_all
    then have "127 - i = (7 - r) + 8 * (15 - q)" "q \<le> 15" using assms(4) by simp_all
    then have "(127 - i) div 8 = 15 - q" "(127 - i) mod 8 = 7 - r"
      by (simp_all only: div_mult_self2 mod_mult_self2) simp_all
    then have "15 - (127 - i) div 8 = i div 8" "(127 - i) mod 8 = 7 - i mod 8" using i \<open>q \<le> 15\<close> by simp_all
    then show ?thesis using assms(1) by (simp add: bit_block_word)
  qed
  have vb: "v ! 15 AND 1 \<noteq> 0 \<longleftrightarrow> bit (block_word v) 0"
    using assms(3) and_pow2_eq_0 [of "v ! 15" 0] by (simp add: bit_block_word)
  have p: "w AND 2 ^ n = 0 \<longleftrightarrow> \<not> bit w n" for w :: u8 and n using and_pow2_eq_0 [of w n] by simp
  show ?thesis
    using st assms(2,3) block_word_reduce [of "shift_right_block v"]
    by (auto simp: gcm_mult_step_def gf128_step_def Let_def p xb vb block_word_xor block_word_shift split: if_splits)
qed

lemma gcm_mult_word:
  assumes "length x = 16" "length y = 16"
  shows "length (gcm_mult x y) = 16 \<and> block_word (gcm_mult x y) = gf128_mult (block_word x) (block_word y)"
proof -
  let ?I = "\<lambda>i s. length (fst s) = 16 \<and> length (snd s) = 16 \<and>
    for_range 0 i (gf128_step (block_word x)) (0, block_word y) = (block_word (fst s), block_word (snd s))"
  have "?I 128 (for_range 0 128 (gcm_mult_step x) (replicate 16 0, y))"
  proof (rule for_range_invariant)
    have "block_word (replicate 16 0) = 0" by (rule block_word_eqI) simp_all
    then show "?I 0 (replicate 16 0, y)" using assms by simp
  next
    fix i s assume i: "i < 128" and I: "?I i s"
    obtain z v where s: "s = (z, v)" by (cases s)
    obtain z' v' where e: "gcm_mult_step x i (z, v) = (z', v')" by (cases "gcm_mult_step x i (z, v)")
    from gcm_step_refines [OF assms(1) _ _ i e] I show "?I (Suc i) (gcm_mult_step x i s)"
      by (simp add: s e for_range_Suc)
  qed simp
  then show ?thesis by (simp add: gcm_mult_def gf128_mult_def)
qed
section \<open>Authentication\<close>

lemma length_inc32 [simp]: "length ctr = 16 \<Longrightarrow> length (gcm_inc32 ctr) = 16"
  by (simp add: gcm_inc32_def be32_def)

lemma gcm_stream_twice:
  "length ctr = 16 \<Longrightarrow> gcm_stream ctx ctr (gcm_stream ctx ctr input) = input \<and>
     length (gcm_stream ctx ctr input) = length input"
proof (induction ctx ctr input rule: gcm_stream.induct)
  case (1 ctx ctr input)
  show ?case
  proof (cases "input = []")
    case True
    then show ?thesis by (simp add: gcm_stream.simps)
  next
    case False
    let ?k = "aes_encrypt ctx ctr"
    have k: "length ?k = 16" using 1(2) by (rule length_aes_encrypt)
    note IH = 1(1) [OF False length_inc32 [OF 1(2)]]
    have e: "gcm_stream ctx ctr input = xor_bytes (take 16 input) ?k @ gcm_stream ctx (gcm_inc32 ctr) (drop 16 input)"
      using False by (simp add: gcm_stream.simps [of ctx ctr input])
    let ?c = "gcm_stream ctx ctr input"
    have t: "take 16 ?c = xor_bytes (take 16 input) ?k" "drop 16 ?c = gcm_stream ctx (gcm_inc32 ctr) (drop 16 input)"
      using k IH by (auto simp: e min_def)
    have l: "length ?c = length input" using IH k by (simp add: e)
    then have "?c \<noteq> []" using False by auto
    then have "gcm_stream ctx ctr ?c = xor_bytes (take 16 ?c) ?k @ gcm_stream ctx (gcm_inc32 ctr) (drop 16 ?c)"
      by (subst gcm_stream.simps) simp
    also have "\<dots> = take 16 input @ drop 16 input" using IH k by (simp add: t xor_bytes_cancel)
    finally show ?thesis using l by simp
  qed
qed

lemma length_ghash_absorb: "length h = 16 \<Longrightarrow> length y = 16 \<Longrightarrow> length (ghash_absorb h y input) = 16"
proof (induction h y input rule: ghash_absorb.induct)
  case (1 h y input)
  show ?case
  proof (cases "input = []")
    case False
    have "length (gcm_mult (xor_bytes y (pad_block (take 16 input))) h) = 16"
      using 1(2,3) by (simp add: gcm_mult_word pad_block_def)
    with 1(1) [OF False 1(2) this] False show ?thesis by (simp add: ghash_absorb.simps [of h y input])
  qed (use 1 in \<open>simp add: ghash_absorb.simps\<close>)
qed

lemma length_gcm_tag:
  assumes "length iv = 12"
  shows "length (gcm_tag ctx iv aad cipher) = 16"
proof -
  have h: "length (aes_encrypt ctx (replicate 16 0)) = 16" by (simp add: length_aes_encrypt)
  have "length (ghash_absorb (aes_encrypt ctx (replicate 16 0)) (ghash_absorb (aes_encrypt ctx (replicate 16 0)) (replicate 16 0) aad) cipher) = 16"
    by (intro length_ghash_absorb h) simp
  then show ?thesis using h assms
    by (simp add: gcm_tag_def ghash_def Let_def gcm_mult_word be64_def length_aes_encrypt gcm_j0_def)
qed

lemma gcm_decrypt_iff:
  assumes "length iv = 12" and "length tag = 16"
  shows "aes_gcm_decrypt ctx iv cipher aad tag = Some plain \<longleftrightarrow> aes_gcm_encrypt ctx iv plain aad = (cipher, tag)"
proof -
  let ?s = "gcm_stream ctx (gcm_inc32 (gcm_j0 iv))"
  have tw: "?s (?s x) = x" for x using assms(1) by (simp add: gcm_stream_twice gcm_j0_def)
  have "byte_diff (gcm_tag ctx iv aad cipher) tag = 0 \<longleftrightarrow> gcm_tag ctx iv aad cipher = tag"
    using assms by (simp add: byte_diff_zero length_gcm_tag)
  then show ?thesis
    using tw [of plain] tw [of cipher] by (auto simp: aes_gcm_decrypt_def aes_gcm_encrypt_def Let_def)
qed

section \<open>Properties\<close>

text \<open>
  C3: GCM decryption accepts exactly what encryption under the same key, initialisation vector and
  associated data produces, and returns its plaintext: every ciphertext with another tag is
  refused. So the round trip holds, and no tag but the one of the ciphertext passes.
\<close>

theorem aes_gcm_authentic:
  assumes "length iv = 12" and "length tag = 16"
  shows "aes_gcm_decrypt ctx iv cipher aad tag = Some plain \<longleftrightarrow> aes_gcm_encrypt ctx iv plain aad = (cipher, tag)"
  using assms by (rule gcm_decrypt_iff)

theorem aes_gcm_authentic_witness:
  "let (c, t) = aes_gcm_encrypt (aes_init aes_key_ex) (replicate 12 2) [1, 2, 3] [9] in
     aes_gcm_decrypt (aes_init aes_key_ex) (replicate 12 2) c [9] t = Some [1, 2, 3]"
proof -
  obtain c t where e: "aes_gcm_encrypt (aes_init aes_key_ex) (replicate 12 2) [1, 2, 3] [9] = (c, t)" by fastforce
  then have "length t = 16" by (auto simp: aes_gcm_encrypt_def Let_def length_gcm_tag)
  then show ?thesis
    using aes_gcm_authentic [where iv = "replicate 12 2" and tag = t and cipher = c and ctx = "aes_init aes_key_ex"
        and aad = "[9]" and plain = "[1, 2, 3]"] e by simp
qed

text \<open>
  C14: The byte-wise multiplication, with its carries from byte to byte, is the multiplication of
  algorithm 1 of the standard on 128-bit blocks.
\<close>

theorem gcm_mult_standard:
  assumes "length x = 16" and "length y = 16"
  shows "block_word (gcm_mult x y) = gf128_mult (block_word x) (block_word y)"
  using gcm_mult_word [OF assms] by simp

theorem gcm_mult_standard_witness:
  "block_word (gcm_mult (replicate 16 5) (replicate 16 3)) = gf128_mult (block_word (replicate 16 5)) (block_word (replicate 16 3))"
  by (rule gcm_mult_standard) simp_all

end
