(* ===== verification/Sha256.thy ===== *)
theory Sha256
  imports CryptoBytes
begin

text \<open>
  The hash function of \<^verbatim>\<open>mini-hardware-security/src/hw_crypto.c\<close>: compression, the streaming context with
  its partial block, the final padding, and HMAC and HKDF on top of it.
\<close>

unbundle bit_operations_syntax

section \<open>Compression\<close>

definition sha256_k :: "u32 list" where
  "sha256_k = [
     0x428a2f98, 0x71374491, 0xb5c0fbcf, 0xe9b5dba5, 0x3956c25b, 0x59f111f1, 0x923f82a4, 0xab1c5ed5,
     0xd807aa98, 0x12835b01, 0x243185be, 0x550c7dc3, 0x72be5d74, 0x80deb1fe, 0x9bdc06a7, 0xc19bf174,
     0xe49b69c1, 0xefbe4786, 0x0fc19dc6, 0x240ca1cc, 0x2de92c6f, 0x4a7484aa, 0x5cb0a9dc, 0x76f988da,
     0x983e5152, 0xa831c66d, 0xb00327c8, 0xbf597fc7, 0xc6e00bf3, 0xd5a79147, 0x06ca6351, 0x14292967,
     0x27b70a85, 0x2e1b2138, 0x4d2c6dfc, 0x53380d13, 0x650a7354, 0x766a0abb, 0x81c2c92e, 0x92722c85,
     0xa2bfe8a1, 0xa81a664b, 0xc24b8b70, 0xc76c51a3, 0xd192e819, 0xd6990624, 0xf40e3585, 0x106aa070,
     0x19a4c116, 0x1e376c08, 0x2748774c, 0x34b0bcb5, 0x391c0cb3, 0x4ed8aa4a, 0x5b9cca4f, 0x682e6ff3,
     0x748f82ee, 0x78a5636f, 0x84c87814, 0x8cc70208, 0x90befffa, 0xa4506ceb, 0xbef9a3f7, 0xc67178f2]"

definition ROR32 :: "u32 \<Rightarrow> nat \<Rightarrow> u32" where
  "ROR32 x n = drop_bit n x OR push_bit (32 - n) x"

definition CH :: "u32 \<Rightarrow> u32 \<Rightarrow> u32 \<Rightarrow> u32" where
  "CH x y z = (x AND y) XOR (NOT x AND z)"

definition MAJ :: "u32 \<Rightarrow> u32 \<Rightarrow> u32 \<Rightarrow> u32" where
  "MAJ x y z = (x AND y) XOR (x AND z) XOR (y AND z)"

definition SIG0 :: "u32 \<Rightarrow> u32" where
  "SIG0 x = ROR32 x 2 XOR ROR32 x 13 XOR ROR32 x 22"

definition SIG1 :: "u32 \<Rightarrow> u32" where
  "SIG1 x = ROR32 x 6 XOR ROR32 x 11 XOR ROR32 x 25"

definition SIG2 :: "u32 \<Rightarrow> u32" where
  "SIG2 x = ROR32 x 7 XOR ROR32 x 18 XOR drop_bit 3 x"

definition SIG3 :: "u32 \<Rightarrow> u32" where
  "SIG3 x = ROR32 x 17 XOR ROR32 x 22 XOR drop_bit 10 x"

definition schedule_word :: "nat \<Rightarrow> u32 list \<Rightarrow> u32 list" where
  "schedule_word t w = w @ [SIG3 (w ! (t - 2)) + w ! (t - 7) + SIG2 (w ! (t - 15)) + w ! (t - 16)]"

definition schedule :: "bytes \<Rightarrow> u32 list" where
  "schedule block = for_range 16 64 schedule_word (map (\<lambda>t. word_be block (t * 4)) [0..<16])"

type_synonym sha_vars = "u32 \<times> u32 \<times> u32 \<times> u32 \<times> u32 \<times> u32 \<times> u32 \<times> u32"

definition sha_round :: "u32 list \<Rightarrow> nat \<Rightarrow> sha_vars \<Rightarrow> sha_vars" where
  "sha_round w t = (\<lambda>(a, b, c, d, e, f, g, hi).
     let T1 = hi + SIG1 e + CH e f g + sha256_k ! t + w ! t;
         T2 = SIG0 a + MAJ a b c
     in (T1 + T2, a, b, c, d + T1, e, f, g))"

definition sha256_transform :: "u32 list \<Rightarrow> bytes \<Rightarrow> u32 list" where
  "sha256_transform h block =
     (let w = schedule block in
      case for_range 0 64 (sha_round w) (h ! 0, h ! 1, h ! 2, h ! 3, h ! 4, h ! 5, h ! 6, h ! 7) of
        (a, b, c, d, e, f, g, hi) \<Rightarrow>
          [h ! 0 + a, h ! 1 + b, h ! 2 + c, h ! 3 + d, h ! 4 + e, h ! 5 + f, h ! 6 + g, h ! 7 + hi])"

section \<open>The streaming context\<close>

record MiniHwSecSha256Ctx =
  sha_h :: "u32 list"
  sha_buffer :: "u8 arr"
  total_bytes :: u64
  buffer_len :: nat

text \<open>The buffer of a fresh context is whatever was there.\<close>

definition sha256_init :: "u8 arr \<Rightarrow> MiniHwSecSha256Ctx" where
  "sha256_init garbage = \<lparr>sha_h = [0x6a09e667, 0xbb67ae85, 0x3c6ef372, 0xa54ff53a, 0x510e527f, 0x9b05688c,
       0x1f83d9ab, 0x5be0cd19], sha_buffer = garbage, total_bytes = 0, buffer_len = 0\<rparr>"

text \<open>\<open>memcpy (buf + off, dat, length dat)\<close>\<close>

definition copy_bytes :: "u8 arr \<Rightarrow> nat \<Rightarrow> bytes \<Rightarrow> u8 arr" where
  "copy_bytes buf off dat = (\<lambda>k. if off \<le> k \<and> k < off + length dat then dat ! (k - off) else buf k)"

definition buffer_bytes :: "u8 arr \<Rightarrow> nat \<Rightarrow> bytes" where
  "buffer_bytes buf n = map buf [0..<n]"

text \<open>The \<open>while (len >= 64)\<close> loop: the hash value and the bytes left over.\<close>

function absorb :: "u32 list \<Rightarrow> bytes \<Rightarrow> u32 list \<times> bytes" where
  "absorb h dat =
     (if 64 \<le> length dat then absorb (sha256_transform h (take 64 dat)) (drop 64 dat) else (h, dat))"
  by pat_completeness auto
termination by (relation "measure (\<lambda>(h, dat). length dat)") auto

declare absorb.simps [simp del]

definition absorb_rest :: "MiniHwSecSha256Ctx \<Rightarrow> bytes \<Rightarrow> MiniHwSecSha256Ctx" where
  "absorb_rest ctx dat =
     (case absorb (sha_h ctx) dat of
        (h, rest) \<Rightarrow>
          if 0 < length rest
          then ctx\<lparr>sha_h := h, sha_buffer := copy_bytes (sha_buffer ctx) 0 rest, buffer_len := length rest\<rparr>
          else ctx\<lparr>sha_h := h\<rparr>)"

definition sha256_update :: "MiniHwSecSha256Ctx \<Rightarrow> bytes \<Rightarrow> MiniHwSecSha256Ctx" where
  "sha256_update ctx0 dat =
     (let ctx = ctx0\<lparr>total_bytes := total_bytes ctx0 + of_nat (length dat)\<rparr>
      in if buffer_len ctx > 0 then
           let fill = 64 - buffer_len ctx
           in if length dat < fill
              then ctx\<lparr>sha_buffer := copy_bytes (sha_buffer ctx) (buffer_len ctx) dat,
                       buffer_len := buffer_len ctx + length dat\<rparr>
              else let buf = copy_bytes (sha_buffer ctx) (buffer_len ctx) (take fill dat)
                   in absorb_rest (ctx\<lparr>sha_buffer := buf, sha_h := sha256_transform (sha_h ctx) (buffer_bytes buf 64),
                                       buffer_len := 0\<rparr>) (drop fill dat)
         else absorb_rest ctx dat)"

text \<open>Padding of the last block; the context is dead afterwards.\<close>

definition sha256_final :: "MiniHwSecSha256Ctx \<Rightarrow> bytes" where
  "sha256_final ctx =
     (let total_bits = total_bytes ctx * 8;
          buf1 = (sha_buffer ctx)(buffer_len ctx := 0x80);
          n = buffer_len ctx + 1;
          (h, buf2, n2) =
            (if n > 56
             then let b = copy_bytes buf1 n (replicate (64 - n) 0)
                  in (sha256_transform (sha_h ctx) (buffer_bytes b 64), b, 0)
             else (sha_h ctx, buf1, n));
          buf3 = copy_bytes (copy_bytes buf2 n2 (replicate (56 - n2) 0)) 56 (be64 total_bits)
      in concat (map be32 (sha256_transform h (buffer_bytes buf3 64))))"

definition sha256 :: "u8 arr \<Rightarrow> bytes \<Rightarrow> bytes" where
  "sha256 garbage dat = sha256_final (sha256_update (sha256_init garbage) dat)"

section \<open>The hash of the whole message\<close>

text \<open>The Merkle-Damgard construction with the padding of the standard.\<close>

definition sha_iv :: "u32 list" where
  "sha_iv = [0x6a09e667, 0xbb67ae85, 0x3c6ef372, 0xa54ff53a, 0x510e527f, 0x9b05688c, 0x1f83d9ab, 0x5be0cd19]"

definition sha_padding :: "nat \<Rightarrow> bytes" where
  "sha_padding n = 0x80 # replicate ((119 - n mod 64) mod 64) 0 @ be64 (of_nat n * 8)"

definition sha_blocks :: "u32 list \<Rightarrow> bytes \<Rightarrow> u32 list" where
  "sha_blocks h m = fst (absorb h m)"

definition sha_digest :: "bytes \<Rightarrow> bytes" where
  "sha_digest m = concat (map be32 (sha_blocks sha_iv (m @ sha_padding (length m))))"

lemma absorb_short: "length m < 64 \<Longrightarrow> absorb h m = (h, m)"
  by (simp add: absorb.simps)

lemma absorb_block: "length b = 64 \<Longrightarrow> absorb h (b @ m) = absorb (sha256_transform h b) m"
  by (simp add: absorb.simps [of h "b @ m"])

lemma absorb_rest_length: "length (snd (absorb h m)) = length m mod 64"
proof (induction h m rule: absorb.induct)
  case (1 h m)
  show ?case
  proof (cases "64 \<le> length m")
    case True
    then show ?thesis using 1 by (simp add: absorb.simps [of h m] le_mod_geq)
  qed (simp add: absorb_short)
qed

lemma absorb_append: "absorb h (m @ d) = absorb (fst (absorb h m)) (snd (absorb h m) @ d)"
proof (induction h m rule: absorb.induct)
  case (1 h m)
  show ?case
  proof (cases "64 \<le> length m")
    case True
    have "absorb h (m @ d) = absorb h (take 64 m @ drop 64 m @ d)" by (simp flip: append_assoc)
    also have "\<dots> = absorb (sha256_transform h (take 64 m)) (drop 64 m @ d)"
      using True by (intro absorb_block) simp
    finally show ?thesis using 1 True by (simp add: absorb.simps [of h m])
  qed (simp add: absorb_short)
qed

section \<open>What a context has absorbed\<close>

definition sha_rep :: "MiniHwSecSha256Ctx \<Rightarrow> bytes \<Rightarrow> bool" where
  "sha_rep c m \<longleftrightarrow> absorb sha_iv m = (sha_h c, buffer_bytes (sha_buffer c) (buffer_len c)) \<and>
     buffer_len c < 64 \<and> total_bytes c = of_nat (length m)"

lemma sha_rep_init: "sha_rep (sha256_init g) []"
  by (simp add: sha_rep_def sha256_init_def sha_iv_def absorb_short buffer_bytes_def)

lemma buffer_bytes_copy: "buffer_bytes (copy_bytes buf n dat) (n + length dat) = buffer_bytes buf n @ dat"
  by (rule nth_equalityI) (auto simp: buffer_bytes_def copy_bytes_def nth_append)

lemma length_buffer_bytes [simp]: "length (buffer_bytes buf n) = n"
  by (simp add: buffer_bytes_def)

lemma absorb_rest_rep:
  assumes "absorb sha_iv m = (sha_h c, [])" and "buffer_len c = 0" and "total_bytes c = of_nat (length (m @ d))"
  shows "sha_rep (absorb_rest c d) (m @ d)"
proof -
  obtain h r where hr: "absorb (sha_h c) d = (h, r)" by (cases "absorb (sha_h c) d")
  have a: "absorb sha_iv (m @ d) = (h, r)" using absorb_append [of sha_iv m d] assms(1) hr by simp
  have "length r < 64" using absorb_rest_length [of "sha_h c" d] hr by simp
  moreover have "buffer_bytes (copy_bytes (sha_buffer c) 0 r) (length r) = r"
    using buffer_bytes_copy [of "sha_buffer c" 0 r] by (simp add: buffer_bytes_def)
  ultimately show ?thesis
    using a assms(2,3) by (auto simp: sha_rep_def absorb_rest_def hr buffer_bytes_def)
qed

lemma sha_rep_update:
  assumes "sha_rep c m"
  shows "sha_rep (sha256_update c d) (m @ d)"
proof -
  let ?r = "buffer_bytes (sha_buffer c) (buffer_len c)"
  have a: "absorb sha_iv m = (sha_h c, ?r)" "buffer_len c < 64" "total_bytes c = of_nat (length m)"
    using assms by (simp_all add: sha_rep_def)
  have ad: "absorb sha_iv (m @ d) = absorb (sha_h c) (?r @ d)" using absorb_append [of sha_iv m d] a(1) by simp
  consider (empty) "buffer_len c = 0" | (short) "0 < buffer_len c" "length d < 64 - buffer_len c"
    | (full) "0 < buffer_len c" "64 - buffer_len c \<le> length d" by linarith
  then show ?thesis
  proof cases
    case empty
    then have "absorb sha_iv m = (sha_h c, [])" using a(1) by (simp add: buffer_bytes_def)
    then show ?thesis using empty a(3) by (auto simp: sha256_update_def Let_def intro!: absorb_rest_rep)
  next
    case short
    then have "absorb sha_iv (m @ d) = (sha_h c, ?r @ d)" using ad by (simp add: absorb_short)
    then show ?thesis using short a(3) by (simp add: sha256_update_def Let_def sha_rep_def buffer_bytes_copy)
  next
    case full
    let ?f = "64 - buffer_len c"
    let ?b = "?r @ take ?f d"
    have b: "buffer_bytes (copy_bytes (sha_buffer c) (buffer_len c) (take ?f d)) 64 = ?b"
      using buffer_bytes_copy [of "sha_buffer c" "buffer_len c" "take ?f d"] full(2) a(2) by simp
    have lb: "length ?b = 64" using full(2) a(2) by simp
    have "absorb sha_iv (m @ take ?f d) = absorb (sha_h c) ?b" using absorb_append [of sha_iv m "take ?f d"] a(1) by simp
    also have "\<dots> = (sha256_transform (sha_h c) ?b, [])"
      using absorb_block [OF lb, of "sha_h c" "[]"] by (simp add: absorb_short)
    finally have "absorb sha_iv (m @ take ?f d) = (sha256_transform (sha_h c) ?b, [])" .
    with absorb_rest_rep [of "m @ take ?f d" _ "drop ?f d"] full a(3) show ?thesis
      by (simp add: sha256_update_def Let_def b)
  qed
qed

lemma sha_final_rep:
  assumes "sha_rep c m"
  shows "sha256_final c = sha_digest m"
proof -
  let ?n = "buffer_len c" let ?r = "buffer_bytes (sha_buffer c) ?n" let ?l = "be64 (of_nat (length m) * 8)"
  have a: "absorb sha_iv m = (sha_h c, ?r)" "?n < 64" "total_bytes c = of_nat (length m)"
    using assms by (simp_all add: sha_rep_def)
  have nm: "?n = length m mod 64" using absorb_rest_length [of sha_iv m] a(1) by simp
  have d: "sha_digest m = concat (map be32 (fst (absorb (sha_h c) (?r @ sha_padding (length m)))))"
    using absorb_append [of sha_iv m "sha_padding (length m)"] a(1) by (simp add: sha_digest_def sha_blocks_def)
  have b1: "buffer_bytes ((sha_buffer c)(?n := 0x80)) (?n + 1) = ?r @ [0x80]"
    by (simp add: buffer_bytes_def)
  have one: "fst (absorb h b) = sha256_transform h b" if "length b = 64" for h b
    using absorb_block [OF that, of h "[]"] by (simp add: absorb_short)
  show ?thesis
  proof (cases "?n + 1 > 56")
    case True
    let ?b = "?r @ 0x80 # replicate (63 - ?n) 0"
    let ?c = "replicate 56 0 @ ?l"
    have pad: "?r @ sha_padding (length m) = ?b @ ?c"
    proof -
      have "(119 - ?n) mod 64 = (63 - ?n) + 56" using True a(2) by simp
      then have "replicate ((119 - ?n) mod 64) (0 :: u8) = replicate (63 - ?n) 0 @ replicate 56 0"
        by (simp only: replicate_add)
      then show ?thesis unfolding sha_padding_def nm by simp
    qed
    have "fst (absorb (sha_h c) (?b @ ?c)) = sha256_transform (sha256_transform (sha_h c) ?b) ?c"
      using a(2) by (subst absorb_block) (simp_all add: one)
    moreover have "buffer_bytes (copy_bytes ((sha_buffer c)(?n := 0x80)) (?n + 1) (replicate (64 - (?n + 1)) 0)) 64 = ?b"
      using buffer_bytes_copy [of "(sha_buffer c)(?n := 0x80)" "?n + 1" "replicate (64 - (?n + 1)) 0"] a(2) b1 by simp
    moreover have "buffer_bytes (copy_bytes (copy_bytes buf 0 (replicate 56 0)) 56 ?l) 64 = ?c" for buf
      using buffer_bytes_copy [of "copy_bytes buf 0 (replicate 56 0)" 56 ?l] buffer_bytes_copy [of buf 0 "replicate 56 0"]
      by (simp add: buffer_bytes_def [of buf])
    ultimately show ?thesis using True a(3) by (simp add: d pad sha256_final_def Let_def)
  next
    case False
    let ?b = "?r @ 0x80 # replicate (55 - ?n) 0 @ ?l"
    have pad: "?r @ sha_padding (length m) = ?b"
    proof -
      have "(119 - ?n) mod 64 = 55 - ?n" using False by (simp add: mod_if)
      then show ?thesis by (simp add: sha_padding_def flip: nm)
    qed
    have e: "?n + 1 + length (replicate (56 - (?n + 1)) (0::u8)) = 56" using False by simp
    have "buffer_bytes (copy_bytes (copy_bytes ((sha_buffer c)(?n := 0x80)) (?n + 1) (replicate (56 - (?n + 1)) 0)) 56 ?l) 64 = ?b"
      using buffer_bytes_copy [of "copy_bytes ((sha_buffer c)(?n := 0x80)) (?n + 1) (replicate (56 - (?n + 1)) 0)" 56 ?l]
        buffer_bytes_copy [of "(sha_buffer c)(?n := 0x80)" "?n + 1" "replicate (56 - (?n + 1)) 0", unfolded e] b1 by simp
    then show ?thesis using False a(3) by (simp add: d pad one sha256_final_def Let_def)
  qed
qed

section \<open>HMAC and HKDF\<close>

definition hmac_key_block :: "u8 arr \<Rightarrow> bytes \<Rightarrow> bytes" where
  "hmac_key_block g key =
     (if length key > 64 then sha256_final (sha256_update (sha256_init g) key) @ replicate (64 - 32) 0
      else key @ replicate (64 - length key) 0)"

definition hmac_sha256 :: "u8 arr \<Rightarrow> bytes \<Rightarrow> bytes \<Rightarrow> bytes" where
  "hmac_sha256 g key dat =
     (let key_block = hmac_key_block g key;
          inner_key = map (\<lambda>x. x XOR 0x36) key_block;
          outer_key = map (\<lambda>x. x XOR 0x5C) key_block;
          inner_hash = sha256_final (sha256_update (sha256_update (sha256_init g) inner_key) dat)
      in sha256_final (sha256_update (sha256_update (sha256_init g) outer_key) inner_hash))"

text \<open>
  The loop of the expansion. \<open>None\<close> is a write past the 1024 bytes of \<^verbatim>\<open>concat\<close>. The hash context and
  the first HMAC of the loop body are computed and discarded, and left out.
\<close>

function hkdf_loop :: "u8 arr \<Rightarrow> bytes \<Rightarrow> bytes \<Rightarrow> bytes \<Rightarrow> u8 \<Rightarrow> nat \<Rightarrow> bytes option" where
  "hkdf_loop g prk info t_prev counter remaining =
     (if remaining = 0 then Some []
      else if length t_prev + length info + 1 > 1024 then None
      else let t = hmac_sha256 g prk (t_prev @ info @ [counter]);
               to_copy = min remaining 32
           in map_option (\<lambda>rest. take to_copy t @ rest) (hkdf_loop g prk info t (counter + 1) (remaining - to_copy)))"
  by pat_completeness auto
termination by (relation "measure (\<lambda>(g, prk, info, t_prev, counter, remaining). remaining)") auto

declare hkdf_loop.simps [simp del]

definition hkdf_sha256 :: "u8 arr \<Rightarrow> bytes \<Rightarrow> bytes \<Rightarrow> bytes \<Rightarrow> nat \<Rightarrow> bytes option" where
  "hkdf_sha256 g salt ikm info okm_len =
     (let prk = (if length salt = 0 then hmac_sha256 g (replicate 32 0) ikm else hmac_sha256 g salt ikm)
      in hkdf_loop g prk info [] 1 okm_len)"

lemma sha256_digest: "sha256 g m = sha_digest m"
  using sha_final_rep [OF sha_rep_update [OF sha_rep_init]] by (simp add: sha256_def)

lemma two_updates: "sha256_final (sha256_update (sha256_update (sha256_init g) a) b) = sha_digest (a @ b)"
  using sha_final_rep [OF sha_rep_update [OF sha_rep_update [OF sha_rep_init]]] by simp

lemma length_transform [simp]: "length (sha256_transform h b) = 8"
  by (simp add: sha256_transform_def Let_def split: prod.split)

lemma length_absorb: "length h = 8 \<Longrightarrow> length (fst (absorb h m)) = 8"
proof (induction h m rule: absorb.induct)
  case (1 h m)
  then show ?case by (cases "64 \<le> length m") (simp_all add: absorb.simps [of h m])
qed

lemma length_sha_digest [simp]: "length (sha_digest m) = 32"
proof -
  have "length (sha_blocks sha_iv (m @ sha_padding (length m))) = 8"
    by (simp add: sha_blocks_def length_absorb sha_iv_def)
  then show ?thesis by (simp add: sha_digest_def length_concat comp_def sum_list_triv)
qed

text \<open>RFC 2104 and RFC 5869 over the hash of whole messages.\<close>

definition hmac_spec :: "bytes \<Rightarrow> bytes \<Rightarrow> bytes" where
  "hmac_spec key dat =
     (let k = (if length key > 64 then sha_digest key else key); k64 = k @ replicate (64 - length k) 0
      in sha_digest (map ((XOR) 0x5C) k64 @ sha_digest (map ((XOR) 0x36) k64 @ dat)))"

fun hkdf_t :: "bytes \<Rightarrow> bytes \<Rightarrow> nat \<Rightarrow> bytes" where
  "hkdf_t prk info 0 = []"
| "hkdf_t prk info (Suc i) = hmac_spec prk (hkdf_t prk info i @ info @ [of_nat (Suc i)])"

lemma hmac_sha256_spec: "hmac_sha256 g key dat = hmac_spec key dat"
proof -
  have d: "sha256_final (sha256_update (sha256_init g) key) = sha_digest key"
    using sha256_digest [of g key] by (simp add: sha256_def)
  have x: "map (\<lambda>x. x XOR c) l = map ((XOR) c) l" for c and l :: bytes by (simp add: xor.commute)
  show ?thesis by (simp add: hmac_sha256_def hmac_spec_def hmac_key_block_def Let_def two_updates d x)
qed

lemma length_hmac [simp]: "length (hmac_spec key dat) = 32"
  by (simp add: hmac_spec_def Let_def)

lemma length_hkdf_t [simp]: "length (hkdf_t prk info i) = (if i = 0 then 0 else 32)"
  by (cases i) simp_all

lemma concat_map_upt: "a \<le> b \<Longrightarrow> b \<le> c \<Longrightarrow> concat (map f [a..<c]) = concat (map f [a..<b]) @ concat (map f [b..<c])"
  using upt_add_eq_append [of a b "c - b"] by simp

lemma length_hkdf_blocks: "length (concat (map (hkdf_t prk info) [Suc a..<Suc a + k])) = 32 * k"
  by (induction k) simp_all

definition hkdf_fits :: "bytes \<Rightarrow> nat \<Rightarrow> nat \<Rightarrow> bool" where
  "hkdf_fits info i n \<longleftrightarrow> n = 0 \<or> length info \<le> 991 \<or> i = 0 \<and> length info \<le> 1023 \<and> n \<le> 32"

lemma hkdf_loop_spec:
  "hkdf_loop g prk info (hkdf_t prk info i) (of_nat (Suc i)) n =
     (if hkdf_fits info i n then Some (take n (concat (map (hkdf_t prk info) [Suc i..<Suc i + n]))) else None)"
proof (induction n arbitrary: i rule: less_induct)
  case (less n)
  let ?t = "hkdf_t prk info"
  show ?case
  proof (cases "n = 0 \<or> length (?t i) + length info + 1 > 1024")
    case True
    then show ?thesis by (auto simp: hkdf_loop.simps [of g prk info "?t i"] hkdf_fits_def split: if_splits)
  next
    case False
    let ?m = "min n 32"
    have e: "hkdf_loop g prk info (?t i) (of_nat (Suc i)) n =
        map_option (\<lambda>rest. take ?m (?t (Suc i)) @ rest) (hkdf_loop g prk info (?t (Suc i)) (of_nat (Suc (Suc i))) (n - ?m))"
      using False by (subst hkdf_loop.simps) (simp add: Let_def hmac_sha256_spec add.commute)
    have f: "hkdf_fits info i n = hkdf_fits info (Suc i) (n - ?m)" using False by (auto simp: hkdf_fits_def split: if_splits)
    have s: "[Suc i..<Suc i + n] = Suc i # [Suc (Suc i)..<Suc i + n]" using False by (simp add: upt_rec [of "Suc i"])
    have tk: "take ?m (?t (Suc i)) @ take (n - ?m) (concat (map ?t [Suc (Suc i)..<Suc (Suc i) + (n - ?m)])) =
        take n (concat (map ?t [Suc i..<Suc i + n]))"
    proof -
      have l: "n - ?m \<le> length (concat (map ?t [Suc (Suc i)..<Suc (Suc i) + (n - ?m)]))"
        unfolding length_hkdf_blocks by simp
      have "concat (map ?t [Suc (Suc i)..<Suc i + n]) = concat (map ?t [Suc (Suc i)..<Suc (Suc i) + (n - ?m)]) @
          concat (map ?t [Suc (Suc i) + (n - ?m)..<Suc i + n])"
        using False by (intro concat_map_upt) (auto simp: min_def)
      then have "take (n - ?m) (concat (map ?t [Suc (Suc i)..<Suc i + n])) =
          take (n - ?m) (concat (map ?t [Suc (Suc i)..<Suc (Suc i) + (n - ?m)]))"
        using l by (simp only: take_append diff_is_0_eq' take_0 append_Nil2)
      moreover have "take n (?t (Suc i) @ r) = take ?m (?t (Suc i)) @ take (n - ?m) r" for r
        by (simp add: min_def del: hkdf_t.simps)
      ultimately show ?thesis by (simp only: s list.map concat.simps)
    qed
    have "n - ?m < n" using False by auto
    from less [OF this, of "Suc i"] show ?thesis
      unfolding e f by (cases "hkdf_fits info (Suc i) (n - ?m)") (simp_all only: if_True if_False option.map tk)
  qed
qed
section \<open>Properties\<close>

text \<open>
  C4: Hashing a message in any pieces, of any lengths, gives one digest: that of the compression
  function iterated over the blocks of the whole message with the padding of FIPS 180-4, a one bit,
  zeros and the length in bits as 64 bits, whatever the buffer of the context held before.
\<close>

theorem sha256_streaming:
  "sha256_final (fold (\<lambda>d c. sha256_update c d) pieces (sha256_init garbage)) = sha_digest (concat pieces)"
proof -
  have "sha_rep c m \<Longrightarrow> sha_rep (fold (\<lambda>d c. sha256_update c d) pieces c) (m @ concat pieces)" for c m
  proof (induction pieces arbitrary: c m)
    case (Cons d ds)
    from Cons.IH [OF sha_rep_update [OF Cons.prems]] show ?case by simp
  qed simp
  from sha_final_rep [OF this [OF sha_rep_init]] show ?thesis by simp
qed

text \<open>
  The function is not SHA-256. The second rotation of the schedule function \<^verbatim>\<open>MINI_HWSEC_SIG3\<close> is
  by 22 where the standard has 19, so the digest of the standard's example \<^verbatim>\<open>abc\<close> starts with
  \<^verbatim>\<open>5bed0c7f\<close> and not with \<^verbatim>\<open>ba7816bf\<close>.
\<close>

theorem sha256_abc_not_standard:
  "take 4 (sha256 garbage [0x61, 0x62, 0x63]) = [0x5b, 0xed, 0x0c, 0x7f] \<and>
   take 4 (sha256 garbage [0x61, 0x62, 0x63]) \<noteq> [0xba, 0x78, 0x16, 0xbf]"
proof -
  let ?b = "[0x61, 0x62, 0x63] @ sha_padding 3 :: bytes"
  have l: "length ?b = 64" by (simp add: sha_padding_def)
  have "take 4 (sha_digest [0x61, 0x62, 0x63]) = be32 (sha256_transform sha_iv ?b ! 0)"
  proof -
    have "sha_blocks sha_iv ?b = sha256_transform sha_iv ?b"
      using absorb_block [OF l, of sha_iv "[]"] by (simp add: sha_blocks_def absorb_short)
    moreover have "sha256_transform sha_iv ?b \<noteq> []"
      by (metis length_transform list.size(3) zero_neq_numeral)
    then obtain x xs where "sha256_transform sha_iv ?b = x # xs" by (meson neq_Nil_conv)
    moreover have "length [0x61, 0x62, 0x63 :: u8] = 3" by simp
    ultimately have "sha_digest [0x61, 0x62, 0x63] = concat (map be32 (x # xs))" "sha256_transform sha_iv ?b ! 0 = x"
      by (simp_all only: sha_digest_def nth_Cons_0)
    then show ?thesis by (simp add: be32_def)
  qed
  moreover have "be32 (sha256_transform sha_iv ?b ! 0) = [0x5b, 0xed, 0x0c, 0x7f]"
    by code_simp
  ultimately show ?thesis by (simp add: sha256_digest)
qed

text \<open>
  C19: HMAC is that of RFC 2104 over the hash of whole messages: keys above 64 bytes are hashed, the
  key is padded with zeros to 64 bytes, and the outer hash covers the padded key and the inner hash.
  The comments of the source say otherwise: that every key but one of 64 bytes is hashed, and that
  the key is truncated.
\<close>

theorem hmac_sha256_rfc2104:
  "hmac_sha256 garbage key dat = hmac_spec key dat \<and> length (hmac_sha256 garbage key dat) = 32"
  by (simp add: hmac_sha256_spec)

text \<open>
  C18: HKDF returns the first bytes of the blocks \<open>T(1), T(2), \<dots>\<close> of RFC 5869, the block number
  being taken modulo 256, exactly when the context information fits the 1024-byte local buffer of the
  expansion together with the previous block and the counter. A longer one is not rejected: the
  copy leaves the buffer.
\<close>

theorem hkdf_sha256_rfc5869:
  "hkdf_sha256 garbage salt ikm info n =
     (let prk = hmac_spec (if length salt = 0 then replicate 32 0 else salt) ikm
      in if n = 0 \<or> length info \<le> 991 \<or> length info \<le> 1023 \<and> n \<le> 32
         then Some (take n (concat (map (hkdf_t prk info) [1..<1 + n]))) else None)"
proof -
  have "hkdf_loop garbage prk info [] 1 n =
      (if n = 0 \<or> length info \<le> 991 \<or> length info \<le> 1023 \<and> n \<le> 32
       then Some (take n (concat (map (hkdf_t prk info) [1..<1 + n]))) else None)" for prk
    using hkdf_loop_spec [of garbage prk info 0 n] by (simp add: hkdf_fits_def del: upt_Suc)
  then show ?thesis unfolding hkdf_sha256_def Let_def by (simp add: hmac_sha256_spec del: upt_Suc)
qed

end
