(* ===== verification/Drbg.thy ===== *)
theory Drbg
  imports CryptoBytes
begin

text \<open>
  The random generator of \<^verbatim>\<open>mini-hardware-security/src/hw_crypto.c\<close>: the ChaCha20 block function and the
  generator that hands out its output from a 64-byte buffer. The global variable of the source is an
  explicit state.
\<close>

unbundle bit_operations_syntax

section \<open>ChaCha20\<close>

definition rotl32 :: "u32 \<Rightarrow> nat \<Rightarrow> u32" where
  "rotl32 x n = push_bit n x OR drop_bit (32 - n) x"

text \<open>One step \<open>w[a] += w[b]; w[d] ^= w[a]; w[d] = rotl (w[d], n)\<close>, and the quarter round of four.\<close>

definition chacha_step :: "nat \<Rightarrow> nat \<Rightarrow> nat \<Rightarrow> nat \<Rightarrow> u32 list \<Rightarrow> u32 list" where
  "chacha_step a b d n w =
     (let w1 = w[a := w ! a + w ! b]; w2 = w1[d := w1 ! d XOR w1 ! a] in w2[d := rotl32 (w2 ! d) n])"

definition quarter_round :: "nat \<Rightarrow> nat \<Rightarrow> nat \<Rightarrow> nat \<Rightarrow> u32 list \<Rightarrow> u32 list" where
  "quarter_round a b c d w =
     chacha_step c d b 7 (chacha_step a b d 8 (chacha_step c d b 12 (chacha_step a b d 16 w)))"

definition double_round :: "u32 list \<Rightarrow> u32 list" where
  "double_round w =
     (let w1 = quarter_round 0 4 8 12 w; w2 = quarter_round 1 5 9 13 w1;
          w3 = quarter_round 2 6 10 14 w2; w4 = quarter_round 3 7 11 15 w3;
          w5 = quarter_round 0 5 10 15 w4; w6 = quarter_round 1 6 11 12 w5;
          w7 = quarter_round 2 7 8 13 w6
      in quarter_round 3 4 9 14 w7)"

definition chacha_block :: "u32 list \<Rightarrow> u32 \<Rightarrow> u32 list \<Rightarrow> u32 list" where
  "chacha_block key counter nonce =
     (let state = [0x61707865, 0x3320646e, 0x79622d32, 0x6b206574,
                   key ! 0, key ! 1, key ! 2, key ! 3, key ! 4, key ! 5, key ! 6, key ! 7,
                   counter, nonce ! 0, nonce ! 1, nonce ! 2];
          working = for_range 0 10 (\<lambda>_. double_round) state
      in map2 (+) state working)"

section \<open>The generator\<close>

record MiniHwSecChaChaDRBG =
  dr_key :: "u32 list"
  dr_counter :: u32
  dr_nonce :: "u32 list"
  dr_buffer :: bytes
  dr_buffer_pos :: nat
  dr_seeded :: bool

definition drbg_zero :: MiniHwSecChaChaDRBG where
  "drbg_zero = \<lparr>dr_key = replicate 8 0, dr_counter = 0, dr_nonce = replicate 3 0, dr_buffer = replicate 64 0,
     dr_buffer_pos = 0, dr_seeded = False\<rparr>"

definition drbg_seed :: bytes where
  "drbg_seed = [0xDE, 0xAD, 0xBE, 0xEF, 0xCA, 0xFE, 0xBA, 0xBE] @ replicate 24 0xAB"

definition drbg_init :: "MiniHwSecChaChaDRBG \<Rightarrow> MiniHwSecChaChaDRBG" where
  "drbg_init g =
     (if dr_seeded g then g
      else g\<lparr>dr_seeded := True, dr_key := map (\<lambda>i. word_be drbg_seed (i * 4)) [0..<8], dr_counter := 0,
             dr_nonce := [0x12345678, 0x9ABCDEF0, 0x0FEDCBA9], dr_buffer_pos := 64\<rparr>)"

definition le32 :: "u32 \<Rightarrow> bytes" where
  "le32 w = [ucast w, ucast (drop_bit 8 w), ucast (drop_bit 16 w), ucast (drop_bit 24 w)]"

definition drbg_refill :: "MiniHwSecChaChaDRBG \<Rightarrow> MiniHwSecChaChaDRBG" where
  "drbg_refill g =
     (if dr_buffer_pos g \<ge> 64
      then g\<lparr>dr_buffer := concat (map le32 (chacha_block (dr_key g) (dr_counter g) (dr_nonce g))),
             dr_counter := dr_counter g + 1, dr_buffer_pos := 0\<rparr>
      else g)"

function random_loop :: "MiniHwSecChaChaDRBG \<Rightarrow> nat \<Rightarrow> bytes \<times> MiniHwSecChaChaDRBG" where
  "random_loop g n =
     (if n = 0 then ([], g)
      else let g1 = drbg_refill g;
               chunk = (if n < 64 - dr_buffer_pos g1 then n else 64 - dr_buffer_pos g1);
               (rest, g2) = random_loop (g1\<lparr>dr_buffer_pos := dr_buffer_pos g1 + chunk\<rparr>) (n - chunk)
           in (take chunk (drop (dr_buffer_pos g1) (dr_buffer g1)) @ rest, g2))"
  by pat_completeness auto
termination by (relation "measure snd") (auto simp: drbg_refill_def)

declare random_loop.simps [simp del]

definition hwsec_random :: "MiniHwSecChaChaDRBG \<Rightarrow> nat \<Rightarrow> bytes \<times> MiniHwSecChaChaDRBG" where
  "hwsec_random g len = random_loop (drbg_init g) len"

section \<open>The stream the generator hands out\<close>

definition drbg_key :: "u32 list" where
  "drbg_key = map (\<lambda>i. word_be drbg_seed (i * 4)) [0..<8]"

definition keystream_block :: "nat \<Rightarrow> bytes" where
  "keystream_block k = concat (map le32 (chacha_block drbg_key (of_nat k) [0x12345678, 0x9ABCDEF0, 0x0FEDCBA9]))"

definition keystream :: "nat \<Rightarrow> u8" where
  "keystream i = keystream_block (i div 64) ! (i mod 64)"

text \<open>The generator after \<open>t\<close> bytes.\<close>

definition drbg_at :: "MiniHwSecChaChaDRBG \<Rightarrow> nat \<Rightarrow> bool" where
  "drbg_at g t \<longleftrightarrow> dr_seeded g \<and> dr_key g = drbg_key \<and> dr_nonce g = [0x12345678, 0x9ABCDEF0, 0x0FEDCBA9] \<and>
     (if t mod 64 = 0 then dr_buffer_pos g = 64 \<and> dr_counter g = of_nat (t div 64)
      else dr_buffer_pos g = t mod 64 \<and> dr_counter g = of_nat (t div 64 + 1) \<and> dr_buffer g = keystream_block (t div 64))"

lemma drbg_at_init: "drbg_at (drbg_init drbg_zero) 0"
  by (simp add: drbg_at_def drbg_init_def drbg_zero_def drbg_key_def)

lemma drbg_init_seeded: "drbg_at g t \<Longrightarrow> drbg_init g = g"
  by (simp add: drbg_at_def drbg_init_def)

lemma length_chacha_step [simp]: "length (chacha_step a b d n w) = length w"
  by (simp add: chacha_step_def Let_def)

lemma length_quarter_round [simp]: "length (quarter_round a b c d w) = length w"
  by (simp add: quarter_round_def)

lemma length_double_round [simp]: "length (double_round w) = length w"
  by (simp add: double_round_def)

lemma length_chacha_block [simp]: "length (chacha_block key c nonce) = 16"
proof -
  have "length (for_range 0 10 (\<lambda>_. double_round) w) = length w" for w
    by (rule for_range_preserves) simp_all
  then show ?thesis by (simp add: chacha_block_def Let_def)
qed

lemma length_keystream_block [simp]: "length (keystream_block k) = 64"
  by (simp add: keystream_block_def length_concat comp_def le32_def sum_list_triv)

text \<open>After a refill the buffer holds the current block and the position is inside it.\<close>

lemma drbg_refill_at:
  assumes "drbg_at g t"
  shows "dr_seeded (drbg_refill g) \<and> dr_key (drbg_refill g) = drbg_key \<and>
    dr_nonce (drbg_refill g) = [0x12345678, 0x9ABCDEF0, 0x0FEDCBA9] \<and>
    dr_buffer (drbg_refill g) = keystream_block (t div 64) \<and> dr_buffer_pos (drbg_refill g) = t mod 64 \<and>
    dr_counter (drbg_refill g) = of_nat (t div 64 + 1)"
proof (cases "t mod 64 = 0")
  case True
  then show ?thesis using assms by (simp add: drbg_at_def drbg_refill_def keystream_block_def add.commute)
next
  case False
  then show ?thesis using assms by (simp add: drbg_at_def drbg_refill_def not_le)
qed

lemma keystream_chunk:
  assumes "c \<le> 64 - t mod 64"
  shows "take c (drop (t mod 64) (keystream_block (t div 64))) = map keystream [t..<t + c]"
proof (rule nth_equalityI)
  show "length (take c (drop (t mod 64) (keystream_block (t div 64)))) = length (map keystream [t..<t + c])"
    using assms by simp
  fix i assume "i < length (take c (drop (t mod 64) (keystream_block (t div 64))))"
  then have i: "i < c" "t mod 64 + i < 64" using assms by auto
  have "t + i = (t mod 64 + i) + 64 * (t div 64)" by simp
  then have "(t + i) div 64 = t div 64" "(t + i) mod 64 = t mod 64 + i"
    using i(2) div_mult_self2 [of 64 "t mod 64 + i" "t div 64"] mod_mult_self2 [of "t mod 64 + i" 64 "t div 64"] by simp_all
  then show "take c (drop (t mod 64) (keystream_block (t div 64))) ! i = map keystream [t..<t + c] ! i"
    using i by (simp add: keystream_def)
qed

lemma drbg_at_chunk:
  assumes at: "drbg_at g t" and c: "0 < c" "c \<le> 64 - t mod 64"
  shows "drbg_at ((drbg_refill g)\<lparr>dr_buffer_pos := t mod 64 + c\<rparr>) (t + c)"
proof -
  note r = drbg_refill_at [OF at]
  have e: "t + c = (t mod 64 + c) + 64 * (t div 64)" by simp
  show ?thesis
  proof (cases "t mod 64 + c = 64")
    case True
    then have "t + c = 64 * (t div 64 + 1)" using e by simp
    then have "(t + c) mod 64 = 0" "(t + c) div 64 = t div 64 + 1" by (simp_all only: mod_mult_self1_is_0 nonzero_mult_div_cancel_left)
    then show ?thesis using r True by (simp add: drbg_at_def)
  next
    case False
    then have "t mod 64 + c < 64" using c by simp
    then have "(t + c) div 64 = t div 64" "(t + c) mod 64 = t mod 64 + c"
      using e div_mult_self2 [of 64 "t mod 64 + c" "t div 64"] mod_mult_self2 [of "t mod 64 + c" 64 "t div 64"] by simp_all
    then show ?thesis using r c(1) by (simp add: drbg_at_def)
  qed
qed

lemma random_loop_at:
  "drbg_at g t \<Longrightarrow> random_loop g n = (a, g') \<Longrightarrow> a = map keystream [t..<t + n] \<and> drbg_at g' (t + n)"
proof (induction n arbitrary: g t a rule: less_induct)
  case (less n)
  show ?case
  proof (cases "n = 0")
    case True
    then show ?thesis using less.prems by (simp add: random_loop.simps [of g 0])
  next
    case False
    let ?g1 = "drbg_refill g"
    let ?c = "if n < 64 - dr_buffer_pos ?g1 then n else 64 - dr_buffer_pos ?g1"
    let ?g2 = "?g1\<lparr>dr_buffer_pos := dr_buffer_pos ?g1 + ?c\<rparr>"
    note r = drbg_refill_at [OF less.prems(1)]
    have c: "0 < ?c" "?c \<le> 64 - t mod 64" "?c \<le> n" using r False by auto
    obtain b where b: "random_loop ?g2 (n - ?c) = (b, g')" "a = take ?c (drop (dr_buffer_pos ?g1) (dr_buffer ?g1)) @ b"
      using less.prems(2) False by (auto simp: random_loop.simps [of g n] Let_def split: prod.splits)
    have "n - ?c < n" using c(1) False by linarith
    from less.IH [OF this _ b(1), of "t + ?c"] drbg_at_chunk [OF less.prems(1) c(1,2)]
    have IH: "b = map keystream [t + ?c..<t + n] \<and> drbg_at g' (t + n)" using r c(3) by simp
    have "a = map keystream [t..<t + ?c] @ b" using b(2) r keystream_chunk [OF c(2)] by simp
    moreover have "[t..<t + n] = [t..<t + ?c] @ [t + ?c..<t + n]"
      using upt_add_eq_append [of t "t + ?c" "n - ?c"] c(3) by simp
    ultimately show ?thesis using IH by simp
  qed
qed

fun random_requests :: "MiniHwSecChaChaDRBG \<Rightarrow> nat list \<Rightarrow> bytes list" where
  "random_requests g [] = []"
| "random_requests g (n # ns) = (case hwsec_random g n of (a, g') \<Rightarrow> a # random_requests g' ns)"

section \<open>Properties\<close>

text \<open>
  C12: The generator is one fixed ChaCha20 key stream: whatever lengths are requested after start-up,
  the answers put together are the first bytes of the block function applied to the block numbers
  \<open>0, 1, 2, \<dots>\<close> under the constant key and nonce in the source. Every run of the program
  delivers the same bytes, keys included.
\<close>

theorem drbg_is_fixed_keystream:
  "concat (random_requests drbg_zero ns) = map keystream [0..<sum_list ns]"
proof -
  have seeded: "drbg_at g t \<Longrightarrow> concat (random_requests g ns) = map keystream [t..<t + sum_list ns]" for g t
  proof (induction ns arbitrary: g t)
    case (Cons n ns)
    obtain a g' where a: "hwsec_random g n = (a, g')" by fastforce
    then have "a = map keystream [t..<t + n] \<and> drbg_at g' (t + n)"
      using random_loop_at [OF Cons.prems] drbg_init_seeded [OF Cons.prems] by (simp add: hwsec_random_def)
    with Cons.IH [of g' "t + n"] a show ?case
      using upt_add_eq_append [of t "t + n" "sum_list ns"] by (simp add: add.assoc)
  qed simp
  have "random_requests drbg_zero ns = random_requests (drbg_init drbg_zero) ns"
    by (cases ns) (simp_all add: hwsec_random_def drbg_init_seeded [OF drbg_at_init])
  with seeded [OF drbg_at_init] show ?thesis by simp
qed

end
