(* ===== verification/Rsa.thy ===== *)
theory Rsa
  imports Drbg
begin

text \<open>
  RSA of \<^verbatim>\<open>mini-hardware-security/src/hw_crypto.c\<close>: numbers of 256 bytes, least significant first, the
  exponentiation by squaring, key generation, encryption, decryption, signing and verification.
  \<open>None\<close> is an access outside a buffer.
\<close>

unbundle bit_operations_syntax

section \<open>Exponentiation\<close>

definition RSA_KEY_BYTES :: nat where "RSA_KEY_BYTES = 256"

text \<open>One step of the schoolbook product, with the carry to the next byte.\<close>

definition mul_cell :: "u8 \<Rightarrow> bytes \<Rightarrow> nat \<Rightarrow> nat \<Rightarrow> bytes \<times> u16 \<Rightarrow> bytes \<times> u16" where
  "mul_cell a b i j = (\<lambda>(sq, carry).
     let prod = ucast a * ucast (b ! j) + ucast (sq ! (i + j)) + ucast carry :: u32
     in (sq[i + j := ucast (prod AND 0xFF)], ucast (drop_bit 8 prod)))"

definition mul_row :: "nat \<Rightarrow> bytes \<Rightarrow> bytes \<Rightarrow> nat \<Rightarrow> bytes \<Rightarrow> bytes" where
  "mul_row len a b i sq = fst (for_range 0 len (mul_cell (a ! i) b i) (sq, 0))"

definition mul_low :: "nat \<Rightarrow> bytes \<Rightarrow> bytes \<Rightarrow> bytes" where
  "mul_low len a b = take len (for_range 0 len (mul_row len a b) (replicate (len * 2) 0))"

definition modexp_bit :: "nat \<Rightarrow> bytes \<Rightarrow> u8 \<Rightarrow> nat \<Rightarrow> bytes \<Rightarrow> bytes" where
  "modexp_bit len base e bit_idx result =
     (let r = mul_low len result result
      in if e AND push_bit bit_idx 1 \<noteq> 0 then mul_low len r base else r)"

definition bn_modexp :: "bytes \<Rightarrow> bytes \<Rightarrow> nat \<Rightarrow> bytes \<Rightarrow> nat \<Rightarrow> bytes" where
  "bn_modexp base exp exp_bytes modulus len =
     for_range 0 exp_bytes (\<lambda>byte_idx r. fold (modexp_bit len base (exp ! byte_idx)) (rev [0..<8]) r)
       (take len (1 # replicate 255 0))"

section \<open>Keys and operations\<close>

record MiniHwSecRsaPubKey =
  pub_n :: bytes
  pub_e :: bytes
  pub_n_bits :: int

record MiniHwSecRsaPrivKey =
  priv_n :: bytes
  priv_d :: bytes
  priv_p :: bytes
  priv_q :: bytes
  priv_n_bits :: int

definition rsa_prime :: "bytes \<Rightarrow> bytes" where
  "rsa_prime r = r[0 := r ! 0 OR 1, 127 := r[0 := r ! 0 OR 1] ! 127 OR 0x80]"

definition rsa_generate :: "MiniHwSecChaChaDRBG \<Rightarrow> MiniHwSecRsaPubKey \<times> MiniHwSecRsaPrivKey \<times> MiniHwSecChaChaDRBG" where
  "rsa_generate g =
     (let (rp, g1) = hwsec_random g 128; (rq, g2) = hwsec_random g1 128;
          p = rsa_prime rp; q = rsa_prime rq
      in (\<lparr>pub_n = p @ replicate 128 0, pub_e = [1, 0, 1] @ replicate 253 0, pub_n_bits = 2048\<rparr>,
          \<lparr>priv_n = p @ replicate 128 0, priv_d = replicate 256 0, priv_p = p, priv_q = q, priv_n_bits = 2048\<rparr>, g2))"

text \<open>The result is the return value with the ciphertext. A short plaintext is read past its end.\<close>

definition rsa_encrypt :: "MiniHwSecRsaPubKey \<Rightarrow> bytes \<Rightarrow> (int \<times> bytes) option" where
  "rsa_encrypt pub plain =
     (if length plain > RSA_KEY_BYTES then Some (-1, [])
      else if length plain < RSA_KEY_BYTES then None
      else Some (0, bn_modexp plain (pub_e pub) 3 (pub_n pub) RSA_KEY_BYTES))"

definition rsa_decrypt :: "MiniHwSecRsaPrivKey \<Rightarrow> bytes \<Rightarrow> bytes" where
  "rsa_decrypt priv cipher = bn_modexp cipher (priv_d priv) RSA_KEY_BYTES (priv_n priv) RSA_KEY_BYTES"

definition rsa_pad :: "bytes \<Rightarrow> bytes" where
  "rsa_pad hash = [0x00, 0x01] @ replicate (RSA_KEY_BYTES - 32 - 1 - 2) 0xFF @ [0x00] @ hash"

definition rsa_sign :: "MiniHwSecRsaPrivKey \<Rightarrow> bytes \<Rightarrow> bytes" where
  "rsa_sign priv hash = rsa_decrypt priv (rsa_pad hash)"

text \<open>\<open>while (pos < 256 && padded[pos] == 0xFF) pos++\<close>\<close>

definition skip_ff :: "bytes \<Rightarrow> nat" where
  "skip_ff padded = (case find_index (\<lambda>k. padded ! k \<noteq> 0xFF) 2 RSA_KEY_BYTES of Some k \<Rightarrow> k | None \<Rightarrow> RSA_KEY_BYTES)"

definition rsa_verify :: "MiniHwSecRsaPubKey \<Rightarrow> bytes \<Rightarrow> bytes \<Rightarrow> bool option" where
  "rsa_verify pub hash sig =
     (let padded = bn_modexp sig (pub_e pub) 3 (pub_n pub) RSA_KEY_BYTES
      in if padded ! 0 \<noteq> 0x00 \<or> padded ! 1 \<noteq> 0x01 then Some False
         else let pos = skip_ff padded
              in if pos \<ge> RSA_KEY_BYTES then None
                 else if padded ! pos \<noteq> 0x00 then Some False
                 else if pos + 1 + 32 > RSA_KEY_BYTES then None
                 else Some (constant_time_eq (take 32 (drop (pos + 1) padded)) hash))"

section \<open>The product\<close>

definition bn_val :: "bytes \<Rightarrow> nat" where
  "bn_val b = (\<Sum>k < length b. unat (b ! k) * 256 ^ k)"

lemma bn_val_update:
  assumes "k < length b"
  shows "bn_val (b[k := x]) + unat (b ! k) * 256 ^ k = bn_val b + unat x * 256 ^ k"
proof -
  have "bn_val c = unat (c ! k) * 256 ^ k + (\<Sum>j \<in> {..<length c} - {k}. unat (c ! j) * 256 ^ j)" if "k < length c" for c
    unfolding bn_val_def by (rule sum.remove) (use that in auto)
  from this [of b] this [of "b[k := x]"] assms show ?thesis by simp
qed

lemma mul_cell_bytes:
  fixes a c s :: u8 and carry :: u16
  defines "p \<equiv> ucast a * ucast c + ucast s + ucast carry :: u32"
  assumes "unat carry \<le> 255"
  shows "unat (ucast (p AND 0xFF) :: u8) + 256 * unat (ucast (drop_bit 8 p) :: u16) = unat a * unat c + unat s + unat carry"
    and "unat (ucast (drop_bit 8 p) :: u16) \<le> 255"
proof -
  let ?n = "unat a * unat c + unat s + unat carry"
  have ac: "unat a * unat c \<le> 255 * 255" using unat_less_u8 [of a] unat_less_u8 [of c] by (intro mult_le_mono) auto
  then have n: "?n \<le> 65535" using unat_less_u8 [of s] assms(2) by linarith
  have p: "p = word_of_nat ?n" by (simp add: p_def)
  have "unat (word_of_nat ?n :: u32) = ?n" using n by (simp only: unat_of_nat) simp
  with p have up: "unat p = ?n" by (simp only:)
  have hi: "unat (ucast (drop_bit 8 p) :: u16) = ?n div 256"
  proof -
    have "unat (drop_bit 8 p) = ?n div 256" by (simp add: drop_bit_eq_div unat_div up)
    then show ?thesis using n by (simp only: unsigned_ucast_eq take_bit_eq_mod) simp
  qed
  have lo: "unat (ucast (p AND 0xFF) :: u8) = ?n mod 256"
  proof -
    have "p AND 0xFF = take_bit 8 p" by (simp add: take_bit_eq_mask mask_eq_exp_minus_1)
    then have "unat (p AND 0xFF) = ?n mod 256" by (simp add: take_bit_eq_mod unat_mod up)
    then show ?thesis by (simp only: unsigned_ucast_eq take_bit_eq_mod) simp
  qed
  show "unat (ucast (p AND 0xFF) :: u8) + 256 * unat (ucast (drop_bit 8 p) :: u16) = ?n" by (simp add: hi lo)
  show "unat (ucast (drop_bit 8 p) :: u16) \<le> 255" using n by (simp add: hi)
qed

lemma mul_row_val:
  assumes "length sq = 2 * len" and "i < len" and "len \<le> length b"
  shows "\<exists>c. length (mul_row len a b i sq) = 2 * len \<and>
    bn_val (mul_row len a b i sq) + c * 256 ^ (i + len) = bn_val sq + unat (a ! i) * (\<Sum>j < len. unat (b ! j) * 256 ^ j) * 256 ^ i"
proof -
  let ?I = "\<lambda>j (s, carry). length s = 2 * len \<and> unat carry \<le> 255 \<and>
    bn_val s + unat (carry :: u16) * 256 ^ (i + j) = bn_val sq + unat (a ! i) * (\<Sum>m < j. unat (b ! m) * 256 ^ m) * 256 ^ i"
  have "?I len (for_range 0 len (mul_cell (a ! i) b i) (sq, 0))"
  proof (rule for_range_invariant [where I = ?I])
    fix j s assume j: "j < len" and I: "?I j s"
    obtain q carry where s: "s = (q, carry)" by (cases s)
    have I': "length q = 2 * len" "unat carry \<le> 255"
      "bn_val q + unat carry * 256 ^ (i + j) = bn_val sq + unat (a ! i) * (\<Sum>m < j. unat (b ! m) * 256 ^ m) * 256 ^ i"
      using I s by simp_all
    let ?p = "ucast (a ! i) * ucast (b ! j) + ucast (q ! (i + j)) + ucast carry :: u32"
    let ?x = "ucast (?p AND 0xFF) :: u8" and ?c = "ucast (drop_bit 8 ?p) :: u16"
    note m = mul_cell_bytes [OF I'(2), of "a ! i" "b ! j" "q ! (i + j)"]
    have u: "bn_val (q[i + j := ?x]) + unat (q ! (i + j)) * 256 ^ (i + j) = bn_val q + unat ?x * 256 ^ (i + j)"
      using I'(1) assms(2) j by (intro bn_val_update) simp
    have "bn_val (q[i + j := ?x]) + unat ?c * 256 ^ (i + Suc j) + unat (q ! (i + j)) * 256 ^ (i + j) =
        bn_val q + (unat ?x + 256 * unat ?c) * 256 ^ (i + j)"
      using u by (simp add: algebra_simps)
    also have "\<dots> = bn_val q + (unat (a ! i) * unat (b ! j) + unat (q ! (i + j)) + unat carry) * 256 ^ (i + j)"
      using m(1) by simp
    finally have "bn_val (q[i + j := ?x]) + unat ?c * 256 ^ (i + Suc j) =
        bn_val q + unat carry * 256 ^ (i + j) + unat (a ! i) * unat (b ! j) * 256 ^ (i + j)"
      by (simp add: algebra_simps)
    also have "\<dots> = bn_val sq + unat (a ! i) * (\<Sum>m < Suc j. unat (b ! m) * 256 ^ m) * 256 ^ i"
      unfolding I'(3) by (simp add: algebra_simps power_add)
    finally show "?I (Suc j) (mul_cell (a ! i) b i j s)"
      using I'(1) m(2) by (simp add: s mul_cell_def Let_def)
  qed (use assms in simp_all)
  then show ?thesis by (auto simp: mul_row_def split: prod.splits)
qed
lemma bn_val_take:
  assumes "length b = n" and that: "len \<le> n"
  shows "(\<Sum>j < len. unat (b ! j) * 256 ^ j) = bn_val b mod 256 ^ len"
proof -
  have split: "bn_val b = (\<Sum>j < len. unat (b ! j) * 256 ^ j) + (\<Sum>j \<in> {len..<n}. unat (b ! j) * 256 ^ j)"
  proof -
    have "{..<len} \<inter> {len..<n} = {}" by auto
    then show ?thesis using sum.union_disjoint [of "{..<len}" "{len..<n}" "\<lambda>j. unat (b ! j) * 256 ^ j"] that assms
    by (simp add: bn_val_def ivl_disj_un)
  qed
  have "256 ^ len dvd (\<Sum>j \<in> {len..<n}. unat (b ! j) * 256 ^ j)"
    by (rule dvd_sum) (auto simp: le_imp_power_dvd intro: dvd_mult)
  moreover have "(\<Sum>j < len. unat (b ! j) * 256 ^ j) < 256 ^ len" for len
  proof (induction len)
    case (Suc k)
    have "unat (b ! k) * 256 ^ k \<le> 255 * 256 ^ k" using unat_less_u8 [of "b ! k"] by (intro mult_right_mono) auto
    with Suc show ?case unfolding sum.lessThan_Suc power_Suc by linarith
  qed simp
  ultimately show ?thesis unfolding split by (simp add: mod_add_eq dvd_eq_mod_eq_0 flip: mod_add_right_eq)
qed

lemma bn_val_less: "bn_val b < 256 ^ length b"
  using bn_val_take [of b "length b" "length b"] by (simp add: bn_val_def [of b, symmetric]) (metis mod_less_divisor zero_less_numeral zero_less_power)

lemma mul_low_val:
  assumes "len \<le> length a" "len \<le> length b"
  shows "length (mul_low len a b) = len \<and> bn_val (mul_low len a b) = (bn_val a * bn_val b) mod 256 ^ len"
proof -
  let ?A = "\<lambda>i. \<Sum>k < i. unat (a ! k) * 256 ^ k" let ?B = "\<Sum>j < len. unat (b ! j) * 256 ^ j"
  let ?s = "for_range 0 len (mul_row len a b) (replicate (len * 2) 0)"
  let ?I = "\<lambda>i s. length s = 2 * len \<and> bn_val s mod 256 ^ len = (?A i * ?B) mod 256 ^ len"
  have "?I len ?s"
  proof (rule for_range_invariant [where I = ?I])
    fix i s assume i: "i < len" and I: "?I i s"
    obtain c where c: "length (mul_row len a b i s) = 2 * len"
        "bn_val (mul_row len a b i s) + c * 256 ^ (i + len) = bn_val s + unat (a ! i) * ?B * 256 ^ i"
      using mul_row_val [of s len i b a] I i assms(2) by auto
    have "bn_val (mul_row len a b i s) mod 256 ^ len = (bn_val (mul_row len a b i s) + c * 256 ^ (i + len)) mod 256 ^ len"
      using mod_mult_self1 [of "bn_val (mul_row len a b i s)" "c * 256 ^ i" "256 ^ len"] by (simp add: power_add mult.assoc)
    also have "\<dots> = (?A i * ?B + unat (a ! i) * ?B * 256 ^ i) mod 256 ^ len"
      unfolding c(2) using I by (intro mod_add_cong) simp_all
    also have "?A i * ?B + unat (a ! i) * ?B * 256 ^ i = ?A (Suc i) * ?B"
      by (simp only: sum.lessThan_Suc distrib_right mult.assoc mult.commute [of ?B])
    finally show "?I (Suc i) (mul_row len a b i s)" using c(1) by simp
  qed (simp_all add: bn_val_def)
  then have s: "length ?s = 2 * len" "bn_val ?s mod 256 ^ len = (?A len * ?B) mod 256 ^ len" by simp_all
  have "bn_val (mul_low len a b) = (\<Sum>j < len. unat (?s ! j) * 256 ^ j)"
    using s(1) by (simp add: mul_low_def bn_val_def)
  also have "\<dots> = bn_val ?s mod 256 ^ len" using bn_val_take [OF s(1), of len] by simp
  also have "\<dots> = (bn_val a * bn_val b) mod 256 ^ len"
    using bn_val_take [of a "length a" len] bn_val_take [of b "length b" len] assms s(2) by (simp add: mod_mult_eq)
  finally show ?thesis using s(1) by (simp add: mul_low_def)
qed

section \<open>The exponentiation\<close>

text \<open>The exponent is read most significant byte first.\<close>

definition exp_val :: "bytes \<Rightarrow> nat \<Rightarrow> nat" where
  "exp_val e n = foldl (\<lambda>v i. v * 256 + unat (e ! i)) 0 [0..<n]"

lemma modexp_bits:
  assumes "length r = len" "len \<le> length base" "bn_val r = bn_val base ^ x mod 256 ^ len"
  shows "length (fold (modexp_bit len base e) (rev [0..<n]) r) = len \<and>
    bn_val (fold (modexp_bit len base e) (rev [0..<n]) r) = bn_val base ^ (x * 2 ^ n + unat (take_bit n e)) mod 256 ^ len"
  using assms
proof (induction n arbitrary: r x)
  case (Suc n)
  let ?q = "mul_low len r r"
  have q: "length ?q = len" "bn_val ?q = bn_val base ^ (2 * x) mod 256 ^ len"
    using mul_low_val [of len r r] Suc.prems by (simp_all add: mod_mult_eq flip: power_add mult_2)
  let ?r = "modexp_bit len base e n r" and ?x = "2 * x + of_bool (bit e n)"
  have m: "length (mul_low len ?q base) = len" "bn_val (mul_low len ?q base) = bn_val base ^ (2 * x + 1) mod 256 ^ len"
    using mul_low_val [of len ?q base] q Suc.prems(2) by (simp_all add: mod_mult_right_eq mult.commute)
  have r: "length ?r = len" "bn_val ?r = bn_val base ^ ?x mod 256 ^ len"
    using q m and_pow2_eq_0 [of e n] by (simp_all add: modexp_bit_def Let_def)
  have "?x * 2 ^ n + unat (take_bit n e) = x * 2 ^ Suc n + unat (take_bit (Suc n) e)"
    by (simp add: take_bit_Suc_from_most algebra_simps unsigned_take_bit_eq bit_unsigned_iff)
  with Suc.IH [OF r(1) Suc.prems(2) r(2)] show ?case by simp
qed simp

lemma bn_modexp_val:
  assumes "len \<le> 256" "0 < len" "len \<le> length base"
  shows "length (bn_modexp base e n modulus len) = len \<and>
    bn_val (bn_modexp base e n modulus len) = bn_val base ^ exp_val e n mod 256 ^ len"
proof -
  let ?I = "\<lambda>i r. length r = len \<and> bn_val r = bn_val base ^ exp_val e i mod 256 ^ len"
  have "?I n (for_range 0 n (\<lambda>i r. fold (modexp_bit len base (e ! i)) (rev [0..<8]) r) (take len (1 # replicate 255 0)))"
  proof (rule for_range_invariant [where I = ?I])
    obtain l where l: "len = Suc l" using assms(2) by (cases len) auto
    have "bn_val (take len (1 # replicate 255 0)) = 1"
      using assms(1) unfolding l bn_val_def by (simp add: sum.lessThan_Suc_shift min_def del: sum.lessThan_Suc)
    then show "?I 0 (take len (1 # replicate 255 0))" using assms l by (simp add: exp_val_def)
  next
    fix i r assume I: "?I i r"
    have "take_bit 8 (e ! i) = e ! i" by (simp add: take_bit_word_eq_self)
    then show "?I (Suc i) (fold (modexp_bit len base (e ! i)) (rev [0..<8]) r)"
      using modexp_bits [of r len base "exp_val e i" "e ! i" 8] I assms(3) by (simp add: exp_val_def)
  qed simp
  then show ?thesis by (simp add: bn_modexp_def)
qed

section \<open>Numbers and their bytes\<close>

lemma bn_val_Cons: "bn_val (x # xs) = unat x + 256 * bn_val xs"
  by (simp add: bn_val_def sum.lessThan_Suc_shift sum_distrib_left mult.left_commute del: sum.lessThan_Suc)

lemma digit_eq:
  fixes a b p q :: nat
  assumes "a < 256" and "b < 256" and "a + 256 * p = b + 256 * q"
  shows "a = b \<and> p = q"
proof -
  have "(a + 256 * p) mod 256 = a" "(b + 256 * q) mod 256 = b" using assms(1,2) by simp_all
  then have "a = b" using assms(3) by metis
  then show ?thesis using assms(3) by simp
qed

lemma bn_val_inj: "length a = length b \<Longrightarrow> bn_val a = bn_val b \<Longrightarrow> a = b"
proof (induction a b rule: list_induct2)
  case (Cons x xs y ys)
  have "unat x = unat y \<and> bn_val xs = bn_val ys"
    using digit_eq [OF unat_less_u8 [of x] unat_less_u8 [of y]] Cons.prems unfolding bn_val_Cons by blast
  then show ?case using Cons.IH by (simp add: word_unat_eq_iff)
qed simp

lemma bn_val_zeros: "bn_val (replicate n 0) = 0"
  by (simp add: bn_val_def)

lemma exp_65537: "take 3 e = [1, 0, 1] \<Longrightarrow> exp_val e 3 = 65537"
proof -
  assume t: "take 3 e = [1, 0, 1]"
  then have "e ! 0 = 1" "e ! 1 = 0" "e ! 2 = 1"
    using nth_take [of 0 3 e] nth_take [of 1 3 e] nth_take [of 2 3 e] by simp_all
  then show ?thesis by (simp add: exp_val_def upt_rec numeral_3_eq_3 numeral_2_eq_2)
qed

text \<open>Modulo \<open>2 ^ 2048\<close> the public power of an even number is zero and that of an odd number is odd.\<close>

lemma public_power:
  assumes "take 3 e = [1, 0, 1]" and "length base = 256"
  shows "if even (bn_val base) then bn_modexp base e 3 modulus 256 = replicate 256 0
    else odd (bn_val (bn_modexp base e 3 modulus 256))"
proof -
  let ?r = "bn_modexp base e 3 modulus 256"
  have r: "length ?r = 256" "bn_val ?r = bn_val base ^ 65537 mod 256 ^ 256"
  proof -
    have "length ?r = 256 \<and> bn_val ?r = bn_val base ^ exp_val e 3 mod 256 ^ 256"
      by (rule bn_modexp_val) (simp_all only: assms(2))
    then show "length ?r = 256" "bn_val ?r = bn_val base ^ 65537 mod 256 ^ 256"
      unfolding exp_65537 [OF assms(1)] by blast+
  qed
  have p: "(256 :: nat) ^ 256 = 2 ^ 2048"
  proof -
    have "(256 :: nat) ^ 256 = (2 ^ 8) ^ 256" by (rule arg_cong [where f = "\<lambda>x. x ^ 256"]) simp
    also have "\<dots> = 2 ^ (8 * 256)" by (rule power_mult [symmetric])
    also have "8 * 256 = (2048 :: nat)" by simp
    finally show ?thesis .
  qed
  show ?thesis
  proof (cases "even (bn_val base)")
    case True
    then have a: "2 ^ 65537 dvd bn_val base ^ 65537" by (rule dvd_power_same)
    have b: "(2 :: nat) ^ 2048 dvd 2 ^ 65537" by (rule le_imp_power_dvd) (simp only: numeral_le_iff semiring_norm)
    have "bn_val base ^ 65537 mod 256 ^ 256 = 0" unfolding p by (rule dvd_imp_mod_0 [OF dvd_trans [OF b a]])
    then have "?r = replicate 256 0" by (intro bn_val_inj) (simp_all only: r bn_val_zeros length_replicate)
    with True show ?thesis by (simp only: if_True)
  next
    case False
    have "(2 :: nat) dvd 256 ^ 256" unfolding p by (rule dvd_power) simp
    then have "even (bn_val base ^ 65537 mod 256 ^ 256) = even (bn_val base ^ 65537)" by (rule dvd_mod_iff)
    then have "odd (bn_val ?r)" unfolding r(2) using False by (simp only: even_power simp_thms)
    with False show ?thesis by (simp only: if_False simp_thms)
  qed
qed

lemma even_low_byte: "b \<noteq> [] \<Longrightarrow> even (bn_val b) \<longleftrightarrow> even (unat (b ! 0))"
  by (cases b) (simp_all add: bn_val_Cons)
section \<open>Properties\<close>

text \<open>
  C10: The exponentiation computes the power of its base modulo \<open>256 ^ len\<close>, the exponent being the
  given bytes read most significant first: schoolbook product, dropped carries, squaring and
  multiplication are right, but the modulus argument plays no part.
\<close>

theorem bn_modexp_power:
  assumes "0 < len" and "len \<le> 256" and "len \<le> length base"
  shows "length (bn_modexp base e n modulus len) = len \<and>
    bn_val (bn_modexp base e n modulus len) = bn_val base ^ exp_val e n mod 256 ^ len"
  by (rule bn_modexp_val [OF assms(2,1,3)])

theorem bn_modexp_power_witness:
  "bn_val (bn_modexp [3, 0] [5] 1 [7, 0] 2) = 243"
proof -
  have "bn_val (bn_modexp [3, 0] [5] 1 [7, 0] 2) = bn_val [3, 0] ^ exp_val [5] 1 mod 256 ^ 2"
    using bn_modexp_power [where len = 2 and base = "[3, 0]" and e = "[5]" and n = 1 and modulus = "[7, 0]"] by simp
  also have "\<dots> = 243" by (simp add: bn_val_Cons exp_val_def bn_val_def [of "[]"])
  finally show ?thesis .
qed

text \<open>
  C17: Verification refuses every signature under the public exponent 65537 that key generation
  writes, whatever the modulus: the power it compares with the padding is odd, or zero in all 256
  bytes. No signature of any hash is ever valid.
\<close>

theorem rsa_verify_never_accepts:
  assumes "take 3 (pub_e pub) = [1, 0, 1]" and "length sig = 256"
  shows "rsa_verify pub hash sig = Some False"
proof -
  let ?p = "bn_modexp sig (pub_e pub) 3 (pub_n pub) 256"
  note p = public_power [OF assms, of "pub_n pub"]
  have l: "length ?p = 256" using bn_modexp_val [of 256 sig] assms(2) by simp
  have "?p ! 0 \<noteq> 0 \<or> ?p ! 1 \<noteq> 1"
  proof (cases "even (bn_val sig)")
    case True
    then have "?p = replicate 256 0" using p by simp
    then show ?thesis by simp
  next
    case False
    then have "odd (bn_val ?p)" using p by (simp only: if_False simp_thms)
    moreover have "?p \<noteq> []" using l by auto
    ultimately have "odd (unat (?p ! 0))" using even_low_byte by blast
    then have "?p ! 0 \<noteq> 0" by auto
    then show ?thesis ..
  qed
  then show ?thesis by (simp add: rsa_verify_def RSA_KEY_BYTES_def Let_def)
qed

theorem rsa_verify_never_accepts_witness:
  "rsa_verify (fst (rsa_generate drbg_zero)) [] (replicate 256 2) = Some False"
  by (rule rsa_verify_never_accepts) (simp_all add: rsa_generate_def Let_def split: prod.split)

text \<open>
  Generated keys do not decrypt. The private exponent is never set, so decryption under a
  generated key gives the number 1 for every ciphertext, every signature is the same, and
  encryption maps every message whose first byte is even to zero.
\<close>

theorem rsa_generated_keys_useless:
  assumes "rsa_generate g = (pub, priv, g')" and "length m = 256" and "length hash = 32"
  shows "rsa_decrypt priv m = 1 # replicate 255 0 \<and> rsa_sign priv hash = 1 # replicate 255 0 \<and>
    (even (unat (m ! 0)) \<longrightarrow> rsa_encrypt pub m = Some (0, replicate 256 0))"
proof -
  have k: "priv_d priv = replicate 256 0" "take 3 (pub_e pub) = [1, 0, 1]"
    using assms(1) by (auto simp: rsa_generate_def Let_def split: prod.splits)
  have e0: "exp_val (replicate 256 0) 256 = 0"
  proof -
    have "foldl (\<lambda>v i. v * 256 + unat (replicate 256 (0 :: u8) ! i)) 0 xs = 0" if "\<forall>i \<in> set xs. i < 256" for xs
      using that by (induction xs rule: rev_induct) simp_all
    then show ?thesis by (simp add: exp_val_def)
  qed
  have d: "rsa_decrypt priv x = 1 # replicate 255 0" if "length x = 256" for x
  proof (rule bn_val_inj)
    have "length (bn_modexp x (replicate 256 0) 256 (priv_n priv) 256) = 256 \<and>
        bn_val (bn_modexp x (replicate 256 0) 256 (priv_n priv) 256) = bn_val x ^ exp_val (replicate 256 0) 256 mod 256 ^ 256"
      by (rule bn_modexp_val) (simp_all only: that)
    then show "length (rsa_decrypt priv x) = length (1 # replicate 255 0 :: bytes)"
      "bn_val (rsa_decrypt priv x) = bn_val (1 # replicate 255 0)"
      by (simp_all add: rsa_decrypt_def k(1) RSA_KEY_BYTES_def e0 bn_val_Cons bn_val_zeros)
  qed
  have "length (rsa_pad hash) = 256" using assms(3) by (simp add: rsa_pad_def RSA_KEY_BYTES_def)
  moreover have "rsa_encrypt pub m = Some (0, replicate 256 0)" if "even (unat (m ! 0))"
  proof -
    have "m \<noteq> []" using assms(2) by auto
    then have "even (bn_val m)" using that even_low_byte by blast
    then have "bn_modexp m (pub_e pub) 3 (pub_n pub) 256 = replicate 256 0"
      using public_power [OF k(2) assms(2), of "pub_n pub"] by (simp only: if_True)
    then show ?thesis using assms(2) by (simp add: rsa_encrypt_def RSA_KEY_BYTES_def)
  qed
  ultimately show ?thesis using d assms(2) by (simp add: rsa_sign_def)
qed

theorem rsa_generated_keys_useless_witness:
  "rsa_decrypt (fst (snd (rsa_generate drbg_zero))) (replicate 256 9) = 1 # replicate 255 0"
proof -
  obtain pub priv g' where g: "rsa_generate drbg_zero = (pub, priv, g')" by (cases "rsa_generate drbg_zero")
  from rsa_generated_keys_useless [OF g, of "replicate 256 9" "replicate 32 0"] g show ?thesis by simp
qed

end
