(* ===== verification/Tee.thy ===== *)
theory Tee
  imports Gcm Sha256 Drbg Arbitration
begin

text \<open>
  The enclaves of \<^verbatim>\<open>mini-hardware-security/src/tee_enclave.c\<close>: their life cycle, attestation
  reports, sealed data and the scheduler, on top of the hash, the key derivation, the random generator and
  GCM.  An operation that the source ends with \<open>false\<close> returns \<open>None\<close> or the unchanged state; a
  report is hashed as its bytes in memory, with little-endian numbers and no padding, up to the
  code at its end.  The stack and heap of an enclave are cleared and never used, and are left out.
\<close>

section \<open>Data\<close>

definition TEE_MAX_ENCLAVES :: nat where "TEE_MAX_ENCLAVES = 16"
definition TEE_ENCLAVE_SIZE :: nat where "TEE_ENCLAVE_SIZE = 64 * 1024"
definition TEE_STACK_SIZE :: nat where "TEE_STACK_SIZE = 4 * 1024"
definition TEE_HEAP_SIZE :: nat where "TEE_HEAP_SIZE = 8 * 1024"

datatype MiniHwSecTEEState = TEE_UNINITIALIZED | TEE_CREATED | TEE_INITIALIZED | TEE_RUNNING | TEE_STOPPED | TEE_DESTROYED

fun tee_state_code :: "MiniHwSecTEEState \<Rightarrow> nat" where
  "tee_state_code TEE_UNINITIALIZED = 0" | "tee_state_code TEE_CREATED = 1" | "tee_state_code TEE_INITIALIZED = 2"
| "tee_state_code TEE_RUNNING = 3" | "tee_state_code TEE_STOPPED = 4" | "tee_state_code TEE_DESTROYED = 5"

record MiniHwSecTEEIdentity =
  id_mr_enclave :: bytes
  id_mr_signer :: bytes
  id_enclave_id :: u32
  id_product_id :: u16
  id_security_version :: u16
  id_attributes :: u32
  id_base_address :: u64
  id_size :: u64
  id_debug_allowed :: bool

record MiniHwSecTEEMemory =
  me_code :: "u8 arr"
  me_base_addr :: u64
  me_stack_top :: u64
  me_heap_base :: u64
  me_access_controlled :: bool
  me_encrypted :: bool

record MiniHwSecTEEEnclave =
  en_identity :: MiniHwSecTEEIdentity
  en_state :: MiniHwSecTEEState
  en_memory :: MiniHwSecTEEMemory
  en_seal_key :: bytes
  en_tsc_start :: u64
  en_tsc_last_entry :: u64
  en_tsc_last_exit :: u64
  en_thread_id :: u32
  en_is_secure :: bool

record MiniHwSecTEEManager =
  tm_enclaves :: "MiniHwSecTEEEnclave arr"
  tm_enclave_count :: int
  tm_platform_master_key :: bytes
  tm_base_epc :: u64
  tm_epc_size :: u64
  tm_hardware_tee :: bool

datatype MiniHwSecAttestType = ATTEST_LOCAL | ATTEST_REMOTE

record MiniHwSecTEEAttestReport =
  rp_attest_type :: MiniHwSecAttestType
  rp_report_data :: bytes
  rp_mr_enclave :: bytes
  rp_mr_signer :: bytes
  rp_product_id :: u16
  rp_security_version :: u16
  rp_attributes :: u32
  rp_report_mac :: bytes

text \<open>The first \<open>data_size\<close> bytes of the ciphertext and the first 16 of the code are the ones in use.\<close>

record MiniHwSecTEESealedData =
  sd_encrypted_data :: bytes
  sd_mac :: bytes
  sd_key_policy :: bytes
  sd_data_size :: nat
  sd_valid :: bool

record MiniHwSecTEEScheduler =
  sc_current_enclave :: int
  sc_next_enclave :: int
  sc_quantum_cycles :: u64
  sc_total_cycles :: u64

definition zero_identity :: MiniHwSecTEEIdentity where
  "zero_identity = \<lparr>id_mr_enclave = replicate 32 0, id_mr_signer = replicate 32 0, id_enclave_id = 0, id_product_id = 0,
     id_security_version = 0, id_attributes = 0, id_base_address = 0, id_size = 0, id_debug_allowed = False\<rparr>"

definition zero_memory :: MiniHwSecTEEMemory where
  "zero_memory = \<lparr>me_code = (\<lambda>_. 0), me_base_addr = 0, me_stack_top = 0, me_heap_base = 0,
     me_access_controlled = False, me_encrypted = False\<rparr>"

definition zero_enclave :: MiniHwSecTEEEnclave where
  "zero_enclave = \<lparr>en_identity = zero_identity, en_state = TEE_UNINITIALIZED, en_memory = zero_memory, en_seal_key = replicate 32 0,
     en_tsc_start = 0, en_tsc_last_entry = 0, en_tsc_last_exit = 0, en_thread_id = 0, en_is_secure = False\<rparr>"

section \<open>Life cycle\<close>

definition tee_init :: "bytes \<Rightarrow> u64 \<Rightarrow> u64 \<Rightarrow> bool \<Rightarrow> MiniHwSecTEEManager" where
  "tee_init master_key base_epc epc_size has_hw =
     \<lparr>tm_enclaves = (\<lambda>_. zero_enclave), tm_enclave_count = 0, tm_platform_master_key = master_key,
      tm_base_epc = base_epc, tm_epc_size = epc_size, tm_hardware_tee = has_hw\<rparr>"

definition enclave_free :: "MiniHwSecTEEEnclave \<Rightarrow> bool" where
  "enclave_free e \<longleftrightarrow> en_state e = TEE_UNINITIALIZED \<or> en_state e = TEE_DESTROYED"

definition le16 :: "u16 \<Rightarrow> bytes" where "le16 x = [ucast x, ucast (drop_bit 8 x)]"

definition ascii :: "char list \<Rightarrow> bytes" where "ascii s = map (\<lambda>c. of_nat (of_char c)) s"

definition seal_key_of :: "u8 arr \<Rightarrow> bytes \<Rightarrow> bytes \<Rightarrow> bytes \<Rightarrow> u16 \<Rightarrow> u32 \<Rightarrow> bytes option" where
  "seal_key_of g master mr_enclave mr_signer product_id attributes =
     hkdf_sha256 g master (mr_enclave @ mr_signer @ le16 product_id @ le16 (ucast attributes)) (ascii ''SEAL-KEY'') 32"

definition tee_create_enclave ::
    "u8 arr \<Rightarrow> MiniHwSecTEEManager \<Rightarrow> bytes \<Rightarrow> bytes \<Rightarrow> u16 \<Rightarrow> u32 \<Rightarrow> (int \<times> MiniHwSecTEEManager) option" where
  "tee_create_enclave g tee code signer_hash product_id attributes =
     (if length code > TEE_ENCLAVE_SIZE then Some (-1, tee)
      else case find_index (\<lambda>i. enclave_free (tm_enclaves tee i)) 0 TEE_MAX_ENCLAVES of
        None \<Rightarrow> Some (-1, tee)
      | Some slot \<Rightarrow>
          let mr = sha256 g code; base = tm_base_epc tee + of_nat slot * of_nat TEE_ENCLAVE_SIZE
          in map_option (\<lambda>key.
               (int slot, tee\<lparr>tm_enclaves := (tm_enclaves tee)(slot := zero_enclave\<lparr>
                  en_identity := \<lparr>id_mr_enclave = mr, id_mr_signer = signer_hash, id_enclave_id = of_nat slot, id_product_id = product_id,
                    id_security_version = 0, id_attributes = attributes, id_base_address = base, id_size = of_nat TEE_ENCLAVE_SIZE,
                    id_debug_allowed = (attributes AND 1 \<noteq> 0)\<rparr>,
                  en_memory := \<lparr>me_code = (\<lambda>i. if i < length code then code ! i else 0), me_base_addr = base,
                    me_stack_top = of_nat TEE_STACK_SIZE, me_heap_base = of_nat (TEE_STACK_SIZE + TEE_HEAP_SIZE),
                    me_access_controlled = False, me_encrypted = tm_hardware_tee tee\<rparr>,
                  en_seal_key := key, en_state := TEE_CREATED, en_thread_id := of_nat slot\<rparr>),
                 tm_enclave_count := tm_enclave_count tee + 1\<rparr>))
             (seal_key_of g (tm_platform_master_key tee) mr signer_hash product_id attributes))"

definition enclave_index :: "int \<Rightarrow> bool" where
  "enclave_index i \<longleftrightarrow> \<not> (i < 0 \<or> i \<ge> int TEE_MAX_ENCLAVES)"

definition tee_init_enclave :: "MiniHwSecTEEManager \<Rightarrow> int \<Rightarrow> bool \<times> MiniHwSecTEEManager" where
  "tee_init_enclave tee i =
     (if \<not> enclave_index i then (False, tee)
      else let e = tm_enclaves tee (nat i)
           in if en_state e \<noteq> TEE_CREATED then (False, tee)
              else (True, tee\<lparr>tm_enclaves := (tm_enclaves tee)(nat i := e\<lparr>
                     en_memory := (en_memory e)\<lparr>me_access_controlled := True\<rparr>, en_is_secure := True, en_state := TEE_INITIALIZED\<rparr>)\<rparr>))"

text \<open>The data with length 0 stands for no data, the capacity \<open>None\<close> for no output buffer.\<close>

definition tee_enter ::
    "u8 arr \<Rightarrow> MiniHwSecTEEManager \<Rightarrow> int \<Rightarrow> bytes \<Rightarrow> nat option \<Rightarrow> bool \<times> bytes option \<times> MiniHwSecTEEManager" where
  "tee_enter g tee i dat capacity =
     (if \<not> enclave_index i then (False, None, tee)
      else let e = tm_enclaves tee (nat i)
           in if en_state e \<noteq> TEE_INITIALIZED \<and> en_state e \<noteq> TEE_STOPPED then (False, None, tee)
              else let e1 = e\<lparr>en_tsc_last_entry := en_tsc_start e, en_state := TEE_RUNNING\<rparr>;
                       out = (case capacity of Some out_sz \<Rightarrow> if length dat > 0 then Some (take (min out_sz 32) (sha256 g dat)) else None
                              | None \<Rightarrow> None)
                   in (True, out, tee\<lparr>tm_enclaves := (tm_enclaves tee)(nat i := e1\<lparr>en_tsc_last_exit := en_tsc_start e1 + 1000,
                        en_state := TEE_STOPPED\<rparr>)\<rparr>))"

definition tee_destroy :: "MiniHwSecTEEManager \<Rightarrow> int \<Rightarrow> bool \<times> MiniHwSecTEEManager" where
  "tee_destroy tee i =
     (if \<not> enclave_index i then (False, tee)
      else (True, tee\<lparr>tm_enclaves := (tm_enclaves tee)(nat i := (tm_enclaves tee (nat i))\<lparr>
              en_memory := zero_memory, en_identity := zero_identity, en_seal_key := replicate 32 0, en_state := TEE_DESTROYED\<rparr>),
            tm_enclave_count := tm_enclave_count tee - 1\<rparr>))"

section \<open>Attestation\<close>

definition report_bytes :: "MiniHwSecTEEAttestReport \<Rightarrow> bytes" where
  "report_bytes r = le32 (case rp_attest_type r of ATTEST_LOCAL \<Rightarrow> 0 | ATTEST_REMOTE \<Rightarrow> 1) @ rp_report_data r @
     rp_mr_enclave r @ rp_mr_signer r @ le16 (rp_product_id r) @ le16 (rp_security_version r) @ le32 (rp_attributes r)"

definition identity_report :: "MiniHwSecAttestType \<Rightarrow> MiniHwSecTEEIdentity \<Rightarrow> bytes \<Rightarrow> MiniHwSecTEEAttestReport" where
  "identity_report ty d rdata = \<lparr>rp_attest_type = ty, rp_report_data = rdata, rp_mr_enclave = id_mr_enclave d, rp_mr_signer = id_mr_signer d,
     rp_product_id = id_product_id d, rp_security_version = id_security_version d, rp_attributes = id_attributes d, rp_report_mac = replicate 32 0\<rparr>"

definition tee_attest_local ::
    "u8 arr \<Rightarrow> MiniHwSecChaChaDRBG \<Rightarrow> MiniHwSecTEEManager \<Rightarrow> int \<Rightarrow> int \<Rightarrow> MiniHwSecTEEAttestReport option \<times> MiniHwSecChaChaDRBG" where
  "tee_attest_local g rng tee i target =
     (if \<not> enclave_index i \<or> \<not> enclave_index target then (None, rng)
      else let src = tm_enclaves tee (nat i); tgt = tm_enclaves tee (nat target)
           in if tee_state_code (en_state src) < 2 \<or> tee_state_code (en_state tgt) < 2 then (None, rng)
              else case hwsec_random rng 64 of (r, rng') \<Rightarrow>
                let rep = identity_report ATTEST_LOCAL (en_identity src)
                      (take 64 (id_mr_enclave (en_identity src) @ id_mr_enclave (en_identity tgt) @ r))
                in (Some (rep\<lparr>rp_report_mac := hmac_sha256 g (en_seal_key tgt) (report_bytes rep)\<rparr>), rng'))"

definition attest_key :: "u8 arr \<Rightarrow> MiniHwSecTEEManager \<Rightarrow> bytes option" where
  "attest_key g tee = hkdf_sha256 g (tm_platform_master_key tee) (ascii ''ATTEST-KEY'' @ [0]) [] 32"

definition tee_attest_remote ::
    "u8 arr \<Rightarrow> MiniHwSecChaChaDRBG \<Rightarrow> MiniHwSecTEEManager \<Rightarrow> int \<Rightarrow> bytes \<Rightarrow> MiniHwSecTEEAttestReport option \<times> MiniHwSecChaChaDRBG" where
  "tee_attest_remote g rng tee i challenge =
     (if \<not> enclave_index i then (None, rng)
      else let e = tm_enclaves tee (nat i)
           in if tee_state_code (en_state e) < 2 then (None, rng)
              else case hwsec_random rng 32 of (r, rng') \<Rightarrow>
                let rep = identity_report ATTEST_REMOTE (en_identity e) (challenge @ r)
                in (map_option (\<lambda>key. rep\<lparr>rp_report_mac := hmac_sha256 g key (report_bytes rep)\<rparr>) (attest_key g tee), rng'))"

definition tee_verify_report :: "u8 arr \<Rightarrow> MiniHwSecTEEManager \<Rightarrow> MiniHwSecTEEAttestReport \<Rightarrow> bool" where
  "tee_verify_report g tee rep =
     (case attest_key g tee of
        None \<Rightarrow> False
      | Some key \<Rightarrow> constant_time_eq (hmac_sha256 g key (report_bytes rep)) (rp_report_mac rep))"

section \<open>Sealing\<close>

definition sealing_aes :: "u8 arr \<Rightarrow> bytes \<Rightarrow> MiniHwSecAesCtx option" where
  "sealing_aes g seal_key = map_option aes_init (hkdf_sha256 g seal_key (ascii ''ENC'') [] 32)"

definition policy_name :: "bool \<Rightarrow> bytes" where
  "policy_name mrsigner = ascii (if mrsigner then ''MRSIGNER'' else ''MRENCLAVE'')"

text \<open>
  The policy is a string in a field of 16 bytes; its first 8 bytes are the start of the initialisation vector.  A
  sealed record whose field has no zero byte, for which \<open>strlen\<close> runs on past the field, is outside the model: sealing
  never makes one.
\<close>

definition policy_string :: "bytes \<Rightarrow> bytes" where "policy_string p = takeWhile (\<lambda>b. b \<noteq> 0) p"
definition policy_iv :: "bytes \<Rightarrow> bytes" where "policy_iv p = take 8 p @ replicate 4 0"

definition tee_seal :: "u8 arr \<Rightarrow> MiniHwSecTEEManager \<Rightarrow> int \<Rightarrow> bytes \<Rightarrow> bool \<Rightarrow> MiniHwSecTEESealedData option" where
  "tee_seal g tee i dat mrsigner =
     (if length dat > 1024 \<or> \<not> enclave_index i then None
      else let policy = policy_name mrsigner @ replicate (16 - length (policy_name mrsigner)) 0
           in map_option (\<lambda>ctx. case aes_gcm_encrypt ctx (policy_iv policy) dat (policy_string policy) of
                (cipher, tag) \<Rightarrow> \<lparr>sd_encrypted_data = cipher @ replicate (1024 - length cipher) 0, sd_mac = tag @ replicate 16 0, sd_key_policy = policy,
                    sd_data_size = length dat, sd_valid = True\<rparr>)
              (sealing_aes g (en_seal_key (tm_enclaves tee (nat i)))))"

definition tee_unseal :: "u8 arr \<Rightarrow> MiniHwSecTEEManager \<Rightarrow> int \<Rightarrow> MiniHwSecTEESealedData \<Rightarrow> bytes option" where
  "tee_unseal g tee i sealed =
     (if \<not> sd_valid sealed \<or> \<not> enclave_index i \<or> sd_data_size sealed > 1024 then None
      else Option.bind (sealing_aes g (en_seal_key (tm_enclaves tee (nat i))))
        (\<lambda>ctx. aes_gcm_decrypt ctx (policy_iv (sd_key_policy sealed)) (take (sd_data_size sealed) (sd_encrypted_data sealed))
           (policy_string (sd_key_policy sealed)) (take 16 (sd_mac sealed))))"

section \<open>Scheduler and queries\<close>

definition tee_scheduler_init :: MiniHwSecTEEScheduler where
  "tee_scheduler_init = \<lparr>sc_current_enclave = -1, sc_next_enclave = -1, sc_quantum_cycles = 1000000, sc_total_cycles = 0\<rparr>"

definition enclave_ready :: "MiniHwSecTEEEnclave \<Rightarrow> bool" where
  "enclave_ready e \<longleftrightarrow> en_state e = TEE_INITIALIZED \<or> en_state e = TEE_STOPPED"

definition sched_start :: "MiniHwSecTEEScheduler \<Rightarrow> nat" where
  "sched_start sched = nat ((sc_current_enclave sched + 1) smod int TEE_MAX_ENCLAVES)"

definition tee_scheduler_schedule :: "MiniHwSecTEEScheduler \<Rightarrow> MiniHwSecTEEManager \<Rightarrow> int \<times> MiniHwSecTEEScheduler" where
  "tee_scheduler_schedule sched tee =
     (case find_index (\<lambda>i. enclave_ready (tm_enclaves tee ((sched_start sched + i) mod TEE_MAX_ENCLAVES))) 0 TEE_MAX_ENCLAVES of
        Some i \<Rightarrow> let idx = int ((sched_start sched + i) mod TEE_MAX_ENCLAVES) in (idx, sched\<lparr>sc_current_enclave := idx\<rparr>)
      | None \<Rightarrow> (-1, sched\<lparr>sc_current_enclave := -1\<rparr>))"

definition tee_scheduler_yield :: "MiniHwSecTEEScheduler \<Rightarrow> MiniHwSecTEEScheduler" where
  "tee_scheduler_yield sched = sched\<lparr>sc_next_enclave := -1\<rparr>"

definition tee_is_valid_enclave :: "MiniHwSecTEEManager \<Rightarrow> int \<Rightarrow> bool" where
  "tee_is_valid_enclave tee i \<longleftrightarrow> enclave_index i \<and>
     1 \<le> tee_state_code (en_state (tm_enclaves tee (nat i))) \<and> tee_state_code (en_state (tm_enclaves tee (nat i))) < 5"

definition tee_get_running_enclave :: "MiniHwSecTEEManager \<Rightarrow> int" where
  "tee_get_running_enclave tee =
     (case find_index (\<lambda>i. en_state (tm_enclaves tee i) = TEE_RUNNING) 0 TEE_MAX_ENCLAVES of Some i \<Rightarrow> int i | None \<Rightarrow> -1)"

definition tee_get_free_enclaves :: "MiniHwSecTEEManager \<Rightarrow> nat" where
  "tee_get_free_enclaves tee = for_range 0 TEE_MAX_ENCLAVES (\<lambda>i n. if enclave_free (tm_enclaves tee i) then n + 1 else n) 0"

section \<open>Derived keys\<close>

definition hkdf_key :: "bytes \<Rightarrow> bytes \<Rightarrow> bytes \<Rightarrow> bytes" where
  "hkdf_key salt ikm info = hmac_spec (hmac_spec (if length salt = 0 then replicate 32 0 else salt) ikm) (info @ [1])"

lemma hkdf_32: "length info \<le> 1023 \<Longrightarrow> hkdf_sha256 g salt ikm info 32 = Some (hkdf_key salt ikm info)"
  by (simp add: hkdf_sha256_def hkdf_key_def hmac_sha256_spec Let_def hkdf_loop.simps [of g _ info "[]" 1 32] hkdf_loop.simps [of g _ info _ _ 0])

lemma length_hkdf_key [simp]: "length (hkdf_key salt ikm info) = 32"
  by (simp add: hkdf_key_def)

lemma seal_key_of_val: "seal_key_of g master mr signer pid attr =
    Some (hkdf_key master (mr @ signer @ le16 pid @ le16 (ucast attr)) (ascii ''SEAL-KEY''))"
  by (simp add: seal_key_of_def hkdf_32 ascii_def)

lemma attest_key_val: "attest_key g tee = Some (hkdf_key (tm_platform_master_key tee) (ascii ''ATTEST-KEY'' @ [0]) [])"
  by (simp add: attest_key_def hkdf_32)

lemma sealing_aes_val: "sealing_aes g key = Some (aes_init (hkdf_key key (ascii ''ENC'') []))"
  by (simp add: sealing_aes_def hkdf_32)

section \<open>Reachable states\<close>

inductive tee_reachable :: "MiniHwSecTEEManager \<Rightarrow> bool" where
  init: "length master = 32 \<Longrightarrow> tee_reachable (tee_init master base sz hw)"
| create: "tee_reachable tee \<Longrightarrow> length signer = 32 \<Longrightarrow> tee_create_enclave g tee code signer pid attr = Some (r, tee') \<Longrightarrow> tee_reachable tee'"
| init_enclave: "tee_reachable tee \<Longrightarrow> tee_init_enclave tee i = (r, tee') \<Longrightarrow> tee_reachable tee'"
| enter: "tee_reachable tee \<Longrightarrow> tee_enter g tee i dat cap = (r, out, tee') \<Longrightarrow> tee_reachable tee'"
| destroy: "tee_reachable tee \<Longrightarrow> tee_destroy tee i = (r, tee') \<Longrightarrow> tee_reachable tee'"

definition enclave_wf :: "MiniHwSecTEEManager \<Rightarrow> nat \<Rightarrow> MiniHwSecTEEEnclave \<Rightarrow> bool" where
  "enclave_wf tee i e \<longleftrightarrow>
     length (id_mr_enclave (en_identity e)) = 32 \<and> length (id_mr_signer (en_identity e)) = 32 \<and> length (en_seal_key e) = 32 \<and>
     en_state e \<noteq> TEE_RUNNING \<and>
     (if enclave_free e then en_memory e = zero_memory \<and> en_identity e = zero_identity \<and> en_seal_key e = replicate 32 0
      else id_base_address (en_identity e) = tm_base_epc tee + of_nat i * of_nat TEE_ENCLAVE_SIZE \<and>
        en_seal_key e = hkdf_key (tm_platform_master_key tee) (id_mr_enclave (en_identity e) @ id_mr_signer (en_identity e) @
          le16 (id_product_id (en_identity e)) @ le16 (ucast (id_attributes (en_identity e)))) (ascii ''SEAL-KEY'')) \<and>
     (enclave_ready e \<longrightarrow> me_access_controlled (en_memory e) \<and> en_is_secure e)"

definition tee_wf :: "MiniHwSecTEEManager \<Rightarrow> bool" where
  "tee_wf tee \<longleftrightarrow> length (tm_platform_master_key tee) = 32 \<and> (\<forall>i. enclave_wf tee i (tm_enclaves tee i))"

lemma wf_zero: "enclave_wf tee i zero_enclave"
  by (simp add: enclave_wf_def zero_enclave_def zero_identity_def enclave_free_def enclave_ready_def)

lemma enclave_wf_frame: "tm_base_epc t = tm_base_epc tee \<Longrightarrow> tm_platform_master_key t = tm_platform_master_key tee \<Longrightarrow>
    enclave_wf t i e = enclave_wf tee i e"
  by (simp add: enclave_wf_def)

lemma tee_wf_update:
  assumes "tee_wf tee" and "enclave_wf tee i e"
  shows "tee_wf (tee\<lparr>tm_enclaves := (tm_enclaves tee)(i := e)\<rparr>)" and "tee_wf (tee\<lparr>tm_enclaves := (tm_enclaves tee)(i := e), tm_enclave_count := c\<rparr>)"
proof -
  have "enclave_wf (tee\<lparr>tm_enclaves := f\<rparr>) k x = enclave_wf tee k x"
    "enclave_wf (tee\<lparr>tm_enclaves := f, tm_enclave_count := c\<rparr>) k x = enclave_wf tee k x" for f k x
    by (rule enclave_wf_frame; simp)+
  then show "tee_wf (tee\<lparr>tm_enclaves := (tm_enclaves tee)(i := e)\<rparr>)" "tee_wf (tee\<lparr>tm_enclaves := (tm_enclaves tee)(i := e), tm_enclave_count := c\<rparr>)"
    using assms by (simp_all add: tee_wf_def)
qed

lemma tee_create_cases:
  assumes "tee_create_enclave g tee code signer pid attr = Some (r, tee')"
  obtains (rejected) "r = -1" "tee' = tee"
  | (created) slot e where "length code \<le> TEE_ENCLAVE_SIZE" "slot < TEE_MAX_ENCLAVES" "enclave_free (tm_enclaves tee slot)" "r = int slot"
      "tee' = tee\<lparr>tm_enclaves := (tm_enclaves tee)(slot := e), tm_enclave_count := tm_enclave_count tee + 1\<rparr>"
      "en_state e = TEE_CREATED" "id_mr_enclave (en_identity e) = sha_digest code" "id_mr_signer (en_identity e) = signer"
      "id_product_id (en_identity e) = pid" "id_attributes (en_identity e) = attr" "\<not> en_is_secure e"
      "id_base_address (en_identity e) = tm_base_epc tee + of_nat slot * of_nat TEE_ENCLAVE_SIZE"
      "me_code (en_memory e) = (\<lambda>i. if i < length code then code ! i else 0)"
      "en_seal_key e = hkdf_key (tm_platform_master_key tee) (sha_digest code @ signer @ le16 pid @ le16 (ucast attr)) (ascii ''SEAL-KEY'')"
  using assms unfolding tee_create_enclave_def
  by (fastforce simp: seal_key_of_val Let_def sha256_digest find_index_Some zero_enclave_def split: option.splits if_splits)

lemma tee_create_wf:
  assumes "tee_wf tee" and "length signer = 32" and "tee_create_enclave g tee code signer pid attr = Some (r, tee')"
  shows "tee_wf tee'"
  using assms(3)
proof (cases rule: tee_create_cases)
  case (created slot e)
  have "enclave_wf tee slot e" using created assms(2) by (simp add: enclave_wf_def enclave_free_def enclave_ready_def)
  then show ?thesis unfolding created using assms(1) by (intro tee_wf_update)
qed (use assms in simp)

lemma tee_init_wf: "tee_wf tee \<Longrightarrow> tee_init_enclave tee i = (r, tee') \<Longrightarrow> tee_wf tee'"
  unfolding tee_init_enclave_def Let_def
  by (auto split: if_splits intro!: tee_wf_update)
    (auto simp: tee_wf_def enclave_wf_def enclave_free_def enclave_ready_def split: if_splits)

lemma tee_enter_wf: "tee_wf tee \<Longrightarrow> tee_enter g tee i dat cap = (r, out, tee') \<Longrightarrow> tee_wf tee'"
  unfolding tee_enter_def Let_def
  by (auto split: if_splits intro!: tee_wf_update)
    (auto simp: tee_wf_def enclave_wf_def enclave_free_def enclave_ready_def split: if_splits)

lemma tee_destroy_wf: "tee_wf tee \<Longrightarrow> tee_destroy tee i = (r, tee') \<Longrightarrow> tee_wf tee'"
  unfolding tee_destroy_def
  by (auto split: if_splits intro!: tee_wf_update simp: enclave_wf_def enclave_free_def enclave_ready_def zero_identity_def)

lemma tee_reachable_wf_all: "tee_reachable tee \<Longrightarrow> tee_wf tee"
proof (induction rule: tee_reachable.induct)
  case (init master base sz hw)
  then show ?case by (simp add: tee_wf_def tee_init_def wf_zero)
qed (blast intro: tee_create_wf tee_init_wf tee_enter_wf tee_destroy_wf)+

section \<open>What each slot was loaded with\<close>

text \<open>
  The life cycle with a record of what the caller passed to the last creation in each slot: the code, the signer,
  the product and the attributes; a destroyed slot has none.
\<close>

inductive tee_loaded :: "(nat \<Rightarrow> (bytes \<times> bytes \<times> u16 \<times> u32) option) \<Rightarrow> MiniHwSecTEEManager \<Rightarrow> bool" where
  init: "length master = 32 \<Longrightarrow> tee_loaded (\<lambda>_. None) (tee_init master base sz hw)"
| create: "tee_loaded h tee \<Longrightarrow> length signer = 32 \<Longrightarrow> tee_create_enclave g tee code signer pid attr = Some (r, tee') \<Longrightarrow>
    tee_loaded (if r = -1 then h else h(nat r \<mapsto> (code, signer, pid, attr))) tee'"
| init_enclave: "tee_loaded h tee \<Longrightarrow> tee_init_enclave tee i = (r, tee') \<Longrightarrow> tee_loaded h tee'"
| enter: "tee_loaded h tee \<Longrightarrow> tee_enter g tee i dat cap = (r, out, tee') \<Longrightarrow> tee_loaded h tee'"
| destroy: "tee_loaded h tee \<Longrightarrow> tee_destroy tee i = (r, tee') \<Longrightarrow> tee_loaded (if r then h(nat i := None) else h) tee'"

lemma tee_loaded_reachable: "tee_loaded h tee \<Longrightarrow> tee_reachable tee"
  by (induction rule: tee_loaded.induct) (auto intro: tee_reachable.intros)

definition holds_load :: "MiniHwSecTEEEnclave \<Rightarrow> (bytes \<times> bytes \<times> u16 \<times> u32) option \<Rightarrow> bool" where
  "holds_load e x \<longleftrightarrow>
     (case x of
        None \<Rightarrow> enclave_free e
      | Some (code, signer, pid, attr) \<Rightarrow>
          \<not> enclave_free e \<and> length code \<le> TEE_ENCLAVE_SIZE \<and> length signer = 32 \<and>
          me_code (en_memory e) = (\<lambda>i. if i < length code then code ! i else 0) \<and>
          id_mr_enclave (en_identity e) = sha_digest code \<and> id_mr_signer (en_identity e) = signer \<and>
          id_product_id (en_identity e) = pid \<and> id_attributes (en_identity e) = attr)"

lemma holds_load_frame:
  "en_identity e' = en_identity e \<Longrightarrow> me_code (en_memory e') = me_code (en_memory e) \<Longrightarrow> enclave_free e' = enclave_free e \<Longrightarrow>
    holds_load e x \<Longrightarrow> holds_load e' x"
  by (cases x) (auto simp: holds_load_def)

lemma init_enclave_load: "tee_init_enclave tee i = (r, tee') \<Longrightarrow> holds_load (tm_enclaves tee k) x \<Longrightarrow> holds_load (tm_enclaves tee' k) x"
  by (rule holds_load_frame [of _ "tm_enclaves tee k"])
    (auto simp: tee_init_enclave_def Let_def enclave_free_def split: if_splits)

lemma enter_load: "tee_enter g tee i dat cap = (r, out, tee') \<Longrightarrow> holds_load (tm_enclaves tee k) x \<Longrightarrow> holds_load (tm_enclaves tee' k) x"
  by (rule holds_load_frame [of _ "tm_enclaves tee k"])
    (auto simp: tee_enter_def Let_def enclave_free_def split: if_splits)

lemma tee_loaded_holds: "tee_loaded h tee \<Longrightarrow> holds_load (tm_enclaves tee k) (h k)"
proof (induction rule: tee_loaded.induct)
  case (init master base sz hw)
  then show ?case by (simp add: holds_load_def tee_init_def zero_enclave_def enclave_free_def)
next
  case (create h tee signer g code pid attr r tee')
  from create.hyps(3) show ?case
  proof (cases rule: tee_create_cases)
    case (created slot e)
    then show ?thesis using create.IH create.hyps(2) by (auto simp: holds_load_def enclave_free_def)
  qed (use create.IH in simp)
next
  case (destroy h tee i r tee')
  have none: "holds_load e None = enclave_free e" for e by (simp add: holds_load_def)
  show ?case using destroy by (auto simp: tee_destroy_def none enclave_free_def split: if_splits)
qed (auto intro: init_enclave_load enter_load)

section \<open>Sealed data\<close>

lemma xor_bytes_append: "length a = length b \<Longrightarrow> xor_bytes (a @ c) (b @ d) = xor_bytes a b @ xor_bytes c d"
  by (simp add: xor_bytes_def)

lemma xor_streams:
  "length a = length b \<Longrightarrow> length ctr = 16 \<Longrightarrow> xor_bytes (gcm_stream ctx ctr a) (gcm_stream ctx ctr b) = xor_bytes a b"
proof (induction ctx ctr a arbitrary: b rule: gcm_stream.induct)
  case (1 ctx ctr a)
  show ?case
  proof (cases "a = []")
    case False
    let ?k = "aes_encrypt ctx ctr"
    have k: "length ?k = 16" using 1(3) by (rule length_aes_encrypt)
    have b: "b \<noteq> []" "length (drop 16 a) = length (drop 16 b)" using False 1(2) by auto
    note IH = 1(1) [OF False b(2) length_inc32 [OF 1(3)]]
    have e: "gcm_stream ctx ctr x = xor_bytes (take 16 x) ?k @ gcm_stream ctx (gcm_inc32 ctr) (drop 16 x)" if "x \<noteq> []" for x
      using that by (simp add: gcm_stream.simps [of ctx ctr x])
    have t: "length (take 16 a) = length (take 16 b)" "length (take 16 b) \<le> 16" using 1(2) by simp_all
    have c: "xor_bytes (xor_bytes (take 16 a) ?k) (xor_bytes (take 16 b) ?k) = xor_bytes (take 16 a) (take 16 b)"
      using t k by (intro nth_equalityI) (auto simp: xor_bytes_def xor.assoc xor.left_commute xor.commute)
    have "xor_bytes (gcm_stream ctx ctr a) (gcm_stream ctx ctr b) =
        xor_bytes (take 16 a) (take 16 b) @ xor_bytes (drop 16 a) (drop 16 b)"
      using t k IH by (simp add: e False b xor_bytes_append c)
    also have "\<dots> = xor_bytes a b" using t by (simp add: xor_bytes_append [symmetric])
    finally show ?thesis .
  qed (use 1(2) in \<open>simp add: gcm_stream.simps\<close>)
qed

lemma length_policy: "length (policy_name p) \<le> 9" "0 \<notin> set (policy_name p)"
  by (simp_all add: policy_name_def ascii_def)

definition sealed_body :: "MiniHwSecTEESealedData \<Rightarrow> bytes \<times> bytes" where
  "sealed_body s = (take (sd_data_size s) (sd_encrypted_data s), take 16 (sd_mac s))"

definition sealing_ctx :: "bytes \<Rightarrow> MiniHwSecAesCtx" where
  "sealing_ctx seal_key = aes_init (hkdf_key seal_key (ascii ''ENC'') [])"

lemma length_policy_iv: "8 \<le> length p \<Longrightarrow> length (policy_iv p) = 12"
  by (simp add: policy_iv_def)

lemma tee_seal_val:
  assumes "tee_seal g tee i dat p = Some s"
  shows "aes_gcm_encrypt (sealing_ctx (en_seal_key (tm_enclaves tee (nat i)))) (policy_iv (sd_key_policy s)) dat
      (policy_string (sd_key_policy s)) = sealed_body s"
    and "enclave_index i" "sd_valid s" "sd_data_size s = length dat" "length dat \<le> 1024" "length (sd_key_policy s) = 16" "length (sd_mac s) = 32"
    and "sd_key_policy s = policy_name p @ replicate (16 - length (policy_name p)) 0"
proof -
  let ?q = "policy_name p @ replicate (16 - length (policy_name p)) 0"
  let ?ctx = "sealing_ctx (en_seal_key (tm_enclaves tee (nat i)))"
  obtain c t where ct: "aes_gcm_encrypt ?ctx (policy_iv ?q) dat (policy_string ?q) = (c, t)" by fastforce
  have q: "length ?q = 16" using length_policy [of p] by simp
  then have iv: "length (policy_iv ?q) = 12" by (simp add: length_policy_iv)
  have l: "length c = length dat" "length t = 16"
    using ct iv by (auto simp: aes_gcm_encrypt_def Let_def gcm_stream_twice length_gcm_tag gcm_j0_def)
  have i: "enclave_index i" "length dat \<le> 1024" using assms by (auto simp: tee_seal_def split: if_splits)
  have s: "s = \<lparr>sd_encrypted_data = c @ replicate (1024 - length c) 0, sd_mac = t @ replicate 16 0, sd_key_policy = ?q,
      sd_data_size = length dat, sd_valid = True\<rparr>"
    using assms ct i by (simp add: tee_seal_def sealing_aes_val sealing_ctx_def Let_def)
  show "aes_gcm_encrypt ?ctx (policy_iv (sd_key_policy s)) dat (policy_string (sd_key_policy s)) = sealed_body s"
    using ct l by (simp add: s sealed_body_def)
  show "enclave_index i" "sd_valid s" "sd_data_size s = length dat" "length dat \<le> 1024" "length (sd_key_policy s) = 16"
    "length (sd_mac s) = 32" "sd_key_policy s = ?q"
    using i q l by (simp_all add: s)
qed

lemma tee_unseal_iff:
  assumes "sd_valid s" and "enclave_index j" and "sd_data_size s \<le> 1024" and "8 \<le> length (sd_key_policy s)" and "16 \<le> length (sd_mac s)"
  shows "tee_unseal g tee j s = Some dat \<longleftrightarrow> aes_gcm_encrypt (sealing_ctx (en_seal_key (tm_enclaves tee (nat j))))
      (policy_iv (sd_key_policy s)) dat (policy_string (sd_key_policy s)) = sealed_body s"
proof -
  have "length (policy_iv (sd_key_policy s)) = 12" "length (take 16 (sd_mac s)) = 16" using assms by (simp_all add: length_policy_iv)
  from gcm_decrypt_iff [OF this] show ?thesis
    using assms by (simp add: tee_unseal_def sealing_aes_val sealing_ctx_def sealed_body_def)
qed

lemma tee_unseal_own:
  assumes "tee_seal g tee i dat p = Some s" and "enclave_index j"
    and "en_seal_key (tm_enclaves tee' (nat j)) = en_seal_key (tm_enclaves tee (nat i))"
  shows "tee_unseal g' tee' j s = Some dat"
  using tee_seal_val [OF assms(1)] assms(2,3) by (simp add: tee_unseal_iff)


section \<open>The scheduler is fair\<close>

datatype tee_op = TeeSchedule | TeeYield | TeeCreate bytes bytes u16 u32 | TeeInitEnclave int | TeeEnter int bytes "nat option" | TeeDestroy int

fun tee_step :: "u8 arr \<Rightarrow> MiniHwSecTEEScheduler \<times> MiniHwSecTEEManager \<Rightarrow> tee_op \<Rightarrow> int \<times> MiniHwSecTEEScheduler \<times> MiniHwSecTEEManager" where
  "tee_step g (sched, tee) TeeSchedule = (case tee_scheduler_schedule sched tee of (r, sched') \<Rightarrow> (r, sched', tee))"
| "tee_step g (sched, tee) TeeYield = (-1, tee_scheduler_yield sched, tee)"
| "tee_step g (sched, tee) (TeeCreate code signer pid attr) =
     (-1, sched, case tee_create_enclave g tee code signer pid attr of Some (_, tee') \<Rightarrow> tee' | None \<Rightarrow> tee)"
| "tee_step g (sched, tee) (TeeInitEnclave i) = (-1, sched, snd (tee_init_enclave tee i))"
| "tee_step g (sched, tee) (TeeEnter i dat cap) = (-1, sched, snd (snd (tee_enter g tee i dat cap)))"
| "tee_step g (sched, tee) (TeeDestroy i) = (-1, sched, snd (tee_destroy tee i))"

definition sched_ok :: "MiniHwSecTEEScheduler \<times> MiniHwSecTEEManager \<Rightarrow> bool" where
  "sched_ok s \<longleftrightarrow> -1 \<le> sc_current_enclave (fst s) \<and> sc_current_enclave (fst s) < int TEE_MAX_ENCLAVES"

definition enclave_waits :: "MiniHwSecTEEScheduler \<times> MiniHwSecTEEManager \<Rightarrow> nat \<Rightarrow> bool" where
  "enclave_waits s j \<longleftrightarrow> j < TEE_MAX_ENCLAVES \<and> enclave_ready (tm_enclaves (snd s) j)"

definition sched_distance :: "MiniHwSecTEEScheduler \<times> MiniHwSecTEEManager \<Rightarrow> nat \<Rightarrow> nat" where
  "sched_distance s j = (j + (TEE_MAX_ENCLAVES - sched_start (fst s))) mod TEE_MAX_ENCLAVES"

lemma sched_start_val: "-1 \<le> sc_current_enclave sched \<Longrightarrow> sched_start sched = nat (sc_current_enclave sched + 1) mod TEE_MAX_ENCLAVES"
  by (simp add: sched_start_def smod_int_nonneg TEE_MAX_ENCLAVES_def nat_mod_distrib)

lemma sched_start_less: "sched_ok s \<Longrightarrow> sched_start (fst s) < TEE_MAX_ENCLAVES"
  by (simp add: sched_ok_def sched_start_val TEE_MAX_ENCLAVES_def)

lemma init_enclave_ready: "enclave_ready (tm_enclaves tee j) \<Longrightarrow> enclave_ready (tm_enclaves (snd (tee_init_enclave tee i)) j)"
  by (auto simp: tee_init_enclave_def Let_def enclave_ready_def)

lemma enter_ready: "enclave_ready (tm_enclaves tee j) \<Longrightarrow> enclave_ready (tm_enclaves (snd (snd (tee_enter g tee i dat cap))) j)"
  by (auto simp: tee_enter_def Let_def enclave_ready_def)

lemma destroy_ready: "i \<noteq> int j \<Longrightarrow> enclave_ready (tm_enclaves tee j) \<Longrightarrow> enclave_ready (tm_enclaves (snd (tee_destroy tee i)) j)"
  by (auto simp: tee_destroy_def enclave_index_def)

lemma create_ready: "enclave_ready (tm_enclaves tee j) \<Longrightarrow> tee_create_enclave g tee code signer pid attr = Some (r, tee') \<Longrightarrow>
    enclave_ready (tm_enclaves tee' j)"
  by (erule tee_create_cases) (auto simp: enclave_ready_def enclave_free_def)

interpretation tee_fair: bounded_wait "tee_step g" sched_ok enclave_waits sched_distance "\<lambda>x. x = TeeSchedule" "\<lambda>x j. x = TeeDestroy (int j)"
proof
  fix s x j r s'
  assume ok: "sched_ok s" and st: "tee_step g s x = (r, s')"
  obtain sched tee where s: "s = (sched, tee)" by fastforce
  show "sched_ok s'"
    using ok st by (cases x)
      (auto simp: s sched_ok_def tee_scheduler_schedule_def tee_scheduler_yield_def Let_def TEE_MAX_ENCLAVES_def split: option.splits)
  assume w: "enclave_waits s j"
  show "r = int j \<or> enclave_waits s' j \<and> sched_distance s' j < sched_distance s j" if x: "x = TeeSchedule"
  proof -
    let ?n = TEE_MAX_ENCLAVES and ?s = "sched_start sched"
    have j: "j < ?n" "enclave_ready (tm_enclaves tee j)" using w by (simp_all add: enclave_waits_def s)
    obtain i where i: "find_index (\<lambda>i. enclave_ready (tm_enclaves tee ((?s + i) mod ?n))) 0 ?n = Some i"
      and c: "(?s + i) mod ?n = j \<or> (j + (?n - ((?s + i) mod ?n + 1) mod ?n)) mod ?n < (j + (?n - ?s)) mod ?n"
      using scan_closer [of ?s ?n j "\<lambda>k. enclave_ready (tm_enclaves tee k)"] sched_start_less [OF ok] j by (auto simp: s)
    have "r = int ((?s + i) mod ?n)" "s' = (sched\<lparr>sc_current_enclave := int ((?s + i) mod ?n)\<rparr>, tee)"
      using st i by (auto simp: s x tee_scheduler_schedule_def Let_def)
    moreover have "nat (int k + 1) = k + 1" for k by simp
    ultimately show ?thesis using c w by (auto simp: sched_distance_def s sched_start_val enclave_waits_def)
  qed
  show "enclave_waits s' j \<and> sched_distance s' j = sched_distance s j" if "x \<noteq> TeeSchedule" "x \<noteq> TeeDestroy (int j)"
    using st w that by (cases x)
      (auto simp: s enclave_waits_def sched_distance_def sched_start_def tee_scheduler_yield_def
        intro: init_enclave_ready enter_ready destroy_ready create_ready split: option.splits)
qed

section \<open>Properties\<close>

lemma created_reachable:
  assumes "length master = 32" and "length signer = 32" and "length code \<le> TEE_ENCLAVE_SIZE"
  obtains e tee where "tee_create_enclave g (tee_init master base sz hw) code signer pid attr = Some (0, tee)"
    and "tee_reachable tee" and "tm_enclaves tee 0 = e" and "en_state e = TEE_CREATED" and "id_mr_enclave (en_identity e) = sha_digest code"
proof -
  let ?t = "tee_init master base sz hw"
  have f: "find_index (\<lambda>i. enclave_free (tm_enclaves ?t i)) 0 TEE_MAX_ENCLAVES = Some 0"
    by (simp add: find_index_Some tee_init_def enclave_free_def zero_enclave_def TEE_MAX_ENCLAVES_def)
  obtain tee where c: "tee_create_enclave g ?t code signer pid attr = Some (0, tee)"
    using assms(3) f by (auto simp: tee_create_enclave_def seal_key_of_val Let_def)
  have r: "tee_reachable tee" by (rule tee_reachable.create [OF tee_reachable.init [OF assms(1)] assms(2) c])
  from c obtain e where "tm_enclaves tee 0 = e" "en_state e = TEE_CREATED" "id_mr_enclave (en_identity e) = sha_digest code"
    by (cases rule: tee_create_cases) auto
  with c r that show thesis by blast
qed

text \<open>
  C33: In every state the life cycle can reach, whatever its calls, each of the slots is well typed. A slot that no
  creation filled since it was last destroyed holds no code, identity or key. A slot that is in use holds exactly what the
  caller loaded: the code, padded with zeros, as its memory, the hash of that code as its measurement, the signer,
  product and attributes that were passed, the base address of the slot, and the key derived from the platform key and
  that identity; one that can be entered is protected. No enclave is left running between two calls.
\<close>

theorem tee_reachable_wf:
  assumes "tee_loaded h tee"
  shows "(case h i of
      None \<Rightarrow> enclave_free (tm_enclaves tee i) \<and> en_memory (tm_enclaves tee i) = zero_memory \<and>
        en_identity (tm_enclaves tee i) = zero_identity \<and> en_seal_key (tm_enclaves tee i) = replicate 32 0
    | Some (code, signer, pid, attr) \<Rightarrow>
        \<not> enclave_free (tm_enclaves tee i) \<and> length code \<le> TEE_ENCLAVE_SIZE \<and> length signer = 32 \<and>
        me_code (en_memory (tm_enclaves tee i)) = (\<lambda>k. if k < length code then code ! k else 0) \<and>
        id_mr_enclave (en_identity (tm_enclaves tee i)) = sha_digest code \<and>
        id_mr_signer (en_identity (tm_enclaves tee i)) = signer \<and>
        id_product_id (en_identity (tm_enclaves tee i)) = pid \<and> id_attributes (en_identity (tm_enclaves tee i)) = attr \<and>
        id_base_address (en_identity (tm_enclaves tee i)) = tm_base_epc tee + of_nat i * of_nat TEE_ENCLAVE_SIZE \<and>
        en_seal_key (tm_enclaves tee i) = hkdf_key (tm_platform_master_key tee)
          (sha_digest code @ signer @ le16 pid @ le16 (ucast attr)) (ascii ''SEAL-KEY'')) \<and>
    (enclave_ready (tm_enclaves tee i) \<longrightarrow> me_access_controlled (en_memory (tm_enclaves tee i)) \<and> en_is_secure (tm_enclaves tee i)) \<and>
    en_state (tm_enclaves tee i) \<noteq> TEE_RUNNING \<and> tee_get_running_enclave tee = -1"
proof -
  have w: "tee_wf tee" by (rule tee_reachable_wf_all [OF tee_loaded_reachable [OF assms]])
  then have nr: "en_state (tm_enclaves tee i) \<noteq> TEE_RUNNING" for i by (simp add: tee_wf_def enclave_wf_def)
  then have "find_index (\<lambda>i. en_state (tm_enclaves tee i) = TEE_RUNNING) 0 TEE_MAX_ENCLAVES = None"
    by (simp add: find_index_None)
  moreover have "enclave_wf tee i (tm_enclaves tee i)" using w by (simp add: tee_wf_def)
  ultimately show ?thesis
    using tee_loaded_holds [OF assms, of i] nr [of i]
    by (cases "h i") (auto simp: enclave_wf_def holds_load_def tee_get_running_enclave_def)
qed

theorem tee_reachable_wf_witness:
  "\<exists>tee. tee_create_enclave (\<lambda>_. 0) (tee_init (replicate 32 7) 0x1000 0x100000 True) [1, 2, 3] (replicate 32 5) 1 0 = Some (0, tee) \<and>
     id_mr_enclave (en_identity (tm_enclaves tee 0)) = sha_digest [1, 2, 3] \<and> me_code (en_memory (tm_enclaves tee 0)) 1 = 2 \<and>
     enclave_free (tm_enclaves tee 1)"
proof -
  obtain tee where t: "tee_create_enclave (\<lambda>_. 0) (tee_init (replicate 32 7) 0x1000 0x100000 True) [1, 2, 3] (replicate 32 5) 1 0 = Some (0, tee)"
    by (rule created_reachable [where master = "replicate 32 7" and signer = "replicate 32 5" and code = "[1, 2, 3]" and g = "\<lambda>_. 0"
      and base = "0x1000" and sz = "0x100000" and hw = True and pid = 1 and attr = 0]) (auto simp: TEE_ENCLAVE_SIZE_def)
  have l: "tee_loaded [0 \<mapsto> ([1, 2, 3], replicate 32 5, 1, 0)] tee"
    using tee_loaded.create [OF tee_loaded.init _ t] by simp
  show ?thesis using tee_reachable_wf [OF l, of 0] tee_reachable_wf [OF l, of 1] t by auto
qed

text \<open>
  C34: Sealed data comes back exactly: an enclave with the key of the one that sealed it unseals the data, on any
  manager, and with the policy unchanged nothing else yields that data: any other ciphertext, length or
  tag is refused or opens to something else.
\<close>

theorem tee_unseal_exact:
  assumes "tee_seal g tee i dat p = Some s" and "enclave_index j"
    and "en_seal_key (tm_enclaves tee' (nat j)) = en_seal_key (tm_enclaves tee (nat i))"
    and "sd_valid s'" "sd_key_policy s' = sd_key_policy s" "sd_data_size s' \<le> 1024" "length (sd_mac s') = 32"
  shows "tee_unseal g' tee' j s = Some dat \<and> (tee_unseal g' tee' j s' = Some dat \<longleftrightarrow> sealed_body s' = sealed_body s)"
  using tee_seal_val [OF assms(1)] assms(2-) by (auto simp: tee_unseal_iff)

lemma seal_defined: "length dat \<le> 1024 \<Longrightarrow> enclave_index i \<Longrightarrow> \<exists>s. tee_seal g tee i dat p = Some s"
  by (simp add: tee_seal_def sealing_aes_val Let_def)

theorem tee_unseal_exact_witness:
  "\<exists>s. tee_seal (\<lambda>_. 0) (tee_init (replicate 32 1) 0 0 True) 0 [1, 2, 3] True = Some s \<and>
     tee_unseal (\<lambda>_. 9) (tee_init (replicate 32 2) 0 0 False) 5 s = Some [1, 2, 3]"
proof -
  obtain s where s: "tee_seal (\<lambda>_. 0) (tee_init (replicate 32 1) 0 0 True) 0 [1, 2, 3] True = Some s"
    using seal_defined [of "[1, 2, 3]" 0 "\<lambda>_. 0" "tee_init (replicate 32 1) 0 0 True" True]
    by (auto simp: enclave_index_def TEE_MAX_ENCLAVES_def)
  have "tee_unseal (\<lambda>_. 9) (tee_init (replicate 32 2) 0 0 False) 5 s = Some [1, 2, 3]"
    using tee_unseal_exact [OF s, of 5 "tee_init (replicate 32 2) 0 0 False" s "\<lambda>_. 9"] tee_seal_val [OF s]
    by (simp add: tee_init_def enclave_index_def TEE_MAX_ENCLAVES_def)
  with s show ?thesis by blast
qed

text \<open>
  The initialisation vector of a sealed blob is its policy string, so an enclave seals everything under one policy
  with the same key stream: two blobs of equal length give away the exclusive or of their data, whatever the
  state of the enclave.
\<close>

theorem tee_seal_reuses_keystream:
  assumes "tee_seal g tee i dat1 p = Some s1" and "tee_seal g tee i dat2 p = Some s2" and "length dat1 = length dat2"
  shows "xor_bytes (fst (sealed_body s1)) (fst (sealed_body s2)) = xor_bytes dat1 dat2"
proof -
  let ?ctx = "sealing_ctx (en_seal_key (tm_enclaves tee (nat i)))" and ?ctr = "gcm_inc32 (gcm_j0 (policy_iv (sd_key_policy s1)))"
  have q: "sd_key_policy s2 = sd_key_policy s1" using tee_seal_val(8) [OF assms(1)] tee_seal_val(8) [OF assms(2)] by simp
  have "length ?ctr = 16" using tee_seal_val(6) [OF assms(1)] by (simp add: gcm_j0_def length_policy_iv)
  moreover have "fst (sealed_body s1) = gcm_stream ?ctx ?ctr dat1"
    using tee_seal_val(1) [OF assms(1)] by (auto simp: aes_gcm_encrypt_def Let_def prod_eq_iff)
  moreover have "fst (sealed_body s2) = gcm_stream ?ctx ?ctr dat2"
    using tee_seal_val(1) [OF assms(2)] by (auto simp: aes_gcm_encrypt_def Let_def prod_eq_iff q)
  ultimately show ?thesis using xor_streams [OF assms(3)] by simp
qed

theorem tee_seal_reuses_keystream_witness:
  "\<exists>s1 s2. tee_seal (\<lambda>_. 0) (tee_init (replicate 32 1) 0 0 True) 0 [1, 2, 3] True = Some s1 \<and>
     tee_seal (\<lambda>_. 0) (tee_init (replicate 32 1) 0 0 True) 0 [7, 7, 7] True = Some s2 \<and>
     xor_bytes (fst (sealed_body s1)) (fst (sealed_body s2)) = [6, 5, 4]"
proof -
  obtain s1 s2 where s: "tee_seal (\<lambda>_. 0) (tee_init (replicate 32 1) 0 0 True) 0 [1, 2, 3] True = Some s1"
    "tee_seal (\<lambda>_. 0) (tee_init (replicate 32 1) 0 0 True) 0 [7, 7, 7] True = Some s2"
    using seal_defined [of "[1, 2, 3]" 0 "\<lambda>_. 0" "tee_init (replicate 32 1) 0 0 True" True]
      seal_defined [of "[7, 7, 7]" 0 "\<lambda>_. 0" "tee_init (replicate 32 1) 0 0 True" True]
    by (auto simp: enclave_index_def TEE_MAX_ENCLAVES_def)
  have "xor_bytes (fst (sealed_body s1)) (fst (sealed_body s2)) = xor_bytes [1, 2, 3] [7, 7, 7]"
    by (rule tee_seal_reuses_keystream [OF s]) simp
  moreover have "xor_bytes [1, 2, 3] [7, 7, 7] = [6, 5, 4]" by code_simp
  ultimately show ?thesis using s by auto
qed

lemma report_bytes_mac [simp]: "report_bytes (r\<lparr>rp_report_mac := m\<rparr>) = report_bytes r"
  by (simp add: report_bytes_def)

lemma identity_report_fields [simp]:
  "rp_mr_enclave (identity_report ty d x) = id_mr_enclave d" "rp_report_data (identity_report ty d x) = x"
  "rp_attest_type (identity_report ty d x) = ty" "rp_mr_signer (identity_report ty d x) = id_mr_signer d"
  "rp_product_id (identity_report ty d x) = id_product_id d" "rp_security_version (identity_report ty d x) = id_security_version d"
  "rp_attributes (identity_report ty d x) = id_attributes d" "rp_report_mac (identity_report ty d x) = replicate 32 0"
  by (simp_all add: identity_report_def)

lemma tee_verify_val:
  "length (rp_report_mac r) = 32 \<Longrightarrow> tee_verify_report g tee r \<longleftrightarrow>
     rp_report_mac r = hmac_spec (hkdf_key (tm_platform_master_key tee) (ascii ''ATTEST-KEY'' @ [0]) []) (report_bytes r)"
  by (auto simp: tee_verify_report_def attest_key_val constant_time_eq_def hmac_sha256_spec byte_diff_zero)

lemma tee_attest_remote_val:
  assumes "enclave_index i" and "2 \<le> tee_state_code (en_state (tm_enclaves tee (nat i)))"
  obtains r rng' where "hwsec_random rng 32 = (r, rng')"
    and "tee_attest_remote g rng tee i challenge = (Some ((identity_report ATTEST_REMOTE (en_identity (tm_enclaves tee (nat i))) (challenge @ r))\<lparr>
      rp_report_mac := hmac_spec (hkdf_key (tm_platform_master_key tee) (ascii ''ATTEST-KEY'' @ [0]) [])
        (report_bytes (identity_report ATTEST_REMOTE (en_identity (tm_enclaves tee (nat i))) (challenge @ r)))\<rparr>), rng')"
  using assms by (cases "hwsec_random rng 32") (simp add: tee_attest_remote_def Let_def attest_key_val hmac_sha256_spec)

text \<open>
  C36: A remote report of a reachable platform verifies there and says what the platform knows: its type, the
  32 bytes of the challenge followed by 32 bytes of the random generator, and the measurement, signer, product, version
  and attributes of the enclave. Verification accepts a report, this or any other, exactly when its code of 32 bytes is
  the authentication code, under the platform's attestation key, of all those fields in the order of the structure.
  But an enclave that was destroyed passes the state test as well,
  and its report, whose identity is all zeros, verifies too.
\<close>

theorem tee_remote_report_verifies:
  assumes "tee_reachable tee" and "enclave_index i" and "length challenge = 32"
    and "en_state (tm_enclaves tee (nat i)) \<in> {TEE_INITIALIZED, TEE_STOPPED, TEE_DESTROYED}"
    and "length (rp_report_mac x) = 32"
  shows "\<exists>rep r rng'. tee_attest_remote g rng tee i challenge = (Some rep, rng') \<and> tee_verify_report g' tee rep \<and>
    hwsec_random rng 32 = (r, rng') \<and> rp_attest_type rep = ATTEST_REMOTE \<and> rp_report_data rep = challenge @ r \<and>
    rp_mr_enclave rep = id_mr_enclave (en_identity (tm_enclaves tee (nat i))) \<and>
    rp_mr_signer rep = id_mr_signer (en_identity (tm_enclaves tee (nat i))) \<and>
    rp_product_id rep = id_product_id (en_identity (tm_enclaves tee (nat i))) \<and>
    rp_security_version rep = id_security_version (en_identity (tm_enclaves tee (nat i))) \<and>
    rp_attributes rep = id_attributes (en_identity (tm_enclaves tee (nat i))) \<and>
    (en_state (tm_enclaves tee (nat i)) = TEE_DESTROYED \<longrightarrow>
       rp_mr_enclave rep = replicate 32 0 \<and> rp_mr_signer rep = replicate 32 0 \<and> rp_product_id rep = 0 \<and>
       rp_security_version rep = 0 \<and> rp_attributes rep = 0) \<and>
    (tee_verify_report g' tee x \<longleftrightarrow> rp_report_mac x =
       hmac_spec (hkdf_key (tm_platform_master_key tee) (ascii ''ATTEST-KEY'' @ [0]) [])
         ((case rp_attest_type x of ATTEST_LOCAL \<Rightarrow> [0, 0, 0, 0] | ATTEST_REMOTE \<Rightarrow> [1, 0, 0, 0]) @ rp_report_data x @
          rp_mr_enclave x @ rp_mr_signer x @ [ucast (rp_product_id x), ucast (drop_bit 8 (rp_product_id x)),
          ucast (rp_security_version x), ucast (drop_bit 8 (rp_security_version x)), ucast (rp_attributes x),
          ucast (drop_bit 8 (rp_attributes x)), ucast (drop_bit 16 (rp_attributes x)), ucast (drop_bit 24 (rp_attributes x))]))"
proof -
  let ?e = "tm_enclaves tee (nat i)"
  have "2 \<le> tee_state_code (en_state ?e)" using assms(4) by auto
  from tee_attest_remote_val [OF assms(2) this, of rng g challenge] obtain r rng' where
    r: "hwsec_random rng 32 = (r, rng')" "tee_attest_remote g rng tee i challenge = (Some ((identity_report ATTEST_REMOTE (en_identity ?e) (challenge @ r))\<lparr>
      rp_report_mac := hmac_spec (hkdf_key (tm_platform_master_key tee) (ascii ''ATTEST-KEY'' @ [0]) [])
        (report_bytes (identity_report ATTEST_REMOTE (en_identity ?e) (challenge @ r)))\<rparr>), rng')" by blast
  have "tee_wf tee" by (rule tee_reachable_wf_all [OF assms(1)])
  then have z: "en_identity ?e = zero_identity" if "en_state ?e = TEE_DESTROYED"
    using that by (simp add: tee_wf_def enclave_wf_def enclave_free_def)
  have v: "tee_verify_report g' tee x \<longleftrightarrow> rp_report_mac x = hmac_spec (hkdf_key (tm_platform_master_key tee) (ascii ''ATTEST-KEY'' @ [0]) [])
         ((case rp_attest_type x of ATTEST_LOCAL \<Rightarrow> [0, 0, 0, 0] | ATTEST_REMOTE \<Rightarrow> [1, 0, 0, 0]) @ rp_report_data x @
          rp_mr_enclave x @ rp_mr_signer x @ [ucast (rp_product_id x), ucast (drop_bit 8 (rp_product_id x)),
          ucast (rp_security_version x), ucast (drop_bit 8 (rp_security_version x)), ucast (rp_attributes x),
          ucast (drop_bit 8 (rp_attributes x)), ucast (drop_bit 16 (rp_attributes x)), ucast (drop_bit 24 (rp_attributes x))])"
    unfolding tee_verify_val [OF assms(5)] report_bytes_def
    by (cases "rp_attest_type x") (simp_all add: le16_def le32_def)
  show ?thesis
    by (intro exI conjI impI) (rule r(2), rule_tac [2] r(1), auto simp: tee_verify_val v z zero_identity_def)
qed

theorem tee_remote_report_verifies_witness:
  "\<exists>tee rep rng'. tee_create_enclave (\<lambda>_. 0) (tee_init (replicate 32 7) 0x1000 0x100000 True) [1, 2, 3] (replicate 32 5) 1 0 = Some (0, tee) \<and>
     tee_attest_remote (\<lambda>_. 0) drbg_zero (snd (tee_init_enclave tee 0)) 0 (replicate 32 7) = (Some rep, rng') \<and>
     tee_verify_report (\<lambda>_. 0) (snd (tee_init_enclave tee 0)) rep \<and> rp_mr_enclave rep = sha_digest [1, 2, 3]"
proof -
  obtain e tee where t: "tee_create_enclave (\<lambda>_. 0) (tee_init (replicate 32 7) 0x1000 0x100000 True) [1, 2, 3] (replicate 32 5) 1 0 = Some (0, tee)"
    "tee_reachable tee" "tm_enclaves tee 0 = e" "en_state e = TEE_CREATED" "id_mr_enclave (en_identity e) = sha_digest [1, 2, 3]"
    by (rule created_reachable [where master = "replicate 32 7" and signer = "replicate 32 5" and code = "[1, 2, 3]" and g = "\<lambda>_. 0"
      and base = "0x1000" and sz = "0x100000" and hw = True and pid = 1 and attr = 0]) (auto simp: TEE_ENCLAVE_SIZE_def)
  let ?t = "snd (tee_init_enclave tee 0)"
  have "tee_reachable ?t" by (rule tee_reachable.init_enclave [OF t(2), of 0 "fst (tee_init_enclave tee 0)"]) simp
  moreover have "en_state (tm_enclaves ?t 0) = TEE_INITIALIZED" "en_identity (tm_enclaves ?t 0) = en_identity e"
    using t(3,4) by (simp_all add: tee_init_enclave_def enclave_index_def TEE_MAX_ENCLAVES_def Let_def)
  ultimately show ?thesis
    using tee_remote_report_verifies [of ?t 0 "replicate 32 7" "identity_report ATTEST_REMOTE zero_identity []" "\<lambda>_. 0" drbg_zero "\<lambda>_. 0"] t(1,5)
    by (force simp: enclave_index_def TEE_MAX_ENCLAVES_def)
qed

text \<open>
  C35: The scheduler is fair: an enclave that can be entered and is not destroyed is scheduled within 16 calls,
  whatever enclaves are created, initialised, entered or destroyed between them.
\<close>

theorem tee_scheduler_fair:
  assumes "sched_ok s" and "enclave_waits s j" and "\<forall>x \<in> set ops. x \<noteq> TeeDestroy (int j)"
    and "TEE_MAX_ENCLAVES \<le> length (filter (\<lambda>x. x = TeeSchedule) ops)"
  shows "int j \<in> set (grants (tee_step g) s ops)"
proof (rule tee_fair.served_within_distance)
  have "sched_distance s j < TEE_MAX_ENCLAVES" by (simp add: sched_distance_def TEE_MAX_ENCLAVES_def)
  then show "sched_distance s j < length (filter (\<lambda>x. x = TeeSchedule) ops)" using assms(4) by simp
qed (use assms in auto)

theorem tee_scheduler_fair_witness:
  "int 0 \<in> set (grants (tee_step (\<lambda>_. 0)) (tee_scheduler_init, snd (tee_init_enclave
     ((tee_init (replicate 32 1) 0 0 True)\<lparr>tm_enclaves := (\<lambda>_. zero_enclave\<lparr>en_state := TEE_CREATED\<rparr>)\<rparr>) 0)) (replicate 16 TeeSchedule))"
  by (rule tee_scheduler_fair)
    (simp_all add: sched_ok_def tee_scheduler_init_def TEE_MAX_ENCLAVES_def enclave_waits_def tee_init_enclave_def enclave_index_def enclave_ready_def)

end
