(* ===== verification/SecureBoot.thy ===== *)
theory SecureBoot
  imports Tee
begin

text \<open>
  The boot chain, the trusted platform module and the event log of
  \<^verbatim>\<open>mini-hardware-security/src/secure_boot.c\<close>.  The stages of a chain, the trust anchors and the
  events are the lists of the entries in use; \<open>None\<close> is the return value \<open>false\<close> of an operation with a
  result, and \<open>g\<close> the bytes of uninitialised buffers.  Printing the log is not modelled;
  fields that no operation reads (signatures, names and periods of certificates) are left out.
\<close>

section \<open>Data\<close>

definition SB_MAX_STAGES :: nat where "SB_MAX_STAGES = 6"
definition SB_MAX_PCR_REGISTERS :: nat where "SB_MAX_PCR_REGISTERS = 24"
definition MAX_EVENTS :: nat where "MAX_EVENTS = 256"

record MiniHwSecPCR =
  pcr_value :: bytes
  pcr_index :: u32
  pcr_resettable :: bool
  pcr_locked :: bool

record MiniHwSecPubKey =
  pk_modulus :: bytes
  pk_exponent :: bytes
  pk_key_id :: u32
  pk_revoked :: bool

record MiniHwSecCertificate =
  ce_public_key :: MiniHwSecPubKey
  ce_valid :: bool

record MiniHwSecTrustAnchor =
  ta_fingerprint :: bytes
  ta_key_id :: u32
  ta_trusted :: bool

record MiniHwSecBootImage =
  im_stage_name :: bytes
  im_binary_hash :: bytes
  im_version :: u32
  im_image_size :: u32
  im_load_address :: u64
  im_entry_point :: u64
  im_signer_key_id :: u8
  im_signature_valid :: bool

record MiniHwSecBootChain =
  bc_stages :: "MiniHwSecBootImage list"
  bc_boot_successful :: bool
  bc_failed_stage :: u32

record MiniHwSecTPM =
  tp_pcrs :: "MiniHwSecPCR arr"
  tp_pcr_count :: int
  tp_endorsement_key :: MiniHwSecPubKey
  tp_attestation_key :: MiniHwSecPubKey
  tp_storage_root_key :: bytes
  tp_initialized :: bool
  tp_in_use :: bool

record MiniHwSecTPMQuote =
  qt_pcr_select :: bytes
  qt_pcr_composite_hash :: bytes
  qt_nonce :: bytes
  qt_signature :: bytes
  qt_valid :: bool

datatype MiniHwSecEventType = EVENT_PCR_EXTEND | EVENT_STAGE_VERIFY | EVENT_STAGE_LAUNCH | EVENT_KEY_REVOKE | EVENT_POLICY_UPDATE | EVENT_SECURITY_ALERT

record MiniHwSecBootEvent =
  ev_type :: MiniHwSecEventType
  ev_pcr_index :: u32
  ev_digest :: bytes
  ev_stage_id :: u32
  ev_timestamp :: u64
  ev_description :: bytes

datatype MiniHwSecBootPolicy = POLICY_NONE | POLICY_VERIFY | POLICY_ENFORCE | POLICY_MEASURE

record MiniHwSecBootConfig =
  cf_anchors :: "MiniHwSecTrustAnchor list"
  cf_policy :: MiniHwSecBootPolicy
  cf_require_attestation :: bool
  cf_allow_debug :: bool
  cf_lockdown_on_failure :: bool
  cf_min_version :: "u32 arr"

section \<open>Event log\<close>

definition event_log_init :: "MiniHwSecBootEvent list" where "event_log_init = []"

definition event_log_record ::
    "MiniHwSecBootEvent list \<Rightarrow> MiniHwSecEventType \<Rightarrow> u32 \<Rightarrow> bytes \<Rightarrow> u32 \<Rightarrow> bytes \<Rightarrow> MiniHwSecBootEvent list" where
  "event_log_record log ty idx digest stage_id description =
     (if length log \<ge> MAX_EVENTS then log
      else log @ [\<lparr>ev_type = ty, ev_pcr_index = idx, ev_digest = digest, ev_stage_id = stage_id, ev_timestamp = of_nat (length log),
                   ev_description = take 127 description\<rparr>])"

definition event_log_query :: "MiniHwSecBootEvent list \<Rightarrow> MiniHwSecEventType \<Rightarrow> nat \<Rightarrow> MiniHwSecBootEvent list" where
  "event_log_query log ty max_results =
     for_range 0 (length log) (\<lambda>i found. if length found < max_results \<and> ev_type (log ! i) = ty then found @ [log ! i] else found) []"

section \<open>Platform module\<close>

definition zero_key :: MiniHwSecPubKey where
  "zero_key = \<lparr>pk_modulus = replicate 256 0, pk_exponent = replicate 4 0, pk_key_id = 0, pk_revoked = False\<rparr>"

definition tpm_init :: "u8 arr \<Rightarrow> MiniHwSecChaChaDRBG \<Rightarrow> MiniHwSecTPM \<times> MiniHwSecChaChaDRBG" where
  "tpm_init g rng =
     (case hwsec_random rng 32 of (ek_seed, rng') \<Rightarrow>
        (\<lparr>tp_pcrs = (\<lambda>i. \<lparr>pcr_value = replicate 32 0, pcr_index = of_nat i, pcr_resettable = i < 16, pcr_locked = False\<rparr>),
          tp_pcr_count = int SB_MAX_PCR_REGISTERS,
          tp_endorsement_key = zero_key\<lparr>pk_modulus := ek_seed @ replicate 224 0, pk_key_id := 0\<rparr>,
          tp_attestation_key = zero_key\<lparr>pk_modulus := (ek_seed @ replicate 224 0)[0 := (ek_seed ! 0) XOR 1], pk_key_id := 1\<rparr>,
          tp_storage_root_key = sha256 g ek_seed, tp_initialized = True, tp_in_use = False\<rparr>, rng'))"

definition tpm_extend :: "u8 arr \<Rightarrow> MiniHwSecTPM \<Rightarrow> u32 \<Rightarrow> bytes \<Rightarrow> bool \<times> MiniHwSecTPM" where
  "tpm_extend g tpm idx digest =
     (if \<not> tp_initialized tpm then (False, tpm)
      else if uint idx \<ge> tp_pcr_count tpm then (False, tpm)
      else if pcr_locked (tp_pcrs tpm (unat idx)) then (False, tpm)
      else (True, tpm\<lparr>tp_pcrs := (tp_pcrs tpm)(unat idx :=
             (tp_pcrs tpm (unat idx))\<lparr>pcr_value := sha256 g (pcr_value (tp_pcrs tpm (unat idx)) @ digest)\<rparr>)\<rparr>))"

definition tpm_pcr_read :: "MiniHwSecTPM \<Rightarrow> u32 \<Rightarrow> bytes option" where
  "tpm_pcr_read tpm idx = (if uint idx \<ge> tp_pcr_count tpm then None else Some (pcr_value (tp_pcrs tpm (unat idx))))"

definition tpm_quote :: "u8 arr \<Rightarrow> MiniHwSecTPM \<Rightarrow> u32 \<Rightarrow> bytes \<Rightarrow> MiniHwSecTPMQuote" where
  "tpm_quote g tpm pcr_mask nonce =
     (let ctx = for_range 0 24 (\<lambda>i c. if pcr_mask AND push_bit i 1 \<noteq> 0
                  then sha256_update c (case tpm_pcr_read tpm (of_nat i) of Some v \<Rightarrow> v | None \<Rightarrow> map g [0..<32]) else c) (sha256_init g);
          composite = sha256_final (sha256_update ctx nonce)
      in \<lparr>qt_pcr_select = [ucast pcr_mask, ucast (drop_bit 8 pcr_mask), ucast (drop_bit 16 pcr_mask)], qt_pcr_composite_hash = composite, qt_nonce = nonce,
          qt_signature = hmac_sha256 g (take 32 (pk_modulus (tp_attestation_key tpm))) composite @ replicate 224 0, qt_valid = True\<rparr>)"

definition tpm_quote_verify :: "u8 arr \<Rightarrow> MiniHwSecTPMQuote \<Rightarrow> (nat \<Rightarrow> bytes) \<Rightarrow> u32 \<Rightarrow> bytes \<Rightarrow> bool" where
  "tpm_quote_verify g quote expected_pcrs pcr_mask nonce =
     (if \<not> qt_valid quote then False
      else let ctx = for_range 0 24 (\<lambda>i c. if pcr_mask AND push_bit i 1 \<noteq> 0 then sha256_update c (expected_pcrs i) else c) (sha256_init g)
           in constant_time_eq (sha256_final (sha256_update ctx nonce)) (qt_pcr_composite_hash quote))"

definition pcr_composite :: "u8 arr \<Rightarrow> MiniHwSecTPM \<Rightarrow> u32 \<Rightarrow> bytes" where
  "pcr_composite g tpm pcr_mask = sha256_final (for_range 0 (nat (tp_pcr_count tpm))
     (\<lambda>i c. if pcr_mask AND push_bit i 1 \<noteq> 0 then sha256_update c (pcr_value (tp_pcrs tpm i)) else c) (sha256_init g))"

definition tpm_aes :: "u8 arr \<Rightarrow> bytes \<Rightarrow> MiniHwSecAesCtx option" where
  "tpm_aes g seal_key = map_option aes_init (hkdf_sha256 g seal_key (ascii ''TPM-SEAL'') [] 32)"

definition tpm_seal :: "u8 arr \<Rightarrow> MiniHwSecTPM \<Rightarrow> bytes \<Rightarrow> u32 \<Rightarrow> bytes option" where
  "tpm_seal g tpm dat pcr_mask =
     (if length dat > 1024 then None
      else let composite = pcr_composite g tpm pcr_mask; key = hmac_sha256 g (tp_storage_root_key tpm) composite
           in map_option (\<lambda>ctx. let blob = le32 pcr_mask @ composite @ aes_ctr_mode ctx (take 12 composite) dat
                in blob @ hmac_sha256 g key blob) (tpm_aes g key))"

definition mask_of_bytes :: "bytes \<Rightarrow> u32" where
  "mask_of_bytes b = ucast (b ! 0) OR push_bit 8 (ucast (b ! 1)) OR push_bit 16 (ucast (b ! 2)) OR push_bit 24 (ucast (b ! 3))"

definition tpm_unseal :: "u8 arr \<Rightarrow> MiniHwSecTPM \<Rightarrow> bytes \<Rightarrow> bytes option" where
  "tpm_unseal g tpm sealed =
     (if length sealed < 4 + 32 + 32 then None
      else let pcr_mask = mask_of_bytes sealed; current = pcr_composite g tpm pcr_mask
           in if \<not> constant_time_eq current (take 32 (drop 4 sealed)) then None
              else let key = hmac_sha256 g (tp_storage_root_key tpm) current; enc_len = length sealed - 4 - 64
                   in if \<not> constant_time_eq (hmac_sha256 g key (take (length sealed - 32) sealed)) (drop (length sealed - 32) sealed) then None
                      else map_option (\<lambda>ctx. aes_ctr_mode ctx (take 12 current) (take enc_len (drop 36 sealed))) (tpm_aes g key))"

definition tpm_clear :: "MiniHwSecTPM \<Rightarrow> MiniHwSecTPM" where
  "tpm_clear tpm = tpm\<lparr>tp_pcrs := (\<lambda>_. \<lparr>pcr_value = replicate 32 0, pcr_index = 0, pcr_resettable = False, pcr_locked = False\<rparr>),
     tp_endorsement_key := (tp_endorsement_key tpm)\<lparr>pk_modulus := replicate 256 0\<rparr>, tp_storage_root_key := replicate 32 0, tp_initialized := False\<rparr>"

section \<open>Boot chain\<close>

definition sb_init ::
    "u8 arr \<Rightarrow> MiniHwSecChaChaDRBG \<Rightarrow> MiniHwSecBootConfig \<times> MiniHwSecTPM \<times> MiniHwSecBootEvent list \<times> MiniHwSecChaChaDRBG" where
  "sb_init g rng = (case tpm_init g rng of (tpm, rng') \<Rightarrow>
     (\<lparr>cf_anchors = [], cf_policy = POLICY_ENFORCE, cf_require_attestation = True, cf_allow_debug = False,
       cf_lockdown_on_failure = True, cf_min_version = (\<lambda>_. 0)\<rparr>, tpm, event_log_init, rng'))"

definition sb_measure ::
    "u8 arr \<Rightarrow> u32 \<Rightarrow> bytes \<Rightarrow> MiniHwSecTPM \<times> MiniHwSecBootEvent list \<Rightarrow> MiniHwSecTPM \<times> MiniHwSecBootEvent list" where
  "sb_measure g idx dat = (\<lambda>(tpm, log). let h = sha256 g dat
     in (snd (tpm_extend g tpm idx h), event_log_record log EVENT_PCR_EXTEND idx h 0 (ascii ''measurement'')))"

definition le64 :: "u64 \<Rightarrow> bytes" where
  "le64 x = le32 (ucast x) @ le32 (ucast (drop_bit 32 x))"

definition sb_verify_image :: "u8 arr \<Rightarrow> MiniHwSecBootImage \<Rightarrow> MiniHwSecPubKey option \<Rightarrow> bool \<times> MiniHwSecBootImage" where
  "sb_verify_image g img pub_key =
     (let computed = sha256_final (fold (\<lambda>d c. sha256_update c d) [im_stage_name img, le32 (im_version img), le32 (im_image_size img),
            le64 (im_load_address img), le64 (im_entry_point img)] (sha256_init g));
          hash_match = constant_time_eq computed (im_binary_hash img);
          key_valid = (case pub_key of Some k \<Rightarrow> \<not> pk_revoked k | None \<Rightarrow> False);
          ok = (hash_match \<and> key_valid)
      in (ok, img\<lparr>im_signature_valid := ok\<rparr>))"

definition sb_rollback_detect :: "MiniHwSecBootImage \<Rightarrow> u32 \<Rightarrow> bool" where
  "sb_rollback_detect img current_version \<longleftrightarrow> im_version img < current_version"

definition anchored :: "MiniHwSecBootConfig \<Rightarrow> MiniHwSecBootImage \<Rightarrow> bool" where
  "anchored config stage \<longleftrightarrow> (\<exists>a \<in> set (cf_anchors config). ta_trusted a \<and> ta_key_id a = ucast (im_signer_key_id stage))"

text \<open>One turn of the loop: whether the chain goes on, the stage, the module and the log.\<close>

definition boot_stage ::
    "u8 arr \<Rightarrow> MiniHwSecBootConfig \<Rightarrow> nat \<Rightarrow> MiniHwSecBootImage \<Rightarrow> MiniHwSecTPM \<times> MiniHwSecBootEvent list \<Rightarrow>
     bool \<times> MiniHwSecBootImage \<times> MiniHwSecTPM \<times> MiniHwSecBootEvent list" where
  "boot_stage g config i stage s =
     (let idx = of_nat (i + 4);
          rec = (\<lambda>(tpm, log) ty text. (tpm, event_log_record log ty idx (im_binary_hash stage) (of_nat i) (ascii text)));
          s1 = sb_measure g idx (im_binary_hash stage) s
      in if cf_min_version config i > 0 \<and> sb_rollback_detect stage (cf_min_version config i)
         then (False, stage, rec s1 EVENT_SECURITY_ALERT ''ROLLBACK_DETECTED'')
         else let verified = (im_signature_valid stage \<or> anchored config stage); stage' = stage\<lparr>im_signature_valid := verified\<rparr>;
                  s2 = (if verified then s1 else rec s1 EVENT_STAGE_VERIFY ''SIGNATURE_VERIFICATION_FAILED'')
              in if \<not> verified \<and> cf_policy config = POLICY_ENFORCE then (False, stage', s2)
                 else (True, stage', rec (rec s2 EVENT_STAGE_VERIFY ''VERIFIED_OK'') EVENT_STAGE_LAUNCH ''LAUNCHED''))"

text \<open>The number of the stage that failed, the stages, the module and the log.\<close>

fun boot_stages ::
    "u8 arr \<Rightarrow> MiniHwSecBootConfig \<Rightarrow> nat \<Rightarrow> MiniHwSecBootImage list \<Rightarrow> MiniHwSecTPM \<times> MiniHwSecBootEvent list \<Rightarrow>
     nat option \<times> MiniHwSecBootImage list \<times> MiniHwSecTPM \<times> MiniHwSecBootEvent list" where
  "boot_stages g config i [] s = (None, [], s)"
| "boot_stages g config i (stage # stages) s =
     (case boot_stage g config i stage s of (go, stage', s') \<Rightarrow>
        if go then (case boot_stages g config (i + 1) stages s' of (r, stages', s'') \<Rightarrow> (r, stage' # stages', s''))
        else (Some i, stage' # stages, s'))"

definition sb_execute_chain ::
    "u8 arr \<Rightarrow> MiniHwSecBootChain \<Rightarrow> MiniHwSecBootConfig \<Rightarrow> MiniHwSecTPM \<times> MiniHwSecBootEvent list \<Rightarrow>
     bool \<times> MiniHwSecBootChain \<times> MiniHwSecTPM \<times> MiniHwSecBootEvent list" where
  "sb_execute_chain g chain config s =
     (case boot_stages g config 0 (bc_stages chain) s of (r, stages', s') \<Rightarrow>
        (r = None, chain\<lparr>bc_stages := stages', bc_boot_successful := (r = None),
           bc_failed_stage := (case r of Some i \<Rightarrow> of_nat i | None \<Rightarrow> 0)\<rparr>, s'))"

section \<open>Certificates\<close>

definition cert_verify_chain :: "MiniHwSecCertificate \<Rightarrow> MiniHwSecCertificate option \<Rightarrow> MiniHwSecTrustAnchor \<Rightarrow> bool" where
  "cert_verify_chain cert intermediate anchor \<longleftrightarrow> ce_valid cert \<and>
     (constant_time_eq (take 32 (pk_modulus (ce_public_key cert))) (ta_fingerprint anchor) \<or>
      (case intermediate of Some c \<Rightarrow> constant_time_eq (take 32 (pk_modulus (ce_public_key c))) (ta_fingerprint anchor) | None \<Rightarrow> False)) \<and>
     ta_trusted anchor"

definition key_revoke :: "MiniHwSecPubKey \<Rightarrow> MiniHwSecPubKey" where
  "key_revoke key = key\<lparr>pk_revoked := True\<rparr>"


section \<open>Measurements and the log\<close>

text \<open>The values of the registers that a verifier computes from the log.\<close>

definition replay_event :: "MiniHwSecBootEvent \<Rightarrow> (nat \<Rightarrow> bytes) \<Rightarrow> nat \<Rightarrow> bytes" where
  "replay_event e pcrs = (if ev_type e = EVENT_PCR_EXTEND
     then pcrs(unat (ev_pcr_index e) := sha_digest (pcrs (unat (ev_pcr_index e)) @ ev_digest e)) else pcrs)"

definition replay :: "MiniHwSecBootEvent list \<Rightarrow> (nat \<Rightarrow> bytes) \<Rightarrow> nat \<Rightarrow> bytes" where
  "replay log pcrs = fold replay_event log pcrs"

definition pcr_values :: "MiniHwSecTPM \<Rightarrow> nat \<Rightarrow> bytes" where
  "pcr_values tpm i = pcr_value (tp_pcrs tpm i)"

definition tpm_ready :: "MiniHwSecTPM \<Rightarrow> bool" where
  "tpm_ready tpm \<longleftrightarrow> tp_initialized tpm \<and> tp_pcr_count tpm = 24 \<and> (\<forall>i < 24. \<not> pcr_locked (tp_pcrs tpm i))"

definition measurements :: "MiniHwSecBootEvent list \<Rightarrow> (u32 \<times> bytes) list" where
  "measurements log = map (\<lambda>e. (ev_pcr_index e, ev_digest e)) (filter (\<lambda>e. ev_type e = EVENT_PCR_EXTEND) log)"

definition launches :: "MiniHwSecBootEvent list \<Rightarrow> u32 list" where
  "launches log = map ev_stage_id (filter (\<lambda>e. ev_type e = EVENT_STAGE_LAUNCH) log)"

lemma log_append:
  "replay (l @ k) pcrs = replay k (replay l pcrs)" "measurements (l @ k) = measurements l @ measurements k" "launches (l @ k) = launches l @ launches k"
  by (simp_all add: replay_def measurements_def launches_def)

lemma log_Nil [simp]: "replay [] pcrs = pcrs" "measurements [] = []" "launches [] = []"
  by (simp_all add: replay_def measurements_def launches_def)

lemma log_single:
  "replay (e # l) pcrs = replay l (replay_event e pcrs)"
  "measurements (e # l) = (if ev_type e = EVENT_PCR_EXTEND then [(ev_pcr_index e, ev_digest e)] else []) @ measurements l"
  "launches (e # l) = (if ev_type e = EVENT_STAGE_LAUNCH then [ev_stage_id e] else []) @ launches l"
  by (simp_all add: replay_def measurements_def launches_def)

text \<open>With room in the log an event is appended.\<close>

lemma record_room: "length log < MAX_EVENTS \<Longrightarrow> event_log_record log ty idx digest stage_id descr =
    log @ [\<lparr>ev_type = ty, ev_pcr_index = idx, ev_digest = digest, ev_stage_id = stage_id, ev_timestamp = of_nat (length log),
      ev_description = take 127 descr\<rparr>]"
  by (simp add: event_log_record_def)

lemma tpm_extend_ready:
  assumes "tpm_ready tpm" and "unat idx < 24"
  shows "tpm_ready (snd (tpm_extend g tpm idx d)) \<and>
    pcr_values (snd (tpm_extend g tpm idx d)) = (pcr_values tpm)(unat idx := sha_digest (pcr_values tpm (unat idx) @ d))"
proof -
  have "int (unat idx) < 24" using assms(2) by linarith
  then have "uint idx < 24" by simp
  then have e: "snd (tpm_extend g tpm idx d) = tpm\<lparr>tp_pcrs := (tp_pcrs tpm)(unat idx :=
      (tp_pcrs tpm (unat idx))\<lparr>pcr_value := sha_digest (pcr_value (tp_pcrs tpm (unat idx)) @ d)\<rparr>)\<rparr>"
    using assms by (simp add: tpm_extend_def tpm_ready_def sha256_digest)
  have "pcr_values (snd (tpm_extend g tpm idx d)) i = ((pcr_values tpm)(unat idx := sha_digest (pcr_values tpm (unat idx) @ d))) i" for i
    by (simp add: e pcr_values_def)
  then show ?thesis using assms(1) by (auto simp: e tpm_ready_def)
qed

lemma measure_result:
  assumes "tpm_ready tpm" and "unat idx < 24" and "length log < MAX_EVENTS" and "sb_measure g idx dat (tpm, log) = (tpm', log')"
  obtains e where "tpm_ready tpm'" and "log' = log @ [e]" and "ev_type e = EVENT_PCR_EXTEND" and "ev_pcr_index e = idx" and "ev_digest e = sha_digest dat"
    and "pcr_values tpm' = (pcr_values tpm)(unat idx := sha_digest (pcr_values tpm (unat idx) @ sha_digest dat))"
  using assms tpm_extend_ready [OF assms(1,2), of g "sha_digest dat"]
  by (auto simp: sb_measure_def Let_def sha256_digest record_room)

text \<open>
  What lets a stage pass, written out over the configuration: it is not rolled back, and its image is marked as signed,
  or a trusted anchor has its key number, or the policy is not to enforce.
\<close>

definition rollback :: "MiniHwSecBootConfig \<Rightarrow> nat \<Rightarrow> MiniHwSecBootImage \<Rightarrow> bool" where
  "rollback config i stage \<longleftrightarrow> cf_min_version config i > 0 \<and> im_version stage < cf_min_version config i"

definition stage_passes :: "MiniHwSecBootConfig \<Rightarrow> nat \<Rightarrow> MiniHwSecBootImage \<Rightarrow> bool" where
  "stage_passes config i stage \<longleftrightarrow> \<not> rollback config i stage \<and>
     (im_signature_valid stage \<or> cf_policy config \<noteq> POLICY_ENFORCE \<or>
      list_ex (\<lambda>a. ta_trusted a \<and> unat (ta_key_id a) = unat (im_signer_key_id stage)) (cf_anchors config))"

lemma anchored_iff: "anchored config stage \<longleftrightarrow>
    list_ex (\<lambda>a. ta_trusted a \<and> unat (ta_key_id a) = unat (im_signer_key_id stage)) (cf_anchors config)"
proof -
  have k: "ta_key_id a = ucast (im_signer_key_id stage) \<longleftrightarrow> unat (ta_key_id a) = unat (im_signer_key_id stage)" for a
    using unsigned_less [of "im_signer_key_id stage", where ?'a = nat]
    by (simp add: word_unat_eq_iff unsigned_ucast_eq take_bit_nat_eq_self)
  show ?thesis by (simp only: anchored_def list_ex_iff k)
qed

lemma boot_stage_result:
  assumes "tpm_ready tpm" and "i < 6" and "length log + 4 \<le> MAX_EVENTS"
    and "boot_stage g config i stage (tpm, log) = (go, stage', tpm', log')"
  obtains evs where "log' = log @ evs" and "length evs \<le> 4" and "tpm_ready tpm'" and "go = stage_passes config i stage"
    and "pcr_values tpm' = replay evs (pcr_values tpm)" and "launches evs = (if go then [of_nat i] else [])"
    and "measurements evs = [(of_nat (i + 4), sha_digest (im_binary_hash stage))]"
    and "pcr_values tpm' = (pcr_values tpm)(i + 4 := sha_digest (pcr_values tpm (i + 4) @ sha_digest (im_binary_hash stage)))"
proof -
  have u: "unat (of_nat (i + 4) :: u32) = i + 4" unfolding unat_of_nat using assms(2) by simp
  obtain t1 l1 where m: "sb_measure g (of_nat (i + 4)) (im_binary_hash stage) (tpm, log) = (t1, l1)" by fastforce
  have r: "unat (of_nat (i + 4) :: u32) < 24" "length log < MAX_EVENTS" using u assms(2,3) by simp_all
  obtain e where e: "tpm_ready t1" "l1 = log @ [e]" "ev_type e = EVENT_PCR_EXTEND" "ev_pcr_index e = of_nat (i + 4)"
    "ev_digest e = sha_digest (im_binary_hash stage)"
    "pcr_values t1 = (pcr_values tpm)(i + 4 := sha_digest (pcr_values tpm (i + 4) @ sha_digest (im_binary_hash stage)))"
    using measure_result [OF assms(1) r m] unfolding u by metis
  have re: "replay_event e (pcr_values tpm) = pcr_values t1" by (simp only: replay_event_def e u if_True refl)
  define pass where "pass = stage_passes config i stage"
  have p: "pass \<longleftrightarrow> \<not> (cf_min_version config i > 0 \<and> sb_rollback_detect stage (cf_min_version config i)) \<and>
      (im_signature_valid stage \<or> anchored config stage \<or> cf_policy config \<noteq> POLICY_ENFORCE)"
    by (auto simp: pass_def stage_passes_def rollback_def sb_rollback_detect_def anchored_iff)
  have "\<exists>evs. log' = l1 @ evs \<and> length evs \<le> 3 \<and> tpm' = t1 \<and> go = pass \<and> measurements evs = [] \<and>
      (\<forall>v. replay evs v = v) \<and> launches evs = (if go then [of_nat i] else [])"
    using assms(3,4) e(2) unfolding boot_stage_def Let_def m p
    by (auto simp: record_room log_single replay_event_def split: if_splits)
  then obtain evs where f: "log' = l1 @ evs" "length evs \<le> 3" "tpm' = t1" "go = pass" "measurements evs = []"
    "\<And>v. replay evs v = v" "launches evs = (if go then [of_nat i] else [])" by blast
  show thesis
    by (rule that [of "e # evs"]) (use e f re pass_def in \<open>simp_all add: log_single\<close>)
qed

definition first_failing :: "MiniHwSecBootConfig \<Rightarrow> nat \<Rightarrow> MiniHwSecBootImage list \<Rightarrow> nat option" where
  "first_failing config i stages = find_index (\<lambda>k. \<not> stage_passes config k (stages ! (k - i))) i (i + length stages)"

lemma first_failing_Cons: "first_failing config i (stage # stages) =
    (if stage_passes config i stage then first_failing config (Suc i) stages else Some i)"
proof -
  have u: "[i..<i + length (stage # stages)] = i # [Suc i..<Suc i + length stages]"
    using upt_conv_Cons [of i "Suc (i + length stages)"] by (simp del: upt_Suc)
  have "(stage # stages) ! (k - i) = stages ! (k - Suc i)" if "k \<in> set [Suc i..<Suc i + length stages]" for k
    using that by (auto simp: nth_Cons' Suc_diff_le)
  then have "List.find (\<lambda>k. \<not> stage_passes config k ((stage # stages) ! (k - i))) [Suc i..<Suc i + length stages] =
      List.find (\<lambda>k. \<not> stage_passes config k (stages ! (k - Suc i))) [Suc i..<Suc i + length stages]"
    by (intro find_cong) simp_all
  then show ?thesis by (simp only: first_failing_def find_index_def u List.find.simps) simp
qed

text \<open>The stages that a chain reaches: all, or those up to the one that fails.\<close>

definition stages_run :: "nat \<Rightarrow> nat \<Rightarrow> nat option \<Rightarrow> nat" where
  "stages_run i n r = (case r of None \<Rightarrow> i + n | Some j \<Rightarrow> Suc j)"

definition stages_launched :: "nat \<Rightarrow> nat \<Rightarrow> nat option \<Rightarrow> nat" where
  "stages_launched i n r = (case r of None \<Rightarrow> i + n | Some j \<Rightarrow> j)"

lemma stages_run_Suc: "stages_run i (Suc n) r = stages_run (Suc i) n r" "stages_launched i (Suc n) r = stages_launched (Suc i) n r"
  by (simp_all add: stages_run_def stages_launched_def split: option.split)

lemma first_failing_bounds:
  assumes "r = first_failing config i stages"
  shows "i \<le> stages_launched i (length stages) r" and "stages_launched i (length stages) r \<le> stages_run i (length stages) r"
    and "stages_run i (length stages) r \<le> i + length stages"
proof -
  have "i \<le> j \<and> j < i + length stages" if "first_failing config i stages = Some j" for j
    using that by (simp add: first_failing_def find_index_Some)
  then show "i \<le> stages_launched i (length stages) r" "stages_run i (length stages) r \<le> i + length stages"
    by (cases r; simp add: stages_launched_def stages_run_def Suc_le_eq flip: assms)+
  show "stages_launched i (length stages) r \<le> stages_run i (length stages) r"
    by (simp add: stages_launched_def stages_run_def split: option.split)
qed

lemma boot_stages_result:
  assumes "tpm_ready tpm" and "i + length stages \<le> 6" and "length log + 4 * length stages \<le> MAX_EVENTS"
    and "boot_stages g config i stages (tpm, log) = (r, stages', tpm', log')"
  shows "r = first_failing config i stages \<and> (\<exists>evs. log' = log @ evs \<and> pcr_values tpm' = replay evs (pcr_values tpm) \<and>
    launches evs = map of_nat [i..<stages_launched i (length stages) r] \<and>
    measurements evs = map (\<lambda>k. (of_nat (k + 4), sha_digest (im_binary_hash (stages ! (k - i))))) [i..<stages_run i (length stages) r] \<and>
    (\<forall>n. pcr_values tpm' n = (if i + 4 \<le> n \<and> n < stages_run i (length stages) r + 4
       then sha_digest (pcr_values tpm n @ sha_digest (im_binary_hash (stages ! (n - 4 - i)))) else pcr_values tpm n)))"
  using assms
proof (induction stages arbitrary: i tpm log stages')
  case Nil
  then show ?case by (auto simp: first_failing_def find_index_def stages_run_def stages_launched_def)
next
  case (Cons stage stages)
  let ?d = "sha_digest (im_binary_hash stage)"
  obtain go stage' t1 l1 where b: "boot_stage g config i stage (tpm, log) = (go, stage', t1, l1)" by (metis prod_cases4)
  have p: "i < 6" "length log + 4 \<le> MAX_EVENTS" using Cons.prems(2,3) by simp_all
  obtain evs where B: "l1 = log @ evs" "length evs \<le> 4" "tpm_ready t1" "go = stage_passes config i stage"
    "pcr_values t1 = replay evs (pcr_values tpm)" "launches evs = (if go then [of_nat i] else [])"
    "measurements evs = [(of_nat (i + 4), ?d)]" "pcr_values t1 = (pcr_values tpm)(i + 4 := sha_digest (pcr_values tpm (i + 4) @ ?d))"
    by (rule boot_stage_result [OF Cons.prems(1) p b])
  show ?case
  proof (cases go)
    case True
    then obtain ss where c: "boot_stages g config (Suc i) stages (t1, l1) = (r, ss, tpm', log')"
      using Cons.prems(4) b by (auto split: prod.splits)
    have q: "Suc i + length stages \<le> 6" "length l1 + 4 * length stages \<le> MAX_EVENTS" using Cons.prems(2,3) B(1,2) by simp_all
    let ?m = "stages_run (Suc i) (length stages) r" and ?l = "stages_launched (Suc i) (length stages) r"
    obtain evs2 where IH: "r = first_failing config (Suc i) stages" "log' = l1 @ evs2" "pcr_values tpm' = replay evs2 (pcr_values t1)"
      "launches evs2 = map of_nat [Suc i..<?l]"
      "measurements evs2 = map (\<lambda>k. (of_nat (k + 4), sha_digest (im_binary_hash (stages ! (k - Suc i))))) [Suc i..<?m]"
      "\<And>n. pcr_values tpm' n = (if Suc i + 4 \<le> n \<and> n < ?m + 4
         then sha_digest (pcr_values t1 n @ sha_digest (im_binary_hash (stages ! (n - 4 - Suc i)))) else pcr_values t1 n)"
      using Cons.IH [OF B(3) q c] by blast
    have le: "Suc i \<le> ?l" "?l \<le> ?m" using first_failing_bounds [OF IH(1)] by simp_all
    have u: "[i..<?m] = i # [Suc i..<?m]" "[i..<?l] = i # [Suc i..<?l]" using le by (simp_all add: upt_conv_Cons)
    have ms: "measurements (evs @ evs2) = map (\<lambda>k. (of_nat (k + 4), sha_digest (im_binary_hash ((stage # stages) ! (k - i))))) [i..<?m]"
      unfolding u by (simp add: log_append B(7) IH(5) nth_Cons' Suc_diff_le)
    have ls: "launches (evs @ evs2) = map of_nat [i..<?l]" unfolding u by (simp add: log_append B(6) IH(4) True)
    have vs: "pcr_values tpm' n = (if i + 4 \<le> n \<and> n < ?m + 4
        then sha_digest (pcr_values tpm n @ sha_digest (im_binary_hash ((stage # stages) ! (n - 4 - i)))) else pcr_values tpm n)" for n
    proof (cases "n = i + 4")
      case True
      then show ?thesis using le by (simp add: IH(6) B(8))
    next
      case False
      then have "n - 4 - i = Suc (n - 4 - Suc i)" if "i + 4 \<le> n" using that by simp
      then show ?thesis using False by (auto simp: IH(6) B(8))
    qed
    have "r = first_failing config i (stage # stages)" using IH(1) B(4) True by (simp add: first_failing_Cons)
    then show ?thesis
      using IH(2,3) B(1,5) ms ls vs unfolding stages_run_Suc length_Cons
      by (intro conjI exI [of _ "evs @ evs2"]) (simp_all add: log_append)
  next
    case False
    then have f: "r = Some i" "tpm' = t1" "log' = l1" using Cons.prems(4) b by auto
    have "first_failing config i (stage # stages) = Some i" using B(4) False by (simp add: first_failing_Cons)
    moreover have "pcr_values t1 n = (if i + 4 \<le> n \<and> n < Suc i + 4
        then sha_digest (pcr_values tpm n @ sha_digest (im_binary_hash ((stage # stages) ! (n - 4 - i)))) else pcr_values tpm n)" for n
      by (cases "n = i + 4") (auto simp: B(8))
    ultimately show ?thesis
      using B(1,5-7) False f by (intro conjI exI [of _ evs]) (simp_all add: stages_run_def stages_launched_def)
  qed
qed

section \<open>Sealed data and quotes\<close>

definition selected :: "nat \<Rightarrow> u32 \<Rightarrow> (nat \<Rightarrow> bytes) \<Rightarrow> bytes" where
  "selected n pcr_mask v = concat (map v (filter (bit pcr_mask) [0..<n]))"

lemma selected_Suc: "selected (Suc n) m v = selected n m v @ (if bit m n then v n else [])"
  by (simp add: selected_def)

lemma update_selected:
  "sha_rep (for_range 0 n (\<lambda>i c. if m AND push_bit i 1 \<noteq> 0 then sha256_update c (v i) else c) (sha256_init g)) (selected n m v)"
proof (induction n)
  case 0
  show ?case by (simp add: selected_def sha_rep_init)
next
  case (Suc n)
  show ?case
    unfolding for_range_Suc [OF le0] and_pow2_eq_0 selected_Suc using Suc [unfolded and_pow2_eq_0]
    by (auto intro: sha_rep_update)
qed

lemma composite_val: "pcr_composite g tpm m = sha_digest (selected (nat (tp_pcr_count tpm)) m (pcr_values tpm))"
  unfolding pcr_composite_def pcr_values_def by (rule sha_final_rep [OF update_selected])


lemma mask_of_le32: "mask_of_bytes (le32 m @ r) = m"
  unfolding mask_of_bytes_def le32_def
proof (rule bit_word_eqI)
  fix n :: nat assume n: "n < LENGTH(32)"
  have "n < 8 \<or> 8 \<le> n \<and> n < 16 \<or> 16 \<le> n \<and> n < 24 \<or> 24 \<le> n \<and> n < 32" using n by auto
  then show "bit (ucast (([ucast m, ucast (drop_bit 8 m), ucast (drop_bit 16 m), ucast (drop_bit 24 m)] @ r) ! 0 :: u8) OR
      push_bit 8 (ucast (([ucast m, ucast (drop_bit 8 m), ucast (drop_bit 16 m), ucast (drop_bit 24 m)] @ r) ! 1 :: u8)) OR
      push_bit 16 (ucast (([ucast m, ucast (drop_bit 8 m), ucast (drop_bit 16 m), ucast (drop_bit 24 m)] @ r) ! 2 :: u8)) OR
      push_bit 24 (ucast (([ucast m, ucast (drop_bit 8 m), ucast (drop_bit 16 m), ucast (drop_bit 24 m)] @ r) ! 3 :: u8)) :: u32) n = bit m n"
    by (elim disjE) (auto simp: nth_append bit_simps)
qed

lemma tpm_aes_val: "tpm_aes g key = Some (aes_init (hkdf_key key (ascii ''TPM-SEAL'') []))"
  by (simp add: tpm_aes_def hkdf_32)

lemma ctr_twice:
  assumes "length nonce = 12"
  shows "aes_ctr_mode ctx nonce (aes_ctr_mode ctx nonce d) = d" and "length (aes_ctr_mode ctx nonce d) = length d"
proof -
  have "\<forall>n. length (aes_encrypt ctx (ctr_block nonce n)) = 16" using assms by (simp add: length_aes_encrypt ctr_block_def be32_def)
  from ctr_stream_twice [OF this] ctr_stream_nth [OF this] show "aes_ctr_mode ctx nonce (aes_ctr_mode ctx nonce d) = d" "length (aes_ctr_mode ctx nonce d) = length d"
    by (simp_all add: aes_ctr_mode_def)
qed

lemma tpm_unseal_sealed:
  assumes "tpm_seal g tpm dat m = Some blob" and "tp_storage_root_key tpm' = tp_storage_root_key tpm"
  shows "tpm_unseal g' tpm' blob = (if pcr_composite g' tpm' m = pcr_composite g tpm m then Some dat else None)"
proof -
  let ?c = "pcr_composite g tpm m"
  define key where "key = hmac_spec (tp_storage_root_key tpm) ?c"
  define ctx where "ctx = aes_init (hkdf_key key (ascii ''TPM-SEAL'') [])"
  define body where "body = aes_ctr_mode ctx (take 12 ?c) dat"
  have lc: "length (pcr_composite g t k) = 32" for g t k by (simp add: composite_val)
  have lb: "length body = length dat" "aes_ctr_mode ctx (take 12 ?c) body = dat" using ctr_twice lc by (simp_all add: body_def)
  have blob: "blob = (le32 m @ ?c @ body) @ hmac_spec key (le32 m @ ?c @ body)"
    using assms(1) by (simp add: tpm_seal_def hmac_sha256_spec tpm_aes_val Let_def key_def ctx_def body_def split: if_splits)
  have l4: "length (le32 m) = 4" by (simp add: le32_def)
  have len: "length blob = 68 + length dat" by (simp add: blob l4 lc lb)
  have m: "mask_of_bytes blob = m" unfolding blob append_assoc by (rule mask_of_le32)
  have t1: "take 32 (drop 4 blob) = ?c" by (simp add: blob l4 lc)
  have t2: "take (length blob - 32) blob = le32 m @ ?c @ body" "drop (length blob - 32) blob = hmac_spec key (le32 m @ ?c @ body)"
    unfolding len by (simp_all add: blob l4 lc lb)
  have t3: "take (length blob - 4 - 64) (drop 36 blob) = body" unfolding len by (simp add: blob l4 lc lb)
  show ?thesis
  proof (cases "pcr_composite g' tpm' m = ?c")
    case True
    have eq: "constant_time_eq x x" for x by (simp add: constant_time_eq_def byte_diff_zero)
    have "\<not> length blob < 68" using len by simp
    then show ?thesis using True lb(2) assms(2)
      unfolding tpm_unseal_def m t1 t2 t3 hmac_sha256_spec tpm_aes_val Let_def
      by (simp add: eq key_def [symmetric] ctx_def [symmetric])
  next
    case False
    then have "\<not> constant_time_eq (pcr_composite g' tpm' m) ?c" using lc by (simp add: constant_time_eq_def byte_diff_zero)
    then show ?thesis using False unfolding tpm_unseal_def m t1 Let_def by simp
  qed
qed

lemma quote_val: "tp_pcr_count tpm = 24 \<Longrightarrow>
    qt_pcr_composite_hash (tpm_quote g tpm m nonce) = sha_digest (selected 24 m (pcr_values tpm) @ nonce)"
proof -
  assume c: "tp_pcr_count tpm = 24"
  have u: "unat (of_nat i :: u32) = i" if "i < 24" for i using that by (simp add: unat_of_nat)
  have "i < 24 \<Longrightarrow> uint (of_nat i :: u32) < 24 \<and> unat (of_nat i :: u32) = i" for i
  proof -
    assume i: "i < 24"
    have "uint (of_nat i :: u32) = int (unat (of_nat i :: u32))" by simp
    then show ?thesis using i by (simp only: u [OF i]) simp
  qed
  then have r: "tpm_pcr_read tpm (of_nat i) = Some (pcr_values tpm i)" if "i < 24" for i
    using that by (simp add: tpm_pcr_read_def c pcr_values_def not_le)
  have "for_range 0 24 (\<lambda>i c. if m AND push_bit i 1 \<noteq> 0
      then sha256_update c (case tpm_pcr_read tpm (of_nat i) of Some v \<Rightarrow> v | None \<Rightarrow> map g [0..<32]) else c) s =
    for_range 0 24 (\<lambda>i c. if m AND push_bit i 1 \<noteq> 0 then sha256_update c (pcr_values tpm i) else c) s" for s
    unfolding for_range_def by (intro fold_cong) (auto simp: r)
  then show ?thesis
    using sha_final_rep [OF sha_rep_update [OF update_selected [where n = 24 and m = m and v = "pcr_values tpm" and g = g]], of nonce]
    by (simp add: tpm_quote_def Let_def)
qed

lemma quote_verify_val: "length (qt_pcr_composite_hash q) = 32 \<Longrightarrow>
    tpm_quote_verify g q expected m nonce \<longleftrightarrow> qt_valid q \<and> qt_pcr_composite_hash q = sha_digest (selected 24 m expected @ nonce)"
  using sha_final_rep [OF sha_rep_update [OF update_selected [where n = 24 and m = m and v = expected and g = g]], of nonce]
  by (auto simp: tpm_quote_verify_def Let_def constant_time_eq_def byte_diff_zero)


lemma tpm_init_ready: "tpm_ready (fst (tpm_init g rng))" "pcr_values (fst (tpm_init g rng)) = (\<lambda>_. replicate 32 0)"
  by (simp_all add: tpm_init_def tpm_ready_def pcr_values_def SB_MAX_PCR_REGISTERS_def fun_eq_iff split: prod.split)

definition boot_image :: MiniHwSecBootImage where
  "boot_image = \<lparr>im_stage_name = replicate 32 0, im_binary_hash = replicate 32 9, im_version = 1, im_image_size = 0, im_load_address = 0,
     im_entry_point = 0, im_signer_key_id = 4, im_signature_valid = False\<rparr>"

definition boot_config :: MiniHwSecBootConfig where
  "boot_config = \<lparr>cf_anchors = [\<lparr>ta_fingerprint = [], ta_key_id = 4, ta_trusted = True\<rparr>], cf_policy = POLICY_ENFORCE,
     cf_require_attestation = True, cf_allow_debug = False, cf_lockdown_on_failure = True, cf_min_version = (\<lambda>i. if i = 1 then 2 else 0)\<rparr>"

section \<open>Properties\<close>

text \<open>
  C37: Measured boot is complete and can be replayed. Take an initialised module with 24 unlocked registers, a chain of at
  most 6 stages and a log with room for 4 events a stage. Whether the boot succeeds or not, every stage the chain reached, the
  failing one included, has been measured into the register 4 above its number: that register holds the digest of its old
  value and the digest of the stage's binary hash, and all other registers are as before. The log grows by events whose
  measurements are exactly those, in the order of the stages, and replaying them from the old registers gives the new ones,
  so that a log that explained the registers before explains them afterwards.
\<close>

theorem boot_log_replays_pcrs:
  assumes "tpm_ready tpm" and "length (bc_stages chain) \<le> SB_MAX_STAGES" and "length log + 4 * length (bc_stages chain) \<le> MAX_EVENTS"
  shows "case sb_execute_chain g chain config (tpm, log) of (ok, chain', tpm', log') \<Rightarrow>
    (\<exists>k evs. k = (if ok then length (bc_stages chain) else Suc (unat (bc_failed_stage chain'))) \<and>
      k \<le> length (bc_stages chain) \<and> log' = log @ evs \<and> pcr_values tpm' = replay evs (pcr_values tpm) \<and>
      measurements evs = map (\<lambda>i. (of_nat (i + 4), sha_digest (im_binary_hash (bc_stages chain ! i)))) [0..<k] \<and>
      (\<forall>n. pcr_values tpm' n = (if 4 \<le> n \<and> n < k + 4
         then sha_digest (pcr_values tpm n @ sha_digest (im_binary_hash (bc_stages chain ! (n - 4)))) else pcr_values tpm n)) \<and>
      (\<forall>pcrs. pcr_values tpm = replay log pcrs \<longrightarrow> pcr_values tpm' = replay log' pcrs))"
proof -
  obtain r ss tpm' log' where b: "boot_stages g config 0 (bc_stages chain) (tpm, log) = (r, ss, tpm', log')" by (metis prod_cases4)
  have "0 + length (bc_stages chain) \<le> 6" using assms(2) by (simp add: SB_MAX_STAGES_def)
  note R = boot_stages_result [OF assms(1) this assms(3) b]
  have k: "(if r = None then length (bc_stages chain) else Suc (unat (case r of None \<Rightarrow> 0 | Some i \<Rightarrow> (of_nat i :: u32)))) =
      stages_run 0 (length (bc_stages chain)) r"
  proof (cases r)
    case (Some j)
    then have "j < 6" using R assms(2) by (auto simp: first_failing_def find_index_Some SB_MAX_STAGES_def)
    then show ?thesis using Some by (simp add: stages_run_def unat_of_nat)
  qed (simp add: stages_run_def)
  let ?k = "stages_run 0 (length (bc_stages chain)) r"
  have "?k \<le> length (bc_stages chain)"
    using first_failing_bounds(3) [of r config 0 "bc_stages chain"] R by simp
  moreover
  from R obtain evs where e: "log' = log @ evs" "pcr_values tpm' = replay evs (pcr_values tpm)"
    "measurements evs = map (\<lambda>i. (of_nat (i + 4), sha_digest (im_binary_hash (bc_stages chain ! i)))) [0..<?k]"
    "\<forall>n. pcr_values tpm' n = (if 4 \<le> n \<and> n < ?k + 4
         then sha_digest (pcr_values tpm n @ sha_digest (im_binary_hash (bc_stages chain ! (n - 4)))) else pcr_values tpm n)" by auto
  have "pcr_values tpm = replay log pcrs \<longrightarrow> pcr_values tpm' = replay log' pcrs" for pcrs
    unfolding e(1,2) log_append by (rule impI) simp
  moreover have "?k = (if r = None then length (bc_stages chain) else Suc (unat (bc_failed_stage (chain\<lparr>bc_stages := ss,
      bc_boot_successful := (r = None), bc_failed_stage := (case r of Some i \<Rightarrow> of_nat i | None \<Rightarrow> 0)\<rparr>))))"
    unfolding k [symmetric] by (simp split: option.split)
  ultimately show ?thesis
    unfolding sb_execute_chain_def b prod.case using e by blast
qed

text \<open>The chain of two stages whose second one is rolled back, on a fresh module.\<close>

definition rollback_chain :: MiniHwSecBootChain where
  "rollback_chain = \<lparr>bc_stages = [boot_image, boot_image], bc_boot_successful = False, bc_failed_stage = 0\<rparr>"

definition fresh_tpm :: MiniHwSecTPM where
  "fresh_tpm = fst (tpm_init (\<lambda>_. 0) drbg_zero)"

lemma fresh_tpm: "tpm_ready fresh_tpm" "pcr_values fresh_tpm = (\<lambda>_. replicate 32 0)"
  by (simp_all add: fresh_tpm_def tpm_init_ready)

theorem boot_log_replays_pcrs_witness:
  "case sb_execute_chain (\<lambda>_. 0) rollback_chain boot_config (fresh_tpm, event_log_init) of (ok, chain', tpm', log') \<Rightarrow>
     pcr_values tpm' 4 = sha_digest (replicate 32 0 @ sha_digest (replicate 32 9)) \<and> pcr_values tpm' 23 = replicate 32 0 \<and>
     pcr_values tpm' = replay log' (\<lambda>_. replicate 32 0)"
proof -
  have "length (bc_stages rollback_chain) \<le> SB_MAX_STAGES" "length event_log_init + 4 * length (bc_stages rollback_chain) \<le> MAX_EVENTS"
    by (simp_all add: rollback_chain_def event_log_init_def SB_MAX_STAGES_def MAX_EVENTS_def)
  note T = boot_log_replays_pcrs [OF fresh_tpm(1) this, of "\<lambda>_. 0" boot_config]
  obtain ok chain' tpm' log' where r: "sb_execute_chain (\<lambda>_. 0) rollback_chain boot_config (fresh_tpm, event_log_init) = (ok, chain', tpm', log')"
    by (metis prod_cases4)
  have n: "length (bc_stages rollback_chain) = 2" by (simp add: rollback_chain_def)
  from T [unfolded r prod.case fresh_tpm(2) n] obtain k where k: "k = (if ok then 2 else Suc (unat (bc_failed_stage chain')))" "k \<le> 2"
    and v: "\<forall>n. pcr_values tpm' n = (if 4 \<le> n \<and> n < k + 4
      then sha_digest (replicate 32 0 @ sha_digest (im_binary_hash (bc_stages rollback_chain ! (n - 4)))) else replicate 32 0)"
    and p: "\<forall>pcrs. (\<lambda>_. replicate 32 0) = replay event_log_init pcrs \<longrightarrow> pcr_values tpm' = replay log' pcrs"
    by blast
  have "pcr_values tpm' 4 = sha_digest (replicate 32 0 @ sha_digest (replicate 32 9))"
    using v k(1) by (simp add: rollback_chain_def boot_image_def)
  moreover have "pcr_values tpm' = replay log' (\<lambda>_. replicate 32 0)" using p by (simp add: event_log_init_def)
  moreover have "pcr_values tpm' 23 = replicate 32 0" using v k(2) by simp
  ultimately show ?thesis using r by simp
qed

text \<open>
  C38: The chain stops at the first stage that does not pass and launches exactly the stages before it. A stage passes if it
  is not rolled back (its version below a positive minimum for its place) and, unless the policy does not enforce, its image
  is marked as signed or one of the trusted anchors has its signer's key number. If all stages pass the chain succeeds and
  all are launched; otherwise it fails and reports the number of that stage. This is for an initialised module with 24
  unlocked registers, at most 6 stages, and a log, whatever it holds, with room for 4 events a stage.
\<close>

theorem boot_stops_at_first_failure:
  assumes "tpm_ready tpm" and "length (bc_stages chain) \<le> SB_MAX_STAGES" and "length log + 4 * length (bc_stages chain) \<le> MAX_EVENTS"
  shows "case sb_execute_chain g chain config (tpm, log) of (ok, chain', tpm', log') \<Rightarrow> bc_boot_successful chain' = ok \<and>
    (case first_failing config 0 (bc_stages chain) of
       None \<Rightarrow> ok \<and> launches log' = launches log @ map of_nat [0..<length (bc_stages chain)]
     | Some i \<Rightarrow> \<not> ok \<and> bc_failed_stage chain' = of_nat i \<and> launches log' = launches log @ map of_nat [0..<i])"
proof -
  obtain r ss tpm' log' where b: "boot_stages g config 0 (bc_stages chain) (tpm, log) = (r, ss, tpm', log')" by (metis prod_cases4)
  have "0 + length (bc_stages chain) \<le> 6" using assms(2) by (simp add: SB_MAX_STAGES_def)
  from boot_stages_result [OF assms(1) this assms(3) b] show ?thesis
    by (auto simp: sb_execute_chain_def b log_append stages_launched_def split: option.split)
qed

theorem boot_stops_at_first_failure_witness:
  "case sb_execute_chain (\<lambda>_. 0) rollback_chain boot_config (fresh_tpm, event_log_init) of (ok, chain', tpm', log') \<Rightarrow>
     \<not> ok \<and> bc_failed_stage chain' = 1 \<and> launches log' = [0]"
proof -
  have f: "first_failing boot_config 0 (bc_stages rollback_chain) = Some 1"
    by (simp add: rollback_chain_def first_failing_Cons stage_passes_def rollback_def boot_config_def boot_image_def)
  have "length (bc_stages rollback_chain) \<le> SB_MAX_STAGES" "length event_log_init + 4 * length (bc_stages rollback_chain) \<le> MAX_EVENTS"
    by (simp_all add: rollback_chain_def event_log_init_def SB_MAX_STAGES_def MAX_EVENTS_def)
  from boot_stops_at_first_failure [OF fresh_tpm(1) this, where g = "\<lambda>_. 0" and config = boot_config] show ?thesis
    by (auto simp: f event_log_init_def split: prod.splits)
qed

text \<open>
  C39: Data sealed to the platform state comes back to that state and no other, up to collisions of the hash. On modules of
  24 registers with the same storage key, unsealing gives the data if the concatenated values of the registers that the mask
  selects hash to what they hashed to when the data was sealed, in particular if each selected register has its value again,
  whatever the others hold, and it is refused if they do not.
\<close>

theorem tpm_unseal_needs_state:
  assumes "tpm_seal g tpm dat m = Some blob" and "tp_storage_root_key tpm' = tp_storage_root_key tpm"
    and "tp_pcr_count tpm = 24" and "tp_pcr_count tpm' = 24"
  shows "tpm_unseal g' tpm' blob =
      (if sha_digest (concat (map (\<lambda>i. pcr_value (tp_pcrs tpm' i)) (filter (bit m) [0..<24]))) =
          sha_digest (concat (map (\<lambda>i. pcr_value (tp_pcrs tpm i)) (filter (bit m) [0..<24])))
       then Some dat else None) \<and>
    ((\<forall>i < 24. bit m i \<longrightarrow> pcr_value (tp_pcrs tpm' i) = pcr_value (tp_pcrs tpm i)) \<longrightarrow> tpm_unseal g' tpm' blob = Some dat)"
proof -
  have v: "pcr_composite g t m = sha_digest (concat (map (\<lambda>i. pcr_value (tp_pcrs t i)) (filter (bit m) [0..<24])))"
    if "tp_pcr_count t = 24" for g t
    using that by (simp add: composite_val selected_def pcr_values_def [abs_def])
  have u: "tpm_unseal g' tpm' blob =
      (if sha_digest (concat (map (\<lambda>i. pcr_value (tp_pcrs tpm' i)) (filter (bit m) [0..<24]))) =
          sha_digest (concat (map (\<lambda>i. pcr_value (tp_pcrs tpm i)) (filter (bit m) [0..<24])))
       then Some dat else None)"
    unfolding tpm_unseal_sealed [OF assms(1,2), of g'] v [OF assms(3)] v [OF assms(4)] by (rule refl)
  have "tpm_unseal g' tpm' blob = Some dat" if "\<forall>i < 24. bit m i \<longrightarrow> pcr_value (tp_pcrs tpm' i) = pcr_value (tp_pcrs tpm i)"
  proof -
    have e: "map (\<lambda>i. pcr_value (tp_pcrs tpm' i)) (filter (bit m) [0..<24]) = map (\<lambda>i. pcr_value (tp_pcrs tpm i)) (filter (bit m) [0..<24])"
      using that by (intro map_cong) auto
    show ?thesis unfolding u e by (rule if_P [OF refl])
  qed
  with u show ?thesis by blast
qed

theorem tpm_unseal_needs_state_witness:
  "\<exists>blob. tpm_seal (\<lambda>_. 0) fresh_tpm [1, 2, 3] 5 = Some blob \<and>
     tpm_unseal (\<lambda>_. 0) (snd (tpm_extend (\<lambda>_. 0) fresh_tpm 1 [7])) blob = Some [1, 2, 3]"
proof -
  let ?t = "snd (tpm_extend (\<lambda>_. 0) fresh_tpm 1 [7])"
  obtain blob where b: "tpm_seal (\<lambda>_. 0) fresh_tpm [1, 2, 3] 5 = Some blob"
    by (simp add: tpm_seal_def tpm_aes_val Let_def)
  have c: "tp_pcr_count fresh_tpm = 24" "tp_pcr_count ?t = 24" "tp_storage_root_key ?t = tp_storage_root_key fresh_tpm"
    using fresh_tpm(1) by (simp_all add: tpm_ready_def tpm_extend_def)
  have "i \<noteq> 1" if "bit (5 :: u32) i" for i using that by (auto simp: bit_simps)
  then have "\<forall>i < 24. bit (5 :: u32) i \<longrightarrow> pcr_value (tp_pcrs ?t i) = pcr_value (tp_pcrs fresh_tpm i)"
    by (auto simp: tpm_extend_def)
  with tpm_unseal_needs_state [OF b c(3,1,2), of "\<lambda>_. 0"] b show ?thesis by blast
qed

text \<open>
  A quote is accepted whatever its signature is: the verifier compares the digest of the expected registers and the nonce
  with the digest in the quote and reads nothing else, so that anyone can write an acceptable quote.
\<close>

theorem tpm_quote_signature_ignored:
  assumes "tp_pcr_count tpm = 24"
  shows "tpm_quote_verify g' ((tpm_quote g tpm m nonce)\<lparr>qt_signature := sig\<rparr>) expected m nonce' \<longleftrightarrow>
    sha_digest (selected 24 m (pcr_values tpm) @ nonce) = sha_digest (selected 24 m expected @ nonce')"
  using quote_val [OF assms, of g m nonce] by (simp add: quote_verify_val) (simp add: tpm_quote_def Let_def)

theorem tpm_quote_signature_ignored_witness:
  "tpm_quote_verify (\<lambda>_. 0) ((tpm_quote (\<lambda>_. 0) (fst (tpm_init (\<lambda>_. 0) drbg_zero)) 7 [1])\<lparr>qt_signature := []\<rparr>) (\<lambda>_. replicate 32 0) 7 [1]"
proof -
  have "tp_pcr_count (fst (tpm_init (\<lambda>_. 0) drbg_zero)) = 24" using tpm_init_ready(1) [of "\<lambda>_. 0" drbg_zero] by (simp add: tpm_ready_def)
  from tpm_quote_signature_ignored [OF this] show ?thesis by (simp add: tpm_init_ready)
qed

end
