(* ===== verification/Mac.thy ===== *)
theory Mac
  imports Prelude
begin

text \<open>
  Ethernet frames of \<^verbatim>\<open>mini-network-hardware/src/mac.c\<close>: the table-driven frame check sequence, the
  construction of a frame and its check.  A buffer is a list of bytes, a pointer that may be NULL an
  option.  \<open>None\<close> is a copy that reads past its source or from NULL; allocations succeed.
\<close>

unbundle bit_operations_syntax

section \<open>Data\<close>

definition ETHERNET_MTU :: nat where "ETHERNET_MTU = 1500"
definition MAC_CRC32_POLY :: u32 where "MAC_CRC32_POLY = 0xEDB88320"

record MACFrame =
  mf_dst_mac :: bytes
  mf_src_mac :: bytes
  mf_ethertype :: u16
  mf_payload :: "u8 arr"
  mf_payload_len :: u16
  mf_fcs :: u32

record MACStats =
  frames_tx :: u64
  frames_rx :: u64
  collisions :: u64
  mac_errors :: u64

section \<open>Frame check sequence\<close>

text \<open>One bit of the division, and the entry of the table: eight of them.\<close>

definition crc_bit_step :: "u32 \<Rightarrow> u32" where
  "crc_bit_step c = (if c AND 1 \<noteq> 0 then MAC_CRC32_POLY XOR drop_bit 1 c else drop_bit 1 c)"

definition crc_table :: "nat \<Rightarrow> u32" where
  "crc_table i = for_range 0 8 (\<lambda>_. crc_bit_step) (of_nat i)"

definition crc_byte :: "u32 \<Rightarrow> u8 \<Rightarrow> u32" where
  "crc_byte crc b = crc_table (unat ((crc XOR ucast b) AND 0xFF)) XOR drop_bit 8 crc"

definition mac_crc32 :: "bytes \<Rightarrow> u32" where
  "mac_crc32 dat = foldl crc_byte 0xFFFFFFFF dat XOR 0xFFFFFFFF"

section \<open>Frames\<close>

text \<open>The bytes that the check sequence covers, in the order of \<open>crc_buf\<close>.\<close>

definition crc_buf :: "MACFrame \<Rightarrow> bytes" where
  "crc_buf f = mf_dst_mac f @ mf_src_mac f @ [ucast (drop_bit 8 (mf_ethertype f)), ucast (mf_ethertype f AND 0xFF)] @
     map (mf_payload f) [0..<unat (mf_payload_len f)]"

definition copy_payload :: "bytes option \<Rightarrow> nat \<Rightarrow> u8 arr option" where
  "copy_payload payload n =
     (case payload of None \<Rightarrow> None
      | Some p \<Rightarrow> if n \<le> length p then Some (\<lambda>i. if i < n then p ! i else 0) else None)"

definition mac_frame_build :: "bytes \<Rightarrow> bytes \<Rightarrow> u16 \<Rightarrow> bytes option \<Rightarrow> int \<Rightarrow> MACFrame option" where
  "mac_frame_build dst src ethertype payload len =
     (if length dst < 6 \<or> length src < 6 then None
      else
        let f = \<lparr>mf_dst_mac = take 6 dst, mf_src_mac = take 6 src, mf_ethertype = ethertype,
                 mf_payload = (\<lambda>_. 0), mf_payload_len = 0, mf_fcs = 0\<rparr>;
            filled =
              (if payload \<noteq> None \<and> len > 0 \<and> len \<le> int ETHERNET_MTU
               then map_option (\<lambda>b. f\<lparr>mf_payload := b, mf_payload_len := word_of_int len\<rparr>) (copy_payload payload (nat len))
               else if len > int ETHERNET_MTU
               then map_option (\<lambda>b. f\<lparr>mf_payload := b, mf_payload_len := of_nat ETHERNET_MTU\<rparr>) (copy_payload payload ETHERNET_MTU)
               else Some f)
        in map_option (\<lambda>f. f\<lparr>mf_fcs := mac_crc32 (crc_buf f)\<rparr>) filled)"

definition mac_frame_check :: "MACFrame \<Rightarrow> bool" where
  "mac_frame_check f \<longleftrightarrow> mac_crc32 (crc_buf f) = mf_fcs f"

section \<open>Statistics\<close>

definition mac_stats_init :: MACStats where
  "mac_stats_init = \<lparr>frames_tx = 0, frames_rx = 0, collisions = 0, mac_errors = 0\<rparr>"

definition mac_stats_record_tx :: "MACStats \<Rightarrow> MACStats" where
  "mac_stats_record_tx s = s\<lparr>frames_tx := frames_tx s + 1\<rparr>"
definition mac_stats_record_rx :: "MACStats \<Rightarrow> MACStats" where
  "mac_stats_record_rx s = s\<lparr>frames_rx := frames_rx s + 1\<rparr>"
definition mac_stats_record_collision :: "MACStats \<Rightarrow> MACStats" where
  "mac_stats_record_collision s = s\<lparr>collisions := collisions s + 1\<rparr>"
definition mac_stats_record_error :: "MACStats \<Rightarrow> MACStats" where
  "mac_stats_record_error s = s\<lparr>mac_errors := mac_errors s + 1\<rparr>"

section \<open>The division is linear and reversible\<close>

lemma crc_bit_step_bit: "crc_bit_step c = (if bit c 0 then MAC_CRC32_POLY XOR drop_bit 1 c else drop_bit 1 c)"
  by (simp add: crc_bit_step_def and_one_eq even_iff_mod_2_eq_zero [symmetric] bit_0)

lemma bit_crc_bit_step: "bit (crc_bit_step c) n \<longleftrightarrow> bit c (Suc n) \<noteq> (bit c 0 \<and> bit MAC_CRC32_POLY n)"
  by (auto simp: crc_bit_step_bit bit_simps)

lemma crc_bit_step_xor: "crc_bit_step (a XOR b) = crc_bit_step a XOR crc_bit_step b"
  by (rule bit_word_eqI) (auto simp: bit_crc_bit_step bit_xor_iff)

lemma crc_bits_xor: "(crc_bit_step ^^ n) (a XOR b) = (crc_bit_step ^^ n) a XOR (crc_bit_step ^^ n) b"
  by (induction n) (simp_all add: crc_bit_step_xor)

text \<open>The polynomial has its top bit, so the bit that a step shifts out can be read off the result.\<close>

lemma crc_bit_step_inj: "crc_bit_step a = crc_bit_step b \<Longrightarrow> a = b"
proof -
  assume eq: "crc_bit_step a = crc_bit_step b"
  have "bit (crc_bit_step c) 31 = bit c 0" for c
    using bit_imp_le_length [of c 32] by (auto simp: bit_crc_bit_step MAC_CRC32_POLY_def)
  then have low: "bit a 0 = bit b 0" using eq by metis
  have "bit a (Suc n) = bit b (Suc n)" for n
    using bit_crc_bit_step [of a n] bit_crc_bit_step [of b n] eq low by auto
  then show "a = b" using low by (intro bit_word_eqI) (metis not0_implies_Suc)
qed

lemma crc_bits_inj: "(crc_bit_step ^^ n) a = (crc_bit_step ^^ n) b \<Longrightarrow> a = b"
  by (induction n) (auto dest: crc_bit_step_inj)

text \<open>While the low bits are zero a step is a shift.\<close>

lemma crc_bits_shift: "(\<And>i. i < n \<Longrightarrow> \<not> bit c i) \<Longrightarrow> (crc_bit_step ^^ n) c = drop_bit n c"
proof (induction n arbitrary: c)
  case (Suc n)
  have "crc_bit_step c = drop_bit 1 c"
    using Suc.prems [of 0] by (simp only: crc_bit_step_bit zero_less_Suc if_False)
  moreover have "\<not> bit (drop_bit 1 c) i" if "i < n" for i
    using Suc.prems [of "Suc i"] that by (simp add: bit_simps)
  ultimately show ?case using Suc.IH [of "drop_bit 1 c"] by (simp add: funpow_swap1)
qed simp

text \<open>A byte of input is eight steps on the register with the byte added to it.\<close>

lemma crc_byte_bits: "crc_byte crc b = (crc_bit_step ^^ 8) (crc XOR ucast b)"
proof -
  let ?x = "crc XOR ucast b" and ?hi = "NOT (mask 8) :: u32"
  have m: "(0xFF :: u32) = mask 8" by (simp add: mask_eq_exp_minus_1)
  have tab: "crc_table (unat (?x AND mask 8)) = (crc_bit_step ^^ 8) (?x AND mask 8)"
    by (simp add: crc_table_def for_range_funpow)
  have split: "?x = (?x AND mask 8) XOR (?x AND ?hi)" by (rule bit_word_eqI) (auto simp: bit_simps)
  have "(crc_bit_step ^^ 8) (?x AND ?hi) = drop_bit 8 (?x AND ?hi)"
    by (rule crc_bits_shift) (auto simp: bit_simps)
  also have "\<dots> = drop_bit 8 crc"
    by (rule bit_word_eqI) (auto simp: bit_simps dest: bit_imp_le_length)
  finally have "(crc_bit_step ^^ 8) ?x = (crc_bit_step ^^ 8) (?x AND mask 8) XOR drop_bit 8 crc"
    using arg_cong [OF split, of "crc_bit_step ^^ 8"] unfolding crc_bits_xor by simp
  then show ?thesis unfolding crc_byte_def m tab by simp
qed

lemma crc_byte_inj: "crc_byte c b = crc_byte d b \<Longrightarrow> c = d"
  unfolding crc_byte_bits by (drule crc_bits_inj) simp

lemma crc_bytes_inj: "foldl crc_byte c xs = foldl crc_byte d xs \<Longrightarrow> c = d"
  by (induction xs arbitrary: c d) (auto dest: crc_byte_inj)

section \<open>Bursts\<close>

text \<open>Up to four bytes as one word, the first byte lowest.\<close>

definition burst :: "bytes \<Rightarrow> u32" where
  "burst xs = foldr (\<lambda>b w. ucast b XOR push_bit 8 w) xs 0"

lemma burst_simps [simp]: "burst [] = 0" "burst (b # xs) = ucast b XOR push_bit 8 (burst xs)"
  by (simp_all add: burst_def)

lemma bit_burst: "bit (burst xs) i \<Longrightarrow> i < 8 * length xs"
proof (induction xs arbitrary: i)
  case (Cons b xs)
  have "bit (burst xs) (i - 8) \<longrightarrow> i < 8 + 8 * length xs" using Cons.IH [of "i - 8"] by linarith
  with Cons.prems show ?case by (auto simp: bit_simps dest: bit_imp_le_length)
qed simp

lemma drop_push_burst: "length xs \<le> 3 \<Longrightarrow> drop_bit 8 (push_bit 8 (burst xs)) = burst xs"
  by (rule bit_word_eqI) (use bit_burst [of xs] in \<open>force simp: bit_simps\<close>)

lemma burst_inj: "length xs = length ys \<Longrightarrow> length xs \<le> 4 \<Longrightarrow> burst xs = burst ys \<Longrightarrow> xs = ys"
proof (induction xs ys rule: list_induct2)
  case (Cons x xs y ys)
  have low: "take_bit 8 (burst (b # zs)) = ucast b" for b zs
    by (rule bit_word_eqI) (auto simp: bit_simps dest: bit_imp_le_length)
  have high: "drop_bit 8 (burst (b # zs)) = burst zs" if "length zs \<le> 3" for b zs
  proof -
    have "drop_bit 8 (ucast b :: u32) = 0" by (rule bit_word_eqI) (auto simp: bit_simps dest: bit_imp_le_length)
    then show ?thesis using drop_push_burst [OF that] by (simp add: drop_bit_xor)
  qed
  have eq: "(ucast x :: u32) = ucast y" "burst xs = burst ys"
    using low [of x xs] low [of y ys] high [of xs x] high [of ys y] Cons by (simp_all del: burst_simps)
  then have "x = y" by (auto simp: bit_eq_iff bit_simps)
  then show ?case using Cons eq by simp
qed simp

lemma crc_burst: "length xs \<le> 4 \<Longrightarrow> foldl crc_byte c xs = (crc_bit_step ^^ (8 * length xs)) (c XOR burst xs)"
proof (induction xs arbitrary: c)
  case (Cons b xs)
  have "(crc_bit_step ^^ 8) (push_bit 8 (burst xs)) = burst xs"
    using crc_bits_shift [of 8 "push_bit 8 (burst xs)"] drop_push_burst [of xs] Cons.prems by (simp add: bit_simps)
  then have "crc_byte c b XOR burst xs = (crc_bit_step ^^ 8) (c XOR burst (b # xs))"
    using crc_bits_xor [of 8 "c XOR ucast b" "push_bit 8 (burst xs)"]
    by (simp only: crc_byte_bits burst_simps xor.assoc)
  moreover have "foldl crc_byte c (b # xs) = (crc_bit_step ^^ (8 * length xs)) (crc_byte c b XOR burst xs)"
    using Cons.IH [of "crc_byte c b"] Cons.prems by (simp del: burst_simps)
  moreover have "8 * length (b # xs) = 8 * length xs + 8" by simp
  ultimately show ?case by (simp only: funpow_add o_apply)
qed simp

section \<open>Properties\<close>

text \<open>
  The table-driven frame check sequence is the bit-serial division: every byte is added to the low
  end of the register, which is then shifted eight times.
\<close>

theorem mac_crc32_bit_serial:
  "mac_crc32 xs = NOT (foldl (\<lambda>c b. (crc_bit_step ^^ 8) (c XOR ucast b)) (NOT 0) xs)"
proof -
  have "crc_byte = (\<lambda>c b. (crc_bit_step ^^ 8) (c XOR ucast b))" by (intro ext crc_byte_bits)
  moreover have m: "(0xFFFFFFFF :: u32) = - 1" by simp
  ultimately show ?thesis unfolding mac_crc32_def m by simp
qed

text \<open>
  C22: The check sequence detects every corruption that is confined to four consecutive bytes, at any
  place of a buffer of any length.
\<close>

theorem mac_crc32_detects_burst:
  assumes "length u = length v" and "length u \<le> 4" and "u \<noteq> v"
  shows "mac_crc32 (p @ u @ s) \<noteq> mac_crc32 (p @ v @ s)"
proof
  assume "mac_crc32 (p @ u @ s) = mac_crc32 (p @ v @ s)"
  then have "foldl crc_byte 0xFFFFFFFF (p @ u @ s) = foldl crc_byte 0xFFFFFFFF (p @ v @ s)"
    by (simp only: mac_crc32_def) simp
  then have "foldl crc_byte (foldl crc_byte 0xFFFFFFFF p) u = foldl crc_byte (foldl crc_byte 0xFFFFFFFF p) v"
    by (auto dest: crc_bytes_inj)
  then have "burst u = burst v"
    using assms by (auto simp: crc_burst dest: crc_bits_inj)
  then show False using burst_inj assms by blast
qed

theorem mac_crc32_detects_burst_witness:
  "mac_crc32 ([1, 2] @ [3, 4, 5, 6] @ [7]) \<noteq> mac_crc32 ([1, 2] @ [3, 9, 5, 0] @ [7])"
  by (rule mac_crc32_detects_burst) simp_all

lemma mac_frame_build_cases:
  assumes "mac_frame_build dst src et payload len = Some f"
  shows "mf_fcs f = mac_crc32 (crc_buf f) \<and> mf_dst_mac f = take 6 dst \<and> mf_src_mac f = take 6 src \<and>
    mf_ethertype f = et \<and> unat (mf_payload_len f) = (if payload = None then 0 else nat (min len 1500)) \<and>
    (\<forall>p. payload = Some p \<longrightarrow> (\<forall>i < unat (mf_payload_len f). mf_payload f i = p ! i))"
proof -
  have u: "unat (word_of_int len :: u16) = nat len" "uint (word_of_int len :: u16) = len" if "0 < len" "len \<le> 1500"
    using that by (simp_all add: unat_eq_nat_uint uint_word_of_int)
  show ?thesis using assms
    by (auto simp: mac_frame_build_def copy_payload_def ETHERNET_MTU_def crc_buf_def u Let_def split: if_splits option.splits)
qed

text \<open>
  A frame that was built passes the check, carries the addresses and the type given, and exactly
  the first \<open>min len 1500\<close> bytes of the payload: longer payloads are cut without an error.
\<close>

theorem mac_frame_build_check:
  assumes "mac_frame_build dst src et (Some p) len = Some f"
  shows "mac_frame_check f \<and> crc_buf f = take 6 dst @ take 6 src @ [ucast (drop_bit 8 et), ucast (et AND 0xFF)] @
    take (nat (min len 1500)) p"
proof -
  note f = mac_frame_build_cases [OF assms]
  have n: "unat (mf_payload_len f) = nat (min len 1500)" using f by simp
  have "nat (min len 1500) \<le> length p"
    using assms by (auto simp: mac_frame_build_def copy_payload_def ETHERNET_MTU_def Let_def split: if_splits option.splits)
  then have "map (mf_payload f) [0..<nat (min len 1500)] = take (nat (min len 1500)) p"
    using f by (intro nth_equalityI) (simp_all add: n)
  then show ?thesis using f by (simp add: mac_frame_check_def crc_buf_def n)
qed

theorem mac_frame_build_check_witness:
  "\<exists>f. mac_frame_build [1,2,3,4,5,6] [7,8,9,10,11,12] 0x0800 (Some [0xAA, 0xBB, 0xCC]) 2 = Some f \<and> mac_frame_check f"
proof -
  obtain f where f: "mac_frame_build [1,2,3,4,5,6] [7,8,9,10,11,12] 0x0800 (Some [0xAA, 0xBB, 0xCC]) 2 = Some f"
    by (simp add: mac_frame_build_def copy_payload_def ETHERNET_MTU_def Let_def)
  then show ?thesis using mac_frame_build_check [OF f] by blast
qed

end
