(* ===== verification/Offload.thy ===== *)
theory Offload
  imports Mac
begin

text \<open>
  The offload engine of \<^verbatim>\<open>mini-network-hardware/src/offload.c\<close>: the Internet checksum, the segmentation
  of a packet and the merging of received packets.  \<open>None\<close> is a copy outside a buffer or an overflow of
  a signed sum.
\<close>

unbundle bit_operations_syntax

section \<open>Data\<close>

datatype OffloadType = OFFLOAD_TSO | OFFLOAD_LRO | OFFLOAD_CSUM | OFFLOAD_IPSEC | OFFLOAD_TLS | OFFLOAD_GRO

record OffloadEngine =
  oe_type :: OffloadType
  oe_enabled :: bool
  packets_offloaded :: u64
  bytes_saved :: u64

definition offload_engine_create :: "OffloadType \<Rightarrow> OffloadEngine" where
  "offload_engine_create ty = \<lparr>oe_type = ty, oe_enabled = True, packets_offloaded = 0, bytes_saved = 0\<rparr>"

section \<open>Checksum\<close>

definition csum_word :: "u8 \<Rightarrow> u8 \<Rightarrow> u16" where
  "csum_word a b = ucast (push_bit 8 (ucast a :: u32) OR ucast b)"

text \<open>The loop over pairs of bytes, and the odd byte at the end.\<close>

fun csum_sum :: "bytes \<Rightarrow> u32 \<Rightarrow> u32" where
  "csum_sum (a # b # xs) s = csum_sum xs (s + ucast (csum_word a b))"
| "csum_sum [a] s = s + ucast (csum_word a 0)"
| "csum_sum [] s = s"

lemma csum_fold_step: "unat ((s AND 0xFFFF) + drop_bit 16 s) = unat s mod 65536 + unat s div 65536" for s :: u32
proof -
  have m: "(0xFFFF :: u32) = mask 16" by (simp add: mask_eq_exp_minus_1)
  have "unat (s AND 0xFFFF) = unat s mod 65536" unfolding m by (simp add: take_bit_eq_mask [symmetric] unsigned_take_bit_eq take_bit_eq_mod unat_mod)
  moreover have "unat (drop_bit 16 s) = unat s div 65536" by (simp add: drop_bit_eq_div unat_div)
  moreover have "unat s div 65536 < 65536" using unat_less_u32 [of s] by simp
  moreover have "unat s mod 65536 < 65536" by simp
  ultimately have "unat (s AND 0xFFFF) + unat (drop_bit 16 s) < 2 ^ LENGTH(32)" by simp
  then have "unat ((s AND 0xFFFF) + drop_bit 16 s) = unat (s AND 0xFFFF) + unat (drop_bit 16 s)"
    by (simp only: unat_add_lem)
  then show ?thesis using \<open>unat (s AND 0xFFFF) = _\<close> \<open>unat (drop_bit 16 s) = _\<close> by simp
qed

lemma csum_fold_cond: "drop_bit 16 s \<noteq> 0 \<longleftrightarrow> 65536 \<le> unat s" for s :: u32
proof -
  have "drop_bit 16 s = 0 \<longleftrightarrow> unat (drop_bit 16 s) = 0" by (simp add: unat_eq_0)
  then show ?thesis by (simp add: drop_bit_eq_div unat_div div_eq_0_iff not_less)
qed

text \<open>\<open>while (sum >> 16)\<close>\<close>

function csum_fold :: "u32 \<Rightarrow> u32" where
  "csum_fold s = (if drop_bit 16 s \<noteq> 0 then csum_fold ((s AND 0xFFFF) + drop_bit 16 s) else s)"
  by pat_completeness auto
termination
proof (relation "measure unat")
  fix s :: u32 assume "drop_bit 16 s \<noteq> 0"
  then have "65536 \<le> unat s" by (simp only: csum_fold_cond)
  then have "unat s mod 65536 + unat s div 65536 < unat s"
    using div_mult_mod_eq [of "unat s" 65536] by linarith
  then show "((s AND 0xFFFF) + drop_bit 16 s, s) \<in> measure unat" by (simp only: in_measure csum_fold_step)
qed simp

declare csum_fold.simps [simp del]

definition offload_csum_compute :: "bytes \<Rightarrow> u16" where
  "offload_csum_compute dat = ucast (NOT (csum_fold (csum_sum dat 0)))"

definition offload_checksum_verify :: "bytes \<Rightarrow> u16 \<Rightarrow> bool" where
  "offload_checksum_verify dat expected_csum \<longleftrightarrow> offload_csum_compute dat = expected_csum"

section \<open>Segmentation and merging\<close>

definition tso_copy :: "bytes \<Rightarrow> nat \<Rightarrow> nat \<Rightarrow> nat \<Rightarrow> u8 arr \<Rightarrow> u8 arr" where
  "tso_copy packet len mss i segs =
     (let offset = i * mss; remain = len - offset; seg_len = (if remain < mss then remain else mss)
      in (\<lambda>j. if offset \<le> j \<and> j < offset + seg_len then packet ! j
             else if seg_len < mss \<and> offset + seg_len \<le> j \<and> j < offset + mss then 0 else segs j))"

text \<open>The result: return code, buffer of segments, number of segments, engine.\<close>

definition offload_tso_segment ::
  "OffloadEngine \<Rightarrow> bytes \<Rightarrow> int \<Rightarrow> int \<Rightarrow> u8 arr \<Rightarrow> (int \<times> u8 arr \<times> nat \<times> OffloadEngine) option" where
  "offload_tso_segment eng packet len mss fresh =
     (if len \<le> 0 \<or> mss \<le> 0 then Some (-1, fresh, 0, eng)
      else if len + mss - 1 > INT_MAX \<or> int (length packet) < len then None
      else let n = nat ((len + mss - 1) div mss)
           in Some (0, for_range 0 n (tso_copy packet (nat len) (nat mss)) fresh, n,
                eng\<lparr>packets_offloaded := packets_offloaded eng + 1,
                    bytes_saved := bytes_saved eng + word_of_int len\<rparr>))"

text \<open>\<open>for (i = 0; i < n_packets && packets[i]; i++)\<close>; \<open>cap\<close> is the size of \<open>merged\<close>.\<close>

fun lro_loop :: "nat \<Rightarrow> bytes option list \<Rightarrow> bytes \<Rightarrow> bytes option" where
  "lro_loop cap (Some p # ps) merged =
     (if length p < ETHERNET_MTU \<or> cap < length merged + ETHERNET_MTU \<or> int (length merged + ETHERNET_MTU) > INT_MAX then None
      else lro_loop cap ps (merged @ take ETHERNET_MTU p))"
| "lro_loop cap (None # ps) merged = Some merged"
| "lro_loop cap [] merged = Some merged"

definition offload_lro_merge :: "OffloadEngine \<Rightarrow> nat \<Rightarrow> bytes option list \<Rightarrow> (bytes \<times> OffloadEngine) option" where
  "offload_lro_merge eng cap packets =
     (case lro_loop cap packets [] of
        None \<Rightarrow> None
      | Some merged \<Rightarrow> Some (merged, eng\<lparr>packets_offloaded := packets_offloaded eng + 1,
          bytes_saved := bytes_saved eng + of_nat (length merged)\<rparr>))"

section \<open>The checksum as a ones' complement sum\<close>

fun word_sum :: "bytes \<Rightarrow> nat" where
  "word_sum (a # b # xs) = 256 * unat a + unat b + word_sum xs"
| "word_sum [a] = 256 * unat a"
| "word_sum [] = 0"

text \<open>Addition with end-around carry.\<close>

definition ones_fold :: "nat \<Rightarrow> nat" where
  "ones_fold n = (if n = 0 then 0 else Suc ((n - 1) mod 65535))"

lemma unat_csum_word: "unat (csum_word a b) = 256 * unat a + unat b"
proof -
  have "push_bit 8 (ucast a :: u32) OR ucast b = push_bit 8 (ucast a) + ucast b"
    by (rule disjunctive_add [symmetric]) (auto simp: bit_simps dest: bit_imp_le_length)
  moreover have "unat (push_bit 8 (ucast a :: u32)) = 256 * unat a"
    using unat_less_u8 [of a] by (simp add: push_bit_eq_mult unat_word_ariths unsigned_ucast_eq take_bit_eq_mod)
  ultimately have "unat (push_bit 8 (ucast a :: u32) OR ucast b) = 256 * unat a + unat b"
    using unat_less_u8 [of a] unat_less_u8 [of b] by (simp add: unat_word_ariths unsigned_ucast_eq take_bit_eq_mod)
  then show ?thesis
    using unat_less_u8 [of a] unat_less_u8 [of b] by (simp add: csum_word_def unsigned_ucast_eq take_bit_eq_mod)
qed

lemma word_sum_le: "word_sum xs \<le> 65535 * ((length xs + 1) div 2)"
proof (induction xs rule: word_sum.induct)
  case (1 a b xs)
  then show ?case using unat_less_u8 [of a] unat_less_u8 [of b] by simp
next
  case (2 a)
  then show ?case using unat_less_u8 [of a] by simp
qed simp

lemma csum_sum_val: "unat s + word_sum xs < 4294967296 \<Longrightarrow> unat (csum_sum xs s) = unat s + word_sum xs"
proof (induction xs s rule: csum_sum.induct)
  case (1 a b xs s)
  have "unat (s + ucast (csum_word a b)) = unat s + (256 * unat a + unat b)"
    using 1(2) by (simp add: unat_word_ariths unsigned_ucast_eq take_bit_eq_mod unat_csum_word)
  with 1 show ?case by simp
next
  case (2 a s)
  then show ?case by (simp add: unat_word_ariths unsigned_ucast_eq take_bit_eq_mod unat_csum_word)
qed simp

lemma ones_fold_small: "n < 65536 \<Longrightarrow> ones_fold n = n"
  by (simp add: ones_fold_def)

lemma ones_fold_step: "ones_fold (n mod 65536 + n div 65536) = ones_fold n" if "65536 \<le> n"
proof -
  let ?m = "n mod 65536 + n div 65536"
  have pos: "0 < n div 65536" using that by (simp add: div_greater_zero_iff)
  have "n = ?m + 65535 * (n div 65536)" using div_mult_mod_eq [of n 65536] by linarith
  then have "n - 1 = (?m - 1) + 65535 * (n div 65536)" using pos by linarith
  then have "(n - 1) mod 65535 = (?m - 1) mod 65535" by (metis mod_mult_self2)
  then show ?thesis using that pos by (auto simp: ones_fold_def)
qed

lemma csum_fold_val: "unat (csum_fold s) = ones_fold (unat s)"
proof (induction s rule: csum_fold.induct)
  case (1 s)
  show ?case
  proof (cases "65536 \<le> unat s")
    case True
    then have "csum_fold s = csum_fold ((s AND 0xFFFF) + drop_bit 16 s)"
      using csum_fold.simps [of s] csum_fold_cond [of s] by simp
    then show ?thesis using 1 True csum_fold_cond [of s] csum_fold_step [of s] ones_fold_step [OF True] by simp
  next
    case False
    then have "csum_fold s = s" using csum_fold.simps [of s] csum_fold_cond [of s] by simp
    then show ?thesis using False by (simp add: ones_fold_small)
  qed
qed

lemma ones_fold_le: "ones_fold n \<le> 65535"
  using mod_less_divisor [of 65535 "n - 1"] by (simp add: ones_fold_def Suc_le_eq)

lemma csum_compute_val:
  assumes "length xs \<le> 131074"
  shows "unat (offload_csum_compute xs) = 65535 - ones_fold (word_sum xs)"
proof -
  have "(length xs + 1) div 2 \<le> 65537" using assms by simp
  then have "word_sum xs \<le> 65535 * 65537" using word_sum_le [of xs] by (meson le_trans mult_le_mono2)
  then have s: "unat (csum_fold (csum_sum xs 0)) = ones_fold (word_sum xs)"
    using csum_sum_val [of 0 xs] by (simp add: csum_fold_val)
  let ?f = "csum_fold (csum_sum xs 0)"
  have "NOT ?f = - 1 - ?f" by (simp add: not_eq_complement)
  then have "unat (NOT ?f) = unat (- 1 :: u32) - unat ?f" using unat_sub [of ?f "- 1"] by simp
  then have "unat (NOT ?f) = 4294967295 - unat ?f" by (simp add: unsigned_minus_1_eq_mask mask_eq_exp_minus_1)
  moreover have "unat ?f \<le> 65535" unfolding s by (rule ones_fold_le)
  ultimately have "unat (NOT ?f) = 4294901760 + (65535 - unat ?f)" by simp
  moreover have "(4294901760 + k) mod 65536 = k" if "k < 65536" for k :: nat
    using mod_mult_self3 [of 65535 65536 k] that by simp
  ultimately show ?thesis by (simp add: offload_csum_compute_def unsigned_ucast_eq take_bit_eq_mod s)
qed

section \<open>Segments\<close>

lemma tso_copies:
  assumes mss: "0 < mss" and n: "\<And>i. i < n \<Longrightarrow> i * mss < len"
  shows "for_range 0 n (tso_copy packet len mss) fresh =
    (\<lambda>j. if j < n * mss then (if j < len then packet ! j else 0) else fresh j)"
proof -
  let ?I = "\<lambda>i segs. segs = (\<lambda>j. if j < i * mss then (if j < len then packet ! j else 0) else fresh j)"
  show ?thesis
  proof (rule for_range_invariant [where I = ?I])
    fix i segs assume "i < n" and I: "?I i segs"
    then have "i * mss < len" by (rule_tac n)
    then show "?I (Suc i) (tso_copy packet len mss i segs)"
      by (intro ext) (auto simp: tso_copy_def Let_def I)
  qed simp_all
qed

lemma tso_count:
  assumes "0 < len" and "0 < (mss :: int)" and "n = nat ((len + mss - 1) div mss)"
  shows "nat len \<le> n * nat mss \<and> n * nat mss < nat len + nat mss \<and> (\<forall>i < n. i * nat mss < nat len)"
proof -
  let ?q = "(len + mss - 1) div mss"
  have q: "?q * mss \<le> len + mss - 1" "len + mss - 1 < ?q * mss + mss"
    using assms(2) div_mult_mod_eq [of "len + mss - 1" mss] pos_mod_bound [of mss "len + mss - 1"]
      pos_mod_sign [of mss "len + mss - 1"] by linarith+
  have pos: "0 \<le> ?q" using assms by (intro pos_imp_zdiv_nonneg_iff [THEN iffD2]) auto
  then have n: "int n * mss = ?q * mss" "int (n * nat mss) = ?q * mss" using assms by simp_all
  have "int (i * nat mss) < len" if "i < n" for i
  proof -
    have "(int i + 1) * mss \<le> ?q * mss" using that assms(2,3) by (intro mult_right_mono) auto
    then show ?thesis using q assms(2) by (simp add: algebra_simps)
  qed
  then have "i * nat mss < nat len" if "i < n" for i using that zless_nat_eq_int_zless by blast
  moreover have "nat len \<le> n * nat mss" using q n(2) by linarith
  moreover have "n * nat mss < nat len + nat mss" using q n(2) assms by linarith
  ultimately show ?thesis by blast
qed

lemma tso_segment_result:
  assumes "0 < len" and "0 < mss" and "offload_tso_segment eng packet len mss fresh = Some (r, segs, n, eng')"
  shows "r = 0 \<and> n = nat ((len + mss - 1) div mss) \<and> nat len \<le> length packet \<and>
    segs = for_range 0 n (tso_copy packet (nat len) (nat mss)) fresh"
  using assms by (auto simp: offload_tso_segment_def Let_def split: if_splits)

lemma tso_buffer:
  assumes "0 < len" and "0 < mss" and "offload_tso_segment eng packet len mss fresh = Some (r, segs, n, eng')"
  shows "map segs [0..<n * nat mss] = take (nat len) packet @ replicate (n * nat mss - nat len) 0"
proof -
  note r = tso_segment_result [OF assms]
  have c: "nat len \<le> n * nat mss" "\<And>i. i < n \<Longrightarrow> i * nat mss < nat len"
    using tso_count [OF assms(1,2), of n] r by simp_all
  have "segs = (\<lambda>j. if j < n * nat mss then (if j < nat len then packet ! j else 0) else fresh j)"
    using tso_copies [of "nat mss" n "nat len" packet fresh] c(2) assms(2) r by simp
  moreover have "nat len \<le> length packet" using r by simp
  moreover have "replicate (n * nat mss - nat len) 0 ! (i - nat len) = (0 :: u8)"
    if "i < n * nat mss" "\<not> i < nat len" for i
    using that by (intro nth_replicate) linarith
  ultimately show ?thesis using c(1) by (intro nth_equalityI) (auto simp: nth_append)
qed

lemma lro_blocks:
  "int (length acc + n * 1500) \<le> INT_MAX \<Longrightarrow> length acc + n * 1500 \<le> cap \<Longrightarrow>
    lro_loop cap (map (\<lambda>i. Some (map f [i * 1500..<(i + 1) * 1500])) [k..<k + n]) acc =
    Some (acc @ map f [k * 1500..<(k + n) * 1500])"
proof (induction n arbitrary: k acc)
  case (Suc n)
  let ?b = "map f [k * 1500..<(k + 1) * 1500]"
  have l: "length ?b = 1500" by simp
  have u: "[k..<k + Suc n] = k # [Suc k..<Suc k + n]" by (simp add: upt_rec)
  have "[k * 1500..<(k + Suc n) * 1500] = [k * 1500..<(k + 1) * 1500] @ [(k + 1) * 1500..<(k + Suc n) * 1500]"
    using upt_add_eq_append [of "k * 1500" "(k + 1) * 1500" "n * 1500"] by (simp add: algebra_simps)
  then have app: "map f [k * 1500..<(k + Suc n) * 1500] = ?b @ map f [Suc k * 1500..<(Suc k + n) * 1500]" by simp
  have "lro_loop cap (map (\<lambda>i. Some (map f [i * 1500..<(i + 1) * 1500])) [Suc k..<Suc k + n]) (acc @ ?b) =
      Some ((acc @ ?b) @ map f [Suc k * 1500..<(Suc k + n) * 1500])"
    by (rule Suc.IH) (use Suc.prems l in \<open>simp_all only: length_append\<close>, simp_all)
  then show ?case using Suc.prems l unfolding u app by (simp add: ETHERNET_MTU_def del: upt_Suc)
qed simp

section \<open>Properties\<close>

text \<open>
  Up to 131074 bytes the checksum is the ones' complement of the ones' complement sum of the
  big-endian 16-bit words of the data, an odd last byte counting as the high half of a word.  The loop
  that folds the carries ends.
\<close>

theorem offload_csum_ones_complement:
  assumes "length xs \<le> 131074"
  shows "unat (offload_csum_compute xs) = 65535 - (if word_sum xs = 0 then 0 else Suc ((word_sum xs - 1) mod 65535))"
  using csum_compute_val [OF assms] by (simp only: ones_fold_def)

theorem offload_csum_ones_complement_witness:
  "offload_csum_compute [0x45, 0x00, 0xFF, 0xFF, 0x01] = 0xB9FF"
  using offload_csum_ones_complement [of "[0x45, 0x00, 0xFF, 0xFF, 0x01]"] by (simp add: word_unat_eq_iff)

lemma word_sum_append: "even (length xs) \<Longrightarrow> word_sum (xs @ ys) = word_sum xs + word_sum ys"
  by (induction xs rule: word_sum.induct) simp_all

text \<open>
  A receiver that runs the same computation over the data followed by their checksum gets zero, for
  every even length up to 131072: no undamaged packet is refused.
\<close>

theorem offload_csum_receiver_zero:
  assumes "even (length xs)" and "length xs \<le> 131072" and "c = offload_csum_compute xs"
  shows "offload_csum_compute (xs @ [ucast (drop_bit 8 c), ucast c]) = 0"
proof -
  let ?n = "word_sum xs" and ?t = "[ucast (drop_bit 8 c), ucast c] :: bytes"
  have "unat c < 65536" by (rule less_le_trans [OF unsigned_less]) simp
  then have "unat c div 256 < 256" by simp
  then have "word_sum ?t = unat c"
    using div_mult_mod_eq [of "unat c" 256]
    by (simp add: unsigned_ucast_eq take_bit_eq_mod drop_bit_eq_div unat_div)
  then have sum: "word_sum (xs @ ?t) = ?n + (65535 - ones_fold ?n)"
    using word_sum_append [OF assms(1)] csum_compute_val [of xs] assms by simp
  have "ones_fold (?n + (65535 - ones_fold ?n)) = 65535"
  proof (cases "?n = 0")
    case False
    obtain q where q: "?n - 1 = (?n - 1) mod 65535 + 65535 * q" by (metis mod_mult_div_eq)
    have "(?n - 1) mod 65535 < 65535" by simp
    then have "?n + (65535 - Suc ((?n - 1) mod 65535)) - 1 = 65534 + 65535 * q" using q False by linarith
    then show ?thesis using False by (simp add: ones_fold_def)
  qed (simp add: ones_fold_def)
  then have "unat (offload_csum_compute (xs @ ?t)) = 0"
    using csum_compute_val [of "xs @ ?t"] assms(2) sum by simp
  then show ?thesis by (simp add: unat_eq_0)
qed

theorem offload_csum_receiver_zero_witness:
  "offload_csum_compute ([0x12, 0x34, 0xFF, 0x00] @ [ucast (drop_bit 8 (offload_csum_compute [0x12, 0x34, 0xFF, 0x00])),
     ucast (offload_csum_compute [0x12, 0x34, 0xFF, 0x00])]) = 0"
  by (rule offload_csum_receiver_zero) simp_all

text \<open>
  Segmentation fills exactly the segments it announces: together they are the packet followed by the
  zeros that complete the last segment, and fewer than \<open>mss\<close> of them.
\<close>

theorem offload_tso_pads:
  assumes "0 < len" and "0 < mss" and "offload_tso_segment eng packet len mss fresh = Some (r, segs, n, eng')"
  shows "r = 0 \<and> map segs [0..<n * nat mss] = take (nat len) packet @ replicate (n * nat mss - nat len) 0 \<and>
    nat len \<le> n * nat mss \<and> n * nat mss < nat len + nat mss"
  using tso_buffer [OF assms] tso_segment_result [OF assms] tso_count [OF assms(1,2), of n] by simp

theorem offload_tso_pads_witness:
  "\<exists>segs eng'. offload_tso_segment (offload_engine_create OFFLOAD_TSO) [1, 2, 3, 4, 5] 5 2 (\<lambda>_. 9) = Some (0, segs, 3, eng')
    \<and> map segs [0..<6] = [1, 2, 3, 4, 5, 0]"
proof -
  obtain segs eng' where s: "offload_tso_segment (offload_engine_create OFFLOAD_TSO) [1, 2, 3, 4, 5] 5 2 (\<lambda>_. 9) = Some (0, segs, 3, eng')"
    by (simp add: offload_tso_segment_def INT_MAX_def)
  then show ?thesis using offload_tso_pads [OF _ _ s] by (auto simp: numeral_eq_Suc)
qed

text \<open>
  Segmenting with the Ethernet payload size and merging the segments again gives the packet back,
  padded to whole segments.
\<close>

theorem offload_tso_lro_roundtrip:
  assumes "0 < len" and "offload_tso_segment eng packet len 1500 fresh = Some (r, segs, n, eng')"
  shows "\<exists>eng2. offload_lro_merge eng' (n * 1500) (map (\<lambda>i. Some (map segs [i * 1500..<(i + 1) * 1500])) [0..<n]) =
    Some (take (nat len) packet @ replicate (n * 1500 - nat len) 0, eng2)"
proof -
  have p: "(0 :: int) < 1500" by simp
  have n: "n = nat ((len + 1500 - 1) div 1500)" using tso_segment_result [OF assms(1) p assms(2)] by simp
  have "int (n * 1500) \<le> INT_MAX"
  proof -
    have "len + 1500 - 1 \<le> INT_MAX" using assms by (auto simp: offload_tso_segment_def split: if_splits)
    moreover have "n * 1500 < nat len + 1500" using tso_count [OF assms(1) p n] by simp
    ultimately show ?thesis using assms(1) by linarith
  qed
  then show ?thesis
    using lro_blocks [of "[]" n "n * 1500" segs 0] tso_buffer [OF assms(1) p assms(2)] by (simp add: offload_lro_merge_def)
qed

theorem offload_tso_lro_roundtrip_witness:
  "\<exists>segs n eng' eng2. offload_tso_segment (offload_engine_create OFFLOAD_TSO) [1, 2, 3] 3 1500 (\<lambda>_. 9) = Some (0, segs, n, eng')
    \<and> offload_lro_merge eng' (n * 1500) (map (\<lambda>i. Some (map segs [i * 1500..<(i + 1) * 1500])) [0..<n]) =
    Some (take (nat 3) [1, 2, 3] @ replicate (n * 1500 - nat 3) 0, eng2)"
proof -
  obtain segs n eng' where s: "offload_tso_segment (offload_engine_create OFFLOAD_TSO) [1, 2, 3] 3 1500 (\<lambda>_. 9) = Some (0, segs, n, eng')"
    by (simp add: offload_tso_segment_def INT_MAX_def)
  have "(0 :: int) < 3" by simp
  from s offload_tso_lro_roundtrip [OF this s] show ?thesis by blast
qed

end
