(* ===== verification/NicArch.thy ===== *)
theory NicArch
  imports Ring
begin

text \<open>
  The network interface of \<^verbatim>\<open>mini-network-hardware/src/nic_arch.c\<close>: transmit and receive rings of 256
  descriptors, the engine that drains them, and the interrupt flags; the register file, which no
  operation uses, is left out.  A buffer is its address, 0 being
  NULL.  The loops that drain the rings are partial functions: \<open>None\<close> is a loop that does not end, a
  descriptor outside the array or a division by a ring length of 0.
\<close>

unbundle bit_operations_syntax

section \<open>Data\<close>

definition NIC_MAX_DESCRIPTORS :: nat where "NIC_MAX_DESCRIPTORS = 256"
definition NIC_FLAG_EOP :: u16 where "NIC_FLAG_EOP = 1"
definition NIC_FLAG_SOP :: u16 where "NIC_FLAG_SOP = 2"

record NICDescriptor =
  nd_buffer_addr :: u64
  nd_length :: u32
  nd_flags :: u16
  nd_status :: u16

record NICRxRing =
  nr_descriptors :: "NICDescriptor arr"
  nr_head :: u32
  nr_tail :: u32

text \<open>The transmit ring has two fields more.\<close>

record NICTxRing = NICRxRing +
  tx_base_addr :: u64
  tx_len :: u32

datatype NICInterrupt = NIC_IRQ_TX_COMPLETE | NIC_IRQ_RX_READY | NIC_IRQ_LINK_CHANGE | NIC_IRQ_ERROR

record NIC =
  nic_mac_addr :: bytes
  nic_ip_addr :: u32
  nic_tx_ring :: NICTxRing
  nic_rx_ring :: NICRxRing
  nic_interrupts :: "NICInterrupt \<Rightarrow> bool"
  dma_engine_active :: bool
  dma_total_bytes :: u64

definition zero_descriptor :: NICDescriptor where
  "zero_descriptor = \<lparr>nd_buffer_addr = 0, nd_length = 0, nd_flags = 0, nd_status = 0\<rparr>"

section \<open>Operations\<close>

definition nic_init :: "bytes \<Rightarrow> u32 \<Rightarrow> NIC" where
  "nic_init mac ip =
     \<lparr>nic_mac_addr = take 6 mac, nic_ip_addr = ip,
      nic_tx_ring = \<lparr>nr_descriptors = (\<lambda>_. zero_descriptor), nr_head = 0, nr_tail = 0,
        tx_base_addr = 0x10000000, tx_len = of_nat NIC_MAX_DESCRIPTORS\<rparr>,
      nic_rx_ring = \<lparr>nr_descriptors = (\<lambda>_. zero_descriptor), nr_head = 0, nr_tail = 0\<rparr>,
      nic_interrupts = (\<lambda>_. False), dma_engine_active = False, dma_total_bytes = 0\<rparr>"

text \<open>The body that both enqueue operations have; \<open>n\<close> is the length they reduce the tail by.\<close>

definition ring_post :: "u32 \<Rightarrow> ('a NICRxRing_scheme) \<Rightarrow> u64 \<Rightarrow> u32 \<Rightarrow> (int \<times> 'a NICRxRing_scheme) option" where
  "ring_post n r dat len =
     (if n = 0 then None
      else
        let next_tail = (nr_tail r + 1) mod n
        in if next_tail = nr_head r then Some (-1, r)
           else if unat (nr_tail r) \<ge> NIC_MAX_DESCRIPTORS then None
           else Some (0, r\<lparr>nr_descriptors := (nr_descriptors r)(unat (nr_tail r) :=
                              \<lparr>nd_buffer_addr = dat, nd_length = len, nd_flags = NIC_FLAG_SOP OR NIC_FLAG_EOP, nd_status = 0\<rparr>),
                           nr_tail := next_tail\<rparr>))"

definition nic_tx_enqueue :: "NIC \<Rightarrow> u64 \<Rightarrow> int \<Rightarrow> (int \<times> NIC) option" where
  "nic_tx_enqueue nic dat len =
     (if len \<le> 0 \<or> dat = 0 then Some (-1, nic)
      else map_option (\<lambda>(ret, r). (ret, nic\<lparr>nic_tx_ring := r\<rparr>))
             (ring_post (tx_len (nic_tx_ring nic)) (nic_tx_ring nic) dat (word_of_int len)))"

definition nic_rx_enqueue :: "NIC \<Rightarrow> u64 \<Rightarrow> int \<Rightarrow> (int \<times> NIC) option" where
  "nic_rx_enqueue nic dat len =
     (if len \<le> 0 \<or> dat = 0 then Some (-1, nic)
      else map_option (\<lambda>(ret, r). (ret, nic\<lparr>nic_rx_ring := r\<rparr>))
             (ring_post (of_nat NIC_MAX_DESCRIPTORS) (nic_rx_ring nic) dat (word_of_int len)))"

text \<open>One of the two \<open>while\<close> loops of \<open>nic_process\<close>, with the byte count they add to.\<close>

partial_function (option) ring_drain :: "u32 \<Rightarrow> 'a NICRxRing_scheme \<Rightarrow> u64 \<Rightarrow> ('a NICRxRing_scheme \<times> u64) option" where
  "ring_drain n r acc =
     (if nr_head r = nr_tail r then Some (r, acc)
      else if unat (nr_head r) \<ge> NIC_MAX_DESCRIPTORS \<or> n = 0 then None
      else
        let h = unat (nr_head r); desc = nr_descriptors r h
        in ring_drain n (r\<lparr>nr_descriptors := (nr_descriptors r)(h := desc\<lparr>nd_status := 1\<rparr>),
                           nr_head := (nr_head r + 1) mod n\<rparr>) (acc + ucast (nd_length desc)))"

definition nic_process :: "NIC \<Rightarrow> NIC option" where
  "nic_process nic =
     (if \<not> dma_engine_active nic then Some nic
      else
        case ring_drain (tx_len (nic_tx_ring nic)) (nic_tx_ring nic) (dma_total_bytes nic) of
          None \<Rightarrow> None
        | Some (tx, acc1) \<Rightarrow>
            (case ring_drain (of_nat NIC_MAX_DESCRIPTORS) (nic_rx_ring nic) acc1 of
               None \<Rightarrow> None
             | Some (rx, acc2) \<Rightarrow>
                 let irq = nic_interrupts nic;
                     irq1 = (if nr_head tx = nr_tail tx then irq(NIC_IRQ_TX_COMPLETE := True) else irq);
                     irq2 = (if nr_head rx \<noteq> nr_tail rx then irq1(NIC_IRQ_RX_READY := True) else irq1)
                 in Some (nic\<lparr>nic_tx_ring := tx, nic_rx_ring := rx, dma_total_bytes := acc2, nic_interrupts := irq2\<rparr>)))"

definition nic_irq_of :: "int \<Rightarrow> NICInterrupt option" where
  "nic_irq_of irq = (if irq = 0 then Some NIC_IRQ_TX_COMPLETE else if irq = 1 then Some NIC_IRQ_RX_READY
     else if irq = 2 then Some NIC_IRQ_LINK_CHANGE else if irq = 3 then Some NIC_IRQ_ERROR else None)"

definition nic_interrupt_handler :: "NIC \<Rightarrow> int \<Rightarrow> NIC" where
  "nic_interrupt_handler nic irq =
     (case nic_irq_of irq of
        None \<Rightarrow> nic
      | Some NIC_IRQ_TX_COMPLETE \<Rightarrow>
          nic\<lparr>nic_interrupts := (nic_interrupts nic)(NIC_IRQ_TX_COMPLETE := False), dma_engine_active := False\<rparr>
      | Some k \<Rightarrow> nic\<lparr>nic_interrupts := (nic_interrupts nic)(k := False)\<rparr>)"

section \<open>The rings as queues\<close>

definition ring_ok :: "'a NICRxRing_scheme \<Rightarrow> bool" where
  "ring_ok r \<longleftrightarrow> unat (nr_head r) < 256 \<and> unat (nr_tail r) < 256"

definition ring_count :: "'a NICRxRing_scheme \<Rightarrow> nat" where
  "ring_count r = gap_count 256 (unat (nr_head r)) (unat (nr_tail r))"

definition ring_content :: "'a NICRxRing_scheme \<Rightarrow> NICDescriptor list" where
  "ring_content r = ring_list (nr_descriptors r) 256 (unat (nr_head r)) (ring_count r)"

definition new_descriptor :: "u64 \<times> u32 \<Rightarrow> NICDescriptor" where
  "new_descriptor = (\<lambda>(dat, len). \<lparr>nd_buffer_addr = dat, nd_length = len, nd_flags = 3, nd_status = 0\<rparr>)"

text \<open>An enqueue that succeeds, as the queue contract has it.\<close>

definition ring_enq :: "'a NICRxRing_scheme \<Rightarrow> u64 \<times> u32 \<Rightarrow> 'a NICRxRing_scheme option" where
  "ring_enq r = (\<lambda>(dat, len). case ring_post 256 r dat len of Some (ret, r') \<Rightarrow> if ret = 0 then Some r' else None | None \<Rightarrow> None)"

lemma ring_next: "unat i < 256 \<Longrightarrow> unat ((i + 1) mod 256 :: u32) = Suc (unat i) mod 256"
  using unat_add_lem [of i 1] by (simp add: unat_mod)

lemma ring_next_head: "unat i < 256 \<Longrightarrow> (i + 1) mod 256 = (h :: u32) \<longleftrightarrow> Suc (unat i) mod 256 = unat h"
  using ring_next [of i] by (metis word_unat_eq_iff)

lemma ring_post_ok:
  assumes "ring_ok r"
  shows "ring_post 256 r dat len =
    (if 255 \<le> ring_count r then Some (-1, r)
     else Some (0, r\<lparr>nr_descriptors := (nr_descriptors r)(unat (nr_tail r) := new_descriptor (dat, len)),
                     nr_tail := (nr_tail r + 1) mod 256\<rparr>))"
proof -
  have "(nr_tail r + 1) mod 256 = nr_head r \<longleftrightarrow> 255 \<le> ring_count r"
    using assms gap_full [of "unat (nr_head r)" 256 "unat (nr_tail r)"]
    by (simp add: ring_next_head ring_ok_def ring_count_def)
  moreover have "NIC_FLAG_SOP OR NIC_FLAG_EOP = 3" by (simp add: NIC_FLAG_SOP_def NIC_FLAG_EOP_def)
  ultimately show ?thesis using assms
    by (simp add: ring_post_def ring_ok_def NIC_MAX_DESCRIPTORS_def new_descriptor_def Let_def)
qed

lemma ring_push_content:
  fixes d :: NICDescriptor
  assumes "ring_ok r" and "ring_count r < 255"
  and r'_def: "r' = r\<lparr>nr_descriptors := (nr_descriptors r)(unat (nr_tail r) := d), nr_tail := (nr_tail r + 1) mod 256\<rparr>"
  shows "ring_ok r' \<and> ring_content r' = ring_content r @ [d]"
proof -
  have h: "unat (nr_head r) < 256" "unat (nr_tail r) < 256" using assms(1) by (simp_all add: ring_ok_def)
  have nf: "Suc (unat (nr_tail r)) mod 256 \<noteq> unat (nr_head r)"
    using assms(2) gap_full [OF h] by (simp add: ring_count_def)
  have c: "ring_count r' = Suc (ring_count r)" using gap_push [OF h nf] by (simp add: ring_count_def r'_def ring_next h)
  have "ring_content r' = ring_content r @ [d]"
    using ring_list_push [of "ring_count r" 256 "nr_descriptors r" "unat (nr_head r)" d] assms(2) gap_tail [OF h] c
    by (simp add: ring_content_def r'_def flip: ring_count_def)
  then show ?thesis using h by (simp add: ring_ok_def r'_def ring_next)
qed

interpretation nicq: bounded_queue ring_ok "map (\<lambda>d. (nd_buffer_addr d, nd_length d)) \<circ> ring_content" "\<lambda>_. 255"
  "\<lambda>r x. ring_enq r x"
proof unfold_locales
  fix r r' :: "'b NICRxRing_scheme" and x :: "u64 \<times> u32"
  assume ok: "ring_ok r"
  show "(ring_enq r x = None) \<longleftrightarrow> 255 \<le> length ((map (\<lambda>d. (nd_buffer_addr d, nd_length d)) \<circ> ring_content) r)"
    using ring_post_ok [OF ok] by (cases x) (simp add: ring_enq_def ring_content_def)
  assume "ring_enq r x = Some r'"
  then have "ring_count r < 255" "r' = r\<lparr>nr_descriptors := (nr_descriptors r)(unat (nr_tail r) := new_descriptor x),
      nr_tail := (nr_tail r + 1) mod 256\<rparr>"
    using ring_post_ok [OF ok] by (cases x; simp add: ring_enq_def split: if_splits)+
  with ring_push_content [OF ok, where d = "new_descriptor x" and r' = r']
  show "(map (\<lambda>d. (nd_buffer_addr d, nd_length d)) \<circ> ring_content) r' =
      (map (\<lambda>d. (nd_buffer_addr d, nd_length d)) \<circ> ring_content) r @ [x] \<and> ring_ok r' \<and> (255 :: nat) = 255"
    by (cases x) (simp add: new_descriptor_def)
qed

section \<open>Draining\<close>

definition mark_done :: "NICDescriptor \<Rightarrow> NICDescriptor" where
  "mark_done d = d\<lparr>nd_status := 1\<rparr>"

definition byte_sum :: "NICDescriptor list \<Rightarrow> u64" where
  "byte_sum ds = sum_list (map (\<lambda>d. ucast (nd_length d)) ds)"

definition marked :: "nat \<Rightarrow> nat \<Rightarrow> NICDescriptor arr \<Rightarrow> NICDescriptor arr" where
  "marked head n ds = (\<lambda>i. if \<exists>k<n. i = (head + k) mod 256 then mark_done (ds i) else ds i)"

lemma ring_list_later: "h < 256 \<Longrightarrow> n < 256 \<Longrightarrow> k < n \<Longrightarrow> (Suc h mod 256 + k) mod 256 \<noteq> h"
  using ring_index_inj [of "Suc k" 256 0 h] by (simp add: mod_simps)

lemma marked_Suc:
  assumes "h < 256" and "n < 256"
  shows "marked (Suc h mod 256) n (ds(h := mark_done (ds h))) = marked h (Suc n) ds"
proof
  fix i
  have "(\<exists>k<Suc n. i = (h + k) mod 256) \<longleftrightarrow> i = h \<or> (\<exists>k<n. i = (Suc h mod 256 + k) mod 256)"
    using assms(1) by (simp add: Ex_less_Suc2 mod_simps)
  then show "marked (Suc h mod 256) n (ds(h := mark_done (ds h))) i = marked h (Suc n) ds i"
    using ring_list_later [OF assms] by (auto simp: marked_def dest: sym)
qed

lemma marked_ring_list: "ring_list (marked head n ds) 256 head n = map mark_done (ring_list ds 256 head n)"
  by (auto simp: ring_list_def marked_def)

lemma ring_drain_result:
  "ring_ok r \<Longrightarrow> ring_drain 256 r acc =
    Some (r\<lparr>nr_descriptors := marked (unat (nr_head r)) (ring_count r) (nr_descriptors r), nr_head := nr_tail r\<rparr>,
      acc + byte_sum (ring_content r))"
proof (induction "ring_count r" arbitrary: r acc)
  case 0
  then have "nr_head r = nr_tail r"
    using gap_count_0 [of "unat (nr_head r)" 256 "unat (nr_tail r)"] by (simp add: ring_ok_def ring_count_def word_unat_eq_iff)
  then show ?case using 0(1) by (simp add: ring_drain.simps ring_content_def byte_sum_def marked_def)
next
  case (Suc n)
  let ?h = "unat (nr_head r)"
  let ?q = "r\<lparr>nr_descriptors := (nr_descriptors r)(?h := mark_done (nr_descriptors r ?h)), nr_head := (nr_head r + 1) mod 256\<rparr>"
  have h: "?h < 256" "unat (nr_tail r) < 256" using Suc.prems by (simp_all add: ring_ok_def)
  have ne: "nr_head r \<noteq> nr_tail r" using Suc.hyps(2) gap_count_0 [OF h] by (auto simp: ring_count_def)
  have ok: "ring_ok ?q" using h by (simp add: ring_ok_def ring_next)
  have c: "n = ring_count ?q" using gap_pop [OF h] ne Suc.hyps(2) by (simp add: ring_count_def ring_next h word_unat_eq_iff)
  have n: "n < 256" using gap_count_less [OF h] Suc.hyps(2) by (simp add: ring_count_def)
  have "ring_content ?q = ring_list (nr_descriptors r) 256 (Suc ?h mod 256) n"
    unfolding ring_content_def c [symmetric] using ring_list_later [OF h(1) n]
    by (simp add: ring_next h(1)) (rule ring_list_cong, simp)
  then have content: "ring_content r = nr_descriptors r ?h # ring_content ?q"
    using ring_list_pop [of "ring_count r" "nr_descriptors r" 256 ?h] Suc.hyps(2) [symmetric] h(1) by (simp add: ring_content_def)
  have "ring_drain 256 r acc = ring_drain 256 ?q (acc + ucast (nd_length (nr_descriptors r ?h)))"
    using ne h by (subst ring_drain.simps) (simp add: NIC_MAX_DESCRIPTORS_def mark_done_def Let_def)
  then show ?case
    using Suc.hyps(1) [OF c ok] marked_Suc [OF h(1) n, of "nr_descriptors r"] Suc.hyps(2) c
    by (simp add: content byte_sum_def ring_next h(1) add.assoc)
qed

section \<open>Properties\<close>

definition nic_ok :: "NIC \<Rightarrow> bool" where
  "nic_ok nic \<longleftrightarrow> ring_ok (nic_tx_ring nic) \<and> ring_ok (nic_rx_ring nic) \<and> tx_len (nic_tx_ring nic) = 256"

text \<open>What a client can do with an interface.\<close>

datatype nic_op = NicTx u64 int | NicRx u64 int | NicProcess | NicIrq int

fun nic_step :: "nic_op \<Rightarrow> NIC \<Rightarrow> NIC option" where
  "nic_step (NicTx d l) nic = map_option snd (nic_tx_enqueue nic d l)"
| "nic_step (NicRx d l) nic = map_option snd (nic_rx_enqueue nic d l)"
| "nic_step NicProcess nic = nic_process nic"
| "nic_step (NicIrq k) nic = Some (nic_interrupt_handler nic k)"

fun nic_run :: "nic_op list \<Rightarrow> NIC \<Rightarrow> NIC option" where
  "nic_run [] nic = Some nic"
| "nic_run (x # xs) nic = (case nic_step x nic of None \<Rightarrow> None | Some n \<Rightarrow> nic_run xs n)"

text \<open>What the engine leaves of a ring: nothing waits, and the descriptors that did are marked.\<close>

lemma nic_process_result:
  assumes "nic_ok nic" and "dma_engine_active nic"
  shows "\<exists>nic'. nic_process nic = Some nic' \<and> nic_ok nic' \<and> dma_engine_active nic' \<and>
    ring_content (nic_tx_ring nic') = [] \<and> ring_content (nic_rx_ring nic') = [] \<and>
    nr_tail (nic_tx_ring nic') = nr_tail (nic_tx_ring nic) \<and> nr_tail (nic_rx_ring nic') = nr_tail (nic_rx_ring nic) \<and>
    dma_total_bytes nic' = dma_total_bytes nic + byte_sum (ring_content (nic_tx_ring nic)) + byte_sum (ring_content (nic_rx_ring nic)) \<and>
    ring_list (nr_descriptors (nic_tx_ring nic')) 256 (unat (nr_head (nic_tx_ring nic))) (ring_count (nic_tx_ring nic)) =
      map mark_done (ring_content (nic_tx_ring nic)) \<and>
    ring_list (nr_descriptors (nic_rx_ring nic')) 256 (unat (nr_head (nic_rx_ring nic))) (ring_count (nic_rx_ring nic)) =
      map mark_done (ring_content (nic_rx_ring nic)) \<and>
    nic_interrupts nic' = (nic_interrupts nic)(NIC_IRQ_TX_COMPLETE := True)"
proof -
  have z: "gap_count 256 (unat t) (unat t) = 0" for t :: u32 by (simp add: gap_count_def)
  show ?thesis
    using assms ring_drain_result [of "nic_tx_ring nic" "dma_total_bytes nic"] ring_drain_result [of "nic_rx_ring nic"]
    by (simp add: nic_process_def nic_ok_def NIC_MAX_DESCRIPTORS_def ring_content_def ring_count_def ring_ok_def z
        marked_ring_list)
qed

text \<open>
  C23: One call of the active engine ends: with the rings in range it drains both rings whatever
  they hold, the tails where they were; every descriptor that was waiting in the transmit or in the
  receive ring keeps its buffer, length and flags and has its status set to 1; the lengths of all of
  them are added to the byte count, and the transmit interrupt is raised.  The receive interrupt
  stays as it was: its condition, a ring that is not empty, is false after the loop that empties it.
\<close>

theorem nic_process_drains:
  assumes "nic_ok nic" and "dma_engine_active nic"
  shows "\<exists>nic'. nic_process nic = Some nic' \<and> nic_ok nic' \<and>
    ring_content (nic_tx_ring nic') = [] \<and> ring_content (nic_rx_ring nic') = [] \<and>
    nr_tail (nic_tx_ring nic') = nr_tail (nic_tx_ring nic) \<and> nr_tail (nic_rx_ring nic') = nr_tail (nic_rx_ring nic) \<and>
    ring_list (nr_descriptors (nic_tx_ring nic')) 256 (unat (nr_head (nic_tx_ring nic))) (ring_count (nic_tx_ring nic)) =
      map (\<lambda>d. d\<lparr>nd_status := 1\<rparr>) (ring_content (nic_tx_ring nic)) \<and>
    ring_list (nr_descriptors (nic_rx_ring nic')) 256 (unat (nr_head (nic_rx_ring nic))) (ring_count (nic_rx_ring nic)) =
      map (\<lambda>d. d\<lparr>nd_status := 1\<rparr>) (ring_content (nic_rx_ring nic)) \<and>
    dma_total_bytes nic' = dma_total_bytes nic +
      sum_list (map (\<lambda>d. ucast (nd_length d)) (ring_content (nic_tx_ring nic) @ ring_content (nic_rx_ring nic))) \<and>
    nic_interrupts nic' = (nic_interrupts nic)(NIC_IRQ_TX_COMPLETE := True)"
  using nic_process_result [OF assms] by (auto simp: byte_sum_def mark_done_def [abs_def] add.assoc)

text \<open>An interface with two buffers to send, across the end of the ring, and one to receive into.\<close>

definition loaded_nic :: NIC where
  "loaded_nic = (let nic = nic_init [1,2,3,4,5,6] 0 in nic\<lparr>dma_engine_active := True,
     nic_tx_ring := (nic_tx_ring nic)\<lparr>nr_descriptors := \<lambda>i. new_descriptor (of_nat i + 1, 100), nr_head := 255, nr_tail := 1\<rparr>,
     nic_rx_ring := (nic_rx_ring nic)\<lparr>nr_descriptors := \<lambda>i. new_descriptor (of_nat i + 1, 60), nr_tail := 1\<rparr>\<rparr>)"

theorem nic_process_drains_witness:
  "\<exists>nic'. nic_process loaded_nic = Some nic' \<and> nic_interrupts nic' NIC_IRQ_TX_COMPLETE \<and> dma_total_bytes nic' = 260 \<and>
    nd_status (nr_descriptors (nic_tx_ring nic') 0) = 1 \<and> nd_status (nr_descriptors (nic_rx_ring nic') 0) = 1"
proof -
  have ok: "nic_ok loaded_nic" "dma_engine_active loaded_nic"
    by (simp_all add: loaded_nic_def Let_def nic_ok_def nic_init_def ring_ok_def NIC_MAX_DESCRIPTORS_def)
  have "unat (nr_head (nic_tx_ring loaded_nic)) = 255" "ring_count (nic_tx_ring loaded_nic) = 2" "unat (nr_head (nic_rx_ring loaded_nic)) = 0"
    "ring_count (nic_rx_ring loaded_nic) = 1" "dma_total_bytes loaded_nic = 0"
    "ring_content (nic_tx_ring loaded_nic) = [new_descriptor (256, 100), new_descriptor (1, 100)]"
    "ring_content (nic_rx_ring loaded_nic) = [new_descriptor (1, 60)]"
    by (simp_all add: loaded_nic_def Let_def nic_init_def ring_count_def gap_count_def ring_content_def ring_list_def upt_rec)
  then show ?thesis using nic_process_drains [OF ok] by (auto simp: ring_list_def upt_rec new_descriptor_def)
qed

lemma nic_step_ok: "nic_ok nic \<Longrightarrow> \<exists>nic'. nic_step x nic = Some nic' \<and> nic_ok nic' \<and>
    (dma_engine_active nic' \<longrightarrow> dma_engine_active nic) \<and> (\<not> dma_engine_active nic \<longrightarrow> dma_total_bytes nic' = dma_total_bytes nic) \<and>
    (nic_interrupts nic' NIC_IRQ_RX_READY \<longrightarrow> nic_interrupts nic NIC_IRQ_RX_READY)"
proof (cases x)
  case (NicTx d l)
  assume ok: "nic_ok nic"
  then show ?thesis
    using ring_post_ok [of "nic_tx_ring nic" d "word_of_int l"]
      ring_push_content [of "nic_tx_ring nic", where d = "new_descriptor (d, word_of_int l)"]
    by (auto simp: NicTx nic_ok_def nic_tx_enqueue_def)
next
  case (NicRx d l)
  assume ok: "nic_ok nic"
  then show ?thesis
    using ring_post_ok [of "nic_rx_ring nic" d "word_of_int l"]
      ring_push_content [of "nic_rx_ring nic", where d = "new_descriptor (d, word_of_int l)"]
    by (auto simp: NicRx nic_ok_def nic_rx_enqueue_def NIC_MAX_DESCRIPTORS_def)
next
  case NicProcess
  assume ok: "nic_ok nic"
  show ?thesis
  proof (cases "dma_engine_active nic")
    case True
    then show ?thesis using nic_process_result [OF ok True] by (auto simp: NicProcess)
  next
    case False
    then show ?thesis using ok by (simp add: NicProcess nic_process_def)
  qed
next
  case (NicIrq k)
  assume "nic_ok nic"
  then show ?thesis by (auto simp: NicIrq nic_interrupt_handler_def nic_ok_def split: option.splits NICInterrupt.splits)
qed

text \<open>
  No operation of the interface starts its engine: after the initialisation every sequence of calls
  returns, leaves the rings in range, and transfers no byte; the receive interrupt is never raised.
\<close>

theorem nic_engine_never_starts:
  "\<exists>nic. nic_run xs (nic_init mac ip) = Some nic \<and> nic_ok nic \<and> \<not> dma_engine_active nic \<and> dma_total_bytes nic = 0 \<and>
    \<not> nic_interrupts nic NIC_IRQ_RX_READY"
proof -
  let ?P = "\<lambda>n. nic_ok n \<and> \<not> dma_engine_active n \<and> dma_total_bytes n = 0 \<and> \<not> nic_interrupts n NIC_IRQ_RX_READY"
  have "?P n \<Longrightarrow> \<exists>nic. nic_run xs n = Some nic \<and> ?P nic" for n
  proof (induction xs arbitrary: n)
    case (Cons x xs)
    then obtain m where "nic_step x n = Some m" "?P m" using nic_step_ok [of n x] by auto
    then show ?case using Cons.IH [of m] by simp
  qed simp
  then show ?thesis by (simp add: nic_init_def nic_ok_def ring_ok_def NIC_MAX_DESCRIPTORS_def)
qed

lemma nic_tx_enqueue_enq:
  assumes "nic_ok nic" and "0 < len" and "dat \<noteq> 0" and "ring_enq (nic_tx_ring nic) (dat, word_of_int len) = Some r"
  shows "nic_tx_enqueue nic dat len = Some (0, nic\<lparr>nic_tx_ring := r\<rparr>)"
  using assms ring_post_ok [of "nic_tx_ring nic" dat "word_of_int len"]
  by (auto simp: nic_tx_enqueue_def nic_ok_def ring_enq_def split: if_splits)

lemma ring_enq_len: "ring_enq r x = Some r' \<Longrightarrow> tx_len r' = tx_len r" for r :: NICTxRing
  by (cases x) (auto simp: ring_enq_def ring_post_def Let_def split: option.splits if_splits)

lemma nic_run_tx:
  "nic_ok nic \<Longrightarrow> \<forall>(d, l) \<in> set xs. d \<noteq> 0 \<and> 0 < l \<Longrightarrow>
    enq_all ring_enq (nic_tx_ring nic) (map (\<lambda>(d, l). (d, word_of_int l)) xs) = Some r \<Longrightarrow>
    nic_run (map (\<lambda>(d, l). NicTx d l) xs) nic = Some (nic\<lparr>nic_tx_ring := r\<rparr>)"
proof (induction xs arbitrary: nic)
  case (Cons x xs)
  obtain d l where x: "x = (d, l)" by fastforce
  then obtain q where q: "ring_enq (nic_tx_ring nic) (d, word_of_int l) = Some q"
    and rest: "enq_all ring_enq q (map (\<lambda>(d, l). (d, word_of_int l)) xs) = Some r"
    using Cons.prems(3) by (auto split: option.splits)
  have "nic_ok (nic\<lparr>nic_tx_ring := q\<rparr>)"
    using Cons.prems(1) nicq.enq_content [OF _ q] ring_enq_len [OF q] by (simp add: nic_ok_def)
  then show ?case
    using Cons.IH [of "nic\<lparr>nic_tx_ring := q\<rparr>"] Cons.prems nic_tx_enqueue_enq [OF Cons.prems(1) _ _ q] rest x by simp
qed simp

text \<open>
  The transmit ring is a first-in first-out queue of 255 descriptors: a batch of valid buffers that
  fits is accepted, and the ring then holds the old descriptors followed by those of the batch, in order.
\<close>

theorem nic_tx_ring_fifo:
  assumes "nic_ok nic" and "\<forall>(d, l) \<in> set xs. d \<noteq> 0 \<and> 0 < l"
    and "length (ring_content (nic_tx_ring nic)) + length xs \<le> 255"
  shows "\<exists>nic'. nic_run (map (\<lambda>(d, l). NicTx d l) xs) nic = Some nic' \<and>
    map (\<lambda>d. (nd_buffer_addr d, nd_length d)) (ring_content (nic_tx_ring nic')) =
    map (\<lambda>d. (nd_buffer_addr d, nd_length d)) (ring_content (nic_tx_ring nic)) @ map (\<lambda>(d, l). (d, word_of_int l)) xs"
proof -
  have ok: "ring_ok (nic_tx_ring nic)" using assms(1) by (simp add: nic_ok_def)
  obtain r where r: "enq_all ring_enq (nic_tx_ring nic) (map (\<lambda>(d, l). (d, word_of_int l)) xs) = Some r"
    using nicq.enq_all_fits [OF ok, of "map (\<lambda>(d, l). (d, word_of_int l)) xs"] assms(3) by auto
  then show ?thesis using nic_run_tx [OF assms(1,2) r] nicq.enq_all_content [OF ok r] by simp
qed

theorem nic_tx_ring_fifo_witness:
  "\<exists>nic'. nic_run (map (\<lambda>(d, l). NicTx d l) [(0x1000, 64), (0x2000, 128)]) (nic_init [1,2,3,4,5,6] 0) = Some nic' \<and>
    map nd_buffer_addr (ring_content (nic_tx_ring nic')) = [0x1000, 0x2000]"
proof -
  let ?n = "nic_init [1,2,3,4,5,6] 0"
  have n: "nic_ok ?n" "ring_content (nic_tx_ring ?n) = []"
    by (simp_all add: nic_ok_def nic_init_def ring_ok_def NIC_MAX_DESCRIPTORS_def ring_content_def ring_count_def gap_count_def)
  obtain m where m: "nic_run (map (\<lambda>(d, l). NicTx d l) [(0x1000, 64), (0x2000, 128)]) ?n = Some m"
      "map (\<lambda>d. (nd_buffer_addr d, nd_length d)) (ring_content (nic_tx_ring m)) = [(0x1000, 64), (0x2000, 128)]"
    using nic_tx_ring_fifo [OF n(1), of "[(0x1000, 64), (0x2000, 128)]"] n(2) by auto
  have "map nd_buffer_addr (ring_content (nic_tx_ring m)) = map fst (map (\<lambda>d. (nd_buffer_addr d, nd_length d)) (ring_content (nic_tx_ring m)))"
    by simp
  then show ?thesis using m by (simp only:) auto
qed

end
