(* ===== verification/Rdma.thy ===== *)
theory Rdma
  imports Ring
begin

text \<open>
  Remote memory access of \<^verbatim>\<open>mini-network-hardware/src/rdma.c\<close>: memory regions, queue pairs with their
  states, the completion queue, sends and remote writes; the local buffer, which no operation uses, is
  left out.  Pointers that may be NULL are options; a
  registered address is a number, 0 being NULL.  \<open>None\<close> is a copy beyond the end of a buffer.
\<close>

section \<open>Data\<close>

definition RDMA_MAX_QP :: u32 where "RDMA_MAX_QP = 64"
definition RDMA_MAX_MR :: u32 where "RDMA_MAX_MR = 128"
definition RDMA_CQ_DEPTH :: u32 where "RDMA_CQ_DEPTH = 256"

datatype RDMAQPState = RDMA_QP_RESET | RDMA_QP_INIT | RDMA_QP_RTR | RDMA_QP_RTS | RDMA_QP_ERROR
datatype RDMAOpcode = RDMA_OP_SEND | RDMA_OP_WRITE | RDMA_OP_READ | RDMA_OP_ATOMIC

record RDMAQP =
  qp_qpn :: u32
  qp_send_cq :: u32
  qp_recv_cq :: u32
  qp_state :: RDMAQPState

record RDMAWQE =
  wqe_opcode :: RDMAOpcode
  wqe_addr :: u64
  wqe_length :: u32
  wqe_lkey :: u32
  wqe_rkey :: u32
  wqe_data :: bytes

record RDMAMemoryRegion =
  mr_addr :: u64
  mr_len :: u32
  mr_lkey :: u32
  mr_rkey :: u32

record RDMACompletionQueue =
  cq_entries :: "u32 arr"
  cq_head :: u32
  cq_tail :: u32
  cq_count :: u32

record RDMAContext =
  protection_domain :: u32
  memory_regions :: "RDMAMemoryRegion arr"
  num_mr :: u32
  queue_pairs :: "RDMAQP arr"
  num_qp :: u32
  rd_cq :: RDMACompletionQueue

section \<open>Operations\<close>

definition rdma_init :: RDMAContext where
  "rdma_init = \<lparr>protection_domain = 1,
     memory_regions = (\<lambda>_. \<lparr>mr_addr = 0, mr_len = 0, mr_lkey = 0, mr_rkey = 0\<rparr>), num_mr = 0,
     queue_pairs = (\<lambda>_. \<lparr>qp_qpn = 0, qp_send_cq = 0, qp_recv_cq = 0, qp_state = RDMA_QP_RESET\<rparr>), num_qp = 0,
     rd_cq = \<lparr>cq_entries = (\<lambda>_. 0), cq_head = 0, cq_tail = 0, cq_count = 0\<rparr>\<rparr>"

definition rdma_reg_mr :: "RDMAContext \<Rightarrow> u64 \<Rightarrow> int \<Rightarrow> int \<times> RDMAContext" where
  "rdma_reg_mr ctx addr len =
     (if num_mr ctx \<ge> RDMA_MAX_MR then (-1, ctx)
      else if addr = 0 \<or> len \<le> 0 then (-1, ctx)
      else
        let idx = num_mr ctx
        in (0, ctx\<lparr>memory_regions := (memory_regions ctx)(unat idx :=
                     \<lparr>mr_addr = addr, mr_len = word_of_int len, mr_lkey = 0x1000 + idx, mr_rkey = 0x2000 + idx\<rparr>),
                   num_mr := num_mr ctx + 1\<rparr>))"

definition rdma_create_qp :: "RDMAContext \<Rightarrow> RDMAQPState \<Rightarrow> int \<times> RDMAContext" where
  "rdma_create_qp ctx initial_state =
     (if num_qp ctx \<ge> RDMA_MAX_QP then (-1, ctx)
      else
        let idx = num_qp ctx
        in (sint idx, ctx\<lparr>queue_pairs := (queue_pairs ctx)(unat idx :=
                            \<lparr>qp_qpn = idx, qp_send_cq = 0, qp_recv_cq = 0, qp_state = initial_state\<rparr>),
                          num_qp := num_qp ctx + 1\<rparr>))"

text \<open>\<open>qpn < 0 || qpn >= (int) num_qp\<close>\<close>

definition bad_qpn :: "RDMAContext \<Rightarrow> int \<Rightarrow> bool" where
  "bad_qpn ctx qpn \<longleftrightarrow> qpn < 0 \<or> qpn \<ge> sint (num_qp ctx)"

definition rdma_modify_qp :: "RDMAContext \<Rightarrow> int \<Rightarrow> RDMAQPState \<Rightarrow> int \<times> RDMAContext" where
  "rdma_modify_qp ctx qpn new_state =
     (if bad_qpn ctx qpn then (-1, ctx)
      else (0, ctx\<lparr>queue_pairs := (queue_pairs ctx)(nat qpn := (queue_pairs ctx (nat qpn))\<lparr>qp_state := new_state\<rparr>)\<rparr>))"

text \<open>The three statements that append to the completion queue.\<close>

definition cq_append :: "RDMACompletionQueue \<Rightarrow> u32 \<Rightarrow> RDMACompletionQueue" where
  "cq_append cq v = cq\<lparr>cq_entries := (cq_entries cq)(unat (cq_tail cq) := v),
     cq_tail := (cq_tail cq + 1) mod RDMA_CQ_DEPTH, cq_count := cq_count cq + 1\<rparr>"

definition rdma_post_send :: "RDMAContext \<Rightarrow> int \<Rightarrow> RDMAWQE option \<Rightarrow> int \<times> RDMAContext" where
  "rdma_post_send ctx qpn wqe0 =
     (if bad_qpn ctx qpn then (-1, ctx)
      else case wqe0 of
             None \<Rightarrow> (-1, ctx)
           | Some wqe \<Rightarrow>
               let qp = queue_pairs ctx (nat qpn)
               in if qp_state qp \<noteq> RDMA_QP_RTS then (-1, ctx)
                  else if cq_count (rd_cq ctx) \<ge> RDMA_CQ_DEPTH then (-1, ctx)
                  else let result = (if wqe_opcode wqe = RDMA_OP_WRITE then wqe_length wqe else 1)
                       in (0, ctx\<lparr>rd_cq := cq_append (rd_cq ctx) result\<rparr>))"

text \<open>The result is the return code, the entry if there is one, and the new state.\<close>

definition rdma_poll_cq :: "RDMAContext \<Rightarrow> int \<times> u32 option \<times> RDMAContext" where
  "rdma_poll_cq ctx =
     (let cq = rd_cq ctx
      in if cq_count cq = 0 then (-1, None, ctx)
         else (0, Some (cq_entries cq (unat (cq_head cq))),
               ctx\<lparr>rd_cq := cq\<lparr>cq_head := (cq_head cq + 1) mod RDMA_CQ_DEPTH, cq_count := cq_count cq - 1\<rparr>\<rparr>))"

definition rdma_remote_write ::
  "RDMAContext \<Rightarrow> int \<Rightarrow> bytes option \<Rightarrow> bytes option \<Rightarrow> int \<Rightarrow> (int \<times> bytes option \<times> RDMAContext) option" where
  "rdma_remote_write ctx qpn remote local len =
     (if bad_qpn ctx qpn then Some (-1, remote, ctx)
      else case (remote, local) of
             (Some r, Some l) \<Rightarrow>
               (if len \<le> 0 then Some (-1, remote, ctx)
                else if qp_state (queue_pairs ctx (nat qpn)) \<noteq> RDMA_QP_RTS then Some (-1, remote, ctx)
                else if length r < nat len \<or> length l < nat len then None
                else Some (len, Some (take (nat len) l @ drop (nat len) r),
                       if cq_count (rd_cq ctx) < RDMA_CQ_DEPTH
                       then ctx\<lparr>rd_cq := cq_append (rd_cq ctx) (word_of_int len)\<rparr> else ctx))
           | _ \<Rightarrow> Some (-1, remote, ctx))"

section \<open>The completion queue\<close>

definition cq_ok :: "RDMACompletionQueue \<Rightarrow> bool" where
  "cq_ok cq \<longleftrightarrow> unat (cq_head cq) < 256 \<and> unat (cq_count cq) \<le> 256 \<and>
     unat (cq_tail cq) = (unat (cq_head cq) + unat (cq_count cq)) mod 256"

definition cq_list :: "RDMACompletionQueue \<Rightarrow> u32 list" where
  "cq_list cq = ring_list (cq_entries cq) 256 (unat (cq_head cq)) (unat (cq_count cq))"

definition cq_push :: "RDMACompletionQueue \<Rightarrow> u32 \<Rightarrow> RDMACompletionQueue option" where
  "cq_push cq v = (if cq_count cq \<ge> RDMA_CQ_DEPTH then None else Some (cq_append cq v))"

lemma cq_next: "unat i < 256 \<Longrightarrow> unat ((i + 1) mod RDMA_CQ_DEPTH) = Suc (unat i) mod 256"
  using unat_add_lem [of i 1] by (simp add: unat_mod RDMA_CQ_DEPTH_def)

lemma cq_full_iff: "cq_count cq \<ge> RDMA_CQ_DEPTH \<longleftrightarrow> 256 \<le> unat (cq_count cq)"
  by (simp add: RDMA_CQ_DEPTH_def word_le_nat_alt)

lemma cq_append_list:
  assumes ok: "cq_ok cq" and n: "unat (cq_count cq) < 256"
  shows "cq_ok (cq_append cq v) \<and> cq_list (cq_append cq v) = cq_list cq @ [v]"
proof -
  have h: "unat (cq_head cq) < 256" "unat (cq_tail cq) = (unat (cq_head cq) + unat (cq_count cq)) mod 256"
    "unat (cq_tail cq) < 256" using ok by (simp_all add: cq_ok_def)
  have c: "unat (cq_count cq + 1) = Suc (unat (cq_count cq))" using n unat_add_lem [of "cq_count cq" 1] by simp
  have "cq_list (cq_append cq v) = cq_list cq @ [v]"
    using ring_list_push [OF n, of "cq_entries cq" "unat (cq_head cq)" v] by (simp add: cq_list_def cq_append_def c h(2))
  then show ?thesis using h n by (simp add: cq_ok_def cq_append_def c cq_next mod_simps)
qed

interpretation cq: bounded_queue cq_ok cq_list "\<lambda>_. 256" cq_push
proof unfold_locales
  fix q q' :: RDMACompletionQueue and v
  assume ok: "cq_ok q"
  show "(cq_push q v = None) \<longleftrightarrow> 256 \<le> length (cq_list q)" by (simp add: cq_push_def cq_full_iff cq_list_def)
  assume "cq_push q v = Some q'"
  then have "unat (cq_count q) < 256" "q' = cq_append q v" by (auto simp: cq_push_def cq_full_iff split: if_splits)
  with cq_append_list [OF ok] show "cq_list q' = cq_list q @ [v] \<and> cq_ok q' \<and> (256 :: nat) = 256" by simp
qed

lemma rdma_poll_result:
  assumes "cq_ok (rd_cq ctx)"
  shows "case cq_list (rd_cq ctx) of [] \<Rightarrow> rdma_poll_cq ctx = (-1, None, ctx)
    | v # vs \<Rightarrow> \<exists>cq'. rdma_poll_cq ctx = (0, Some v, ctx\<lparr>rd_cq := cq'\<rparr>) \<and> cq_ok cq' \<and> cq_list cq' = vs"
proof (cases "unat (cq_count (rd_cq ctx))")
  case 0
  then show ?thesis by (simp add: cq_list_def rdma_poll_cq_def unat_eq_0)
next
  case (Suc n)
  let ?cq = "rd_cq ctx"
  let ?q = "?cq\<lparr>cq_head := (cq_head ?cq + 1) mod RDMA_CQ_DEPTH, cq_count := cq_count ?cq - 1\<rparr>"
  have nz: "cq_count ?cq \<noteq> 0" using Suc by auto
  have c: "unat (cq_count ?cq - 1) = n" using Suc nz by (simp add: unat_minus_one)
  have h: "unat (cq_head ?cq) < 256" "n < 256" using assms Suc by (simp_all add: cq_ok_def)
  have "cq_list ?cq = cq_entries ?cq (unat (cq_head ?cq)) # cq_list ?q"
    using ring_list_pop [of "Suc n" "cq_entries ?cq" 256 "unat (cq_head ?cq)"] h by (simp add: cq_list_def Suc c cq_next)
  moreover have "cq_ok ?q" using assms Suc h by (simp add: cq_ok_def c cq_next mod_simps)
  ultimately show ?thesis using nz by (simp add: rdma_poll_cq_def Let_def) blast
qed

section \<open>Reachable contexts\<close>

inductive rdma_reachable :: "RDMAContext \<Rightarrow> bool" where
  init: "rdma_reachable rdma_init"
| reg: "rdma_reachable c \<Longrightarrow> rdma_reachable (snd (rdma_reg_mr c a l))"
| create: "rdma_reachable c \<Longrightarrow> rdma_reachable (snd (rdma_create_qp c s))"
| modify: "rdma_reachable c \<Longrightarrow> rdma_reachable (snd (rdma_modify_qp c q s))"
| send: "rdma_reachable c \<Longrightarrow> rdma_reachable (snd (rdma_post_send c q w))"
| poll: "rdma_reachable c \<Longrightarrow> rdma_reachable (snd (snd (rdma_poll_cq c)))"
| remote_write: "rdma_reachable c \<Longrightarrow> rdma_remote_write c q r l n = Some (ret, r', c') \<Longrightarrow> rdma_reachable c'"

definition rdma_wf :: "RDMAContext \<Rightarrow> bool" where
  "rdma_wf c \<longleftrightarrow> num_mr c \<le> 128 \<and> num_qp c \<le> 64 \<and> cq_ok (rd_cq c) \<and>
     (\<forall>i < unat (num_mr c). mr_addr (memory_regions c i) \<noteq> 0 \<and>
        mr_lkey (memory_regions c i) = 0x1000 + of_nat i \<and> mr_rkey (memory_regions c i) = 0x2000 + of_nat i) \<and>
     (\<forall>i < unat (num_qp c). qp_qpn (queue_pairs c i) = of_nat i)"

lemma Suc_bound_u32: "n < m \<Longrightarrow> unat (n + 1) = Suc (unat n)" for n m :: u32
  using word_less_nat_alt [of n m] unat_less_u32 [of m] unat_add_lem [of n 1] by simp

lemma inc_le_u32: "n < m \<Longrightarrow> n + 1 \<le> m" for n m :: u32
  by (simp add: inc_le)

lemma rdma_wf_init: "rdma_wf rdma_init"
  by (simp add: rdma_wf_def rdma_init_def cq_ok_def)

lemma rdma_wf_reg: "rdma_wf c \<Longrightarrow> rdma_wf (snd (rdma_reg_mr c a l))"
  using Suc_bound_u32 [of "num_mr c" 128] inc_le_u32 [of "num_mr c" 128]
  by (auto simp: rdma_wf_def rdma_reg_mr_def RDMA_MAX_MR_def Let_def not_le less_Suc_eq)

lemma rdma_wf_create: "rdma_wf c \<Longrightarrow> rdma_wf (snd (rdma_create_qp c s))"
  using Suc_bound_u32 [of "num_qp c" 64] inc_le_u32 [of "num_qp c" 64]
  by (auto simp: rdma_wf_def rdma_create_qp_def RDMA_MAX_QP_def Let_def not_le less_Suc_eq)

lemma rdma_wf_modify: "rdma_wf c \<Longrightarrow> rdma_wf (snd (rdma_modify_qp c q s))"
  by (auto simp: rdma_wf_def rdma_modify_qp_def)

lemma rdma_wf_cq: "rdma_wf c \<Longrightarrow> cq_ok q \<Longrightarrow> rdma_wf (c\<lparr>rd_cq := q\<rparr>)"
  by (simp add: rdma_wf_def)

lemma rdma_wf_append: "rdma_wf c \<Longrightarrow> cq_count (rd_cq c) < RDMA_CQ_DEPTH \<Longrightarrow> rdma_wf (c\<lparr>rd_cq := cq_append (rd_cq c) v\<rparr>)"
  using cq_append_list [of "rd_cq c" v] by (simp add: rdma_wf_def RDMA_CQ_DEPTH_def word_less_nat_alt)

lemma rdma_wf_send: "rdma_wf c \<Longrightarrow> rdma_wf (snd (rdma_post_send c q w))"
  using rdma_wf_append [of c] by (auto simp: rdma_post_send_def Let_def not_le split: option.splits)

lemma rdma_wf_poll: "rdma_wf c \<Longrightarrow> rdma_wf (snd (snd (rdma_poll_cq c)))"
  using rdma_poll_result [of c] rdma_wf_cq [of c] by (fastforce simp: rdma_wf_def split: list.splits)

lemma rdma_wf_write: "rdma_wf c \<Longrightarrow> rdma_remote_write c q r l n = Some (ret, r', c') \<Longrightarrow> rdma_wf c'"
  using rdma_wf_append [of c] by (auto simp: rdma_remote_write_def split: option.splits if_splits)

lemmas rdma_wf_steps = rdma_wf_init rdma_wf_reg rdma_wf_create rdma_wf_modify rdma_wf_send rdma_wf_poll rdma_wf_write

lemma rdma_reachable_inv: "rdma_reachable c \<Longrightarrow> rdma_wf c"
  by (induction rule: rdma_reachable.induct) (auto intro: rdma_wf_steps)

section \<open>Properties\<close>

text \<open>
  In every reachable context the tables stay within their arrays, the keys of the registered regions
  are those of their indices (hence pairwise different), queue pairs carry their own number, and the
  completion queue is a ring of at most 256 entries.
\<close>

theorem rdma_reachable_wf: "rdma_reachable c \<Longrightarrow> rdma_wf c"
  by (rule rdma_reachable_inv)

theorem rdma_reachable_wf_witness: "rdma_wf (snd (rdma_create_qp (snd (rdma_reg_mr rdma_init 0x1000 64)) RDMA_QP_RTS))"
  by (intro rdma_reachable_wf rdma_reachable.intros)

fun rdma_send_all :: "RDMAContext \<Rightarrow> int \<Rightarrow> RDMAWQE list \<Rightarrow> RDMAContext" where
  "rdma_send_all c q [] = c"
| "rdma_send_all c q (w # ws) = rdma_send_all (snd (rdma_post_send c q (Some w))) q ws"

fun rdma_poll_all :: "nat \<Rightarrow> RDMAContext \<Rightarrow> u32 option list" where
  "rdma_poll_all 0 c = []"
| "rdma_poll_all (Suc n) c = (let (ret, v, c') = rdma_poll_cq c in v # rdma_poll_all n c')"

definition wqe_result :: "RDMAWQE \<Rightarrow> u32" where
  "wqe_result w = (if wqe_opcode w = RDMA_OP_WRITE then wqe_length w else 1)"

lemma rdma_send_ready:
  assumes "\<not> bad_qpn c q" and "qp_state (queue_pairs c (nat q)) = RDMA_QP_RTS"
  shows "rdma_post_send c q (Some w) =
    (case cq_push (rd_cq c) (wqe_result w) of None \<Rightarrow> (-1, c) | Some cq \<Rightarrow> (0, c\<lparr>rd_cq := cq\<rparr>))"
  using assms by (simp add: rdma_post_send_def cq_push_def wqe_result_def Let_def)

lemma rdma_send_all_cq:
  "\<not> bad_qpn c q \<Longrightarrow> qp_state (queue_pairs c (nat q)) = RDMA_QP_RTS \<Longrightarrow>
    enq_all cq_push (rd_cq c) (map wqe_result ws) = Some cq \<Longrightarrow> rdma_send_all c q ws = c\<lparr>rd_cq := cq\<rparr>"
proof (induction ws arbitrary: c)
  case (Cons w ws)
  then obtain cq1 where p: "cq_push (rd_cq c) (wqe_result w) = Some cq1" "enq_all cq_push cq1 (map wqe_result ws) = Some cq"
    by (auto split: option.splits)
  have "\<not> bad_qpn (c\<lparr>rd_cq := cq1\<rparr>) q" using Cons.prems(1) by (simp add: bad_qpn_def)
  then show ?case using Cons.IH [of "c\<lparr>rd_cq := cq1\<rparr>"] Cons.prems p rdma_send_ready [of c q w] by simp
qed simp

lemma rdma_poll_all_list: "cq_ok (rd_cq c) \<Longrightarrow> rdma_poll_all (length (cq_list (rd_cq c))) c = map Some (cq_list (rd_cq c))"
proof (induction "cq_list (rd_cq c)" arbitrary: c)
  case Nil
  then show ?case by simp
next
  case (Cons v vs)
  then obtain cq' where "rdma_poll_cq c = (0, Some v, c\<lparr>rd_cq := cq'\<rparr>)" "cq_ok cq'" "cq_list cq' = vs"
    using rdma_poll_result [of c] by (auto split: list.splits)
  then show ?case using Cons.hyps(1) [of "c\<lparr>rd_cq := cq'\<rparr>"] Cons.hyps(2) [symmetric] by simp
qed

text \<open>
  C24: Completions come in the order of the sends: on a ready queue pair a batch that fits in the 256
  entries is accepted, and polling then returns the completions that were waiting, followed by one for
  each request, the length for a write and 1 otherwise.
\<close>

theorem rdma_completions_in_order:
  assumes "rdma_reachable c" and "\<not> bad_qpn c q" and "qp_state (queue_pairs c (nat q)) = RDMA_QP_RTS"
    and "length (cq_list (rd_cq c)) + length ws \<le> 256"
  shows "rdma_poll_all (length (cq_list (rd_cq c)) + length ws) (rdma_send_all c q ws) =
    map Some (cq_list (rd_cq c) @ map wqe_result ws)"
proof -
  have ok: "cq_ok (rd_cq c)" using rdma_reachable_inv [OF assms(1)] by (simp add: rdma_wf_def)
  obtain cq where e: "enq_all cq_push (rd_cq c) (map wqe_result ws) = Some cq"
    using cq.enq_all_fits [OF ok, of "map wqe_result ws"] assms(4) by auto
  note l = cq.enq_all_content [OF ok e]
  show ?thesis using rdma_send_all_cq [OF assms(2,3) e] rdma_poll_all_list [of "c\<lparr>rd_cq := cq\<rparr>"] l by simp
qed

definition rdma_example :: RDMAContext where
  "rdma_example = snd (rdma_create_qp rdma_init RDMA_QP_RTS)"

definition write_example :: RDMAWQE where
  "write_example = \<lparr>wqe_opcode = RDMA_OP_WRITE, wqe_addr = 0, wqe_length = 64, wqe_lkey = 0, wqe_rkey = 0, wqe_data = []\<rparr>"

lemma rdma_example_ready:
  "\<not> bad_qpn rdma_example 0 \<and> qp_state (queue_pairs rdma_example (nat 0)) = RDMA_QP_RTS \<and> cq_list (rd_cq rdma_example) = []"
  by (simp add: rdma_example_def rdma_create_qp_def RDMA_MAX_QP_def rdma_init_def bad_qpn_def cq_list_def Let_def)

theorem rdma_completions_in_order_witness:
  "rdma_poll_all 2 (rdma_send_all rdma_example 0 [write_example, write_example\<lparr>wqe_opcode := RDMA_OP_SEND\<rparr>]) = [Some 64, Some 1]"
proof -
  have r: "rdma_reachable rdma_example" unfolding rdma_example_def by (intro rdma_reachable.intros)
  show ?thesis
    using rdma_completions_in_order [OF r, of 0 "[write_example, write_example\<lparr>wqe_opcode := RDMA_OP_SEND\<rparr>]"] rdma_example_ready
    by (simp add: wqe_result_def write_example_def numeral_2_eq_2)
qed

text \<open>
  A remote write on a ready queue pair stores its bytes at any address it is given: whatever memory
  regions are registered, if any, neither the address nor a key is compared with them.  When the
  completion queue is full the bytes are stored all the same and no completion is ever seen.
\<close>

theorem rdma_remote_write_unchecked:
  assumes "\<not> bad_qpn c q" and "qp_state (queue_pairs c (nat q)) = RDMA_QP_RTS"
    and "0 < len" and "nat len \<le> length r" and "nat len \<le> length l"
  shows "\<exists>c'. rdma_remote_write (c\<lparr>memory_regions := mrs, num_mr := n\<rparr>) q (Some r) (Some l) len =
      Some (len, Some (take (nat len) l @ drop (nat len) r), c') \<and>
    (cq_count (rd_cq c) \<ge> RDMA_CQ_DEPTH \<longrightarrow> rd_cq c' = rd_cq c)"
proof -
  have "\<not> bad_qpn (c\<lparr>memory_regions := mrs, num_mr := n\<rparr>) q" using assms(1) by (simp add: bad_qpn_def)
  then show ?thesis using assms by (auto simp: rdma_remote_write_def)
qed

theorem rdma_remote_write_unchecked_witness:
  "\<exists>c'. rdma_remote_write (rdma_example\<lparr>memory_regions := memory_regions rdma_example, num_mr := 0\<rparr>) 0
     (Some [1, 2, 3]) (Some [7, 8]) 2 = Some (2, Some [7, 8, 3], c')"
  using rdma_remote_write_unchecked [where c = rdma_example and q = 0 and len = 2 and r = "[1, 2, 3]" and l = "[7, 8]"
      and mrs = "memory_regions rdma_example" and n = 0] rdma_example_ready
  by auto

end
