(* ===== verification/SwitchFabric.thy ===== *)
theory SwitchFabric
  imports Prelude
begin

text \<open>
  The learning switch of \<^verbatim>\<open>mini-network-hardware/src/switch_fabric.c\<close>: ports with their address tables,
  learning, forwarding, flooding and the crossbar; the frame buffer and the scheduling policy, which no
  operation uses, are left out.  An address is the list of its six bytes; port
  numbers and table sizes are small integers.  \<open>None\<close> of the initialisation is the NULL it returns.
\<close>

section \<open>Data\<close>

definition SWITCH_MAX_PORTS :: nat where "SWITCH_MAX_PORTS = 32"
definition SWITCH_MAC_TABLE_SIZE :: nat where "SWITCH_MAC_TABLE_SIZE = 4096"

datatype SwitchPortState = PORT_DOWN | PORT_UP

record SwitchMacEntry =
  me_mac :: bytes
  me_port_id :: int
  me_valid :: bool

record SwitchPort =
  sp_port_id :: int
  sp_speed_gbps :: int
  sp_state :: SwitchPortState
  sp_mac_table :: "SwitchMacEntry arr"
  sp_mac_table_size :: nat
  sp_vlan_id :: u16
  sp_frames_rx :: u64
  sp_frames_tx :: u64
  sp_bytes_rx :: u64
  sp_bytes_tx :: u64

record SwitchFabric =
  sw_num_ports :: int
  sw_ports :: "SwitchPort arr"
  sw_crossbar_matrix :: "nat \<Rightarrow> nat \<Rightarrow> bool"

definition zero_mac_entry :: SwitchMacEntry where
  "zero_mac_entry = \<lparr>me_mac = replicate 6 0, me_port_id = 0, me_valid = False\<rparr>"

section \<open>Operations\<close>

definition switch_init :: "int \<Rightarrow> SwitchFabric option" where
  "switch_init num_ports =
     (if num_ports < 1 \<or> num_ports > int SWITCH_MAX_PORTS then None
      else Some \<lparr>sw_num_ports = num_ports,
        sw_ports = (\<lambda>_. \<lparr>sp_port_id = -1, sp_speed_gbps = 0, sp_state = PORT_DOWN, sp_mac_table = (\<lambda>_. zero_mac_entry),
           sp_mac_table_size = 0, sp_vlan_id = 0, sp_frames_rx = 0, sp_frames_tx = 0, sp_bytes_rx = 0, sp_bytes_tx = 0\<rparr>),
        sw_crossbar_matrix = (\<lambda>_ _. False)\<rparr>)"

definition switch_add_port :: "SwitchFabric \<Rightarrow> int \<Rightarrow> int \<Rightarrow> int \<times> SwitchFabric" where
  "switch_add_port sw port_id speed =
     (if port_id < 0 \<or> port_id \<ge> int SWITCH_MAX_PORTS then (-1, sw)
      else if sp_state (sw_ports sw (nat port_id)) = PORT_UP then (-1, sw)
      else (0, sw\<lparr>sw_ports := (sw_ports sw)(nat port_id := (sw_ports sw (nat port_id))
                \<lparr>sp_port_id := port_id, sp_speed_gbps := speed, sp_state := PORT_UP, sp_vlan_id := 0, sp_frames_rx := 0,
                 sp_frames_tx := 0, sp_bytes_rx := 0, sp_bytes_tx := 0, sp_mac_table_size := 0\<rparr>)\<rparr>))"

text \<open>\<open>mac_table[i].valid && memcmp (mac_table[i].mac, mac) == 0\<close>\<close>

definition entry_matches :: "SwitchPort \<Rightarrow> bytes \<Rightarrow> nat \<Rightarrow> bool" where
  "entry_matches p mac i \<longleftrightarrow> me_valid (sp_mac_table p i) \<and> me_mac (sp_mac_table p i) = mac"

definition switch_learn_mac :: "SwitchFabric \<Rightarrow> bytes \<Rightarrow> int \<Rightarrow> SwitchFabric" where
  "switch_learn_mac sw mac port =
     (if port < 0 \<or> port \<ge> sw_num_ports sw then sw
      else if sp_state (sw_ports sw (nat port)) \<noteq> PORT_UP then sw
      else
        let p = sw_ports sw (nat port)
        in case find_index (entry_matches p mac) 0 (sp_mac_table_size p) of
             Some i \<Rightarrow> sw\<lparr>sw_ports := (sw_ports sw)(nat port :=
                 p\<lparr>sp_mac_table := (sp_mac_table p)(i := (sp_mac_table p i)\<lparr>me_port_id := port\<rparr>)\<rparr>)\<rparr>
           | None \<Rightarrow>
               if sp_mac_table_size p < SWITCH_MAC_TABLE_SIZE
               then sw\<lparr>sw_ports := (sw_ports sw)(nat port :=
                   p\<lparr>sp_mac_table := (sp_mac_table p)(sp_mac_table_size p := \<lparr>me_mac = mac, me_port_id = port, me_valid = True\<rparr>),
                     sp_mac_table_size := sp_mac_table_size p + 1\<rparr>)\<rparr>
               else sw)"

text \<open>The two nested loops: the first port that is up and has an entry, and the port of the entry.\<close>

definition port_lookup :: "SwitchPort \<Rightarrow> bytes \<Rightarrow> nat option" where
  "port_lookup p mac = (if sp_state p \<noteq> PORT_UP then None else find_index (entry_matches p mac) 0 (sp_mac_table_size p))"

definition count_tx :: "SwitchPort \<Rightarrow> int \<Rightarrow> SwitchPort" where
  "count_tx p frame_len = p\<lparr>sp_frames_tx := sp_frames_tx p + 1, sp_bytes_tx := sp_bytes_tx p + word_of_int frame_len\<rparr>"

definition switch_forward :: "SwitchFabric \<Rightarrow> bytes \<Rightarrow> int \<Rightarrow> int \<times> SwitchFabric" where
  "switch_forward sw dst_mac frame_len =
     (case find_index (\<lambda>p. port_lookup (sw_ports sw p) dst_mac \<noteq> None) 0 (nat (sw_num_ports sw)) of
        None \<Rightarrow> (-1, sw)
      | Some p \<Rightarrow>
          let dst_port = me_port_id (sp_mac_table (sw_ports sw p) (the (port_lookup (sw_ports sw p) dst_mac)))
          in (dst_port, sw\<lparr>sw_ports := (sw_ports sw)(nat dst_port := count_tx (sw_ports sw (nat dst_port)) frame_len)\<rparr>))"

definition switch_crossbar_route :: "SwitchFabric \<Rightarrow> int \<Rightarrow> int \<Rightarrow> SwitchFabric" where
  "switch_crossbar_route sw src dst =
     (if src < 0 \<or> src \<ge> int SWITCH_MAX_PORTS then sw
      else if dst < 0 \<or> dst \<ge> int SWITCH_MAX_PORTS then sw
      else sw\<lparr>sw_crossbar_matrix := (sw_crossbar_matrix sw)(nat src := (sw_crossbar_matrix sw (nat src))(nat dst := True))\<rparr>)"

definition switch_crossbar_clear :: "SwitchFabric \<Rightarrow> int \<Rightarrow> SwitchFabric" where
  "switch_crossbar_clear sw src =
     (if src < 0 \<or> src \<ge> int SWITCH_MAX_PORTS then sw
      else sw\<lparr>sw_crossbar_matrix := (sw_crossbar_matrix sw)(nat src :=
             for_range 0 SWITCH_MAX_PORTS (\<lambda>i row. row(i := False)) (sw_crossbar_matrix sw (nat src)))\<rparr>)"

definition switch_flood :: "SwitchFabric \<Rightarrow> int \<Rightarrow> int \<Rightarrow> SwitchFabric" where
  "switch_flood sw src_port frame_len =
     (if src_port < 0 \<or> src_port \<ge> sw_num_ports sw then sw
      else sw\<lparr>sw_ports := for_range 0 (nat (sw_num_ports sw))
             (\<lambda>p ports. if int p = src_port then ports
                else if sp_state (ports p) = PORT_UP then ports(p := count_tx (ports p) frame_len) else ports) (sw_ports sw)\<rparr>)"

section \<open>Reachable switches\<close>

inductive switch_reachable :: "SwitchFabric \<Rightarrow> bool" where
  init: "switch_init n = Some sw \<Longrightarrow> switch_reachable sw"
| add_port: "switch_reachable sw \<Longrightarrow> switch_reachable (snd (switch_add_port sw p s))"
| learn: "switch_reachable sw \<Longrightarrow> switch_reachable (switch_learn_mac sw mac p)"
| forward: "switch_reachable sw \<Longrightarrow> switch_reachable (snd (switch_forward sw mac l))"
| flood: "switch_reachable sw \<Longrightarrow> switch_reachable (switch_flood sw p l)"
| route: "switch_reachable sw \<Longrightarrow> switch_reachable (switch_crossbar_route sw a b)"
| clear: "switch_reachable sw \<Longrightarrow> switch_reachable (switch_crossbar_clear sw a)"

text \<open>Every port's table fits, holds each address once, and its entries name the port itself.\<close>

definition port_wf :: "nat \<Rightarrow> SwitchPort \<Rightarrow> bool" where
  "port_wf n p \<longleftrightarrow> sp_mac_table_size p \<le> 4096 \<and>
     (\<forall>i < sp_mac_table_size p. me_valid (sp_mac_table p i) \<and> me_port_id (sp_mac_table p i) = int n) \<and>
     (\<forall>i < sp_mac_table_size p. \<forall>j < i. me_mac (sp_mac_table p i) \<noteq> me_mac (sp_mac_table p j))"

definition switch_wf :: "SwitchFabric \<Rightarrow> bool" where
  "switch_wf sw \<longleftrightarrow> 1 \<le> sw_num_ports sw \<and> sw_num_ports sw \<le> 32 \<and> (\<forall>n. port_wf n (sw_ports sw n))"

lemma port_wf_count [simp]: "port_wf n (count_tx p l) = port_wf n p"
  by (simp add: port_wf_def count_tx_def)

lemma switch_wf_init: "switch_init n = Some sw \<Longrightarrow> switch_wf sw"
  by (auto simp: switch_init_def switch_wf_def port_wf_def SWITCH_MAX_PORTS_def split: if_splits)

lemma switch_wf_port: "switch_wf sw \<Longrightarrow> port_wf n p \<Longrightarrow> switch_wf (sw\<lparr>sw_ports := (sw_ports sw)(n := p)\<rparr>)"
  by (simp add: switch_wf_def)

lemma switch_wf_add: "switch_wf sw \<Longrightarrow> switch_wf (snd (switch_add_port sw p s))"
  by (auto simp: switch_add_port_def intro!: switch_wf_port) (simp add: port_wf_def)

lemma switch_wf_learn: 
  assumes "switch_wf sw"
  shows "switch_wf (switch_learn_mac sw mac port)"
proof -
  let ?p = "sw_ports sw (nat port)"
  have w: "port_wf (nat port) ?p" using assms by (simp add: switch_wf_def)
  show ?thesis
  proof (cases "port < 0 \<or> port \<ge> sw_num_ports sw \<or> sp_state ?p \<noteq> PORT_UP")
    case True
    then show ?thesis using assms by (auto simp: switch_learn_mac_def)
  next
    case up: False
    show ?thesis
    proof (cases "find_index (entry_matches ?p mac) 0 (sp_mac_table_size ?p)")
      case None
      then have "\<forall>i < sp_mac_table_size ?p. me_mac (sp_mac_table ?p i) \<noteq> mac"
        using w by (auto simp: find_index_None entry_matches_def port_wf_def)
      then show ?thesis using up None w assms
        by (auto simp: switch_learn_mac_def Let_def SWITCH_MAC_TABLE_SIZE_def port_wf_def less_Suc_eq intro!: switch_wf_port)
    next
      case (Some i)
      then have "port_wf (nat port) (?p\<lparr>sp_mac_table := (sp_mac_table ?p)(i := (sp_mac_table ?p i)\<lparr>me_port_id := port\<rparr>)\<rparr>)"
        using w up by (auto simp: port_wf_def)
      then show ?thesis using up Some assms by (simp add: switch_learn_mac_def Let_def switch_wf_port)
    qed
  qed
qed

lemma switch_wf_forward: "switch_wf sw \<Longrightarrow> switch_wf (snd (switch_forward sw mac l))"
  by (auto simp: switch_forward_def Let_def switch_wf_def split: option.splits)

lemma switch_wf_flood: "switch_wf sw \<Longrightarrow> switch_wf (switch_flood sw p l)"
proof -
  assume w: "switch_wf sw"
  let ?f = "\<lambda>q ports. if int q = p then ports else if sp_state (ports q) = PORT_UP then ports(q := count_tx (ports q) l) else ports"
  have "\<forall>n. port_wf n (for_range 0 (nat (sw_num_ports sw)) ?f (sw_ports sw) n)"
    by (rule for_range_preserves [where P = "\<lambda>ports. \<forall>n. port_wf n (ports n)"]) (use w in \<open>auto simp: switch_wf_def\<close>)
  then show ?thesis using w by (simp add: switch_flood_def switch_wf_def)
qed

lemma switch_reachable_inv: "switch_reachable sw \<Longrightarrow> switch_wf sw"
  by (induction rule: switch_reachable.induct)
    (simp_all add: switch_wf_init switch_wf_add switch_wf_learn switch_wf_forward switch_wf_flood,
     simp_all add: switch_wf_def switch_crossbar_route_def switch_crossbar_clear_def)

section \<open>Forwarding\<close>

text \<open>The addresses a port that is up has learned.\<close>

definition learned :: "SwitchFabric \<Rightarrow> nat \<Rightarrow> bytes \<Rightarrow> bool" where
  "learned sw p mac \<longleftrightarrow> sp_state (sw_ports sw p) = PORT_UP \<and> (\<exists>i < sp_mac_table_size (sw_ports sw p). me_mac (sp_mac_table (sw_ports sw p) i) = mac)"

lemma port_lookup_learned:
  assumes "switch_wf sw"
  shows "port_lookup (sw_ports sw p) mac \<noteq> None \<longleftrightarrow> learned sw p mac"
proof -
  have "port_wf p (sw_ports sw p)" using assms by (simp add: switch_wf_def)
  then show ?thesis
    by (auto simp: port_lookup_def learned_def port_wf_def entry_matches_def find_index_None simp del: not_None_eq)
qed

lemma port_lookup_port:
  assumes "switch_wf sw" and "port_lookup (sw_ports sw p) mac = Some i"
  shows "me_port_id (sp_mac_table (sw_ports sw p) i) = int p"
proof -
  have "port_wf p (sw_ports sw p)" using assms(1) by (simp add: switch_wf_def)
  then show ?thesis using assms(2) by (auto simp: port_lookup_def port_wf_def find_index_Some split: if_splits)
qed

lemma switch_forward_result:
  assumes "switch_wf sw"
  shows "switch_forward sw mac l =
    (case find_index (\<lambda>p. learned sw p mac) 0 (nat (sw_num_ports sw)) of
       None \<Rightarrow> (-1, sw)
     | Some p \<Rightarrow> (int p, sw\<lparr>sw_ports := (sw_ports sw)(p := count_tx (sw_ports sw p) l)\<rparr>))"
proof (cases "find_index (\<lambda>p. learned sw p mac) 0 (nat (sw_num_ports sw))")
  case None
  then show ?thesis by (simp add: switch_forward_def port_lookup_learned [OF assms] del: not_None_eq)
next
  case (Some p)
  then have "port_lookup (sw_ports sw p) mac \<noteq> None" by (simp add: port_lookup_learned [OF assms] find_index_Some del: not_None_eq)
  then obtain i where "port_lookup (sw_ports sw p) mac = Some i" by auto
  with Some port_lookup_port [OF assms this] show ?thesis
    by (simp add: switch_forward_def port_lookup_learned [OF assms] Let_def del: not_None_eq)
qed

section \<open>Properties\<close>

text \<open>
  In every reachable switch each port's table has at most 4096 entries, holds no address twice, and
  its entries name the port that owns the table.
\<close>

theorem switch_tables_wf: "switch_reachable sw \<Longrightarrow> switch_wf sw"
  by (rule switch_reachable_inv)

definition two_port_switch :: SwitchFabric where
  "two_port_switch = snd (switch_add_port (snd (switch_add_port (the (switch_init 4)) 0 10)) 1 10)"

lemma two_port_reachable: "switch_reachable two_port_switch"
proof -
  have "switch_init 4 = Some (the (switch_init 4))" by (simp add: switch_init_def SWITCH_MAX_PORTS_def)
  then show ?thesis unfolding two_port_switch_def by (intro switch_reachable.add_port switch_reachable.init)
qed

theorem switch_tables_wf_witness: "switch_wf (switch_learn_mac two_port_switch [1,2,3,4,5,6] 1)"
  by (intro switch_tables_wf switch_reachable.learn two_port_reachable)

text \<open>
  Forwarding of a reachable switch goes to the lowest-numbered port that is up and has learned the
  address, counts the frame there and nowhere else, and fails without a change if there is none.
\<close>

theorem switch_forward_lowest:
  assumes "switch_reachable sw"
  shows "switch_forward sw mac l =
    (case find_index (\<lambda>p. learned sw p mac) 0 (nat (sw_num_ports sw)) of
       None \<Rightarrow> (-1, sw)
     | Some p \<Rightarrow> (int p, sw\<lparr>sw_ports := (sw_ports sw)(p := count_tx (sw_ports sw p) l)\<rparr>))"
  by (rule switch_forward_result [OF switch_reachable_inv [OF assms]])

theorem switch_forward_lowest_witness: "fst (switch_forward two_port_switch [1,2,3,4,5,6] 64) = -1"
proof -
  have n: "\<not> learned two_port_switch p [1,2,3,4,5,6]" for p
    by (simp add: learned_def two_port_switch_def switch_add_port_def switch_init_def SWITCH_MAX_PORTS_def)
  show ?thesis
    using switch_forward_lowest [OF two_port_reachable, of "[1,2,3,4,5,6]" 64]
    by (simp add: n find_index_None [THEN iffD2])
qed

lemma learned_after:
  assumes "switch_wf sw" and "0 \<le> port" and "port < sw_num_ports sw" and "sp_state (sw_ports sw (nat port)) = PORT_UP"
    and "sp_mac_table_size (sw_ports sw (nat port)) < 4096"
  shows "learned (switch_learn_mac sw mac port) p m \<longleftrightarrow> learned sw p m \<or> (p = nat port \<and> m = mac)"
proof (cases "find_index (entry_matches (sw_ports sw (nat port)) mac) 0 (sp_mac_table_size (sw_ports sw (nat port)))")
  case None
  then show ?thesis using assms
    by (cases "p = nat port")
      (auto simp: switch_learn_mac_def learned_def Let_def SWITCH_MAC_TABLE_SIZE_def Ex_less_Suc cong: conj_cong)
next
  case (Some i)
  then have "i < sp_mac_table_size (sw_ports sw (nat port))" "me_mac (sp_mac_table (sw_ports sw (nat port)) i) = mac"
    by (simp_all add: find_index_Some entry_matches_def)
  then show ?thesis using assms Some
    by (auto simp: switch_learn_mac_def learned_def Let_def)
qed

lemma learn_num_ports [simp]: "sw_num_ports (switch_learn_mac sw mac port) = sw_num_ports sw"
  by (auto simp: switch_learn_mac_def Let_def split: option.splits)

text \<open>
  C25: A station that moves to a higher-numbered port is lost: after its address was learned on port
  \<open>p\<close> and then on \<open>q > p\<close>, frames for it still go to a port not above \<open>p\<close>.  Learning never
  withdraws the entry of another port.
\<close>

theorem switch_move_keeps_stale_port:
  assumes "switch_reachable sw" and "0 \<le> p" and "p < q" and "q < sw_num_ports sw"
    and "sp_state (sw_ports sw (nat p)) = PORT_UP" and "sp_state (sw_ports sw (nat q)) = PORT_UP"
    and "\<forall>n. sp_mac_table_size (sw_ports sw n) < 4095"
  shows "0 \<le> fst (switch_forward (switch_learn_mac (switch_learn_mac sw mac p) mac q) mac l) \<and>
    fst (switch_forward (switch_learn_mac (switch_learn_mac sw mac p) mac q) mac l) \<le> p"
proof -
  let ?s = "switch_learn_mac sw mac p" and ?t = "switch_learn_mac (switch_learn_mac sw mac p) mac q"
  have s: "switch_wf sw" "switch_wf ?s" "switch_wf ?t"
    using assms(1) by (simp_all add: switch_wf_learn switch_reachable_inv)
  have up: "sp_state (sw_ports ?s (nat q)) = PORT_UP" "sp_mac_table_size (sw_ports ?s (nat q)) < 4096"
    using assms(1-6) spec [OF assms(7), of "nat q"] spec [OF assms(7), of "nat p"]
    by (auto simp: switch_learn_mac_def Let_def split: option.splits)
  have "learned ?s (nat p) mac" using learned_after [OF s(1) assms(2)] assms(3-5) spec [OF assms(7), of "nat p"] by simp
  then have t: "learned ?t (nat p) mac"
    using learned_after [OF s(2), of q mac "nat p" mac] assms up by simp
  have "\<exists>i \<le> nat p. find_index (\<lambda>n. learned ?t n mac) 0 (nat (sw_num_ports sw)) = Some i"
  proof (cases "find_index (\<lambda>n. learned ?t n mac) 0 (nat (sw_num_ports sw))")
    case None
    then show ?thesis using t assms by (auto simp: find_index_None)
  next
    case (Some i)
    then have "i \<le> nat p" using t by (auto simp: find_index_Some not_less [symmetric])
    then show ?thesis using Some by blast
  qed
  then show ?thesis using assms(2) by (auto simp: switch_forward_result [OF s(3)])
qed

theorem switch_move_keeps_stale_port_witness:
  "fst (switch_forward (switch_learn_mac (switch_learn_mac two_port_switch [1,2,3,4,5,6] 0) [1,2,3,4,5,6] 1) [1,2,3,4,5,6] 64) = 0"
proof -
  have "fst (switch_forward (switch_learn_mac (switch_learn_mac two_port_switch [1,2,3,4,5,6] 0) [1,2,3,4,5,6] 1) [1,2,3,4,5,6] 64) \<le> 0
    \<and> 0 \<le> fst (switch_forward (switch_learn_mac (switch_learn_mac two_port_switch [1,2,3,4,5,6] 0) [1,2,3,4,5,6] 1) [1,2,3,4,5,6] 64)"
    using switch_move_keeps_stale_port [OF two_port_reachable, of 0 1]
    by (simp add: two_port_switch_def switch_add_port_def switch_init_def SWITCH_MAX_PORTS_def)
  then show ?thesis by (simp add: order_antisym)
qed

end
