(* ===== verification/Qos.thy ===== *)
theory Qos
  imports Prelude
begin

text \<open>
  Traffic classes and packet schedulers of \<^verbatim>\<open>mini-network-hardware/src/qos.c\<close>: classification, strict
  priority, weighted and deficit round robin, and the switches of data center bridging.  The queue
  lengths are an array that the caller owns.  \<open>None\<close> is an overflow of a signed deficit.  The
  bandwidth computation is in \<open>double\<close> and left out.
\<close>

section \<open>Data\<close>

definition QOS_MAX_CLASSES :: nat where "QOS_MAX_CLASSES = 8"
definition QOS_DEFAULT_MTU :: int where "QOS_DEFAULT_MTU = 1500"

datatype QoSPriority = QOS_PCP_BK | QOS_PCP_BE | QOS_PCP_EE | QOS_PCP_CA | QOS_PCP_VI | QOS_PCP_VO | QOS_PCP_IC | QOS_PCP_NC

text \<open>The numbers of the enumeration: background traffic ranks above best effort.\<close>

primrec pcp :: "QoSPriority \<Rightarrow> nat" where
  "pcp QOS_PCP_BK = 1" | "pcp QOS_PCP_BE = 0" | "pcp QOS_PCP_EE = 2" | "pcp QOS_PCP_CA = 3"
| "pcp QOS_PCP_VI = 4" | "pcp QOS_PCP_VO = 5" | "pcp QOS_PCP_IC = 6" | "pcp QOS_PCP_NC = 7"

instantiation QoSPriority :: linorder
begin

definition less_eq_QoSPriority :: "QoSPriority \<Rightarrow> QoSPriority \<Rightarrow> bool" where
  "less_eq_QoSPriority p q \<longleftrightarrow> pcp p \<le> pcp q"

definition less_QoSPriority :: "QoSPriority \<Rightarrow> QoSPriority \<Rightarrow> bool" where
  "less_QoSPriority p q \<longleftrightarrow> pcp p < pcp q"

instance
proof
  fix p q :: QoSPriority
  assume "p \<le> q" and "q \<le> p"
  then show "p = q" by (cases p; cases q) (simp_all add: less_eq_QoSPriority_def)
qed (auto simp: less_eq_QoSPriority_def less_QoSPriority_def)

end

datatype QoSScheduling = QOS_SCHED_STRICT_PRIORITY | QOS_SCHED_WRR | QOS_SCHED_DRR | QOS_SCHED_SP_WRR | QOS_SCHED_ETS

record QoSTrafficClass =
  tc_class_id :: int
  tc_priority :: QoSPriority
  tc_dscp_values :: "u8 list"
  tc_weight :: int
  tc_quantum :: int
  tc_bytes_tx :: u64
  tc_packets_tx :: u64
  tc_bytes_dropped :: u64
  tc_packets_dropped :: u64

record ETSClassConfig =
  ets_class_id :: int
  ets_bandwidth_percent :: int
  ets_strict_priority :: bool
  ets_min_bandwidth_mbps :: int

record QoSScheduler =
  qs_discipline :: QoSScheduling
  qs_classes :: "QoSTrafficClass arr"
  qs_num_classes :: nat
  qs_default_class :: int
  qs_deficit_counters :: "int arr"
  qs_ets_configs :: "ETSClassConfig arr"
  qs_ets_enabled :: bool
  qs_total_bytes_scheduled :: u64
  qs_total_packets_scheduled :: u64

record DCBState =
  dcb_enabled :: bool
  dcb_pfc_enabled :: bool
  dcb_ets_enabled :: bool
  dcb_qcn_enabled :: bool
  dcb_pfc_priorities :: int
  dcb_ets_bandwidth_total :: int
  dcb_qcn_congestion_events :: u64

section \<open>Classes\<close>

definition qos_class_init :: "int \<Rightarrow> QoSPriority \<Rightarrow> int \<Rightarrow> QoSTrafficClass" where
  "qos_class_init class_id prio weight =
     \<lparr>tc_class_id = class_id, tc_priority = prio, tc_dscp_values = [], tc_weight = weight, tc_quantum = QOS_DEFAULT_MTU,
      tc_bytes_tx = 0, tc_packets_tx = 0, tc_bytes_dropped = 0, tc_packets_dropped = 0\<rparr>"

text \<open>\<open>num_dscp\<close> is the length of the list.\<close>

definition qos_class_add_dscp :: "QoSTrafficClass \<Rightarrow> u8 \<Rightarrow> QoSTrafficClass" where
  "qos_class_add_dscp tc dscp =
     (if length (tc_dscp_values tc) \<ge> 8 then tc
      else if dscp \<in> set (tc_dscp_values tc) then tc
      else tc\<lparr>tc_dscp_values := tc_dscp_values tc @ [dscp]\<rparr>)"

definition qos_class_match_dscp :: "QoSTrafficClass \<Rightarrow> u8 \<Rightarrow> bool" where
  "qos_class_match_dscp tc dscp \<longleftrightarrow> dscp \<in> set (tc_dscp_values tc)"

definition qos_scheduler_init :: "QoSScheduling \<Rightarrow> QoSScheduler" where
  "qos_scheduler_init discipline =
     \<lparr>qs_discipline = discipline, qs_classes = (\<lambda>_. (qos_class_init 0 QOS_PCP_BE 0)\<lparr>tc_quantum := 0\<rparr>), qs_num_classes = 0,
      qs_default_class = 0, qs_deficit_counters = (\<lambda>_. 0),
      qs_ets_configs = (\<lambda>_. \<lparr>ets_class_id = 0, ets_bandwidth_percent = 0, ets_strict_priority = False, ets_min_bandwidth_mbps = 0\<rparr>),
      qs_ets_enabled = False, qs_total_bytes_scheduled = 0, qs_total_packets_scheduled = 0\<rparr>"

definition qos_scheduler_add_class :: "QoSScheduler \<Rightarrow> QoSPriority \<Rightarrow> int \<Rightarrow> int \<Rightarrow> int \<times> QoSScheduler" where
  "qos_scheduler_add_class sched prio weight quantum =
     (if qs_num_classes sched \<ge> QOS_MAX_CLASSES then (-1, sched)
      else
        let idx = qs_num_classes sched;
            tc = (qos_class_init (int idx) prio weight)\<lparr>tc_quantum := (if quantum > 0 then quantum else QOS_DEFAULT_MTU)\<rparr>
        in (int idx, sched\<lparr>qs_classes := (qs_classes sched)(idx := tc), qs_num_classes := idx + 1\<rparr>))"

definition qos_scheduler_classify :: "QoSScheduler \<Rightarrow> u8 \<Rightarrow> int" where
  "qos_scheduler_classify sched dscp =
     (case find_index (\<lambda>i. qos_class_match_dscp (qs_classes sched i) dscp) 0 (qs_num_classes sched) of
        Some i \<Rightarrow> int i
      | None \<Rightarrow> qs_default_class sched)"

section \<open>Strict priority\<close>

text \<open>The statistics a scheduler updates when class \<open>c\<close> sends a packet of \<open>n\<close> bytes.\<close>

definition qos_sent :: "QoSScheduler \<Rightarrow> nat \<Rightarrow> int \<Rightarrow> QoSScheduler" where
  "qos_sent sched c n =
     sched\<lparr>qs_classes := (qs_classes sched)(c := (qs_classes sched c)
             \<lparr>tc_packets_tx := tc_packets_tx (qs_classes sched c) + 1,
              tc_bytes_tx := tc_bytes_tx (qs_classes sched c) + word_of_int n\<rparr>),
           qs_total_packets_scheduled := qs_total_packets_scheduled sched + 1\<rparr>"

definition sp_pick :: "QoSScheduler \<Rightarrow> int arr \<Rightarrow> nat \<Rightarrow> nat option" where
  "sp_pick sched queue_lengths pc =
     find_index (\<lambda>c. pcp (tc_priority (qs_classes sched c)) = pc \<and> queue_lengths c > 0) 0 (qs_num_classes sched)"

definition qos_schedule_sp :: "QoSScheduler \<Rightarrow> int arr \<Rightarrow> int \<times> QoSScheduler" where
  "qos_schedule_sp sched queue_lengths =
     (case List.find (\<lambda>pc. sp_pick sched queue_lengths pc \<noteq> None) (rev [0..<8]) of
        None \<Rightarrow> (-1, sched)
      | Some pc \<Rightarrow> let c = the (sp_pick sched queue_lengths pc) in (int c, qos_sent sched c (queue_lengths c)))"

section \<open>Weighted round robin\<close>

text \<open>The inner loop of one class, with its allowance; the state is the lengths, the scheduler, and the class served.\<close>

fun wrr_class :: "nat \<Rightarrow> nat \<Rightarrow> int arr \<times> QoSScheduler \<times> int \<Rightarrow> int arr \<times> QoSScheduler \<times> int" where
  "wrr_class c 0 st = st"
| "wrr_class c (Suc allowance) (q, sched, served) =
     (if q c > 0 then wrr_class c allowance (q(c := q c - 1), qos_sent sched c QOS_DEFAULT_MTU, int c)
      else (q, sched, served))"

definition qos_schedule_wrr :: "QoSScheduler \<Rightarrow> int arr \<Rightarrow> int \<Rightarrow> int \<times> int arr \<times> QoSScheduler" where
  "qos_schedule_wrr sched queue_lengths round_size =
     (if round_size \<le> 0 then (-1, queue_lengths, sched)
      else
        let (q, s, served) = for_range 0 (qs_num_classes sched)
               (\<lambda>c st. wrr_class c (nat (tc_weight (qs_classes sched c))) st) (queue_lengths, sched, -1)
        in (served, q, s))"

section \<open>Deficit round robin\<close>

definition drr_init_counters :: "QoSScheduler \<Rightarrow> QoSScheduler" where
  "drr_init_counters sched =
     sched\<lparr>qs_deficit_counters := for_range 0 QOS_MAX_CLASSES (\<lambda>i d. d(i := 0)) (qs_deficit_counters sched)\<rparr>"

text \<open>The body of the two nested loops, over the class numbers in the order they are visited.\<close>

fun drr_scan :: "QoSScheduler \<Rightarrow> int arr \<Rightarrow> nat list \<Rightarrow> (int \<times> QoSScheduler) option" where
  "drr_scan sched q [] = Some (-1, sched)"
| "drr_scan sched q (c # cs) =
     (if q c \<le> 0 then drr_scan sched q cs
      else
        let d = qs_deficit_counters sched c + tc_quantum (qs_classes sched c)
        in if d > INT_MAX then None
           else if d \<ge> q c
           then Some (int c, qos_sent (sched\<lparr>qs_deficit_counters := (qs_deficit_counters sched)(c := d - q c)\<rparr>) c (q c))
           else drr_scan (sched\<lparr>qs_deficit_counters := (qs_deficit_counters sched)(c := d)\<rparr>) q cs)"

definition drr_schedule_next :: "QoSScheduler \<Rightarrow> int arr \<Rightarrow> (int \<times> QoSScheduler) option" where
  "drr_schedule_next sched queue_lengths =
     drr_scan sched queue_lengths (concat (replicate (qs_num_classes sched) [0..<qs_num_classes sched]))"

definition qos_schedule_drr :: "QoSScheduler \<Rightarrow> int arr \<Rightarrow> (int \<times> QoSScheduler) option" where
  "qos_schedule_drr sched queue_lengths = drr_schedule_next sched queue_lengths"

section \<open>Configuration\<close>

definition ets_init_class :: "int \<Rightarrow> int \<Rightarrow> bool \<Rightarrow> ETSClassConfig" where
  "ets_init_class class_id bw_percent strict =
     \<lparr>ets_class_id = class_id, ets_bandwidth_percent = bw_percent, ets_strict_priority = strict, ets_min_bandwidth_mbps = 0\<rparr>"

definition qos_ets_configure :: "QoSScheduler \<Rightarrow> ETSClassConfig arr \<Rightarrow> int \<Rightarrow> QoSScheduler" where
  "qos_ets_configure sched configs n_configs =
     (if n_configs \<le> 0 then sched
      else sched\<lparr>qs_ets_enabled := True,
             qs_ets_configs := for_range 0 (min (nat n_configs) QOS_MAX_CLASSES) (\<lambda>i e. e(i := configs i)) (qs_ets_configs sched)\<rparr>)"

definition dcb_init :: DCBState where
  "dcb_init = \<lparr>dcb_enabled = True, dcb_pfc_enabled = False, dcb_ets_enabled = False, dcb_qcn_enabled = False,
     dcb_pfc_priorities = 0, dcb_ets_bandwidth_total = 0, dcb_qcn_congestion_events = 0\<rparr>"

definition dcb_enable_pfc :: "DCBState \<Rightarrow> int \<Rightarrow> DCBState" where
  "dcb_enable_pfc dcb priorities = dcb\<lparr>dcb_pfc_enabled := True, dcb_pfc_priorities := priorities\<rparr>"

definition dcb_enable_ets :: "DCBState \<Rightarrow> int \<Rightarrow> DCBState" where
  "dcb_enable_ets dcb total_bw_percent = dcb\<lparr>dcb_ets_enabled := True, dcb_ets_bandwidth_total := total_bw_percent\<rparr>"

definition dcb_enable_qcn :: "DCBState \<Rightarrow> DCBState" where
  "dcb_enable_qcn dcb = dcb\<lparr>dcb_qcn_enabled := True\<rparr>"

section \<open>Lemmas\<close>

lemma pcp_less_8: "pcp p < 8"
  by (cases p) simp_all

lemma sp_pick_Some: "sp_pick s q pc = Some c \<longleftrightarrow> c < qs_num_classes s \<and> pcp (tc_priority (qs_classes s c)) = pc \<and> q c > 0 \<and>
    (\<forall>d < c. \<not> (pcp (tc_priority (qs_classes s d)) = pc \<and> q d > 0))"
  by (auto simp: sp_pick_def find_index_Some)

lemma sp_pick_None: "sp_pick s q pc = None \<longleftrightarrow> (\<forall>c < qs_num_classes s. q c > 0 \<longrightarrow> pcp (tc_priority (qs_classes s c)) \<noteq> pc)"
  by (auto simp: sp_pick_def find_index_None)

lemma qos_sent_fields [simp]:
  "qs_num_classes (qos_sent s c n) = qs_num_classes s" "qs_deficit_counters (qos_sent s c n) = qs_deficit_counters s"
  "tc_priority (qs_classes (qos_sent s c n) d) = tc_priority (qs_classes s d)"
  "tc_weight (qs_classes (qos_sent s c n) d) = tc_weight (qs_classes s d)"
  "tc_quantum (qs_classes (qos_sent s c n) d) = tc_quantum (qs_classes s d)"
  "tc_packets_tx (qs_classes (qos_sent s c n) d) = tc_packets_tx (qs_classes s d) + (if d = c then 1 else 0)"
  by (simp_all add: qos_sent_def)

lemma wrr_class_result:
  assumes "wrr_class c a (q, s, served) = (q', s', served')" and "n = min (int a) (max 0 (q c))"
  shows "q' = q(c := q c - n) \<and> qs_num_classes s' = qs_num_classes s \<and>
    (\<forall>d. tc_packets_tx (qs_classes s' d) = tc_packets_tx (qs_classes s d) + (if d = c then word_of_int n else 0)) \<and>
    served' = (if n = 0 then served else int c)"
  using assms
proof (induction c a "(q, s, served)" arbitrary: q s served n rule: wrr_class.induct)
  case (2 c a q s served)
  show ?case
  proof (cases "q c > 0")
    case True
    let ?m = "min (int a) (max 0 (q c - 1))"
    have n: "n = ?m + 1" using True 2(3) by simp
    have "wrr_class c a (q(c := q c - 1), qos_sent s c QOS_DEFAULT_MTU, int c) = (q', s', served')" using 2(2) True by simp
    from 2(1) [OF True this, of ?m] show ?thesis using n by (auto simp: add.assoc add.commute)
  qed (use 2 in auto)
qed auto

definition wrr_share :: "QoSScheduler \<Rightarrow> int arr \<Rightarrow> nat \<Rightarrow> int" where
  "wrr_share s q c = min (max 0 (tc_weight (qs_classes s c))) (max 0 (q c))"

lemma wrr_round:
  assumes "for_range 0 (qs_num_classes s) (\<lambda>c st. wrr_class c (nat (tc_weight (qs_classes s c))) st) (q, s, -1) = (q', s', served)"
  shows "(\<forall>c. q' c = (if c < qs_num_classes s then q c - wrr_share s q c else q c)) \<and>
    (\<forall>c. tc_packets_tx (qs_classes s' c) = tc_packets_tx (qs_classes s c) +
       (if c < qs_num_classes s then word_of_int (wrr_share s q c) else 0))"
proof -
  let ?I = "\<lambda>i (q', s' :: QoSScheduler, served :: int). (\<forall>c. q' c = (if c < i then q c - wrr_share s q c else q c)) \<and>
    (\<forall>c. tc_packets_tx (qs_classes s' c) = tc_packets_tx (qs_classes s c) + (if c < i then word_of_int (wrr_share s q c) else 0))"
  have "?I (qs_num_classes s) (for_range 0 (qs_num_classes s) (\<lambda>c st. wrr_class c (nat (tc_weight (qs_classes s c))) st) (q, s, -1))"
  proof (rule for_range_invariant [where I = ?I])
    fix i st assume I: "?I i st"
    obtain q1 s1 v1 where st: "st = (q1, s1, v1)" by (cases st)
    obtain q2 s2 v2 where r: "wrr_class i (nat (tc_weight (qs_classes s i))) (q1, s1, v1) = (q2, s2, v2)" by (metis prod_cases3)
    have q1: "q1 i = q i" using I by (simp add: st)
    then have n: "wrr_share s q i = min (int (nat (tc_weight (qs_classes s i)))) (max 0 (q1 i))" by (simp add: wrr_share_def)
    show "?I (Suc i) (wrr_class i (nat (tc_weight (qs_classes s i))) st)"
      using wrr_class_result [OF r n] I by (auto simp: st r less_Suc_eq)
  qed simp_all
  then show ?thesis by (simp add: assms)
qed

section \<open>Properties\<close>

text \<open>
  Strict priority serves the highest priority that has something to send, the first class among
  equals, and returns -1 without a change exactly when all queues are empty.
\<close>

theorem qos_sp_serves_highest:
  "case qos_schedule_sp s q of (r, s') \<Rightarrow>
     if \<forall>c < qs_num_classes s. q c \<le> 0 then r = -1 \<and> s' = s
     else \<exists>c < qs_num_classes s. r = int c \<and> q c > 0 \<and> s' = qos_sent s c (q c) \<and>
       (\<forall>d < qs_num_classes s. q d > 0 \<longrightarrow> tc_priority (qs_classes s d) \<le> tc_priority (qs_classes s c) \<and>
          (d < c \<longrightarrow> tc_priority (qs_classes s d) < tc_priority (qs_classes s c)))"
proof (cases "List.find (\<lambda>pc. sp_pick s q pc \<noteq> None) (rev [0..<8])")
  case None
  then have "\<forall>pc < 8. sp_pick s q pc = None" by (simp add: find_rev_upt_None)
  then have "\<forall>c < qs_num_classes s. q c \<le> 0" using pcp_less_8 by (auto simp: sp_pick_None not_less [symmetric])
  then show ?thesis using None by (simp add: qos_schedule_sp_def)
next
  case (Some pc)
  then have pc: "sp_pick s q pc \<noteq> None" "\<And>j. pc < j \<Longrightarrow> j < 8 \<Longrightarrow> sp_pick s q j = None"
    by (simp_all only: find_rev_upt) auto
  then obtain c where c: "sp_pick s q pc = Some c" by blast
  note cs = c [unfolded sp_pick_Some]
  have le: "pcp (tc_priority (qs_classes s d)) \<le> pc" if "d < qs_num_classes s" "q d > 0" for d
    using pc(2) [of "pcp (tc_priority (qs_classes s d))"] pcp_less_8 that by (auto simp: sp_pick_None not_le [symmetric])
  have "pcp (tc_priority (qs_classes s d)) < pc" if "d < qs_num_classes s" "q d > 0" "d < c" for d
    using le [OF that(1,2)] cs that by (auto simp: le_less)
  then show ?thesis
    using Some c cs le by (auto simp: qos_schedule_sp_def Let_def less_eq_QoSPriority_def less_QoSPriority_def intro!: exI [of _ c])
qed

text \<open>
  One round of weighted round robin sends from each class the smaller of its weight and its queue,
  whatever the round size that is passed: each queue shrinks by that much and the packet counters grow
  by it.
\<close>

theorem qos_wrr_serves_weights:
  assumes "0 < round_size" and "qos_schedule_wrr s q round_size = (served, q', s')"
  shows "(\<forall>c. q' c = (if c < qs_num_classes s then q c - wrr_share s q c else q c)) \<and>
    (\<forall>c. tc_packets_tx (qs_classes s' c) = tc_packets_tx (qs_classes s c) +
       (if c < qs_num_classes s then word_of_int (wrr_share s q c) else 0))"
  using assms wrr_round [of s q q' s' served] by (auto simp: qos_schedule_wrr_def split: prod.splits)

definition two_classes :: QoSScheduler where
  "two_classes = snd (qos_scheduler_add_class (snd (qos_scheduler_add_class (qos_scheduler_init QOS_SCHED_DRR) QOS_PCP_BE 2 1500)) QOS_PCP_VO 1 1500)"

lemma two_classes_fields:
  "qs_num_classes two_classes = 2" "tc_quantum (qs_classes two_classes 0) = 1500" "tc_weight (qs_classes two_classes 0) = 2"
  "qs_deficit_counters two_classes = (\<lambda>_. 0)"
  by (simp_all add: two_classes_def qos_scheduler_add_class_def qos_scheduler_init_def qos_class_init_def QOS_MAX_CLASSES_def Let_def)

theorem qos_wrr_serves_weights_witness:
  "\<exists>served q' s'. qos_schedule_wrr two_classes (\<lambda>_. 5) 1 = (served, q', s') \<and> q' 0 = 3"
proof -
  obtain served q' s' where r: "qos_schedule_wrr two_classes (\<lambda>_. 5) 1 = (served, q', s')" by (metis prod_cases3)
  then have "q' 0 = 3"
    using qos_wrr_serves_weights [OF _ r] by (simp add: two_classes_fields wrr_share_def)
  then show ?thesis using r by blast
qed

theorem qos_sp_serves_highest_witness: "fst (qos_schedule_sp two_classes (\<lambda>c. if c = 0 then 3 else 0)) = 0"
proof -
  let ?q = "\<lambda>c :: nat. if c = 0 then 3 else 0 :: int"
  obtain r s' where r: "qos_schedule_sp two_classes ?q = (r, s')" by fastforce
  have "\<not> (\<forall>c < qs_num_classes two_classes. ?q c \<le> 0)" by (auto simp: two_classes_fields intro: exI [of _ 0])
  then obtain c where "r = int c" "?q c > 0"
    using qos_sp_serves_highest [of two_classes ?q] unfolding r prod.case by (simp only: if_False) blast
  then show ?thesis by (auto simp: r split: if_splits)
qed

text \<open>
  The classes that successive calls of deficit round robin serve, and the scheduler after them; each
  call sees queue lengths of its own.
\<close>

fun drr_run :: "QoSScheduler \<Rightarrow> int arr list \<Rightarrow> (int list \<times> QoSScheduler) option" where
  "drr_run s [] = Some ([], s)"
| "drr_run s (q # qs) =
     (case drr_schedule_next s q of
        None \<Rightarrow> None
      | Some (c, s') \<Rightarrow> map_option (\<lambda>(cs, t). (c # cs, t)) (drr_run s' qs))"

lemma drr_first:
  assumes "0 < qs_num_classes s" and "0 < q 0" and "q 0 \<le> qs_deficit_counters s 0 + tc_quantum (qs_classes s 0)"
    and "qs_deficit_counters s 0 + tc_quantum (qs_classes s 0) \<le> INT_MAX"
  shows "drr_schedule_next s q = Some (0, qos_sent (s\<lparr>qs_deficit_counters := (qs_deficit_counters s)
     (0 := qs_deficit_counters s 0 + tc_quantum (qs_classes s 0) - q 0)\<rparr>) 0 (q 0))"
proof -
  obtain n where n: "qs_num_classes s = Suc n" using assms(1) by (cases "qs_num_classes s") auto
  have "concat (replicate (Suc n) [0..<Suc n]) = 0 # [1..<Suc n] @ concat (replicate n [0..<Suc n])"
    by (simp add: upt_conv_Cons del: upt_Suc)
  then show ?thesis using assms by (simp add: drr_schedule_next_def n Let_def del: upt_Suc)
qed

lemma drr_first_overflow:
  assumes "0 < qs_num_classes s" and "0 < q 0" and "INT_MAX < qs_deficit_counters s 0 + tc_quantum (qs_classes s 0)"
  shows "drr_schedule_next s q = None"
proof -
  obtain n where n: "qs_num_classes s = Suc n" using assms(1) by (cases "qs_num_classes s") auto
  have "concat (replicate (Suc n) [0..<Suc n]) = 0 # [1..<Suc n] @ concat (replicate n [0..<Suc n])"
    by (simp add: upt_conv_Cons del: upt_Suc)
  then show ?thesis using assms by (simp add: drr_schedule_next_def n Let_def del: upt_Suc)
qed

lemma packets_le: "\<forall>q \<in> set qs. q 0 \<le> (Q :: int) \<Longrightarrow> sum_list (map (\<lambda>q. q 0) (butlast qs)) + Q \<le> max 1 (int (length qs)) * Q"
proof (induction qs)
  case (Cons q qs)
  then show ?case by (cases qs) (auto simp: algebra_simps)
qed simp

text \<open>
  C26: Deficit round robin as written is not fair: as long as class 0 has a packet of at most its
  quantum, every call serves class 0, however long the other classes wait, because each call starts
  again at class 0 and gives it a new quantum. Whatever the lengths in each call, n calls return n
  times class 0, raise its packet count by n and leave the others' counts alone, and the deficit of
  class 0 has grown by n quanta less the bytes sent, the other deficits as before. The calls fail
  only when that deficit, before the last packet is paid, passes the int range, where the
  behaviour of C is undefined; with packets of exactly one quantum it does not grow at all.
\<close>

theorem qos_drr_starves:
  assumes "0 < qs_num_classes s" and "\<forall>q \<in> set qs. 0 < q 0 \<and> q 0 \<le> tc_quantum (qs_classes s 0)"
    and "0 \<le> qs_deficit_counters s 0"
  shows "case drr_run s qs of
      None \<Rightarrow> INT_MAX < qs_deficit_counters s 0 + int (length qs) * tc_quantum (qs_classes s 0) -
        sum_list (map (\<lambda>q. q 0) (butlast qs))
    | Some (cs, s') \<Rightarrow> cs = replicate (length qs) 0 \<and>
        qs_deficit_counters s' = (qs_deficit_counters s)(0 := qs_deficit_counters s 0 +
          int (length qs) * tc_quantum (qs_classes s 0) - sum_list (map (\<lambda>q. q 0) qs)) \<and>
        tc_packets_tx (qs_classes s' c) = tc_packets_tx (qs_classes s c) + (if c = 0 then of_nat (length qs) else 0)"
  using assms
proof (induction qs arbitrary: s)
  case (Cons q qs)
  let ?Q = "tc_quantum (qs_classes s 0)" and ?d = "qs_deficit_counters s 0"
  let ?s = "qos_sent (s\<lparr>qs_deficit_counters := (qs_deficit_counters s)(0 := ?d + ?Q - q 0)\<rparr>) 0 (q 0)"
  have q: "0 < q 0" "q 0 \<le> ?Q" using Cons.prems(2) by simp_all
  show ?case
  proof (cases "?d + ?Q \<le> INT_MAX")
    case False
    moreover have "?d + ?Q \<le> ?d + int (length (q # qs)) * ?Q - sum_list (map (\<lambda>q. q 0) (butlast (q # qs)))"
      using packets_le [of "q # qs" ?Q] Cons.prems(2) by simp
    ultimately show ?thesis using drr_first_overflow [of s q] Cons.prems(1) q(1) by simp
  next
    case True
    have step: "drr_schedule_next s q = Some (0, ?s)" using drr_first [of s q] Cons.prems(1) True q Cons.prems(3) by simp
    have f: "qs_num_classes ?s = qs_num_classes s" "tc_quantum (qs_classes ?s 0) = ?Q"
      "qs_deficit_counters ?s = (qs_deficit_counters s)(0 := ?d + ?Q - q 0)"
      "tc_packets_tx (qs_classes ?s c) = tc_packets_tx (qs_classes s c) + (if c = 0 then 1 else 0)"
      by (simp_all add: qos_sent_def)
    note IH = Cons.IH [of ?s, unfolded f]
    show ?thesis
      using IH Cons.prems q step by (cases "drr_run ?s qs") (auto simp: algebra_simps split: if_splits)
  qed
qed simp

theorem qos_drr_starves_witness:
  "\<exists>s'. drr_run two_classes [\<lambda>_. 1000, \<lambda>_. 700, \<lambda>_. 1500] = Some ([0, 0, 0], s') \<and> qs_deficit_counters s' 0 = 1300"
  using qos_drr_starves [of two_classes "[\<lambda>_. 1000, \<lambda>_. 700, \<lambda>_. 1500]" 0]
  by (auto simp: two_classes_fields INT_MAX_def split: option.splits)

end
