(* ===== verification/Spec2Isabelle.thy ===== *)
theory Spec2Isabelle
  imports Alu Sequential BoolAlg Combinational BusArbiter Fsm Isa BranchPred Pipeline OooExec CacheArch Coherence VirtMem Ftl Nvme
    Ecc Aes Gcm Sha256 Drbg Rsa Tee SecureBoot
    Mac Offload NicArch Rdma SwitchFabric Qos
begin

text \<open>
  A verification library for the hardware models of this repository: small C programs that simulate
  processors, caches, memory management, storage devices, network hardware and a cryptographic
  engine.  The repository is a set of modules (\<^verbatim>\<open>mini-*\<close>), each of which is a set of C files with
  their own state; the modules do not call each other, the files of one module do.

  \<^bold>\<open>Theories and sources.\<close>
  Prelude holds the machine types, the loops (\<open>for_range\<close>, \<open>find_index\<close>, \<open>argmin_from\<close>) and the
  facts on words and arrays that the components share; Ring, Replacement and Arbitration hold the
  contracts of bounded queues, of victim choices and of fair arbiters, as locales that the components
  interpret.

  \<^item> \<^verbatim>\<open>mini-digital-circuit\<close>: Alu (\<^verbatim>\<open>alu.c\<close>), Sequential (\<^verbatim>\<open>sequential.c\<close>: flip-flops, latches,
    registers, shift registers, counters), BoolAlg (\<^verbatim>\<open>boolean_algebra.c\<close>), LogicGate and
    GateNet (\<^verbatim>\<open>logic_gate.c\<close>: gates, truth tables, expressions; networks of gates),
    Combinational (\<^verbatim>\<open>combinational.c\<close>: adders, multiplier, encoders, barrel shifter; its netlists are
    those of GateNet), BusArbiter (\<^verbatim>\<open>bus_arbiter.c\<close>), Fsm
    (\<^verbatim>\<open>fsm.c\<close>).
  \<^item> \<^verbatim>\<open>mini-cpu-arch\<close>: ByteMemory (the word accesses of the processors), Isa (\<^verbatim>\<open>isa.c\<close>,
    \<^verbatim>\<open>register_file.c\<close>), BranchPred (\<^verbatim>\<open>branch_pred.c\<close>), Pipeline (\<^verbatim>\<open>pipeline.c\<close>), OooExec
    (\<^verbatim>\<open>ooo_exec.c\<close>).  Pipeline and OooExec use the instructions, decoder and memory of Isa.
  \<^item> \<^verbatim>\<open>mini-computer-arch\<close>: CacheArch (\<^verbatim>\<open>cache.c\<close>), Coherence (\<^verbatim>\<open>coherence.c\<close>), VirtMem
    (\<^verbatim>\<open>virtual_memory.c\<close>).
  \<^item> \<^verbatim>\<open>mini-storage-hardware\<close>: Ftl (\<^verbatim>\<open>ftl.c\<close>), Nvme (\<^verbatim>\<open>nvme.c\<close>), Ecc
    (\<^verbatim>\<open>ecc.c\<close>: Hamming, BCH and Reed-Solomon codes).
  \<^item> \<^verbatim>\<open>mini-network-hardware\<close>: Mac (\<^verbatim>\<open>mac.c\<close>), Offload (\<^verbatim>\<open>offload.c\<close>, which uses the
    frame size of Mac), NicArch (\<^verbatim>\<open>nic_arch.c\<close>), Rdma (\<^verbatim>\<open>rdma.c\<close>), SwitchFabric
    (\<^verbatim>\<open>switch_fabric.c\<close>), Qos (\<^verbatim>\<open>qos.c\<close>).
  \<^item> \<^verbatim>\<open>mini-hardware-security\<close>: CryptoBytes, Aes, Gcm, Sha256, Drbg, Rsa (\<^verbatim>\<open>hw_crypto.c\<close>), Tee
    (\<^verbatim>\<open>tee_enclave.c\<close>: enclaves, on the hash, the key derivation, the generator and GCM), SecureBoot
    (\<^verbatim>\<open>secure_boot.c\<close>: boot chain, platform module, event log; it shares the derived keys of Tee).

  \<^bold>\<open>Conventions.\<close>
  A C struct is a record whose fields carry a short prefix, an enumeration a datatype, an unsigned
  integer a word of its width; signed integers are words read with \<open>sint\<close> where they wrap or are
  stored as such, and \<open>int\<close> where the code keeps them small.  An array is a function from its
  indices; the sizes of the source are definitions of the same name.  Buffers of the cryptographic
  code are lists of bytes of the given length, and an input and an output buffer are distinct.  An
  operation returns its new state and, where the source has one, its return code.  \<open>None\<close> stands for
  undefined behaviour that the source does not exclude (an access outside an array, a division by
  zero) or, where the text of a theory says so, for an error return.  Tests for NULL at the head of an
  operation, allocation failures, output with \<open>printf\<close>, and statistics in \<open>double\<close> have no
  counterpart, nor has a NULL data pointer in the middle of an operation (the optional buffers of the
  cache and coherence operations are always there); the counters of the bus arbiter do not overflow;
  the numbers that \<open>rand\<close> returns are parameters.

  \<^bold>\<open>What is shown.\<close>
  For each component: its well-formedness invariant over all reachable states (single writer of the
  coherence protocol, injective page mapping of the translation layer, cache and reorder-buffer shape),
  the refinement of its abstract view (the translation layer is a map from addresses to pages, queues are
  lists, the streaming hash is the hash of the concatenated input), the functional results of the
  operations on every branch, round trips (block cipher and its modes, memory, caches, TLB), and the
  places where the code departs from what it means to do, as theorems with concrete runs as witnesses.

  \<^bold>\<open>Bounds.\<close>
  The bounds are those of the headers: 14 rounds of AES-256, 64 bytes of hash block, 64 entries of an
  NVMe queue (63 usable), 32 reorder buffer entries, 8192 physical pages behind the 65536 that the page
  counter of the translation layer starts with, 4096 bytes of processor memory.  Recursions have proved
  termination measures; the only fuel is the number of cycles that a run theorem quantifies over.

  \<^bold>\<open>Not modelled.\<close>
  Floating-point models (performance, endurance, thermal, roofline, quantisation, attention), the
  benchmark framework \<^verbatim>\<open>lake_test_mini\<close>, the GPU and accelerator modules, and the
  elliptic-curve placeholders; the remaining integer components are listed in the manifest.
\<close>

end
